(* ===== verification/GoPrelude.thy ===== *)
theory GoPrelude
  imports Main "HOL-Library.Word" "HOL-Library.AList" "HOL-Library.Monad_Syntax"
    "HOL-Library.List_Lexorder" "HOL-Library.Signed_Division"
begin

text \<open>
  What the components share: Go's fixed-width integers, byte slices, pointers and panics, and
  generic facts on lists and association lists.

  \<^item> A Go signed integer of width \<open>w\<close> is an \<open>int\<close>; every arithmetic operation that can leave
    the range is followed by \<open>wrap w\<close>, two's complement truncation (\<open>i64\<close>, \<open>i32\<close>, \<open>i8\<close>).
    Go's \<open>int\<close> is 64 bits wide; lengths and slice indices never reach its bound.
  \<^item> Go's \<open>/\<close> and \<open>%\<close> truncate towards zero: \<open>sdiv\<close> and \<open>smod\<close>.
  \<^item> A byte is an \<open>8 word\<close>, a byte slice a list of them, an unsigned word an \<open>n word\<close>.
  \<^item> A panic is \<open>None\<close>: a function that may panic returns \<open>'a option\<close>, and \<open>do\<close> blocks sequence
    calls so that the first panic ends the caller. An \<open>error\<close> result is a value (a sum or an
    option of the component's own error type).
  \<^item> A pointer whose nil value the code distinguishes is an option, \<open>None\<close> for nil.
  \<^item> A Go map over which the code iterates is an association list with distinct keys; a map that
    is only read and written by key is a partial function.
\<close>

section \<open>Fixed-width integers\<close>

named_theorems go_int \<open>unfolding of the fixed-width integer operations\<close>

definition wrap :: "nat \<Rightarrow> int \<Rightarrow> int" where
  "wrap w x = (x + 2 ^ (w - 1)) mod 2 ^ w - 2 ^ (w - 1)"

abbreviation i64 :: "int \<Rightarrow> int" where "i64 \<equiv> wrap 64"
abbreviation i32 :: "int \<Rightarrow> int" where "i32 \<equiv> wrap 32"
abbreviation i8 :: "int \<Rightarrow> int" where "i8 \<equiv> wrap 8"

abbreviation MaxInt64 :: int where "MaxInt64 \<equiv> 9223372036854775807"
abbreviation MinInt64 :: int where "MinInt64 \<equiv> -9223372036854775808"
abbreviation MaxInt32 :: int where "MaxInt32 \<equiv> 2147483647"
abbreviation MinInt32 :: int where "MinInt32 \<equiv> -2147483648"
abbreviation MaxInt8 :: int where "MaxInt8 \<equiv> 127"
abbreviation MinInt8 :: int where "MinInt8 \<equiv> -128"
abbreviation MaxUint8 :: int where "MaxUint8 \<equiv> 255"

definition in_i64 :: "int \<Rightarrow> bool" where
  "in_i64 x \<longleftrightarrow> MinInt64 \<le> x \<and> x \<le> MaxInt64"

definition in_i32 :: "int \<Rightarrow> bool" where
  "in_i32 x \<longleftrightarrow> MinInt32 \<le> x \<and> x \<le> MaxInt32"

lemma wrap_id: "0 < w \<Longrightarrow> - (2 ^ (w - 1)) \<le> x \<Longrightarrow> x < 2 ^ (w - 1) \<Longrightarrow> wrap w x = x"
proof -
  assume w: "0 < w" and lo: "- (2 ^ (w - 1)) \<le> x" and hi: "x < 2 ^ (w - 1)"
  have "(2::int) ^ w = 2 ^ (w - 1) + 2 ^ (w - 1)"
    using w by (cases w) auto
  then have "x + 2 ^ (w - 1) < 2 ^ w" and "0 \<le> x + 2 ^ (w - 1)"
    using lo hi by auto
  then show ?thesis by (simp add: wrap_def)
qed

lemma i64_id [simp]: "in_i64 x \<Longrightarrow> i64 x = x"
  by (rule wrap_id) (auto simp: in_i64_def)

lemma i32_id [simp]: "in_i32 x \<Longrightarrow> i32 x = x"
  by (rule wrap_id) (auto simp: in_i32_def)

lemma i64_range: "in_i64 (i64 x)"
proof -
  have "(x + 2 ^ 63) mod 2 ^ 64 < (2 ^ 64 :: int)" and "0 \<le> (x + 2 ^ 63) mod (2 ^ 64 :: int)"
    by (rule pos_mod_bound, simp, rule pos_mod_sign, simp)
  then show ?thesis by (simp add: in_i64_def wrap_def)
qed

lemma i32_range: "in_i32 (i32 x)"
proof -
  have "(x + 2 ^ 31) mod 2 ^ 32 < (2 ^ 32 :: int)" and "0 \<le> (x + 2 ^ 31) mod (2 ^ 32 :: int)"
    by (rule pos_mod_bound, simp, rule pos_mod_sign, simp)
  then show ?thesis by (simp add: in_i32_def wrap_def)
qed

lemma in_i64_0 [simp]: "in_i64 0"
  by (simp add: in_i64_def)

lemma sdiv_nonneg [simp]: "0 \<le> a \<Longrightarrow> 0 \<le> b \<Longrightarrow> a sdiv b = a div (b :: int)"
  by (cases "a = 0"; cases "b = 0") (auto simp: signed_divide_int_def sgn_if)

lemma smod_nonneg [simp]: "0 \<le> a \<Longrightarrow> 0 \<le> b \<Longrightarrow> a smod b = a mod (b :: int)"
  by (cases "a = 0") (auto simp: signed_modulo_int_def sgn_if)

section \<open>Bytes\<close>

type_synonym byte = "8 word"
type_synonym bytes = "byte list"

text \<open>\<open>bytes.Compare\<close>: -1, 0 or 1, lexicographic.\<close>

fun bytes_compare :: "bytes \<Rightarrow> bytes \<Rightarrow> int" where
  "bytes_compare [] [] = 0"
| "bytes_compare [] (y # ys) = -1"
| "bytes_compare (x # xs) [] = 1"
| "bytes_compare (x # xs) (y # ys) =
     (if x < y then -1 else if y < x then 1 else bytes_compare xs ys)"

lemma bytes_compare_less: "bytes_compare a b < 0 \<longleftrightarrow> a < b"
  by (induction a b rule: bytes_compare.induct) auto

lemma bytes_compare_eq_less: "bytes_compare a b = -1 \<longleftrightarrow> a < b"
  by (induction a b rule: bytes_compare.induct) auto

lemma bytes_compare_greater: "0 < bytes_compare a b \<longleftrightarrow> b < a"
  by (induction a b rule: bytes_compare.induct) auto

lemma bytes_compare_zero: "bytes_compare a b = 0 \<longleftrightarrow> a = b"
  by (induction a b rule: bytes_compare.induct) auto

lemmas bytes_compare_order =
  bytes_compare_less bytes_compare_eq_less bytes_compare_greater bytes_compare_zero

section \<open>Indexing\<close>

text \<open>\<open>xs[i]\<close> on a slice: a panic out of range.\<close>

definition go_index :: "'a list \<Rightarrow> int \<Rightarrow> 'a option" where
  "go_index xs i = (if 0 \<le> i \<and> i < int (length xs) then Some (xs ! nat i) else None)"

lemma go_index_Some_iff:
  "go_index xs i = Some x \<longleftrightarrow> 0 \<le> i \<and> i < int (length xs) \<and> xs ! nat i = x"
  by (auto simp: go_index_def)

lemma go_index_in [simp]: "i < length xs \<Longrightarrow> go_index xs (int i) = Some (xs ! i)"
  by (simp add: go_index_def)

section \<open>Lists\<close>

lemma sum_list_update_int:
  fixes xs :: "int list"
  assumes "i < length xs"
  shows "sum_list (xs[i := v]) = sum_list xs + v - xs ! i"
  using assms by (induction xs arbitrary: i) (auto split: nat.split)

lemma sum_list_map_nth: "sum_list (map f xs) = (\<Sum>i<length xs. f (xs ! i))"
  by (simp add: sum_list_sum_nth atLeast0LessThan)

section \<open>Association lists as Go maps\<close>

lemma map_of_update_same [simp]: "map_of (AList.update k v m) k = Some v"
  by (simp add: update_conv')

lemma map_of_update_other [simp]: "k \<noteq> k' \<Longrightarrow> map_of (AList.update k v m) k' = map_of m k'"
  by (simp add: update_conv')

lemma map_of_delete_same [simp]: "map_of (AList.delete k m) k = None"
  by (simp add: delete_conv')

lemma map_of_delete_other [simp]: "k \<noteq> k' \<Longrightarrow> map_of (AList.delete k m) k' = map_of m k'"
  by (simp add: delete_conv')

lemma int_le_div_iff:
  assumes "0 < (b :: int)"
  shows "a \<le> c div b \<longleftrightarrow> a * b \<le> c"
proof
  assume "a \<le> c div b"
  then have "a * b \<le> c div b * b" using assms by (simp add: mult_right_mono)
  also have "\<dots> \<le> c" using assms pos_mod_sign [of b c] by (simp add: minus_mod_eq_div_mult [symmetric])
  finally show "a * b \<le> c" .
next
  assume "a * b \<le> c"
  then have "a * b div b \<le> c div b" using assms by (intro zdiv_mono1) auto
  with assms show "a \<le> c div b" by simp
qed

section \<open>Bits and words of the standard library\<close>

text \<open>\<open>bits.Len\<close>: the number of bits needed to write a non-negative number.\<close>

function bits_Len :: "int \<Rightarrow> nat" where
  "bits_Len n = (if n \<le> 0 then 0 else Suc (bits_Len (n div 2)))"
  by pat_completeness auto
termination
  by (relation "measure nat") auto

declare bits_Len.simps [simp del]

lemma bits_Len_bounds:
  "0 < n \<Longrightarrow> 0 < bits_Len n \<and> 2 ^ (bits_Len n - 1) \<le> n \<and> n < 2 ^ bits_Len n"
proof (induction n rule: bits_Len.induct)
  case (1 n)
  have eq: "bits_Len n = Suc (bits_Len (n div 2))"
    using 1 by (subst bits_Len.simps) simp
  show ?case
  proof (cases "n = 1")
    case True
    then show ?thesis by (simp add: eq bits_Len.simps)
  next
    case False
    then have "0 < bits_Len (n div 2)" "2 ^ (bits_Len (n div 2) - 1) \<le> n div 2"
        "n div 2 < 2 ^ bits_Len (n div 2)"
      using 1 by auto
    then show ?thesis
      unfolding eq by (cases "bits_Len (n div 2)") auto
  qed
qed

text \<open>\<open>binary.LittleEndian.PutUint64\<close>.\<close>

definition le_bytes :: "64 word \<Rightarrow> bytes" where
  "le_bytes e = map (\<lambda>k. ucast (drop_bit (8 * k) e)) [0..<8]"

text \<open>\<open>uint64(x)\<close> of a signed integer.\<close>

definition u64 :: "int \<Rightarrow> nat" where
  "u64 x = nat (x mod 2 ^ 64)"

lemma u64_id: "0 \<le> x \<Longrightarrow> x < 2 ^ 64 \<Longrightarrow> u64 x = nat x"
  by (simp add: u64_def)

lemma u64_inj:
  assumes "in_i64 x" "in_i64 y" "u64 x = u64 y"
  shows "x = y"
proof -
  have "x mod 18446744073709551616 = y mod 18446744073709551616"
    using assms(3) by (simp add: u64_def eq_nat_nat_iff)
  then obtain k where k: "x - y = 18446744073709551616 * k"
    by (auto simp: mod_eq_dvd_iff elim: dvdE)
  then have "k < 1" "-1 < k"
    using assms(1,2) unfolding in_i64_def by linarith+
  with k show ?thesis by simp
qed

end
