(* ===== verification/TmMath.thy ===== *)
theory TmMath
  imports GoPrelude
begin

text \<open>
  The package \<open>libs/math\<close>: minimum and maximum, the checked 32- and 8-bit operations of
  \<open>safemath.go\<close> and the \<open>Fraction\<close> parser of \<open>fraction.go\<close>.
\<close>

section \<open>Minimum and maximum (\<open>math.go\<close>)\<close>

definition MaxInt :: "int \<Rightarrow> int \<Rightarrow> int" where
  "MaxInt a b = (if a > b then a else b)"

definition MinInt :: "int \<Rightarrow> int \<Rightarrow> int" where
  "MinInt a b = (if a < b then a else b)"

lemma MaxInt_max [simp]: "MaxInt a b = max a b"
  by (simp add: MaxInt_def max_def)

lemma MinInt_min [simp]: "MinInt a b = min a b"
  by (simp add: MinInt_def min_def)

section \<open>Checked arithmetic (\<open>safemath.go\<close>)\<close>

datatype math_error = ErrOverflowUint8 | ErrOverflowInt8

definition SafeAddInt32 :: "int \<Rightarrow> int \<Rightarrow> int option" where
  "SafeAddInt32 a b =
     (if b > 0 \<and> a > i32 (MaxInt32 - b) then None
      else if b < 0 \<and> a < i32 (MinInt32 - b) then None
      else Some (i32 (a + b)))"

definition SafeSubInt32 :: "int \<Rightarrow> int \<Rightarrow> int option" where
  "SafeSubInt32 a b =
     (if b > 0 \<and> a < i32 (MinInt32 + b) then None
      else if b < 0 \<and> a > i32 (MaxInt32 + b) then None
      else Some (i32 (a - b)))"

definition SafeConvertInt32 :: "int \<Rightarrow> int option" where
  "SafeConvertInt32 a =
     (if a > MaxInt32 then None else if a < MinInt32 then None else Some (i32 a))"

definition SafeConvertUint8 :: "int \<Rightarrow> math_error + 8 word" where
  "SafeConvertUint8 a =
     (if a > MaxUint8 then Inl ErrOverflowUint8
      else if a < 0 then Inl ErrOverflowUint8
      else Inr (of_int a))"

definition SafeConvertInt8 :: "int \<Rightarrow> math_error + int" where
  "SafeConvertInt8 a =
     (if a > MaxInt8 then Inl ErrOverflowInt8
      else if a < MinInt8 then Inl ErrOverflowInt8
      else Inr (i8 a))"

lemma SafeAddInt32_spec:
  assumes "in_i32 a" "in_i32 b"
  shows "SafeAddInt32 a b = (if in_i32 (a + b) then Some (a + b) else None)"
proof -
  have "b > 0 \<Longrightarrow> i32 (MaxInt32 - b) = MaxInt32 - b"
    and "b < 0 \<Longrightarrow> i32 (MinInt32 - b) = MinInt32 - b"
    using assms by (auto intro!: i32_id simp: in_i32_def)
  then show ?thesis
    using assms by (auto simp: SafeAddInt32_def in_i32_def)
qed

lemma SafeSubInt32_spec:
  assumes "in_i32 a" "in_i32 b"
  shows "SafeSubInt32 a b = (if in_i32 (a - b) then Some (a - b) else None)"
proof -
  have "b > 0 \<Longrightarrow> i32 (MinInt32 + b) = MinInt32 + b"
    and "b < 0 \<Longrightarrow> i32 (MaxInt32 + b) = MaxInt32 + b"
    using assms by (auto intro!: i32_id simp: in_i32_def)
  then show ?thesis
    using assms by (auto simp: SafeSubInt32_def in_i32_def)
qed

lemma SafeConvertInt32_spec:
  "SafeConvertInt32 a = (if in_i32 a then Some a else None)"
  by (auto simp: SafeConvertInt32_def in_i32_def)

lemma SafeConvertUint8_spec:
  "SafeConvertUint8 a = Inr u \<longleftrightarrow> 0 \<le> a \<and> a \<le> MaxUint8 \<and> uint u = a"
proof -
  have "0 \<le> a \<Longrightarrow> a \<le> MaxUint8 \<Longrightarrow> uint (of_int a :: 8 word) = a"
    by (simp add: word_of_int_inverse)
  then show ?thesis
    by (auto simp: SafeConvertUint8_def)
qed

section \<open>Fractions (\<open>fraction.go\<close>)\<close>

record fraction =
  Numerator :: "64 word"
  Denominator :: "64 word"

datatype fraction_error =
    ErrFractionFormat        \<comment> \<open>not exactly one slash\<close>
  | ErrFractionNumber        \<comment> \<open>\<open>strconv.ParseUint\<close> failed\<close>
  | ErrFractionZero          \<comment> \<open>zero denominator\<close>
  | ErrFractionOverflow      \<comment> \<open>above the signed maximum\<close>

text \<open>\<open>strings.Split(s, sep)\<close> for a one-character separator: always at least one part.\<close>

fun split_on :: "char \<Rightarrow> string \<Rightarrow> string list" where
  "split_on c [] = [[]]"
| "split_on c (x # xs) =
     (if x = c then [] # split_on c xs
      else (case split_on c xs of [] \<Rightarrow> [[x]] | p # ps \<Rightarrow> (x # p) # ps))"

definition digit_val :: "char \<Rightarrow> nat option" where
  "digit_val c = (if 48 \<le> (of_char c :: nat) \<and> (of_char c :: nat) \<le> 57
     then Some (of_char c - 48) else None)"

fun parse_digits :: "nat \<Rightarrow> string \<Rightarrow> nat option" where
  "parse_digits n [] = Some n"
| "parse_digits n (c # cs) =
     (case digit_val c of None \<Rightarrow> None | Some d \<Rightarrow> parse_digits (10 * n + d) cs)"

text \<open>
  \<open>strconv.ParseUint(s, 10, 64)\<close>: a syntax error on an empty string or a character that is not a
  digit, a range error above \<open>2 ^ 64 - 1\<close>.
\<close>

definition ParseUint64 :: "string \<Rightarrow> 64 word option" where
  "ParseUint64 s =
     (if s = [] then None
      else case parse_digits 0 s of
        None \<Rightarrow> None
      | Some n \<Rightarrow> if n < 2 ^ 64 then Some (of_nat n) else None)"

definition ParseFraction :: "string \<Rightarrow> fraction_error + fraction" where
  "ParseFraction f =
     (case split_on (CHR ''/'') f of
        [a, b] \<Rightarrow>
          (case ParseUint64 a of
             None \<Rightarrow> Inl ErrFractionNumber
           | Some numerator \<Rightarrow>
               (case ParseUint64 b of
                  None \<Rightarrow> Inl ErrFractionNumber
                | Some denominator \<Rightarrow>
                    (if denominator = 0 then Inl ErrFractionZero
                     else if uint numerator > MaxInt64 \<or> uint denominator > MaxInt64
                     then Inl ErrFractionOverflow
                     else Inr \<lparr>Numerator = numerator, Denominator = denominator\<rparr>)))
      | _ \<Rightarrow> Inl ErrFractionFormat)"

lemma ParseFraction_bounds:
  assumes "ParseFraction s = Inr fr"
  shows "0 < uint (Denominator fr) \<and> uint (Denominator fr) \<le> MaxInt64
    \<and> uint (Numerator fr) \<le> MaxInt64"
proof -
  have "w \<noteq> 0 \<Longrightarrow> 0 < uint w" for w :: "64 word"
    by (simp add: word_neq_0_conv word_less_def)
  then show ?thesis
    using assms
    by (auto simp: ParseFraction_def split: list.splits option.splits if_splits)
qed

end
