(* ===== verification/BitArray.thy ===== *)
theory BitArray
  imports TmMath
begin

unbundle bit_operations_syntax

text \<open>
  \<open>libs/bits/bit_array.go\<close>: a bit array over 64-bit words. A \<open>*BitArray\<close> is an option, \<open>None\<close>
  for nil; the mutex is not modelled, every operation below runs under it. The abstraction of an
  array is the predicate \<open>ba_get\<close> on bit positions; the trailing bits of the last word are not part
  of it, and \<open>Not\<close> and \<open>And\<close> leave them set.
\<close>

section \<open>State\<close>

record bit_array =
  ba_bits :: int
  ba_elems :: "64 word list"

definition numElems :: "int \<Rightarrow> int" where
  "numElems bits = (bits + 63) sdiv 64"

definition NewBitArray :: "int \<Rightarrow> bit_array option" where
  "NewBitArray bits =
     (if bits \<le> 0 then None
      else Some \<lparr>ba_bits = bits, ba_elems = replicate (nat (numElems bits)) 0\<rparr>)"

definition ba_Size :: "bit_array option \<Rightarrow> int" where
  "ba_Size bA = (case bA of None \<Rightarrow> 0 | Some b \<Rightarrow> ba_bits b)"

section \<open>Reading and writing one bit\<close>

text \<open>
  \<open>uint64(1) << uint(k)\<close>: a negative \<open>k\<close> converts to a huge shift count, and a shift by 64 or more
  is 0.
\<close>

definition shl1 :: "int \<Rightarrow> 64 word" where
  "shl1 k = (if 0 \<le> k \<and> k < 64 then push_bit (nat k) 1 else 0)"

definition ba_getIndex :: "bit_array \<Rightarrow> int \<Rightarrow> bool option" where
  "ba_getIndex bA i =
     (if i \<ge> ba_bits bA then Some False
      else map_option (\<lambda>e. e AND shl1 (i smod 64) > 0) (go_index (ba_elems bA) (i sdiv 64)))"

definition ba_GetIndex :: "bit_array option \<Rightarrow> int \<Rightarrow> bool option" where
  "ba_GetIndex bA i = (case bA of None \<Rightarrow> Some False | Some b \<Rightarrow> ba_getIndex b i)"

definition ba_setIndex :: "bit_array \<Rightarrow> int \<Rightarrow> bool \<Rightarrow> (bit_array \<times> bool) option" where
  "ba_setIndex bA i v =
     (if i \<ge> ba_bits bA then Some (bA, False)
      else map_option
        (\<lambda>e. (bA\<lparr>ba_elems := (ba_elems bA)[nat (i sdiv 64) :=
                (if v then e OR shl1 (i smod 64) else e AND NOT (shl1 (i smod 64)))]\<rparr>, True))
        (go_index (ba_elems bA) (i sdiv 64)))"

definition ba_SetIndex :: "bit_array option \<Rightarrow> int \<Rightarrow> bool \<Rightarrow> (bit_array option \<times> bool) option" where
  "ba_SetIndex bA i v =
     (case bA of None \<Rightarrow> Some (None, False)
      | Some b \<Rightarrow> map_option (\<lambda>(b', ok). (Some b', ok)) (ba_setIndex b i v))"

section \<open>Copies and bitwise operations\<close>

definition ba_copy :: "bit_array \<Rightarrow> bit_array" where
  "ba_copy bA = \<lparr>ba_bits = ba_bits bA, ba_elems = ba_elems bA\<rparr>"

definition ba_Copy :: "bit_array option \<Rightarrow> bit_array option" where
  "ba_Copy bA = map_option ba_copy bA"

text \<open>\<open>copy(dst, src)\<close> on slices: the first \<open>min (len dst) (len src)\<close> elements.\<close>

definition go_copy :: "'a list \<Rightarrow> 'a list \<Rightarrow> 'a list" where
  "go_copy dst src = take (length dst) src @ drop (length src) dst"

definition ba_copyBits :: "bit_array \<Rightarrow> int \<Rightarrow> bit_array" where
  "ba_copyBits bA bits =
     \<lparr>ba_bits = bits, ba_elems = go_copy (replicate (nat (numElems bits)) 0) (ba_elems bA)\<rparr>"

text \<open>
  \<open>for i := 0; i < n; i++ { c[i] = f(c[i], o[i]) }\<close>: an index out of range of either slice is a
  panic.
\<close>

fun for_words :: "nat \<Rightarrow> ('a \<Rightarrow> 'a \<Rightarrow> 'a) \<Rightarrow> 'a list \<Rightarrow> 'a list \<Rightarrow> 'a list option" where
  "for_words 0 f cs os = Some cs"
| "for_words (Suc n) f (c # cs) (o' # os) = map_option ((#) (f c o')) (for_words n f cs os)"
| "for_words (Suc n) f _ _ = None"

definition ba_Or :: "bit_array option \<Rightarrow> bit_array option \<Rightarrow> bit_array option option" where
  "ba_Or bA o' =
     (case bA of
        None \<Rightarrow> Some (case o' of None \<Rightarrow> None | Some _ \<Rightarrow> ba_Copy o')
      | Some b \<Rightarrow>
          (case o' of
             None \<Rightarrow> Some (ba_Copy bA)
           | Some p \<Rightarrow>
               (let c = ba_copyBits b (MaxInt (ba_bits b) (ba_bits p));
                    smaller = MinInt (int (length (ba_elems b))) (int (length (ba_elems p)))
                in map_option (\<lambda>es. Some (c\<lparr>ba_elems := es\<rparr>))
                     (for_words (nat smaller) (OR) (ba_elems c) (ba_elems p)))))"

definition ba_and :: "bit_array \<Rightarrow> bit_array \<Rightarrow> bit_array option" where
  "ba_and bA o' =
     (let c = ba_copyBits bA (MinInt (ba_bits bA) (ba_bits o'))
      in map_option (\<lambda>es. c\<lparr>ba_elems := es\<rparr>)
           (for_words (length (ba_elems c)) (AND) (ba_elems c) (ba_elems o')))"

definition ba_And :: "bit_array option \<Rightarrow> bit_array option \<Rightarrow> bit_array option option" where
  "ba_And bA o' =
     (case (bA, o') of
        (Some b, Some p) \<Rightarrow> map_option Some (ba_and b p)
      | _ \<Rightarrow> Some None)"

definition ba_not :: "bit_array \<Rightarrow> bit_array" where
  "ba_not bA = (let c = ba_copy bA in c\<lparr>ba_elems := map NOT (ba_elems c)\<rparr>)"

definition ba_Not :: "bit_array option \<Rightarrow> bit_array option" where
  "ba_Not bA = map_option ba_not bA"

definition ba_Sub :: "bit_array option \<Rightarrow> bit_array option \<Rightarrow> bit_array option option" where
  "ba_Sub bA o' =
     (case (bA, o') of
        (Some b, Some p) \<Rightarrow>
          (let c = ba_copyBits b (ba_bits b);
               smaller = MinInt (int (length (ba_elems b))) (int (length (ba_elems p)))
           in map_option (\<lambda>es. Some (c\<lparr>ba_elems := es\<rparr>))
                (for_words (nat smaller) (\<lambda>x y. x AND NOT y) (ba_elems c) (ba_elems p)))
      | _ \<Rightarrow> Some None)"

definition ba_Update :: "bit_array option \<Rightarrow> bit_array option \<Rightarrow> bit_array option" where
  "ba_Update bA o' =
     (case (bA, o') of
        (Some b, Some p) \<Rightarrow> Some (b\<lparr>ba_elems := go_copy (ba_elems b) (ba_elems p)\<rparr>)
      | _ \<Rightarrow> bA)"

section \<open>Queries over the whole array\<close>

definition ba_IsEmpty :: "bit_array option \<Rightarrow> bool" where
  "ba_IsEmpty bA = (case bA of None \<Rightarrow> True | Some b \<Rightarrow> list_all (\<lambda>e. \<not> e > 0) (ba_elems b))"

definition ba_IsFull :: "bit_array option \<Rightarrow> bool option" where
  "ba_IsFull bA =
     (case bA of
        None \<Rightarrow> Some True
      | Some b \<Rightarrow>
          (if ba_elems b = [] then None
           else if list_ex (\<lambda>e. NOT e \<noteq> 0) (butlast (ba_elems b)) then Some False
           else (let lastElemBits = (ba_bits b + 63) smod 64 + 1;
                     lastElem = last (ba_elems b)
                 in Some ((lastElem + 1) AND (shl1 lastElemBits - 1) = 0))))"

text \<open>The inner loops of \<open>getTrueIndices\<close>: bits \<open>j\<close> to \<open>n - 1\<close> of one word, at \<open>curBit\<close>.\<close>

function scan_word :: "64 word \<Rightarrow> int \<Rightarrow> int \<Rightarrow> int \<Rightarrow> int list" where
  "scan_word e j n curBit =
     (if j < n
      then (if e AND shl1 j > 0 then [curBit] else []) @ scan_word e (j + 1) n (curBit + 1)
      else [])"
  by pat_completeness auto
termination
  by (relation "measure (\<lambda>(e, j, n, c). nat (n - j))") auto

declare scan_word.simps [simp del]

fun scan_words :: "64 word list \<Rightarrow> int \<Rightarrow> int list" where
  "scan_words [] curBit = []"
| "scan_words (e # es) curBit =
     (if e = 0 then scan_words es (curBit + 64)
      else scan_word e 0 64 curBit @ scan_words es (curBit + 64))"

definition ba_getTrueIndices :: "bit_array \<Rightarrow> int list option" where
  "ba_getTrueIndices bA =
     (if ba_elems bA = [] then None
      else (let front = butlast (ba_elems bA);
                curBit = 64 * int (length front);
                numFinalBits = ba_bits bA - curBit
            in Some (scan_words front 0 @ scan_word (last (ba_elems bA)) 0 numFinalBits curBit)))"

text \<open>\<open>intn n\<close> is \<open>mrand.Intn(n)\<close>, a number below \<open>n\<close>.\<close>

definition ba_PickRandom :: "(int \<Rightarrow> int) \<Rightarrow> bit_array option \<Rightarrow> (int \<times> bool) option" where
  "ba_PickRandom intn bA =
     (case bA of
        None \<Rightarrow> Some (0, False)
      | Some b \<Rightarrow>
          do {
            trueIndices \<leftarrow> ba_getTrueIndices b;
            if trueIndices = [] then Some (0, False)
            else map_option (\<lambda>i. (i, True))
                   (go_index trueIndices (intn (int (length trueIndices))))
          })"

section \<open>Encodings\<close>

text \<open>\<open>copy(bytes[i*8:], elemBytes[:])\<close> for each word in turn, from word \<open>i\<close> on.\<close>

fun put_words :: "nat \<Rightarrow> 64 word list \<Rightarrow> bytes \<Rightarrow> bytes option" where
  "put_words i [] bz = Some bz"
| "put_words i (e # es) bz =
     (if 8 * i > length bz then None
      else put_words (Suc i) es (take (8 * i) bz @ go_copy (drop (8 * i) bz) (le_bytes e)))"

definition ba_Bytes :: "bit_array \<Rightarrow> bytes option" where
  "ba_Bytes bA = put_words 0 (ba_elems bA) (replicate (nat ((ba_bits bA + 7) sdiv 8)) 0)"

fun json_bits :: "bit_array \<Rightarrow> nat \<Rightarrow> nat \<Rightarrow> string option" where
  "json_bits bA i 0 = Some []"
| "json_bits bA i (Suc n) =
     do {
       b \<leftarrow> ba_getIndex bA (int i);
       rest \<leftarrow> json_bits bA (Suc i) n;
       Some ((if b then CHR ''x'' else CHR ''_'') # rest)
     }"

definition ba_MarshalJSON :: "bit_array option \<Rightarrow> string option" where
  "ba_MarshalJSON bA =
     (case bA of
        None \<Rightarrow> Some ''null''
      | Some b \<Rightarrow>
          map_option (\<lambda>bits. CHR 0x22 # bits @ [CHR 0x22]) (json_bits b 0 (nat (ba_bits b))))"

text \<open>The expression \<open>\A"([_x]*)"\z\<close>: the text between the quotes.\<close>

definition bitArrayJSONRegexp :: "string \<Rightarrow> string option" where
  "bitArrayJSONRegexp b =
     (if length b \<ge> 2 \<and> hd b = CHR 0x22 \<and> last b = CHR 0x22
         \<and> list_all (\<lambda>c. c = CHR ''_'' \<or> c = CHR ''x'') (butlast (tl b))
      then Some (butlast (tl b)) else None)"

fun set_from_json :: "string \<Rightarrow> int \<Rightarrow> bit_array option \<Rightarrow> bit_array option option" where
  "set_from_json [] i bA = Some bA"
| "set_from_json (c # cs) i bA =
     do {
       bA' \<leftarrow> (if c = CHR ''x'' then map_option fst (ba_SetIndex bA i True) else Some bA);
       set_from_json cs (i + 1) bA'
     }"

datatype bits_error = ErrBitsFormat | ErrBitsNegative | ErrBitsTooMany | ErrBitsElems

text \<open>
  \<open>UnmarshalJSON\<close> into an existing struct: the error leaves it as it was; the assignment
  \<open>*bA = *bA2\<close> dereferences \<open>bA2\<close>, which is nil for an empty bit string.
\<close>

definition ba_UnmarshalJSON :: "bit_array \<Rightarrow> string \<Rightarrow> (bits_error + bit_array) option" where
  "ba_UnmarshalJSON bA b =
     (if b = ''null'' then Some (Inr \<lparr>ba_bits = 0, ba_elems = []\<rparr>)
      else case bitArrayJSONRegexp b of
        None \<Rightarrow> Some (Inl ErrBitsFormat)
      | Some bits \<Rightarrow>
          do {
            bA2 \<leftarrow> set_from_json bits 0 (NewBitArray (int (length bits)));
            b2 \<leftarrow> bA2;
            Some (Inr b2)
          })"

text \<open>The protobuf message \<open>tmprotobits.BitArray\<close>.\<close>

record pb_bit_array =
  pb_bits :: int
  pb_elems :: "64 word list"

definition ba_ToProto :: "bit_array option \<Rightarrow> pb_bit_array option" where
  "ba_ToProto bA =
     (case bA of
        None \<Rightarrow> None
      | Some b \<Rightarrow>
          (if ba_elems b = [] \<and> ba_bits b = 0 then None
           else (let bc = ba_copy b in Some \<lparr>pb_bits = ba_bits bc, pb_elems = ba_elems bc\<rparr>)))"

definition ba_FromProto :: "bit_array \<Rightarrow> pb_bit_array option \<Rightarrow> bits_error + bit_array" where
  "ba_FromProto bA pb =
     (case pb of
        None \<Rightarrow> Inr bA
      | Some p \<Rightarrow>
          (if pb_bits p < 0 then Inl ErrBitsNegative
           else if pb_bits p > MaxInt32 then Inl ErrBitsTooMany
           else if int (length (pb_elems p)) \<noteq> numElems (pb_bits p) then Inl ErrBitsElems
           else Inr \<lparr>ba_bits = pb_bits p, ba_elems = pb_elems p\<rparr>))"

section \<open>Well-formed arrays and their bits\<close>

definition ba_wf :: "bit_array \<Rightarrow> bool" where
  "ba_wf b \<longleftrightarrow> 0 \<le> ba_bits b \<and> length (ba_elems b) = nat (numElems (ba_bits b))"

definition ba_get :: "bit_array \<Rightarrow> nat \<Rightarrow> bool" where
  "ba_get b i \<longleftrightarrow> i < nat (ba_bits b) \<and> bit (ba_elems b ! (i div 64)) (i mod 64)"

definition ba_inv :: "bit_array option \<Rightarrow> bool" where
  "ba_inv bA = (case bA of None \<Rightarrow> True | Some b \<Rightarrow> ba_wf b)"

lemma numElems_nonneg: "0 \<le> n \<Longrightarrow> nat (numElems n) = (nat n + 63) div 64"
  by (simp add: numElems_def nat_div_distrib nat_add_distrib)

lemma ba_wf_length: "ba_wf b \<Longrightarrow> length (ba_elems b) = (nat (ba_bits b) + 63) div 64"
  by (simp add: ba_wf_def numElems_nonneg)

lemma ba_wf_word: "ba_wf b \<Longrightarrow> i < nat (ba_bits b) \<Longrightarrow> i div 64 < length (ba_elems b)"
  by (simp add: ba_wf_length)

lemma shl1_bit: "bit (shl1 (int k)) j \<longleftrightarrow> k < 64 \<and> j = k"
  by (auto simp: shl1_def bit_exp_iff)

lemma word_pos_bit: "(0 :: 64 word) < w \<longleftrightarrow> (\<exists>j. bit w j)"
  by (metis bit_0_eq bit_eqI bot_apply bot_bool_def word_gt_0)

lemma test_bit_shl1: "k < 64 \<Longrightarrow> 0 < e AND shl1 (int k) \<longleftrightarrow> bit e k"
  by (auto simp: word_pos_bit bit_and_iff shl1_bit)

lemma getIndex_wf: "ba_wf b \<Longrightarrow> ba_getIndex b (int i) = Some (ba_get b i)"
proof (cases "i < nat (ba_bits b)")
  case True
  assume wf: "ba_wf b"
  have "int i div 64 = int (i div 64)" "int i mod 64 = int (i mod 64)"
    by (simp_all add: zdiv_int zmod_int)
  with True wf ba_wf_word [OF wf True] show ?thesis
    by (simp add: ba_getIndex_def ba_get_def test_bit_shl1 zless_nat_eq_int_zless not_le)
next
  case False
  then show ?thesis by (auto simp: ba_getIndex_def ba_get_def)
qed

lemma setIndex_wf:
  assumes wf: "ba_wf b" and i: "i < nat (ba_bits b)"
  shows "\<exists>b'. ba_setIndex b (int i) v = Some (b', True) \<and> ba_wf b' \<and> ba_bits b' = ba_bits b
    \<and> ba_get b' = (ba_get b)(i := v)"
proof -
  let ?k = "i mod 64" and ?q = "i div 64"
  let ?e = "ba_elems b ! ?q"
  let ?e' = "if v then ?e OR shl1 (int ?k) else ?e AND NOT (shl1 (int ?k))"
  let ?b' = "b\<lparr>ba_elems := (ba_elems b)[?q := ?e']\<rparr>"
  have idx: "int i div 64 = int ?q" "int i mod 64 = int ?k"
    by (simp_all add: zdiv_int zmod_int)
  have q: "?q < length (ba_elems b)"
    using ba_wf_word [OF wf i] .
  have set: "ba_setIndex b (int i) v = Some (?b', True)"
    using i q by (simp add: ba_setIndex_def idx zless_nat_eq_int_zless not_le)
  have bits: "bit ?e' j = (if j = ?k then v else bit ?e j)" if "j < 64" for j
    using that by (auto simp: bit_or_iff bit_and_iff bit_not_iff shl1_bit)
  have get: "ba_get ?b' = (ba_get b)(i := v)"
  proof (rule ext)
    fix j
    show "ba_get ?b' j = ((ba_get b)(i := v)) j"
    proof (cases "j div 64 = ?q")
      case True
      then have "j = i \<longleftrightarrow> j mod 64 = ?k"
        by (metis mult_div_mod_eq)
      with True q i bits [of "j mod 64"] show ?thesis
        by (auto simp: ba_get_def)
    next
      case False
      then show ?thesis by (auto simp: ba_get_def)
    qed
  qed
  have "ba_wf ?b'" "ba_bits ?b' = ba_bits b"
    using wf by (simp_all add: ba_wf_def)
  with set get show ?thesis by blast
qed

lemma setIndex_out: "ba_bits b \<le> i \<Longrightarrow> ba_setIndex b i v = Some (b, False)"
  by (simp add: ba_setIndex_def)

subsection \<open>The interface its clients use\<close>

text \<open>
  What \<open>VoteSet\<close> and \<open>PartSet\<close> rely on: an array made by \<open>new\<close> is all zero, \<open>set\<close> within the size
  never panics and changes one bit. \<open>tracks b xs\<close> says that the array has a one exactly at the
  filled positions of a slice of pointers, the relation both clients keep.
\<close>

locale bit_set =
  fixes new :: "int \<Rightarrow> 'b option"
    and get :: "'b option \<Rightarrow> int \<Rightarrow> bool option"
    and set_bit :: "'b option \<Rightarrow> int \<Rightarrow> bool \<Rightarrow> ('b option \<times> bool) option"
    and size :: "'b option \<Rightarrow> int"
    and invar :: "'b option \<Rightarrow> bool"
  assumes invar_new: "invar (new n)"
    and size_new: "0 \<le> n \<Longrightarrow> size (new n) = n"
    and get_new: "0 \<le> i \<Longrightarrow> get (new n) i = Some False"
    and set_get: "invar b \<Longrightarrow> 0 \<le> i \<Longrightarrow> i < size b \<Longrightarrow>
      \<exists>b'. set_bit b i v = Some (b', True) \<and> invar b' \<and> size b' = size b
        \<and> (\<forall>j\<ge>0. get b' j = (if j = i then Some v else get b j))"
begin

definition tracks :: "'b option \<Rightarrow> 'x option list \<Rightarrow> bool" where
  "tracks b xs \<longleftrightarrow> invar b \<and> size b = int (length xs)
    \<and> (\<forall>i<length xs. get b (int i) = Some (xs ! i \<noteq> None))"

lemma tracks_new: "tracks (new (int n)) (replicate n None)"
  by (simp add: tracks_def invar_new size_new get_new)

lemma tracks_set:
  assumes "tracks b xs" and "i < length xs"
  shows "\<exists>b'. set_bit b (int i) True = Some (b', True) \<and> tracks b' (xs[i := Some v])"
proof -
  from assms have "invar b" "0 \<le> int i" "int i < size b"
    by (auto simp: tracks_def)
  from set_get [OF this, of True] obtain b' where
    b': "set_bit b (int i) True = Some (b', True)" "invar b'" "size b' = size b"
      "\<forall>j\<ge>0. get b' j = (if j = int i then Some True else get b j)"
    by blast
  with assms have "tracks b' (xs[i := Some v])"
    by (auto simp: tracks_def nth_list_update)
  with b' show ?thesis by blast
qed

lemma tracks_overwrite:
  "tracks b xs \<Longrightarrow> i < length xs \<Longrightarrow> xs ! i \<noteq> None \<Longrightarrow> tracks b (xs[i := Some v])"
  by (auto simp: tracks_def nth_list_update)

end

interpretation ba: bit_set NewBitArray ba_GetIndex ba_SetIndex ba_Size ba_inv
proof (unfold_locales, goal_cases)
  case (1 n)
  then show ?case
    by (auto simp: NewBitArray_def ba_inv_def ba_wf_def)
next
  case (2 n)
  then show ?case by (auto simp: NewBitArray_def ba_Size_def)
next
  case (3 i n)
  have "ba_wf b \<Longrightarrow> ba_elems b = replicate k 0 \<Longrightarrow> \<not> ba_get b (nat i)" for b k
    using ba_wf_word [of b "nat i"] by (auto simp: ba_get_def)
  then have "ba_wf b \<Longrightarrow> ba_elems b = replicate k 0 \<Longrightarrow> ba_getIndex b i = Some False" for b k
    using getIndex_wf [of b "nat i"] 3 by simp
  then show ?case
    by (auto simp: NewBitArray_def ba_GetIndex_def ba_wf_def split: option.split)
next
  case (4 bA i v)
  then obtain b where b: "bA = Some b" "ba_wf b" "nat i < nat (ba_bits b)"
    by (auto simp: ba_inv_def ba_Size_def split: option.splits)
  from setIndex_wf [OF b(2,3), of v] 4 obtain b' where
    b': "ba_setIndex b i v = Some (b', True)" "ba_wf b'" "ba_bits b' = ba_bits b"
      "ba_get b' = (ba_get b)(nat i := v)"
    by auto
  have "ba_getIndex b' j = (if j = i then Some v else ba_getIndex b j)" if "0 \<le> j" for j
    using getIndex_wf [OF b(2), of "nat j"] getIndex_wf [OF b'(2), of "nat j"] that 4 b'(4)
    by (auto simp: eq_nat_nat_iff)
  with b b' show ?case
    by (auto simp: ba_SetIndex_def ba_inv_def ba_Size_def ba_GetIndex_def)
qed

subsection \<open>Bitwise operations, bit by bit\<close>

lemma for_words_nth:
  "n \<le> length cs \<Longrightarrow> n \<le> length os \<Longrightarrow>
   \<exists>es. for_words n f cs os = Some es \<and> length es = length cs
     \<and> (\<forall>i<length cs. es ! i = (if i < n then f (cs ! i) (os ! i) else cs ! i))"
proof (induction n f cs os rule: for_words.induct)
  case (2 n f c cs o' os)
  then obtain es where es: "for_words n f cs os = Some es" "length es = length cs"
    "\<forall>i<length cs. es ! i = (if i < n then f (cs ! i) (os ! i) else cs ! i)"
    by auto
  then show ?case by (auto simp: nth_Cons' less_Suc_eq_0_disj)
qed auto

lemma nth_go_copy_replicate:
  "i < n \<Longrightarrow> go_copy (replicate n 0) xs ! i = (if i < length xs then xs ! i else 0)"
  by (auto simp: go_copy_def nth_append)

lemma length_go_copy [simp]: "length (go_copy dst src) = length dst"
  by (auto simp: go_copy_def)

lemma copyBits_wf: "0 \<le> n \<Longrightarrow> ba_wf (ba_copyBits b n)"
  by (simp add: ba_copyBits_def ba_wf_def)

lemma copyBits_word:
  "ba_wf b \<Longrightarrow> 0 \<le> n \<Longrightarrow> i < nat n \<Longrightarrow>
   ba_elems (ba_copyBits b n) ! (i div 64)
     = (if i div 64 < length (ba_elems b) then ba_elems b ! (i div 64) else 0)"
  by (simp add: ba_copyBits_def nth_go_copy_replicate numElems_nonneg)

text \<open>
  Each operation on two well-formed arrays returns, without a panic, a well-formed array; the
  lemmas give its size and each of its bits. For \<open>Or\<close> only the bits in words that the receiver has
  are combined: a longer argument's further words are dropped.
\<close>

lemma ba_And_bits:
  assumes "ba_wf b" "ba_wf p"
  shows "\<exists>c. ba_And (Some b) (Some p) = Some (Some c) \<and> ba_wf c
    \<and> ba_bits c = min (ba_bits b) (ba_bits p) \<and> (\<forall>i. ba_get c i \<longleftrightarrow> ba_get b i \<and> ba_get p i)"
proof -
  let ?n = "min (ba_bits b) (ba_bits p)"
  let ?c = "ba_copyBits b ?n"
  have n: "0 \<le> ?n" using assms by (simp add: ba_wf_def)
  have len: "length (ba_elems ?c) \<le> length (ba_elems p)"
    using assms n by (simp add: ba_copyBits_def ba_wf_length numElems_nonneg div_le_mono)
  obtain es where es: "for_words (length (ba_elems ?c)) (AND) (ba_elems ?c) (ba_elems p) = Some es"
    "length es = length (ba_elems ?c)"
    "\<forall>i<length (ba_elems ?c). es ! i = ba_elems ?c ! i AND ba_elems p ! i"
    using for_words_nth [OF order_refl len] by auto
  let ?r = "?c\<lparr>ba_elems := es\<rparr>"
  have wf: "ba_wf ?r" and bits: "ba_bits ?r = ?n"
    using copyBits_wf [OF n] es(2) by (auto simp: ba_wf_def ba_copyBits_def)
  have "ba_get ?r i \<longleftrightarrow> ba_get b i \<and> ba_get p i" for i
  proof (cases "i < nat ?n")
    case True
    then have "i div 64 < length (ba_elems ?r)"
      using ba_wf_word [OF wf] bits by simp
    moreover have "i div 64 < length (ba_elems b)"
      using True ba_wf_word [OF assms(1), of i] by simp
    ultimately show ?thesis
      using True es(2,3) copyBits_word [OF assms(1) n True]
      by (auto simp: ba_get_def bit_and_iff ba_copyBits_def)
  qed (auto simp: ba_get_def ba_copyBits_def)
  with es wf bits show ?thesis
    by (auto simp: ba_And_def ba_and_def Let_def)
qed

lemma ba_Sub_bits:
  assumes "ba_wf b" "ba_wf p"
  shows "\<exists>c. ba_Sub (Some b) (Some p) = Some (Some c) \<and> ba_wf c \<and> ba_bits c = ba_bits b
    \<and> (\<forall>i < nat (min (ba_bits b) (ba_bits p)). ba_get c i \<longleftrightarrow> ba_get b i \<and> \<not> ba_get p i)
    \<and> (\<forall>i. 64 * length (ba_elems p) \<le> i \<longrightarrow> ba_get c i = ba_get b i)"
proof -
  let ?n = "ba_bits b"
  let ?c = "ba_copyBits b ?n"
  let ?m = "min (length (ba_elems b)) (length (ba_elems p))"
  have n: "0 \<le> ?n" using assms by (simp add: ba_wf_def)
  have len: "?m \<le> length (ba_elems ?c)"
    using assms(1) n by (simp add: ba_copyBits_def ba_wf_length numElems_nonneg)
  obtain es where es: "for_words ?m (\<lambda>x y. x AND NOT y) (ba_elems ?c) (ba_elems p) = Some es"
    "length es = length (ba_elems ?c)"
    "\<forall>i<length (ba_elems ?c). es ! i = (if i < ?m then ba_elems ?c ! i AND NOT (ba_elems p ! i)
       else ba_elems ?c ! i)"
    using for_words_nth [OF len, of "ba_elems p" "\<lambda>x y. x AND NOT y"] by auto
  let ?r = "?c\<lparr>ba_elems := es\<rparr>"
  have wf: "ba_wf ?r" and bits: "ba_bits ?r = ?n"
    using copyBits_wf [OF n] es(2) by (auto simp: ba_wf_def ba_copyBits_def)
  have word: "ba_elems ?r ! (i div 64) = (if i div 64 < length (ba_elems p)
      then ba_elems b ! (i div 64) AND NOT (ba_elems p ! (i div 64)) else ba_elems b ! (i div 64))"
    if i: "i < nat ?n" for i
    using ba_wf_word [OF wf] ba_wf_word [OF assms(1) i] i bits es(2,3)
      copyBits_word [OF assms(1) n i] by auto
  have "ba_get ?r i \<longleftrightarrow> ba_get b i \<and> \<not> ba_get p i" if "i < nat (min (ba_bits b) (ba_bits p))" for i
    using that word [of i] ba_wf_word [OF assms(2), of i]
    by (auto simp: ba_get_def bits bit_and_iff bit_not_iff)
  moreover have "ba_get ?r i = ba_get b i" if "64 * length (ba_elems p) \<le> i" for i
    using that word [of i] by (cases "i < nat ?n") (auto simp: ba_get_def bits)
  moreover have "nat (min (int (length (ba_elems b))) (int (length (ba_elems p)))) = ?m"
    by simp
  ultimately show ?thesis
    using es wf bits by (auto simp: ba_Sub_def Let_def)
qed

lemma ba_Not_bits:
  assumes "ba_wf b"
  shows "\<exists>c. ba_Not (Some b) = Some c \<and> ba_wf c \<and> ba_bits c = ba_bits b
    \<and> (\<forall>i < nat (ba_bits b). ba_get c i \<longleftrightarrow> \<not> ba_get b i)"
proof -
  have "ba_wf (ba_not b)" "ba_bits (ba_not b) = ba_bits b"
    using assms by (simp_all add: ba_not_def ba_copy_def ba_wf_def)
  moreover have "ba_get (ba_not b) i \<longleftrightarrow> \<not> ba_get b i" if "i < nat (ba_bits b)" for i
    using that ba_wf_word [OF assms that]
    by (auto simp: ba_get_def ba_not_def ba_copy_def bit_not_iff)
  ultimately show ?thesis by (auto simp: ba_Not_def)
qed

lemma ba_Or_bits:
  assumes "ba_wf b" "ba_wf p"
  shows "\<exists>c. ba_Or (Some b) (Some p) = Some (Some c) \<and> ba_wf c
    \<and> ba_bits c = max (ba_bits b) (ba_bits p)
    \<and> (\<forall>i < nat (min (ba_bits b) (ba_bits p)). ba_get c i \<longleftrightarrow> ba_get b i \<or> ba_get p i)
    \<and> (\<forall>i. 64 * length (ba_elems b) \<le> i \<longrightarrow> \<not> ba_get c i)"
proof -
  let ?n = "max (ba_bits b) (ba_bits p)"
  let ?c = "ba_copyBits b ?n"
  let ?m = "min (length (ba_elems b)) (length (ba_elems p))"
  have n: "0 \<le> ?n" using assms by (auto simp: ba_wf_def max_def)
  have len: "?m \<le> length (ba_elems ?c)"
    using assms n
    by (cases "ba_bits b \<le> ba_bits p")
      (auto simp: ba_copyBits_def ba_wf_length numElems_nonneg max_def min_le_iff_disj div_le_mono)
  obtain es where es: "for_words ?m (OR) (ba_elems ?c) (ba_elems p) = Some es"
    "length es = length (ba_elems ?c)"
    "\<forall>i<length (ba_elems ?c). es ! i = (if i < ?m then ba_elems ?c ! i OR ba_elems p ! i
       else ba_elems ?c ! i)"
    using for_words_nth [OF len, of "ba_elems p" "(OR)"] by auto
  let ?r = "?c\<lparr>ba_elems := es\<rparr>"
  have wf: "ba_wf ?r" and bits: "ba_bits ?r = ?n"
    using copyBits_wf [OF n] es(2) by (auto simp: ba_wf_def ba_copyBits_def)
  have word: "ba_elems ?r ! (i div 64) = (if i div 64 < ?m
      then ba_elems b ! (i div 64) OR ba_elems p ! (i div 64)
      else if i div 64 < length (ba_elems b) then ba_elems b ! (i div 64) else 0)"
    if i: "i < nat ?n" for i
    using ba_wf_word [OF wf] i bits es(2,3) copyBits_word [OF assms(1) n i] by auto
  have "ba_get ?r i \<longleftrightarrow> ba_get b i \<or> ba_get p i" if "i < nat (min (ba_bits b) (ba_bits p))" for i
    using that word [of i] ba_wf_word [OF assms(1), of i] ba_wf_word [OF assms(2), of i]
    by (auto simp: ba_get_def bits bit_or_iff)
  moreover have "\<not> ba_get ?r i" if "64 * length (ba_elems b) \<le> i" for i
    using that word [of i] by (cases "i < nat ?n") (auto simp: ba_get_def bits)
  moreover have "nat (min (int (length (ba_elems b))) (int (length (ba_elems p)))) = ?m"
    by simp
  ultimately show ?thesis
    using es wf bits by (auto simp: ba_Or_def Let_def)
qed

subsection \<open>Enumerating the set bits\<close>

lemma scan_word_eq:
  assumes "0 \<le> j" "n \<le> 64"
  shows "scan_word e j n c
    = map (\<lambda>k. c + (int k - j)) (filter (bit e) [nat j..<nat n])"
  using assms
proof (induction e j n c rule: scan_word.induct)
  case (1 e j n c)
  show ?case
  proof (cases "j < n")
    case True
    then have "[nat j..<nat n] = nat j # [nat (j + 1)..<nat n]"
      using 1(2) by (simp add: upt_conv_Cons nat_add_distrib)
    moreover have "0 < e AND shl1 j \<longleftrightarrow> bit e (nat j)"
      using test_bit_shl1 [of "nat j" e] 1(2,3) True by simp
    ultimately show ?thesis
      using True 1 by (subst scan_word.simps) (simp add: algebra_simps)
  next
    case False
    then show ?thesis by (subst scan_word.simps) simp
  qed
qed

lemma upt_blocks: "[0..<64 * Suc n] = [0..<64] @ map (\<lambda>k. k + 64) [0..<64 * n]"
proof -
  have "[0..<64 * Suc n] = [0..<64] @ [64..<64 + 64 * n]"
    using upt_add_eq_append [of 0 64 "64 * n"] by simp
  also have "[64..<64 + 64 * n] = map (\<lambda>k. k + 64) [0..<64 * n]"
    by (simp only: map_add_upt add.commute)
  finally show ?thesis .
qed

lemma scan_words_eq:
  "scan_words es c
     = map (\<lambda>k. c + int k) (filter (\<lambda>k. bit (es ! (k div 64)) (k mod 64)) [0..<64 * length es])"
proof (induction es arbitrary: c)
  case (Cons e es)
  have first: "filter (\<lambda>k. bit ((e # es) ! (k div 64)) (k mod 64)) [0..<64] = filter (bit e) [0..<64]"
    by (rule filter_cong) auto
  have zero: "e = 0 \<Longrightarrow> filter (bit e) [0..<64] = []"
    by simp
  have word: "scan_word e 0 64 c = map (\<lambda>k. c + int k) (filter (bit e) [0..<64])"
    by (simp add: scan_word_eq)
  have rest: "bit ((e # es) ! ((k + 64) div 64)) ((k + 64) mod 64) = bit (es ! (k div 64)) (k mod 64)"
    for k :: nat
  proof -
    have "(k + 64) div 64 = Suc (k div 64)" by simp
    then show ?thesis by (simp only: nth_Cons_Suc mod_add_self2)
  qed
  show ?case
    using first zero word
    by (simp only: length_Cons upt_blocks filter_append map_append filter_map comp_def rest
        scan_words.simps Cons) (simp add: comp_def add.assoc add.left_commute)
qed simp

lemma getTrueIndices_eq:
  assumes wf: "ba_wf b" and pos: "0 < ba_bits b"
  shows "ba_getTrueIndices b = Some (map int (filter (ba_get b) [0..<nat (ba_bits b)]))"
proof -
  let ?es = "ba_elems b" and ?n = "nat (ba_bits b)"
  let ?m = "64 * length (butlast ?es)"
  have len: "length ?es = (?n + 63) div 64" "0 < length ?es"
    using ba_wf_length [OF wf] pos by auto
  then have bounds: "?m < ?n" "?n \<le> ?m + 64"
    by auto
  have split: "[0..<?n] = [0..<?m] @ map (\<lambda>k. k + ?m) [0..<?n - ?m]"
    using bounds upt_add_eq_append [of 0 ?m "?n - ?m"] by (simp add: map_add_upt)
  have front: "filter (ba_get b) [0..<?m]
      = filter (\<lambda>k. bit (butlast ?es ! (k div 64)) (k mod 64)) [0..<?m]"
    using bounds by (intro filter_cong) (auto simp: ba_get_def nth_butlast)
  have lst: "last ?es = ?es ! (?m div 64)"
    using len(2) by (simp add: last_conv_nth)
  have "filter (ba_get b \<circ> (\<lambda>k. k + ?m)) [0..<?n - ?m] = filter (bit (last ?es)) [0..<?n - ?m]"
  proof (rule filter_cong)
    fix x assume x: "x \<in> set [0..<?n - ?m]"
    then have "x < 64" "x + ?m < ?n" using bounds by auto
    then have "(x + ?m) div 64 = ?m div 64" "(x + ?m) mod 64 = x" by auto
    with \<open>x + ?m < ?n\<close> lst show "(ba_get b \<circ> (\<lambda>k. k + ?m)) x = bit (last ?es) x"
      by (simp add: ba_get_def)
  qed simp
  then have tail: "map int (filter (ba_get b) (map (\<lambda>k. k + ?m) [0..<?n - ?m]))
      = scan_word (last ?es) 0 (ba_bits b - int ?m) (int ?m)"
    using bounds pos by (simp add: filter_map scan_word_eq comp_def nat_diff_distrib nat_mult_distrib add.commute)
  have "scan_words (butlast ?es) 0 = map int (filter (ba_get b) [0..<?m])"
    unfolding front scan_words_eq by simp
  with tail len(2) show ?thesis
    unfolding split ba_getTrueIndices_def Let_def by (simp del: length_butlast)
qed

subsection \<open>Full arrays\<close>

lemma mask_shl1: "1 \<le> L \<Longrightarrow> L \<le> 64 \<Longrightarrow> shl1 (int L) - 1 = mask L"
  by (auto simp: shl1_def mask_eq_decr_exp)

lemma succ_and_mask:
  fixes x :: "64 word"
  assumes "1 \<le> L" "L \<le> 64"
  shows "(x + 1) AND mask L = 0 \<longleftrightarrow> (\<forall>i<L. bit x i)"
proof -
  have "(x + 1) AND mask L = 0 \<longleftrightarrow> uint (take_bit L (x + 1)) = 0"
    by (simp add: take_bit_eq_mask uint_0_iff)
  also have "uint (take_bit L (x + 1)) = take_bit L (uint x + 1)"
  proof -
    have "uint (x + 1) = take_bit 64 (uint x + 1)"
      unfolding uint_word_ariths(1) by (simp add: take_bit_eq_mod)
    then show ?thesis
      using assms unfolding unsigned_take_bit_eq by (simp only: take_bit_take_bit min_absorb2 min_absorb1)
  qed
  also have "take_bit L (uint x + 1) = 0 \<longleftrightarrow> take_bit L (uint x) = take_bit L (- 1)"
    unfolding take_bit_eq_mod mod_eq_dvd_iff by (simp add: mod_eq_0_iff_dvd)
  also have "\<dots> \<longleftrightarrow> (\<forall>i<L. bit (uint x) i)"
  proof -
    have "take_bit L (uint x) = take_bit L (- 1)
        \<longleftrightarrow> (\<forall>i. i < L \<and> bit (uint x) i \<longleftrightarrow> i < L \<and> bit (- 1 :: int) i)"
      unfolding bit_eq_iff [of "take_bit L (uint x)"] bit_take_bit_iff by simp
    then show ?thesis by (simp only: bit_minus_1_iff) auto
  qed
  finally show ?thesis using assms by (auto simp: bit_uint_iff)
qed

lemma nat_div_mod_63: "0 < (n::nat) \<Longrightarrow> Suc ((n + 63) mod 64) = n - 64 * ((n + 63) div 64 - Suc 0)"
  using div_mult_mod_eq [of "n + 63" 64] mod_less_divisor [of 64 "n + 63"]
  by (cases "(n + 63) div 64") auto

lemma IsFull_eq:
  assumes wf: "ba_wf b" and pos: "0 < ba_bits b"
  shows "ba_IsFull (Some b) = Some (\<forall>i < nat (ba_bits b). ba_get b i)"
proof -
  let ?es = "ba_elems b" and ?n = "nat (ba_bits b)"
  let ?m = "length (butlast ?es)"
  let ?L = "?n - 64 * ?m"
  have len: "length ?es = (?n + 63) div 64" "0 < length ?es"
    using ba_wf_length [OF wf] pos by auto
  then have bounds: "1 \<le> ?L" "?L \<le> 64" "64 * ?m < ?n"
    by auto
  have L: "(ba_bits b + 63) mod 64 + 1 = int ?L"
  proof -
    have "(ba_bits b + 63) mod 64 = int ((?n + 63) mod 64)"
      using pos by (simp add: zmod_int)
    moreover have "(?n + 63) mod 64 + 1 = ?L"
      using len(1) pos nat_div_mod_63 [of ?n] by simp
    ultimately show ?thesis by simp
  qed
  have lst: "last ?es = ?es ! ?m"
    using len(2) by (simp add: last_conv_nth)
  have all_ones: "NOT e = 0 \<longleftrightarrow> (\<forall>i<64. bit e i)" for e :: "64 word"
    by (auto simp: bit_eq_iff bit_not_iff)
  have front: "(\<forall>e\<in>set (butlast ?es). NOT e = 0) \<longleftrightarrow> (\<forall>i < 64 * ?m. ba_get b i)"
  proof -
    have "(\<forall>e\<in>set (butlast ?es). NOT e = 0) \<longleftrightarrow> (\<forall>q < ?m. \<forall>k < 64. bit (?es ! q) k)"
      by (simp add: all_ones all_set_conv_all_nth nth_butlast)
    also have "\<dots> \<longleftrightarrow> (\<forall>i < 64 * ?m. bit (?es ! (i div 64)) (i mod 64))"
    proof safe
      fix q k assume H: "\<forall>i < 64 * ?m. bit (?es ! (i div 64)) (i mod 64)" "q < ?m" "k < (64::nat)"
      then have "64 * q + k < 64 * ?m" by auto
      with H(1) have "bit (?es ! ((64 * q + k) div 64)) ((64 * q + k) mod 64)" by blast
      with H(3) show "bit (?es ! q) k" by simp
    qed auto
    also have "\<dots> \<longleftrightarrow> (\<forall>i < 64 * ?m. ba_get b i)"
      using bounds by (auto simp: ba_get_def)
    finally show ?thesis .
  qed
  have tail: "(\<forall>i < ?L. bit (last ?es) i) \<longleftrightarrow> (\<forall>i < ?n. 64 * ?m \<le> i \<longrightarrow> ba_get b i)"
  proof safe
    fix i assume "\<forall>i < ?L. bit (last ?es) i" "i < ?n" "64 * ?m \<le> i"
    moreover from this have "i div 64 = ?m" "i mod 64 = i - 64 * ?m"
      using bounds by (auto simp: div_nat_eqI modulo_nat_def mult.commute)
    ultimately show "ba_get b i" using less_diff_iff [of "64 * ?m" i ?n] bounds
      by (simp add: ba_get_def lst)
  next
    fix i assume H: "\<forall>i < ?n. 64 * ?m \<le> i \<longrightarrow> ba_get b i" "i < ?L"
    then have "ba_get b (64 * ?m + i)" by auto
    with H(2) bounds show "bit (last ?es) i" by (simp add: ba_get_def lst)
  qed
  have "(\<forall>i < ?n. ba_get b i)
      \<longleftrightarrow> (\<forall>e\<in>set (butlast ?es). NOT e = 0) \<and> (\<forall>i < ?L. bit (last ?es) i)"
    unfolding front tail using bounds by (meson le_less_linear less_trans)
  moreover have "(last ?es + 1) AND (shl1 ((ba_bits b + 63) smod 64 + 1) - 1) = 0
      \<longleftrightarrow> (\<forall>i < ?L. bit (last ?es) i)"
  proof -
    have "(ba_bits b + 63) smod 64 + 1 = int ?L" using pos L by simp
    then show ?thesis
      using mask_shl1 [OF bounds(1,2)] succ_and_mask [OF bounds(1,2)] by (simp only:)
  qed
  ultimately show ?thesis
    using len(2) by (auto simp: ba_IsFull_def Let_def list_ex_iff)
qed

subsection \<open>Encodings\<close>

lemma json_bits_eq:
  "ba_wf b \<Longrightarrow> json_bits b i n
     = Some (map (\<lambda>k. if ba_get b k then CHR ''x'' else CHR ''_'') [i..<i + n])"
  by (induction n arbitrary: i) (simp_all add: getIndex_wf upt_conv_Cons del: upt_Suc)

lemma set_from_json_eq:
  assumes "ba_wf b" "i + length cs \<le> nat (ba_bits b)"
  shows "\<exists>b'. set_from_json cs (int i) (Some b) = Some (Some b') \<and> ba_wf b' \<and> ba_bits b' = ba_bits b
    \<and> (\<forall>k. ba_get b' k \<longleftrightarrow> ba_get b k
          \<or> i \<le> k \<and> k < i + length cs \<and> cs ! (k - i) = CHR ''x'')"
  using assms
proof (induction cs arbitrary: i b)
  case (Cons c cs)
  have step: "int i + 1 = int (Suc i)" by simp
  have shift: "i \<le> k \<and> k < i + length (c # cs) \<and> (c # cs) ! (k - i) = CHR ''x''
      \<longleftrightarrow> k = i \<and> c = CHR ''x''
        \<or> Suc i \<le> k \<and> k < Suc i + length cs \<and> cs ! (k - Suc i) = CHR ''x''" for k
    by (cases "k = i") (auto simp: nth_Cons' le_less)
  show ?case
  proof (cases "c = CHR ''x''")
    case True
    obtain b1 where b1: "ba_setIndex b (int i) True = Some (b1, True)" "ba_wf b1"
        "ba_bits b1 = ba_bits b" "\<forall>k. ba_get b1 k = (if k = i then True else ba_get b k)"
      using setIndex_wf [of b i True] Cons.prems by (auto simp: fun_eq_iff)
    then show ?thesis
      using Cons.IH [of b1 "Suc i"] Cons.prems True
      unfolding shift set_from_json.simps step by (auto simp: ba_SetIndex_def)
  next
    case False
    then show ?thesis
      using Cons.IH [of b "Suc i"] Cons.prems
      unfolding shift set_from_json.simps step by auto
  qed
qed auto

lemma new_bit_array:
  "0 < n \<Longrightarrow> \<exists>b. NewBitArray n = Some b \<and> ba_wf b \<and> ba_bits b = n \<and> (\<forall>i. \<not> ba_get b i)"
  by (auto simp: NewBitArray_def ba_wf_def ba_get_def numElems_nonneg)

lemma Or_drops_long_words:
  assumes "ba_wf b" "ba_wf p" "64 * length (ba_elems b) \<le> i" "ba_get p i"
  shows "\<exists>c. ba_Or (Some b) (Some p) = Some (Some c) \<and> i < nat (ba_bits c) \<and> \<not> ba_get c i"
proof -
  have "i < nat (ba_bits p)" using assms(4) by (simp add: ba_get_def)
  then have "i < nat (max (ba_bits b) (ba_bits p))" by linarith
  with ba_Or_bits [OF assms(1,2)] assms(3) show ?thesis by metis
qed

lemma unmarshal_empty_panics: "ba_UnmarshalJSON b [CHR 0x22, CHR 0x22] = None"
  by (simp add: ba_UnmarshalJSON_def bitArrayJSONRegexp_def NewBitArray_def)

section \<open>Properties\<close>

text \<open>
  C36: on every position below both lengths \<open>And\<close>, \<open>Or\<close> and \<open>Sub\<close> are the pointwise set
  operations and \<open>Not\<close> is the complement; none of them panics, the result has the documented
  length and its representation is well formed.
\<close>

theorem bit_operations_pointwise:
  assumes "ba_wf b" "ba_wf p" "n = nat (min (ba_bits b) (ba_bits p))"
  shows "(\<exists>c. ba_And (Some b) (Some p) = Some (Some c) \<and> ba_wf c
            \<and> ba_bits c = min (ba_bits b) (ba_bits p)
            \<and> (\<forall>i. ba_get c i \<longleftrightarrow> ba_get b i \<and> ba_get p i))
       \<and> (\<exists>c. ba_Or (Some b) (Some p) = Some (Some c) \<and> ba_wf c
            \<and> ba_bits c = max (ba_bits b) (ba_bits p)
            \<and> (\<forall>i<n. ba_get c i \<longleftrightarrow> ba_get b i \<or> ba_get p i))
       \<and> (\<exists>c. ba_Sub (Some b) (Some p) = Some (Some c) \<and> ba_wf c \<and> ba_bits c = ba_bits b
            \<and> (\<forall>i<n. ba_get c i \<longleftrightarrow> ba_get b i \<and> \<not> ba_get p i))
       \<and> (\<exists>c. ba_Not (Some b) = Some c \<and> ba_wf c \<and> ba_bits c = ba_bits b
            \<and> (\<forall>i < nat (ba_bits b). ba_get c i \<longleftrightarrow> \<not> ba_get b i))"
  unfolding assms(3)
  apply (intro conjI)
  using ba_And_bits [OF assms(1,2)] apply blast
  using ba_Or_bits [OF assms(1,2)] apply blast
  using ba_Sub_bits [OF assms(1,2)] apply blast
  using ba_Not_bits [OF assms(1)] apply blast
  done

theorem bit_operations_pointwise_witness:
  "\<exists>c. ba_Sub (Some \<lparr>ba_bits = 4, ba_elems = [13]\<rparr>) (Some \<lparr>ba_bits = 3, ba_elems = [6]\<rparr>)
        = Some (Some c) \<and> ba_get c 0 \<and> \<not> ba_get c 2"
proof -
  have "ba_wf \<lparr>ba_bits = 4, ba_elems = [13]\<rparr>" "ba_wf \<lparr>ba_bits = 3, ba_elems = [6]\<rparr>"
    by (simp_all add: ba_wf_def numElems_def)
  from bit_operations_pointwise [OF this refl] show ?thesis
    by (elim conjE exE) (rule exI, rule conjI, assumption, simp add: ba_get_def bit_numeral_simps)
qed

text \<open>
  The JSON form of a non-empty array reads back as an array of the same length with the same
  bits.
\<close>

theorem json_round_trip:
  assumes "ba_wf b" "0 < ba_bits b"
  shows "\<exists>s b'. ba_MarshalJSON (Some b) = Some s \<and> ba_UnmarshalJSON b0 s = Some (Inr b')
    \<and> ba_wf b' \<and> ba_bits b' = ba_bits b \<and> ba_get b' = ba_get b"
proof -
  let ?n = "nat (ba_bits b)"
  let ?cs = "map (\<lambda>k. if ba_get b k then CHR ''x'' else CHR ''_'') [0..<?n]"
  let ?s = "CHR 0x22 # ?cs @ [CHR 0x22]"
  have enc: "ba_MarshalJSON (Some b) = Some ?s"
    using json_bits_eq [OF assms(1), of 0 ?n] by (simp add: ba_MarshalJSON_def)
  have re: "bitArrayJSONRegexp ?s = Some ?cs"
    by (auto simp: bitArrayJSONRegexp_def list_all_iff)
  obtain b1 where b1: "NewBitArray (int (length ?cs)) = Some b1" "ba_wf b1" "ba_bits b1 = ba_bits b"
      "\<forall>i. \<not> ba_get b1 i"
    using new_bit_array [of "ba_bits b"] assms(2) by auto
  obtain b2 where b2: "set_from_json ?cs 0 (Some b1) = Some (Some b2)" "ba_wf b2"
      "ba_bits b2 = ba_bits b" "\<forall>k. ba_get b2 k \<longleftrightarrow> k < ?n \<and> ?cs ! k = CHR ''x''"
    using set_from_json_eq [OF b1(2), of 0 ?cs] b1(3,4) by auto
  have "ba_get b2 k = ba_get b k" for k
    using b2(4) by (cases "k < ?n") (auto simp: ba_get_def)
  moreover have "?s \<noteq> ''null''" by simp
  ultimately show ?thesis
    using enc re b1(1) b2(1-3) by (auto simp: ba_UnmarshalJSON_def)
qed

theorem json_round_trip_witness:
  "\<exists>s b'. ba_MarshalJSON (Some \<lparr>ba_bits = 3, ba_elems = [5]\<rparr>) = Some s
    \<and> ba_UnmarshalJSON \<lparr>ba_bits = 0, ba_elems = []\<rparr> s = Some (Inr b')
    \<and> ba_get b' = ba_get \<lparr>ba_bits = 3, ba_elems = [5]\<rparr>"
  using json_round_trip [of "\<lparr>ba_bits = 3, ba_elems = [5]\<rparr>" "\<lparr>ba_bits = 0, ba_elems = []\<rparr>"]
  by (auto simp: ba_wf_def numElems_def)

text \<open>
  \<open>PickRandom\<close> returns a set bit, whatever number below its bound \<open>mrand.Intn\<close> returns,
  and reports failure exactly when no bit is set.
\<close>

theorem pick_random_set_bit:
  assumes "ba_wf b" "0 < ba_bits b" "\<forall>n>0. 0 \<le> intn n \<and> intn n < n"
  shows "\<exists>i ok. ba_PickRandom intn (Some b) = Some (i, ok)
    \<and> (if ok then 0 \<le> i \<and> i < ba_bits b \<and> ba_get b (nat i) else \<forall>k. \<not> ba_get b k)"
proof (cases "filter (ba_get b) [0..<nat (ba_bits b)] = []")
  case True
  then have "\<not> ba_get b k" for k
    by (cases "k < nat (ba_bits b)") (auto simp: filter_empty_conv ba_get_def)
  with True have "ba_PickRandom intn (Some b) = Some (0, False)" "\<forall>k. \<not> ba_get b k"
    by (simp_all add: ba_PickRandom_def getTrueIndices_eq [OF assms(1,2)])
  then show ?thesis by auto
next
  case False
  let ?is = "filter (ba_get b) [0..<nat (ba_bits b)]"
  let ?k = "intn (int (length ?is))"
  have k: "0 \<le> ?k" "nat ?k < length ?is"
    using assms(3) [rule_format, of "int (length ?is)"] False by auto
  then have "?is ! nat ?k \<in> set ?is" by (rule_tac nth_mem)
  then have "?is ! nat ?k < nat (ba_bits b)" "ba_get b (?is ! nat ?k)"
    by (simp_all only: set_filter set_upt mem_Collect_eq atLeastLessThan_iff)
  moreover have "go_index (map int ?is) ?k = Some (int (?is ! nat ?k))"
    using k by (simp add: go_index_Some_iff)
  moreover from this have "ba_PickRandom intn (Some b) = Some (int (?is ! nat ?k), True)"
    using False getTrueIndices_eq [OF assms(1,2)] by (simp add: ba_PickRandom_def)
  ultimately show ?thesis
    by (auto simp: zless_nat_eq_int_zless)
qed

theorem pick_random_set_bit_witness:
  "\<exists>i ok. ba_PickRandom (\<lambda>n. n - 1) (Some \<lparr>ba_bits = 3, ba_elems = [5]\<rparr>) = Some (i, ok)
    \<and> (if ok then ba_get \<lparr>ba_bits = 3, ba_elems = [5]\<rparr> (nat i)
       else \<not> ba_get \<lparr>ba_bits = 3, ba_elems = [5]\<rparr> 0)"
  using pick_random_set_bit [of "\<lparr>ba_bits = 3, ba_elems = [5]\<rparr>" "\<lambda>n. n - 1"]
  by (fastforce simp: ba_wf_def numElems_def split: if_splits)

end
