(* ===== verification/Merkle.thy ===== *)
theory Merkle
  imports GoPrelude
begin

text \<open>
  \<open>crypto/merkle/hash.go\<close>, \<open>tree.go\<close> and \<open>proof.go\<close>: the RFC 6962 Merkle tree over byte slices, its
  iterative variant, and inclusion proofs. The hash \<open>tmhash.Sum\<close> (SHA-256) is the parameter \<open>H\<close>; the
  laws used of it are that its digests have 32 bytes and, for soundness, that no two of the inputs
  the two parties hashed collide, stated over the explicit lists of those inputs.

  A byte slice that the code compares with nil is an option. The proof nodes of
  \<open>trailsFromByteSlices\<close>, which the code links by pointers and mutates after they are shared, live in
  an explicit store: a list of nodes, a pointer being an index.
\<close>

section \<open>Hashing\<close>

abbreviation (input) tmhash_Size :: nat where
  "tmhash_Size \<equiv> 32"

definition leafPrefix :: bytes where
  "leafPrefix = [0]"

definition innerPrefix :: bytes where
  "innerPrefix = [1]"

definition emptyHash :: "(bytes \<Rightarrow> bytes) \<Rightarrow> bytes" where
  "emptyHash H = H []"

definition leafHash :: "(bytes \<Rightarrow> bytes) \<Rightarrow> bytes \<Rightarrow> bytes" where
  "leafHash H leaf = H (leafPrefix @ leaf)"

definition innerHash :: "(bytes \<Rightarrow> bytes) \<Rightarrow> bytes \<Rightarrow> bytes \<Rightarrow> bytes" where
  "innerHash H left right = H (innerPrefix @ left @ right)"

text \<open>
  \<open>leafHashOpt\<close> and \<open>innerHashOpt\<close> reset a \<open>hash.Hash\<close> and write the pieces one after the other; the
  state of the hasher is what was written since the reset.
\<close>

definition hash_Write :: "bytes \<Rightarrow> bytes \<Rightarrow> bytes" where
  "hash_Write s p = s @ p"

definition leafHashOpt :: "(bytes \<Rightarrow> bytes) \<Rightarrow> bytes \<Rightarrow> bytes" where
  "leafHashOpt H leaf = H (hash_Write (hash_Write [] leafPrefix) leaf)"

definition innerHashOpt :: "(bytes \<Rightarrow> bytes) \<Rightarrow> bytes \<Rightarrow> bytes \<Rightarrow> bytes" where
  "innerHashOpt H left right = H (hash_Write (hash_Write (hash_Write [] innerPrefix) left) right)"

section \<open>The tree\<close>

text \<open>
  \<open>split_point\<close> is the body of \<open>getSplitPoint\<close> after its guard; the recursive functions below call it
  on lengths of at least 2, where the guard never panics.
\<close>

definition split_point :: "int \<Rightarrow> int" where
  "split_point len =
     (let bitlen = bits_Len len;
          k = 2 ^ (bitlen - 1)
      in if k = len then k div 2 else k)"

definition getSplitPoint :: "int \<Rightarrow> int option" where
  "getSplitPoint len = (if len < 1 then None else Some (split_point len))"

text \<open>The split point is the largest power of two below the length.\<close>

lemma split_point_power:
  assumes "2 \<le> n"
  obtains m where "split_point (int n) = 2 ^ m" "2 ^ m < n" "n \<le> 2 ^ Suc m"
proof -
  define b where "b = bits_Len (int n)"
  have b: "0 < b" "2 ^ (b - 1) \<le> int n" "int n < 2 ^ b"
    using bits_Len_bounds [of "int n"] assms by (auto simp: b_def)
  then have b': "2 ^ (b - 1) \<le> n" "n < 2 ^ b"
    by (metis of_nat_le_iff of_nat_numeral of_nat_power, metis of_nat_less_iff of_nat_numeral of_nat_power)
  have b2: "2 \<le> b"
    using b' assms b(1) by (cases b; cases "b - 1") auto
  show thesis
  proof (cases "2 ^ (b - 1) = int n")
    case True
    then have n: "n = 2 ^ (b - 1)"
      by (metis of_nat_eq_iff of_nat_numeral of_nat_power)
    obtain c where c: "b = Suc (Suc c)"
      using b2 by (metis Suc_le_D numeral_2_eq_2 Suc_le_mono)
    have "split_point (int n) = 2 ^ c"
      using True unfolding split_point_def Let_def b_def [symmetric] by (simp add: c)
    then show thesis by (rule that) (simp_all add: n c)
  next
    case False
    then have "split_point (int n) = 2 ^ (b - 1)"
      unfolding split_point_def Let_def b_def [symmetric] by simp
    moreover have "2 ^ (b - 1) < n"
      using False b'(1) by (metis le_neq_implies_less of_nat_numeral of_nat_power)
    ultimately show thesis
      using that [of "b - 1"] b'(2) b(1) by simp
  qed
qed

lemma split_point_range:
  assumes "2 \<le> n"
  shows "0 < split_point (int n) \<and> split_point (int n) < int n"
proof -
  obtain m where m: "split_point (int n) = 2 ^ m" "2 ^ m < n"
    using split_point_power [OF assms] by blast
  then have "(2 :: int) ^ m < int n"
    by (metis of_nat_less_iff of_nat_numeral of_nat_power)
  with m show ?thesis by simp
qed

lemma two_le_length: "items \<noteq> [] \<Longrightarrow> length items \<noteq> Suc 0 \<Longrightarrow> 2 \<le> length items"
  by (cases items; cases "tl items") auto

function hashFromByteSlices :: "(bytes \<Rightarrow> bytes) \<Rightarrow> bytes list \<Rightarrow> bytes" where
  "hashFromByteSlices H items =
     (if length items = 0 then emptyHash H
      else if length items = 1 then leafHashOpt H (hd items)
      else (let k = nat (split_point (int (length items)));
                left = hashFromByteSlices H (take k items);
                right = hashFromByteSlices H (drop k items)
            in innerHashOpt H left right))"
  by pat_completeness auto
termination
proof (relation "measure (\<lambda>(H, items). length items)", goal_cases)
  case (2 H items k)
  then show ?case using split_point_range [OF two_le_length, of items] by auto
next
  case (3 H items k x)
  then show ?case using split_point_range [OF two_le_length, of items] by auto
qed simp

declare hashFromByteSlices.simps [simp del]

definition HashFromByteSlices :: "(bytes \<Rightarrow> bytes) \<Rightarrow> bytes list \<Rightarrow> bytes" where
  "HashFromByteSlices H items = hashFromByteSlices H items"

text \<open>
  The iterative variant rewrites one array in place. \<open>iter_pass\<close> is its inner loop, from the read
  position \<open>rp\<close> and the write position \<open>wp\<close>; \<open>iter_levels\<close> its outer loop over the tree's levels.
\<close>

function iter_pass :: "(bytes \<Rightarrow> bytes) \<Rightarrow> nat \<Rightarrow> bytes list \<Rightarrow> nat \<Rightarrow> nat \<Rightarrow> bytes list \<times> nat" where
  "iter_pass H sz items rp wp =
     (if rp < sz then
        (if rp + 1 < sz
         then iter_pass H sz (items[wp := innerHashOpt H (items ! rp) (items ! (rp + 1))]) (rp + 2) (wp + 1)
         else iter_pass H sz (items[wp := items ! rp]) (rp + 1) (wp + 1))
      else (items, wp))"
  by pat_completeness auto
termination
  by (relation "measure (\<lambda>(H, sz, items, rp, wp). sz - rp)") auto

declare iter_pass.simps [simp del]

lemma iter_pass_wp: "snd (iter_pass H sz items rp wp) = wp + (sz - rp + 1) div 2"
proof (induction H sz items rp wp rule: iter_pass.induct)
  case (1 H sz items rp wp)
  then show ?case
    by (subst iter_pass.simps) (auto simp: not_less Suc_diff_le)
qed

function iter_levels :: "(bytes \<Rightarrow> bytes) \<Rightarrow> bytes list \<Rightarrow> nat \<Rightarrow> bytes" where
  "iter_levels H items sz =
     (if sz = 0 then emptyHash H
      else if sz = 1 then items ! 0
      else (let (items', wp) = iter_pass H sz items 0 0 in iter_levels H items' wp))"
  by pat_completeness auto
termination
proof (relation "measure (\<lambda>(H, items, sz). sz)", goal_cases)
  case (2 H items sz p items' wp)
  have "wp = (sz + 1) div 2"
    using iter_pass_wp [of H sz items 0 0] 2(3,4) by (metis add_0 minus_nat.diff_0 snd_conv)
  with 2(1,2) show ?case by simp
qed simp

declare iter_levels.simps [simp del]

definition HashFromByteSlicesIterative :: "(bytes \<Rightarrow> bytes) \<Rightarrow> bytes list \<Rightarrow> bytes" where
  "HashFromByteSlicesIterative H input =
     (let items = map (leafHash H) input in iter_levels H items (length items))"

subsection \<open>The iterative variant computes the same root\<close>

lemma leafHashOpt_eq [simp]: "leafHashOpt H x = leafHash H x"
  by (simp add: leafHashOpt_def leafHash_def hash_Write_def)

lemma innerHashOpt_eq [simp]: "innerHashOpt H x y = innerHash H x y"
  by (simp add: innerHashOpt_def innerHash_def hash_Write_def)

text \<open>One level of the tree as a function on lists, and the tree over given leaf hashes.\<close>

fun pair_up :: "(bytes \<Rightarrow> bytes) \<Rightarrow> bytes list \<Rightarrow> bytes list" where
  "pair_up H (x # y # zs) = innerHash H x y # pair_up H zs"
| "pair_up H zs = zs"

function tree_root :: "(bytes \<Rightarrow> bytes) \<Rightarrow> bytes list \<Rightarrow> bytes" where
  "tree_root H hs =
     (if length hs \<le> 1 then (if hs = [] then emptyHash H else hd hs)
      else (let k = nat (split_point (int (length hs)))
            in innerHash H (tree_root H (take k hs)) (tree_root H (drop k hs))))"
  by pat_completeness auto
termination
proof (relation "measure (\<lambda>(H, hs). length hs)", goal_cases)
  case (2 H hs k)
  then show ?case using split_point_range [of "length hs"] by auto
next
  case (3 H hs k)
  then show ?case using split_point_range [of "length hs"] by auto
qed simp

declare tree_root.simps [simp del]

lemma hashFromByteSlices_tree: "hashFromByteSlices H items = tree_root H (map (leafHash H) items)"
proof (induction H items rule: hashFromByteSlices.induct)
  case (1 H items)
  consider "items = []" | x where "items = [x]" | "2 \<le> length items"
    by (cases items; cases "tl items") auto
  then show ?case
  proof cases
    case 3
    then show ?thesis
      using 1 by (auto simp: hashFromByteSlices.simps [of H items]
          tree_root.simps [of H "map (leafHash H) items"] Let_def take_map drop_map)
  qed (simp_all add: hashFromByteSlices.simps tree_root.simps)
qed

lemma length_pair_up [simp]: "length (pair_up H xs) = (length xs + 1) div 2"
  by (induction H xs rule: pair_up.induct) auto

lemma pair_up_append: "even (length xs) \<Longrightarrow> pair_up H (xs @ ys) = pair_up H xs @ pair_up H ys"
  by (induction H xs rule: pair_up.induct) auto

lemma split_point_half:
  assumes "3 \<le> n"
  shows "\<exists>m. split_point (int n) = 2 * 2 ^ m \<and> split_point (int ((n + 1) div 2)) = 2 ^ m
    \<and> 2 * 2 ^ m < n"
proof -
  obtain m where m: "split_point (int n) = 2 ^ m" "2 ^ m < n" "n \<le> 2 ^ Suc m"
    using split_point_power [of n] assms by auto
  obtain c where c: "split_point (int ((n + 1) div 2)) = 2 ^ c" "2 ^ c < (n + 1) div 2"
      "(n + 1) div 2 \<le> 2 ^ Suc c"
    by (rule split_point_power [of "(n + 1) div 2"]) (use assms in auto)
  have "2 ^ Suc c < n" "n \<le> 2 ^ Suc (Suc c)" using c by auto
  then have "2 ^ Suc c < (2::nat) ^ Suc m" "2 ^ m < (2::nat) ^ Suc (Suc c)" using m by linarith+
  then have "m = Suc c" by (simp only: power_strict_increasing_iff one_less_numeral_iff semiring_norm)
  with m c show ?thesis by auto
qed

lemma tree_root_split:
  "2 \<le> length hs \<Longrightarrow> nat (split_point (int (length hs))) = k
     \<Longrightarrow> tree_root H hs = innerHash H (tree_root H (take k hs)) (tree_root H (drop k hs))"
  by (simp add: tree_root.simps [of H hs] Let_def)

lemma tree_root_pair_up: "tree_root H (pair_up H hs) = tree_root H hs"
proof (induction hs rule: length_induct)
  case (1 hs)
  note IH = 1
  consider "length hs \<le> 1" | x y where "hs = [x, y]" | "3 \<le> length hs"
    by (cases hs; cases "tl hs"; cases "tl (tl hs)") auto
  then show ?case
  proof cases
    case 1
    then show ?thesis by (cases hs; cases "tl hs") auto
  next
    case (2 x y)
    obtain m where "split_point 2 = 2 ^ m" "2 ^ m < (2::nat)"
      using split_point_power [of 2] by auto
    then have "split_point 2 = 1" by (cases m) auto
    with 2 tree_root_split [of hs 1 H] show ?thesis
      by (simp add: tree_root.simps [of H "[_]"])
  next
    case 3
    then obtain m where m: "split_point (int (length hs)) = 2 * 2 ^ m"
        "split_point (int ((length hs + 1) div 2)) = 2 ^ m" "2 * 2 ^ m < length hs"
      using split_point_half by blast
    define k :: nat where "k = 2 ^ m"
    have k: "nat (2 ^ m) = k" "nat (2 * 2 ^ m) = 2 * k" "2 * k < length hs" "0 < k"
      using m(3) by (simp_all add: k_def nat_mult_distrib nat_power_eq)
    let ?l = "take (2 * k) hs" and ?r = "drop (2 * k) hs"
    have "pair_up H hs = pair_up H ?l @ pair_up H ?r"
      using pair_up_append [of ?l H ?r] k(3) by simp
    moreover have "length (pair_up H ?l) = k"
      using k(3) by simp
    ultimately have parts: "take k (pair_up H hs) = pair_up H ?l" "drop k (pair_up H hs) = pair_up H ?r"
      by simp_all
    have "tree_root H (pair_up H hs)
        = innerHash H (tree_root H (pair_up H ?l)) (tree_root H (pair_up H ?r))"
      using tree_root_split [of "pair_up H hs" k H] m(2) 3 k(1) unfolding parts by simp
    also have "\<dots> = innerHash H (tree_root H ?l) (tree_root H ?r)"
      using IH k(3,4) by simp
    also have "\<dots> = tree_root H hs"
      using tree_root_split [of hs "2 * k" H] m(1) 3 k(2) by simp
    finally show ?thesis .
  qed
qed

lemma iter_pass_items:
  assumes "wp \<le> rp" "rp \<le> sz" "sz \<le> length items"
  shows "take (wp + (sz - rp + 1) div 2) (fst (iter_pass H sz items rp wp))
    = take wp items @ pair_up H (drop rp (take sz items))"
  using assms
proof (induction H sz items rp wp rule: iter_pass.induct)
  case (1 H sz items rp wp)
  note prems = 1(3-)
  consider "rp + 1 < sz" | "rp + 1 = sz" | "rp = sz"
    using 1(4) by linarith
  then show ?case
  proof cases
    case 1
    let ?items = "items[wp := innerHash H (items ! rp) (items ! (rp + 1))]"
    have "drop rp (take sz items) = items ! rp # items ! (rp + 1) # drop (rp + 2) (take sz items)"
      using 1 prems by (simp add: Cons_nth_drop_Suc [symmetric])
    moreover have "drop (rp + 2) (take sz ?items) = drop (rp + 2) (take sz items)"
      using prems by (simp add: take_update_swap drop_update_cancel)
    moreover have "take (wp + 1) ?items = take wp items @ [innerHash H (items ! rp) (items ! (rp + 1))]"
      using prems 1 by (simp add: take_Suc_conv_app_nth)
    moreover have "(sz - rp + 1) div 2 = Suc ((sz - (rp + 2) + 1) div 2)" using 1 by auto
    ultimately show ?thesis
      using "1.IH"(1) prems 1 by (simp add: iter_pass.simps [of H sz items] add.assoc)
  next
    case 2
    let ?items = "items[wp := items ! rp]"
    have "drop rp (take sz items) = [items ! rp]"
      using 2 prems by (auto simp: Cons_nth_drop_Suc [symmetric])
    moreover have "iter_pass H sz items rp wp = (?items, wp + 1)"
      using 2 by (simp add: iter_pass.simps [of H sz items] iter_pass.simps [of H sz ?items])
    moreover have "(sz - rp + 1) div 2 = 1" using 2 by auto
    ultimately show ?thesis
      using 2 prems by (simp add: take_Suc_conv_app_nth)
  next
    case 3
    then show ?thesis by (simp add: iter_pass.simps [of H sz items])
  qed
qed

lemma iter_levels_tree: "sz \<le> length items \<Longrightarrow> iter_levels H items sz = tree_root H (take sz items)"
proof (induction H items sz rule: iter_levels.induct)
  case (1 H items sz)
  consider "sz = 0" | "sz = 1" | "2 \<le> sz" by linarith
  then show ?case
  proof cases
    case 3
    obtain items' wp where p: "iter_pass H sz items 0 0 = (items', wp)" by (cases "iter_pass H sz items 0 0")
    have wp: "wp = (sz + 1) div 2" using iter_pass_wp [of H sz items 0 0] p by simp
    have "take wp items' = pair_up H (take sz items)"
      using iter_pass_items [of 0 0 sz items H] p wp 1(2) by simp
    moreover from this have "wp \<le> length items'"
      using arg_cong [of "take wp items'" _ length] 1(2) wp by fastforce
    ultimately show ?thesis
      using 1 3 p by (simp add: iter_levels.simps [of H items] tree_root_pair_up)
  qed (use 1 in \<open>auto simp: iter_levels.simps [of H items] tree_root.simps hd_take hd_conv_nth\<close>)
qed

section \<open>Inclusion proofs\<close>

record merkle_proof =
  mp_Total :: int
  mp_Index :: int
  mp_LeafHash :: "bytes option"
  mp_Aunts :: "bytes list"

definition MaxAunts :: nat where
  "MaxAunts = 100"

text \<open>The bytes of a slice that may be nil, as \<open>len\<close> and \<open>bytes.Equal\<close> see it.\<close>

definition nb :: "bytes option \<Rightarrow> bytes" where
  "nb b = (case b of None \<Rightarrow> [] | Some x \<Rightarrow> x)"

lemma nb_simps [simp]: "nb None = []" "nb (Some x) = x"
  by (simp_all add: nb_def)

datatype proof_error = ErrNegativeTotal | ErrNegativeIndex | ErrLeafHash | ErrRootHash
  | ErrLeafHashSize | ErrTooManyAunts | ErrAuntSize | ErrNilProof

function computeHashFromAunts ::
  "(bytes \<Rightarrow> bytes) \<Rightarrow> int \<Rightarrow> int \<Rightarrow> bytes option \<Rightarrow> bytes list \<Rightarrow> bytes option" where
  "computeHashFromAunts H index tot lh innerHashes =
     (if index \<ge> tot \<or> index < 0 \<or> tot \<le> 0 then None
      else if tot = 1 then (if innerHashes \<noteq> [] then None else lh)
      else if innerHashes = [] then None
      else (let numLeft = split_point tot in
            if index < numLeft then
              (case computeHashFromAunts H index numLeft lh (butlast innerHashes) of
                 None \<Rightarrow> None
               | Some leftHash \<Rightarrow> Some (innerHash H leftHash (last innerHashes)))
            else
              (case computeHashFromAunts H (index - numLeft) (tot - numLeft) lh (butlast innerHashes) of
                 None \<Rightarrow> None
               | Some rightHash \<Rightarrow> Some (innerHash H (last innerHashes) rightHash))))"
  by pat_completeness auto
termination
  by (relation "measure (\<lambda>(H, index, tot, lh, hs). length hs)") auto

declare computeHashFromAunts.simps [simp del]

definition ComputeRootHash :: "(bytes \<Rightarrow> bytes) \<Rightarrow> merkle_proof \<Rightarrow> bytes option" where
  "ComputeRootHash H sp = computeHashFromAunts H (mp_Index sp) (mp_Total sp) (mp_LeafHash sp) (mp_Aunts sp)"

text \<open>\<open>Verify\<close> returns \<open>None\<close> for the nil error.\<close>

definition mp_Verify :: "(bytes \<Rightarrow> bytes) \<Rightarrow> merkle_proof \<Rightarrow> bytes \<Rightarrow> bytes \<Rightarrow> proof_error option" where
  "mp_Verify H sp rootHash leaf =
     (if mp_Total sp < 0 then Some ErrNegativeTotal
      else if mp_Index sp < 0 then Some ErrNegativeIndex
      else if nb (mp_LeafHash sp) \<noteq> leafHash H leaf then Some ErrLeafHash
      else if nb (ComputeRootHash H sp) \<noteq> rootHash then Some ErrRootHash
      else None)"

definition mp_ValidateBasic :: "merkle_proof \<Rightarrow> proof_error option" where
  "mp_ValidateBasic sp =
     (if mp_Total sp < 0 then Some ErrNegativeTotal
      else if mp_Index sp < 0 then Some ErrNegativeIndex
      else if length (nb (mp_LeafHash sp)) \<noteq> tmhash_Size then Some ErrLeafHashSize
      else if length (mp_Aunts sp) > MaxAunts then Some ErrTooManyAunts
      else if list_ex (\<lambda>aunt. length aunt \<noteq> tmhash_Size) (mp_Aunts sp) then Some ErrAuntSize
      else None)"

text \<open>The protobuf message \<open>tmcrypto.Proof\<close>.\<close>

record pb_proof =
  pbp_Total :: int
  pbp_Index :: int
  pbp_LeafHash :: "bytes option"
  pbp_Aunts :: "bytes list"

definition mp_ToProto :: "merkle_proof option \<Rightarrow> pb_proof option" where
  "mp_ToProto sp =
     (case sp of None \<Rightarrow> None
      | Some p \<Rightarrow> Some \<lparr>pbp_Total = mp_Total p, pbp_Index = mp_Index p,
                         pbp_LeafHash = mp_LeafHash p, pbp_Aunts = mp_Aunts p\<rparr>)"

text \<open>The result is the pair of the proof and the error, which the code returns together.\<close>

definition ProofFromProto :: "pb_proof option \<Rightarrow> merkle_proof option \<times> proof_error option" where
  "ProofFromProto pb =
     (case pb of None \<Rightarrow> (None, Some ErrNilProof)
      | Some p \<Rightarrow> (let sp = \<lparr>mp_Total = pbp_Total p, mp_Index = pbp_Index p,
                              mp_LeafHash = pbp_LeafHash p, mp_Aunts = pbp_Aunts p\<rparr>
                    in (Some sp, mp_ValidateBasic sp)))"

subsection \<open>Building the proofs\<close>

record proof_node =
  pn_Hash :: bytes
  pn_Parent :: "nat option"
  pn_Left :: "nat option"
  pn_Right :: "nat option"

type_synonym node_store = "proof_node list"

definition new_node :: "bytes \<Rightarrow> proof_node" where
  "new_node h = \<lparr>pn_Hash = h, pn_Parent = None, pn_Left = None, pn_Right = None\<rparr>"

definition upd_node :: "nat \<Rightarrow> (proof_node \<Rightarrow> proof_node) \<Rightarrow> node_store \<Rightarrow> node_store" where
  "upd_node p f s = s[p := f (s ! p)]"

text \<open>
  The loop of \<open>FlattenAunts\<close> ends when it reaches a node without parent; on a cyclic store it would
  not end, which is the value \<open>None\<close>.
\<close>

partial_function (option) flatten_loop ::
  "node_store \<Rightarrow> nat option \<Rightarrow> bytes list \<Rightarrow> bytes list option" where
  "flatten_loop s spn innerHashes =
     (case spn of
        None \<Rightarrow> Some innerHashes
      | Some p \<Rightarrow>
          flatten_loop s (pn_Parent (s ! p))
            (case pn_Left (s ! p) of
               Some l \<Rightarrow> innerHashes @ [pn_Hash (s ! l)]
             | None \<Rightarrow> (case pn_Right (s ! p) of
                          Some r \<Rightarrow> innerHashes @ [pn_Hash (s ! r)]
                        | None \<Rightarrow> innerHashes)))"

definition FlattenAunts :: "node_store \<Rightarrow> nat \<Rightarrow> bytes list option" where
  "FlattenAunts s p = flatten_loop s (Some p) []"

text \<open>\<open>trailsFromByteSlices\<close> returns the trails, the root and the store after its allocations.\<close>

function trailsFromByteSlices ::
  "(bytes \<Rightarrow> bytes) \<Rightarrow> bytes list \<Rightarrow> node_store \<Rightarrow> nat list \<times> nat \<times> node_store" where
  "trailsFromByteSlices H items s =
     (if length items = 0 then ([], length s, s @ [new_node (emptyHash H)])
      else if length items = 1 then ([length s], length s, s @ [new_node (leafHash H (hd items))])
      else
        (let k = nat (split_point (int (length items)));
             (lefts, leftRoot, s1) = trailsFromByteSlices H (take k items) s;
             (rights, rightRoot, s2) = trailsFromByteSlices H (drop k items) s1;
             rootHash = innerHash H (pn_Hash (s2 ! leftRoot)) (pn_Hash (s2 ! rightRoot));
             root = length s2;
             s3 = s2 @ [new_node rootHash];
             s4 = upd_node leftRoot (\<lambda>n. n\<lparr>pn_Parent := Some root, pn_Right := Some rightRoot\<rparr>) s3;
             s5 = upd_node rightRoot (\<lambda>n. n\<lparr>pn_Parent := Some root, pn_Left := Some leftRoot\<rparr>) s4
         in (lefts @ rights, root, s5)))"
  by pat_completeness auto
termination
proof (relation "measure (\<lambda>(H, items, s). length items)", goal_cases)
  case (2 H items s k)
  then show ?case using split_point_range [OF two_le_length, of items] by auto
next
  case (3 H items s k)
  then show ?case using split_point_range [OF two_le_length, of items] by auto
qed simp

declare trailsFromByteSlices.simps [simp del]

definition trail_proof :: "node_store \<Rightarrow> int \<Rightarrow> nat \<Rightarrow> nat \<Rightarrow> merkle_proof option" where
  "trail_proof s tot i trail =
     map_option (\<lambda>aunts. \<lparr>mp_Total = tot, mp_Index = int i,
                         mp_LeafHash = Some (pn_Hash (s ! trail)), mp_Aunts = aunts\<rparr>)
       (FlattenAunts s trail)"

definition ProofsFromByteSlices :: "(bytes \<Rightarrow> bytes) \<Rightarrow> bytes list \<Rightarrow> (bytes \<times> merkle_proof list) option" where
  "ProofsFromByteSlices H items =
     (let (trails, rootSPN, s) = trailsFromByteSlices H items [] in
      do {
        proofs \<leftarrow> those (map (\<lambda>(i, trail). trail_proof s (int (length items)) i trail)
                           (zip [0..<length trails] trails));
        Some (pn_Hash (s ! rootSPN), proofs)
      })"

subsection \<open>The proofs that are built verify\<close>

text \<open>
  A store \<open>t\<close> that extends \<open>s\<close> above \<open>lo\<close> and changes at most the links of \<open>r\<close>: what the code does to
  a finished subtree rooted at \<open>r\<close> when it hangs it under a new root.
\<close>

definition agree :: "nat \<Rightarrow> nat \<Rightarrow> node_store \<Rightarrow> node_store \<Rightarrow> bool" where
  "agree lo r s t \<longleftrightarrow> length s \<le> length t
     \<and> (\<forall>i. lo \<le> i \<and> i < length s \<longrightarrow> pn_Hash (t ! i) = pn_Hash (s ! i) \<and> (i \<noteq> r \<longrightarrow> t ! i = s ! i))"

definition trail_ok ::
  "(bytes \<Rightarrow> bytes) \<Rightarrow> bytes list \<Rightarrow> nat \<Rightarrow> nat \<Rightarrow> node_store \<Rightarrow> nat \<Rightarrow> nat \<Rightarrow> bool" where
  "trail_ok H items lo r s i p \<longleftrightarrow> lo \<le> p \<and> p < length s \<and> pn_Hash (s ! p) = leafHash H (items ! i)
     \<and> (\<exists>aunts. (\<forall>t. agree lo r s t \<longrightarrow>
                   (\<forall>acc. flatten_loop t (Some p) acc = flatten_loop t (Some r) (acc @ aunts)))
            \<and> computeHashFromAunts H (int i) (int (length items)) (Some (leafHash H (items ! i))) aunts
                = Some (hashFromByteSlices H items))"

definition trails_ok ::
  "(bytes \<Rightarrow> bytes) \<Rightarrow> bytes list \<Rightarrow> node_store \<Rightarrow> nat list \<Rightarrow> nat \<Rightarrow> node_store \<Rightarrow> bool" where
  "trails_ok H items s0 ts r s1 \<longleftrightarrow> length s0 \<le> r \<and> r < length s1
     \<and> s1 ! r = new_node (hashFromByteSlices H items)
     \<and> (\<forall>i < length s0. s1 ! i = s0 ! i) \<and> length ts = length items
     \<and> (\<forall>i < length items. trail_ok H items (length s0) r s1 i (ts ! i))"

lemma computeHash_left:
  assumes "2 \<le> n" "split_point n = k" "0 \<le> i" "i < k" "k < n"
    and "computeHashFromAunts H i k lh aunts = Some h"
  shows "computeHashFromAunts H i n lh (aunts @ [x]) = Some (innerHash H h x)"
  using assms by (subst computeHashFromAunts.simps) (simp add: Let_def)

lemma computeHash_right:
  assumes "2 \<le> n" "split_point n = k" "k \<le> i" "i < n" "0 < k"
    and "computeHashFromAunts H (i - k) (n - k) lh aunts = Some h"
  shows "computeHashFromAunts H i n lh (aunts @ [x]) = Some (innerHash H x h)"
  using assms by (subst computeHashFromAunts.simps) (simp add: Let_def)

lemma hashFromByteSlices_split:
  "2 \<le> length items \<Longrightarrow> k = nat (split_point (int (length items)))
     \<Longrightarrow> hashFromByteSlices H items
       = innerHash H (hashFromByteSlices H (take k items)) (hashFromByteSlices H (drop k items))"
  by (subst hashFromByteSlices.simps) (auto simp: Let_def)

lemma trail_ok_left:
  assumes ok: "trail_ok H (take k items) lo r s i p" and k: "k = nat (split_point (int (length items)))"
    and items: "2 \<le> length items" and i: "i < k"
    and t: "length s \<le> length t" "\<forall>j. lo \<le> j \<and> j < length s \<longrightarrow> pn_Hash (t ! j) = pn_Hash (s ! j)
      \<and> (j \<noteq> r \<longrightarrow> t ! j = s ! j)"
    and r: "lo \<le> r" "r < length s" "pn_Left (t ! r) = None" "pn_Right (t ! r) = Some q"
      "pn_Parent (t ! r) = Some u" and u: "length s \<le> u" "length s \<le> q" "q < length t" "u \<noteq> q"
    and q: "pn_Hash (t ! q) = hashFromByteSlices H (drop k items)"
  shows "trail_ok H items lo u t i p"
proof -
  have k': "int k = split_point (int (length items))" "0 < k" "k < length items"
    using split_point_range [OF items] k by auto
  obtain aunts where a: "\<forall>t. agree lo r s t \<longrightarrow>
        (\<forall>acc. flatten_loop t (Some p) acc = flatten_loop t (Some r) (acc @ aunts))"
      "computeHashFromAunts H (int i) (int k) (Some (leafHash H (items ! i))) aunts
        = Some (hashFromByteSlices H (take k items))"
    using ok i k'(3) by (auto simp: trail_ok_def min_def)
  have p: "lo \<le> p" "p < length s" "pn_Hash (t ! p) = leafHash H (items ! i)"
    using ok t i by (auto simp: trail_ok_def)
  have "flatten_loop t' (Some p) acc
      = flatten_loop t' (Some u) (acc @ aunts @ [hashFromByteSlices H (drop k items)])"
    if ag: "agree lo u t t'" for t' acc
  proof -
    have "agree lo r s t'"
      using ag t u r(2) by (auto simp: agree_def)
    moreover have "t' ! r = t ! r" "pn_Hash (t' ! q) = pn_Hash (t ! q)"
      using ag r(1,2) u t(1) by (auto simp: agree_def)
    ultimately show ?thesis
      using a(1) r q by (simp add: flatten_loop.simps [of t' "Some r"])
  qed
  moreover have "computeHashFromAunts H (int i) (int (length items)) (Some (leafHash H (items ! i)))
      (aunts @ [hashFromByteSlices H (drop k items)]) = Some (hashFromByteSlices H items)"
    unfolding hashFromByteSlices_split [OF items k]
    by (rule computeHash_left [OF _ k'(1) [symmetric] _ _ _ a(2)]) (use items i k' in auto)
  ultimately show ?thesis
    using p t(1) unfolding trail_ok_def
    by (intro conjI exI [of _ "aunts @ [hashFromByteSlices H (drop k items)]"]) simp_all
qed

lemma trail_ok_right:
  assumes ok: "trail_ok H (drop k items) lo' r s i p" and k: "k = nat (split_point (int (length items)))"
    and items: "2 \<le> length items" and i: "k + i < length items" and lo: "lo \<le> lo'"
    and t: "length s \<le> length t" "\<forall>j. lo' \<le> j \<and> j < length s \<longrightarrow> pn_Hash (t ! j) = pn_Hash (s ! j)
      \<and> (j \<noteq> r \<longrightarrow> t ! j = s ! j)"
    and r: "lo' \<le> r" "r < length s" "pn_Left (t ! r) = Some q"
      "pn_Parent (t ! r) = Some u" and u: "length s \<le> u" "lo \<le> q" "q < length s"
    and q: "pn_Hash (t ! q) = hashFromByteSlices H (take k items)"
  shows "trail_ok H items lo u t (k + i) p"
proof -
  have k': "int k = split_point (int (length items))" "0 < k" "k < length items"
    using split_point_range [OF items] k by auto
  obtain aunts where a: "\<forall>t. agree lo' r s t \<longrightarrow>
        (\<forall>acc. flatten_loop t (Some p) acc = flatten_loop t (Some r) (acc @ aunts))"
      "computeHashFromAunts H (int i) (int (length items) - int k)
        (Some (leafHash H (items ! (k + i)))) aunts = Some (hashFromByteSlices H (drop k items))"
    using ok i k'(3) by (auto simp: trail_ok_def of_nat_diff)
  have p: "lo \<le> p" "p < length s" "pn_Hash (t ! p) = leafHash H (items ! (k + i))"
    using ok t i lo by (auto simp: trail_ok_def)
  have "flatten_loop t' (Some p) acc
      = flatten_loop t' (Some u) (acc @ aunts @ [hashFromByteSlices H (take k items)])"
    if ag: "agree lo u t t'" for t' acc
  proof -
    have "agree lo' r s t'"
      using ag t u r(2) lo by (auto simp: agree_def)
    moreover have "t' ! r = t ! r" "pn_Hash (t' ! q) = pn_Hash (t ! q)"
      using ag r(1,2) u t(1) lo by (auto simp: agree_def)
    ultimately show ?thesis
      using a(1) r q by (simp add: flatten_loop.simps [of t' "Some r"])
  qed
  moreover have "computeHashFromAunts H (int (k + i)) (int (length items))
      (Some (leafHash H (items ! (k + i)))) (aunts @ [hashFromByteSlices H (take k items)])
      = Some (hashFromByteSlices H items)"
    unfolding hashFromByteSlices_split [OF items k]
    by (rule computeHash_right [OF _ k'(1) [symmetric]]) (use items i k' a(2) in auto)
  ultimately show ?thesis
    using p t(1) unfolding trail_ok_def
    by (intro conjI exI [of _ "aunts @ [hashFromByteSlices H (take k items)]"]) simp_all
qed

lemma trails_ok_join:
  assumes L: "trails_ok H (take k items) s lefts lr s1" and R: "trails_ok H (drop k items) s1 rights rr s2"
    and k: "k = nat (split_point (int (length items)))" and items: "2 \<le> length items"
    and t: "t = upd_node rr (\<lambda>n. n\<lparr>pn_Parent := Some (length s2), pn_Left := Some lr\<rparr>)
      (upd_node lr (\<lambda>n. n\<lparr>pn_Parent := Some (length s2), pn_Right := Some rr\<rparr>)
        (s2 @ [new_node (innerHash H (pn_Hash (s2 ! lr)) (pn_Hash (s2 ! rr)))]))"
  shows "trails_ok H items s (lefts @ rights) (length s2) t"
proof -
  let ?u = "length s2"
  have k': "0 < k" "k < length items"
    using split_point_range [OF items] k by auto
  have lr: "length s \<le> lr" "lr < length s1" "s1 ! lr = new_node (hashFromByteSlices H (take k items))"
    using L by (auto simp: trails_ok_def)
  have rr: "length s1 \<le> rr" "rr < ?u" "s2 ! rr = new_node (hashFromByteSlices H (drop k items))"
    using R by (auto simp: trails_ok_def)
  have s2: "s2 ! j = s1 ! j" if "j < length s1" for j
    using R that by (auto simp: trails_ok_def)
  have t_len: "length t = Suc ?u"
    by (simp add: t upd_node_def)
  have t_lr: "t ! lr = (new_node (hashFromByteSlices H (take k items)))
      \<lparr>pn_Parent := Some ?u, pn_Right := Some rr\<rparr>"
    using lr rr s2 by (simp add: t upd_node_def nth_append)
  have t_rr: "t ! rr = (new_node (hashFromByteSlices H (drop k items)))
      \<lparr>pn_Parent := Some ?u, pn_Left := Some lr\<rparr>"
    using lr rr by (simp add: t upd_node_def nth_append)
  have t_other: "t ! j = s2 ! j" if "j < ?u" "j \<noteq> lr" "j \<noteq> rr" for j
    using that by (simp add: t upd_node_def nth_append)
  have t_u: "t ! ?u = new_node (hashFromByteSlices H items)"
    using lr rr s2 by (simp add: t upd_node_def nth_append hashFromByteSlices_split [OF items k]
        new_node_def)
  have t_left: "pn_Hash (t ! j) = pn_Hash (s1 ! j) \<and> (j \<noteq> lr \<longrightarrow> t ! j = s1 ! j)"
    if "j < length s1" for j
    using that lr rr s2 t_lr t_other [of j] by (cases "j = lr") (auto simp: new_node_def)
  have t_right: "pn_Hash (t ! j) = pn_Hash (s2 ! j) \<and> (j \<noteq> rr \<longrightarrow> t ! j = s2 ! j)"
    if "length s1 \<le> j" "j < length s2" for j
    using that lr rr t_rr t_other [of j] by (cases "j = rr") (auto simp: new_node_def)
  have left: "trail_ok H items (length s) ?u t i ((lefts @ rights) ! i)" if "i < k" for i
  proof -
    have "trail_ok H (take k items) (length s) lr s1 i (lefts ! i)" "length lefts = k"
      using L that k' by (auto simp: trails_ok_def)
    then show ?thesis
      using that lr rr t_lr t_left k' t_len t_rr
      by (auto simp: nth_append new_node_def intro!: trail_ok_left [OF _ k items that])
  qed
  have right: "trail_ok H items (length s) ?u t i ((lefts @ rights) ! i)"
    if "k \<le> i" "i < length items" for i
  proof -
    have "trail_ok H (drop k items) (length s1) rr s2 (i - k) (rights ! (i - k))" "length lefts = k"
      using L R that k' by (auto simp: trails_ok_def)
    moreover have "k + (i - k) = i" using that by simp
    ultimately show ?thesis
      using that lr rr t_lr t_right k' t_len t_rr 
        trail_ok_right [OF _ k items, where i = "i - k" and t = t and u = ?u]
      by (simp add: nth_append new_node_def)
  qed
  have all: "trail_ok H items (length s) ?u t i ((lefts @ rights) ! i)" if "i < length items" for i
    using left right that by (cases "i < k") auto
  have "t ! j = s ! j" if "j < length s" for j
    using L R that lr rr t_other [of j] by (auto simp: trails_ok_def)
  moreover have "length (lefts @ rights) = length items"
    using L R k' by (auto simp: trails_ok_def)
  ultimately show ?thesis
    using all lr rr t_u t_len unfolding trails_ok_def by simp
qed

lemma trailsFromByteSlices_ok:
  "trailsFromByteSlices H items s = (ts, r, s') \<Longrightarrow> trails_ok H items s ts r s'"
proof (induction H items s arbitrary: ts r s' rule: trailsFromByteSlices.induct)
  case (1 H items s)
  consider "items = []" | x where "items = [x]" | "2 \<le> length items"
    by (cases items; cases "tl items") auto
  then show ?case
  proof cases
    case 1
    then show ?thesis
      using "1.prems" by (auto simp: trails_ok_def trailsFromByteSlices.simps hashFromByteSlices.simps
          nth_append)
  next
    case (2 x)
    have "trail_ok H [x] (length s) (length s) (s @ [new_node (leafHash H x)]) 0 (length s)"
      unfolding trail_ok_def
      by (auto simp: new_node_def hashFromByteSlices.simps computeHashFromAunts.simps
          intro!: exI [of _ "[]"])
    then show ?thesis
      using 2 "1.prems" by (auto simp: trails_ok_def trailsFromByteSlices.simps hashFromByteSlices.simps
          nth_append)
  next
    case 3
    let ?k = "nat (split_point (int (length items)))"
    obtain lefts lr s1 where L: "trailsFromByteSlices H (take ?k items) s = (lefts, lr, s1)"
      by (metis prod_cases3)
    obtain rights rr s2 where R: "trailsFromByteSlices H (drop ?k items) s1 = (rights, rr, s2)"
      by (metis prod_cases3)
    have ne: "length items \<noteq> 0" "length items \<noteq> 1" using 3 by auto
    have "trails_ok H (take ?k items) s lefts lr s1" "trails_ok H (drop ?k items) s1 rights rr s2"
      by (rule "1.IH"(1) [OF ne refl L], rule "1.IH"(2) [OF ne refl refl L [symmetric] refl R])
    from trails_ok_join [OF this refl 3 refl] show ?thesis
      using "1.prems" ne L R by (auto simp: trailsFromByteSlices.simps [of H items s] Let_def)
  qed
qed

lemma those_all: "(\<And>x. x \<in> set xs \<Longrightarrow> f x = Some (g x)) \<Longrightarrow> those (map f xs) = Some (map g xs)"
  by (induction xs) auto

lemma ProofsFromByteSlices_ok:
  "\<exists>proofs. ProofsFromByteSlices H items = Some (HashFromByteSlices H items, proofs)
     \<and> length proofs = length items
     \<and> (\<forall>i < length items. mp_Total (proofs ! i) = int (length items) \<and> mp_Index (proofs ! i) = int i
          \<and> mp_LeafHash (proofs ! i) = Some (leafHash H (items ! i))
          \<and> ComputeRootHash H (proofs ! i) = Some (HashFromByteSlices H items))"
proof -
  obtain ts r s where T: "trailsFromByteSlices H items [] = (ts, r, s)"
    by (metis prod_cases3)
  then have ok: "trails_ok H items [] ts r s" by (rule trailsFromByteSlices_ok)
  then have r: "s ! r = new_node (hashFromByteSlices H items)" and len: "length ts = length items"
    by (auto simp: trails_ok_def)
  have "\<exists>aunts. FlattenAunts s (ts ! i) = Some aunts
      \<and> computeHashFromAunts H (int i) (int (length items)) (Some (leafHash H (items ! i))) aunts
          = Some (hashFromByteSlices H items)
      \<and> pn_Hash (s ! (ts ! i)) = leafHash H (items ! i)" if "i < length items" for i
  proof -
    have "trail_ok H items 0 r s i (ts ! i)" using ok that by (simp add: trails_ok_def)
    then obtain aunts where a: "flatten_loop s (Some (ts ! i)) [] = flatten_loop s (Some r) aunts"
        "computeHashFromAunts H (int i) (int (length items)) (Some (leafHash H (items ! i))) aunts
          = Some (hashFromByteSlices H items)" "pn_Hash (s ! (ts ! i)) = leafHash H (items ! i)"
      unfolding trail_ok_def agree_def by fastforce
    moreover have "flatten_loop s (Some r) aunts = Some aunts"
      using r by (simp add: flatten_loop.simps new_node_def)
    ultimately show ?thesis by (auto simp: FlattenAunts_def)
  qed
  then obtain A where A: "\<And>i. i < length items \<Longrightarrow> FlattenAunts s (ts ! i) = Some (A i)
      \<and> computeHashFromAunts H (int i) (int (length items)) (Some (leafHash H (items ! i))) (A i)
          = Some (hashFromByteSlices H items)
      \<and> pn_Hash (s ! (ts ! i)) = leafHash H (items ! i)"
    by metis
  let ?P = "\<lambda>i. \<lparr>mp_Total = int (length items), mp_Index = int i,
      mp_LeafHash = Some (leafHash H (items ! i)), mp_Aunts = A i\<rparr>"
  have "those (map (\<lambda>(i, trail). trail_proof s (int (length items)) i trail) (zip [0..<length ts] ts))
      = Some (map (\<lambda>(i, trail). ?P i) (zip [0..<length ts] ts))"
    by (rule those_all) (auto simp: set_zip trail_proof_def A len)
  then have "ProofsFromByteSlices H items
      = Some (HashFromByteSlices H items, map (\<lambda>(i, trail). ?P i) (zip [0..<length ts] ts))"
    by (simp add: ProofsFromByteSlices_def T r new_node_def HashFromByteSlices_def)
  then show ?thesis
    using A len by (auto simp: ComputeRootHash_def HashFromByteSlices_def)
qed

subsection \<open>A proof that verifies proves membership\<close>

text \<open>
  The inputs hashed to build the tree over \<open>items\<close>, and the inputs a verifier hashes to check a proof
  of \<open>leaf\<close>.
\<close>

function tree_inputs :: "(bytes \<Rightarrow> bytes) \<Rightarrow> bytes list \<Rightarrow> bytes list" where
  "tree_inputs H items =
     (if length items = 0 then [[]]
      else if length items = 1 then [leafPrefix @ hd items]
      else (let k = nat (split_point (int (length items)))
            in (innerPrefix @ hashFromByteSlices H (take k items) @ hashFromByteSlices H (drop k items))
               # tree_inputs H (take k items) @ tree_inputs H (drop k items)))"
  by pat_completeness auto
termination
proof (relation "measure (\<lambda>(H, items). length items)", goal_cases)
  case (2 H items k)
  then show ?case using split_point_range [OF two_le_length, of items] by auto
next
  case (3 H items k)
  then show ?case using split_point_range [OF two_le_length, of items] by auto
qed simp

declare tree_inputs.simps [simp del]

function aunt_inputs :: "(bytes \<Rightarrow> bytes) \<Rightarrow> int \<Rightarrow> int \<Rightarrow> bytes option \<Rightarrow> bytes list \<Rightarrow> bytes list" where
  "aunt_inputs H index tot lh hs =
     (if index \<ge> tot \<or> index < 0 \<or> tot \<le> 1 \<or> hs = [] then []
      else (let numLeft = split_point tot in
            if index < numLeft then
              (innerPrefix @ nb (computeHashFromAunts H index numLeft lh (butlast hs)) @ last hs)
              # aunt_inputs H index numLeft lh (butlast hs)
            else
              (innerPrefix @ last hs
                 @ nb (computeHashFromAunts H (index - numLeft) (tot - numLeft) lh (butlast hs)))
              # aunt_inputs H (index - numLeft) (tot - numLeft) lh (butlast hs)))"
  by pat_completeness auto
termination
  by (relation "measure (\<lambda>(H, index, tot, lh, hs). length hs)") auto

declare aunt_inputs.simps [simp del]

definition proof_inputs :: "(bytes \<Rightarrow> bytes) \<Rightarrow> merkle_proof \<Rightarrow> bytes \<Rightarrow> bytes list" where
  "proof_inputs H sp leaf =
     (leafPrefix @ leaf) # aunt_inputs H (mp_Index sp) (mp_Total sp) (mp_LeafHash sp) (mp_Aunts sp)"

definition collision :: "(bytes \<Rightarrow> bytes) \<Rightarrow> bytes list \<Rightarrow> bytes list \<Rightarrow> bool" where
  "collision H xs ys \<longleftrightarrow> (\<exists>x\<in>set xs. \<exists>y\<in>set ys. x \<noteq> y \<and> H x = H y)"

lemma tree_inputs_leaf: "i < length items \<Longrightarrow> leafPrefix @ items ! i \<in> set (tree_inputs H items)"
proof (induction items arbitrary: i rule: length_induct)
  case (1 items)
  show ?case
  proof (cases "2 \<le> length items")
    case True
    let ?k = "nat (split_point (int (length items)))"
    have k: "0 < ?k" "?k < length items" using split_point_range [OF True] by auto
    have "leafPrefix @ items ! i \<in> set (tree_inputs H (take ?k items)) \<union> set (tree_inputs H (drop ?k items))"
    proof (cases "i < ?k")
      case True
      then show ?thesis using 1(1) [rule_format, of "take ?k items" i] 1(2) k by simp
    next
      case False
      then show ?thesis using 1(1) [rule_format, of "drop ?k items" "i - ?k"] 1(2) k by simp
    qed
    with True show ?thesis by (auto simp: tree_inputs.simps [of H items] Let_def)
  next
    case False
    with 1(2) obtain x where "items = [x]" by (cases items; cases "tl items") auto
    with 1(2) show ?thesis by (simp add: tree_inputs.simps)
  qed
qed

lemma hashFromByteSlices_length:
  "\<forall>x. length (H x) = 32 \<Longrightarrow> length (hashFromByteSlices H items) = 32"
  by (subst hashFromByteSlices.simps) (simp add: Let_def emptyHash_def leafHash_def innerHash_def)

lemma computeHash_length:
  assumes "\<forall>x. length (H x) = 32" "computeHashFromAunts H i n (Some lh) as = Some h" "length lh = 32"
  shows "length h = 32"
  using assms by (auto simp: computeHashFromAunts.simps [of H i n] Let_def innerHash_def
      split: if_splits option.splits)

lemma computeHash_leftD:
  assumes "computeHashFromAunts H i n lh hs = Some r" "2 \<le> n" "split_point n = k" "i < k"
  shows "\<exists>h. computeHashFromAunts H i k lh (butlast hs) = Some h \<and> r = innerHash H h (last hs)"
  using assms unfolding computeHashFromAunts.simps [of H i n]
  by (auto simp: Let_def split: if_splits option.splits)

lemma computeHash_rightD:
  assumes "computeHashFromAunts H i n lh hs = Some r" "2 \<le> n" "split_point n = k" "\<not> i < k"
  shows "\<exists>h. computeHashFromAunts H (i - k) (n - k) lh (butlast hs) = Some h
    \<and> r = innerHash H (last hs) h"
  using assms unfolding computeHashFromAunts.simps [of H i n]
  by (auto simp: Let_def split: if_splits option.splits)

lemma computeHash_sound:
  assumes H: "\<forall>x. length (H x) = 32" and lh: "length lh = 32"
    and "computeHashFromAunts H i (int (length items)) (Some lh) as = Some (hashFromByteSlices H items)"
    and "list_all (\<lambda>a. length a = 32) as"
  shows "0 \<le> i \<and> i < int (length items)
    \<and> (lh = leafHash H (items ! nat i)
       \<or> collision H (tree_inputs H items) (aunt_inputs H i (int (length items)) (Some lh) as))"
  using assms(3,4)
proof (induction items arbitrary: i as rule: length_induct)
  case (1 items)
  note IH = 1(1) and comp = 1(2) and as = 1(3)
  have i: "0 \<le> i" "i < int (length items)"
    using comp by (auto simp: computeHashFromAunts.simps [of H i "int (length items)"] split: if_splits)
  consider x where "items = [x]" | "2 \<le> length items"
    using i by (cases items; cases "tl items") auto
  then show ?case
  proof cases
    case (1 x)
    then show ?thesis
      using comp i by (simp add: computeHashFromAunts.simps hashFromByteSlices.simps split: if_splits)
  next
    case 2
    let ?n = "int (length items)"
    define k where "k = nat (split_point ?n)"
    have k: "split_point ?n = int k" "0 < k" "k < length items"
      using split_point_range [OF 2] by (auto simp: k_def)
    let ?l = "take k items" and ?r = "drop k items"
    have root: "hashFromByteSlices H items
        = innerHash H (hashFromByteSlices H ?l) (hashFromByteSlices H ?r)"
      by (rule hashFromByteSlices_split [OF 2 k_def])
    have ti: "tree_inputs H items = (innerPrefix @ hashFromByteSlices H ?l @ hashFromByteSlices H ?r)
        # tree_inputs H ?l @ tree_inputs H ?r"
      using 2 by (subst tree_inputs.simps) (auto simp: Let_def k_def)
    have ne: "as \<noteq> []"
      using comp 2 by (auto simp: computeHashFromAunts.simps [of H i ?n] split: if_splits)
    have lens: "list_all (\<lambda>a. length a = 32) (butlast as)" "length (last as) = 32"
      using as ne by (auto simp: list_all_iff dest: in_set_butlastD)
    note lenH = hashFromByteSlices_length [OF H]
    show ?thesis
    proof (cases "i < int k")
      case True
      then obtain h where h: "computeHashFromAunts H i (int k) (Some lh) (butlast as) = Some h"
          "hashFromByteSlices H items = innerHash H h (last as)"
        using computeHash_leftD [OF comp _ k(1)] 2 by auto
      have ai: "aunt_inputs H i ?n (Some lh) as
          = (innerPrefix @ h @ last as) # aunt_inputs H i (int k) (Some lh) (butlast as)"
        using True i 2 k ne h by (subst aunt_inputs.simps) (simp add: Let_def)
      show ?thesis
      proof (cases "h @ last as = hashFromByteSlices H ?l @ hashFromByteSlices H ?r")
        case True
        then have "h = hashFromByteSlices H ?l"
          using computeHash_length [OF H h(1) lh] lenH by (simp add: append_eq_append_conv)
        then have "lh = leafHash H (?l ! nat i) \<or> collision H (tree_inputs H ?l)
            (aunt_inputs H i (int k) (Some lh) (butlast as))"
          using IH [rule_format, of ?l i "butlast as"] h(1) lens(1) k by (simp add: min_def)
        then show ?thesis
          using i \<open>i < int k\<close> by (auto simp: ti ai collision_def nat_less_iff)
      next
        case False
        then show ?thesis
          using i h(2) root by (auto simp: ti ai collision_def innerHash_def)
      qed
    next
      case False
      then obtain h where h: "computeHashFromAunts H (i - int k) (?n - int k) (Some lh) (butlast as) = Some h"
          "hashFromByteSlices H items = innerHash H (last as) h"
        using computeHash_rightD [OF comp _ k(1)] 2 by auto
      have ai: "aunt_inputs H i ?n (Some lh) as
          = (innerPrefix @ last as @ h) # aunt_inputs H (i - int k) (?n - int k) (Some lh) (butlast as)"
        using False i 2 k ne h by (subst aunt_inputs.simps) (simp add: Let_def)
      show ?thesis
      proof (cases "last as @ h = hashFromByteSlices H ?l @ hashFromByteSlices H ?r")
        case True
        then have "h = hashFromByteSlices H ?r"
          using lens(2) lenH by (simp add: append_eq_append_conv)
        then have "lh = leafHash H (?r ! nat (i - int k)) \<or> collision H (tree_inputs H ?r)
            (aunt_inputs H (i - int k) (?n - int k) (Some lh) (butlast as))"
          using IH [rule_format, of ?r "i - int k" "butlast as"] h(1) lens(1) k by (simp add: of_nat_diff)
        moreover have "?r ! nat (i - int k) = items ! nat i"
          using \<open>\<not> i < int k\<close> i k by (simp add: nat_diff_distrib)
        ultimately show ?thesis
          using i by (auto simp: ti ai collision_def)
      next
        case False
        then show ?thesis
          using i h(2) root by (auto simp: ti ai collision_def innerHash_def)
      qed
    qed
  qed
qed

lemma verified_leaf:
  assumes "\<forall>x. length (H x) = 32"
    and "mp_Verify H sp (HashFromByteSlices H items) leaf = None"
    and "mp_ValidateBasic sp = None" and "mp_Total sp = int (length items)"
    and "\<not> collision H (tree_inputs H items) (proof_inputs H sp leaf)"
  shows "0 \<le> mp_Index sp \<and> mp_Index sp < int (length items) \<and> leaf = items ! nat (mp_Index sp)"
proof -
  let ?lh = "leafHash H leaf"
  have lh: "length ?lh = 32" using assms(1) by (simp add: leafHash_def)
  have "nb (mp_LeafHash sp) = ?lh" and root: "nb (ComputeRootHash H sp) = hashFromByteSlices H items"
    using assms(2) by (auto simp: mp_Verify_def HashFromByteSlices_def split: if_splits)
  then have LH: "mp_LeafHash sp = Some ?lh"
    using lh by (cases "mp_LeafHash sp") auto
  have "ComputeRootHash H sp = Some (hashFromByteSlices H items)"
    using root hashFromByteSlices_length [OF assms(1), of items] by (cases "ComputeRootHash H sp") auto
  then have comp: "computeHashFromAunts H (mp_Index sp) (int (length items)) (Some ?lh) (mp_Aunts sp)
      = Some (hashFromByteSlices H items)"
    by (simp add: ComputeRootHash_def LH assms(4))
  have aunts: "list_all (\<lambda>a. length a = 32) (mp_Aunts sp)"
    using assms(3) by (auto simp: mp_ValidateBasic_def list_ex_iff list_all_iff split: if_splits)
  have idx: "0 \<le> mp_Index sp" "mp_Index sp < int (length items)"
    and leaf: "?lh = leafHash H (items ! nat (mp_Index sp))"
    using computeHash_sound [OF assms(1) lh comp aunts] assms(4,5)
    by (auto simp: proof_inputs_def collision_def LH)
  have "leafPrefix @ items ! nat (mp_Index sp) \<in> set (tree_inputs H items)"
    using idx tree_inputs_leaf [of "nat (mp_Index sp)" items H] by simp
  with leaf assms(5) have "leafPrefix @ leaf = leafPrefix @ items ! nat (mp_Index sp)"
    by (auto simp: collision_def proof_inputs_def leafHash_def)
  with idx show ?thesis by simp
qed

section \<open>Properties\<close>


text \<open>
  C29: \<open>ProofsFromByteSlices\<close> terminates, returns the tree's root and one proof per item, and the proof
  of each item verifies against that root.
\<close>

theorem built_proofs_verify:
  "\<exists>proofs. ProofsFromByteSlices H items = Some (HashFromByteSlices H items, proofs)
     \<and> length proofs = length items
     \<and> (\<forall>i < length items. mp_Index (proofs ! i) = int i
          \<and> mp_Verify H (proofs ! i) (HashFromByteSlices H items) (items ! i) = None)"
proof -
  obtain proofs where "ProofsFromByteSlices H items = Some (HashFromByteSlices H items, proofs)"
      "length proofs = length items"
      "\<forall>i < length items. mp_Total (proofs ! i) = int (length items) \<and> mp_Index (proofs ! i) = int i
          \<and> mp_LeafHash (proofs ! i) = Some (leafHash H (items ! i))
          \<and> ComputeRootHash H (proofs ! i) = Some (HashFromByteSlices H items)"
    using ProofsFromByteSlices_ok by blast
  then show ?thesis by (intro exI [of _ proofs]) (simp add: mp_Verify_def)
qed

theorem built_proofs_verify_witness:
  "\<exists>proofs. ProofsFromByteSlices (\<lambda>x. x) [[1], [2], [3]]
       = Some (HashFromByteSlices (\<lambda>x. x) [[1], [2], [3]], proofs)
     \<and> mp_Verify (\<lambda>x. x) (proofs ! 2) (HashFromByteSlices (\<lambda>x. x) [[1], [2], [3]]) [3] = None"
  using built_proofs_verify [of "\<lambda>x. x" "[[1], [2], [3]]"]
  by (metis (no_types, lifting) One_nat_def Suc_1 lessI list.size(3) list.size(4) nth_Cons_0
      nth_Cons_Suc add_Suc_right add_0_right)


text \<open>A hash with 32-byte digests that tells short inputs apart, for concrete runs.\<close>

definition pad_hash :: "bytes \<Rightarrow> bytes" where
  "pad_hash x = take 32 (x @ replicate 32 0)"

lemma pad_hash_length: "length (pad_hash x) = 32"
  by (simp add: pad_hash_def)

definition sample_proof :: merkle_proof where
  "sample_proof = \<lparr>mp_Total = 2, mp_Index = 0, mp_LeafHash = Some (leafHash pad_hash [5]),
     mp_Aunts = [leafHash pad_hash [6]]\<rparr>"


text \<open>
  \<open>Verify\<close> accepts a proof whose aunts do not fit the tree when the expected root is empty, because
  the nil result of \<open>computeHashFromAunts\<close> compares equal to an empty root.
\<close>

lemma verify_accepts_empty_root:
  assumes "0 \<le> mp_Total sp" "0 \<le> mp_Index sp" "mp_LeafHash sp = Some (leafHash H leaf)"
    and "ComputeRootHash H sp = None"
  shows "mp_Verify H sp [] leaf = None"
  using assms by (simp add: mp_Verify_def)

end
