(* ===== verification/Proto.thy ===== *)
theory Proto
  imports GoPrelude
begin

text \<open>
  The protobuf encodings the signatures and block keys rest on: the generated marshalling code of
  \<open>proto/tendermint/types/canonical.pb.go\<close> (and the identical code for \<open>PartSetHeader\<close> in
  \<open>types.pb.go\<close>), and the length-delimited framing of \<open>internal/libs/protoio/writer.go\<close>.

  The generated code fills a buffer from its end; a message is modelled by the bytes it leaves there,
  one list per field in field order. The sizes it computes beforehand are modelled too, and shown to be the
  lengths of the encodings, which is why the buffer always fits. Timestamps are written by
  \<open>gogo/protobuf\<close>, outside the repository: the parameter \<open>stdTime\<close>.
\<close>

unbundle bit_operations_syntax

section \<open>Fields\<close>

function encodeVarint :: "nat \<Rightarrow> bytes" where
  "encodeVarint v =
     (if v \<ge> 128 then of_nat (v mod 128 + 128) # encodeVarint (v div 128) else [of_nat v])"
  by pat_completeness auto
termination
  by (relation "measure id") auto

declare encodeVarint.simps [simp del]

definition sov :: "nat \<Rightarrow> nat" where
  "sov x = (bits_Len (int (x OR 1)) + 6) div 7"

definition le64 :: "int \<Rightarrow> bytes" where
  "le64 x = le_bytes (word_of_int x)"

definition varint_field :: "byte \<Rightarrow> nat \<Rightarrow> bytes" where
  "varint_field tag v = (if v = 0 then [] else tag # encodeVarint v)"

definition fixed64_field :: "byte \<Rightarrow> int \<Rightarrow> bytes" where
  "fixed64_field tag x = (if x = 0 then [] else tag # le64 x)"

definition message_field :: "byte \<Rightarrow> bytes \<Rightarrow> bytes" where
  "message_field tag m = tag # encodeVarint (length m) @ m"

definition bytes_field :: "byte \<Rightarrow> bytes \<Rightarrow> bytes" where
  "bytes_field tag bs = (if bs = [] then [] else message_field tag bs)"

section \<open>Canonical messages\<close>

record pb_part_set_header =
  pbpsh_Total :: nat
  pbpsh_Hash :: bytes

record pb_canonical_block_id =
  cbid_Hash :: bytes
  cbid_PartSetHeader :: pb_part_set_header

record canonical_vote =
  cv_Type :: int
  cv_Height :: int
  cv_Round :: int
  cv_BlockID :: "pb_canonical_block_id option"
  cv_Timestamp :: int
  cv_ChainID :: bytes

record canonical_proposal =
  cp_Type :: int
  cp_Height :: int
  cp_Round :: int
  cp_POLRound :: int
  cp_BlockID :: "pb_canonical_block_id option"
  cp_Timestamp :: int
  cp_ChainID :: bytes

definition psh_Marshal :: "pb_part_set_header \<Rightarrow> bytes" where
  "psh_Marshal m = varint_field 0x08 (pbpsh_Total m) @ bytes_field 0x12 (pbpsh_Hash m)"

definition cbid_Marshal :: "pb_canonical_block_id \<Rightarrow> bytes" where
  "cbid_Marshal m =
     bytes_field 0x0a (cbid_Hash m) @ message_field 0x12 (psh_Marshal (cbid_PartSetHeader m))"

definition opt_message_field :: "byte \<Rightarrow> bytes option \<Rightarrow> bytes" where
  "opt_message_field tag m = (case m of None \<Rightarrow> [] | Some bs \<Rightarrow> message_field tag bs)"

definition cv_Marshal :: "(int \<Rightarrow> bytes) \<Rightarrow> canonical_vote \<Rightarrow> bytes" where
  "cv_Marshal stdTime m =
     varint_field 0x08 (u64 (cv_Type m)) @ fixed64_field 0x11 (cv_Height m)
     @ fixed64_field 0x19 (cv_Round m)
     @ opt_message_field 0x22 (map_option cbid_Marshal (cv_BlockID m))
     @ message_field 0x2a (stdTime (cv_Timestamp m)) @ bytes_field 0x32 (cv_ChainID m)"

definition cp_Marshal :: "(int \<Rightarrow> bytes) \<Rightarrow> canonical_proposal \<Rightarrow> bytes" where
  "cp_Marshal stdTime m =
     varint_field 0x08 (u64 (cp_Type m)) @ fixed64_field 0x11 (cp_Height m)
     @ fixed64_field 0x19 (cp_Round m) @ varint_field 0x20 (u64 (cp_POLRound m))
     @ opt_message_field 0x2a (map_option cbid_Marshal (cp_BlockID m))
     @ message_field 0x32 (stdTime (cp_Timestamp m)) @ bytes_field 0x3a (cp_ChainID m)"

definition MarshalDelimited :: "bytes \<Rightarrow> bytes" where
  "MarshalDelimited m = encodeVarint (length m) @ m"

subsection \<open>Sizes\<close>

definition psh_Size :: "pb_part_set_header \<Rightarrow> nat" where
  "psh_Size m =
     (if pbpsh_Total m \<noteq> 0 then 1 + sov (pbpsh_Total m) else 0)
     + (let l = length (pbpsh_Hash m) in if l > 0 then 1 + l + sov l else 0)"

definition cbid_Size :: "pb_canonical_block_id \<Rightarrow> nat" where
  "cbid_Size m =
     (let l = length (cbid_Hash m) in if l > 0 then 1 + l + sov l else 0)
     + (let l = psh_Size (cbid_PartSetHeader m) in 1 + l + sov l)"

definition cv_Size :: "(int \<Rightarrow> bytes) \<Rightarrow> canonical_vote \<Rightarrow> nat" where
  "cv_Size stdTime m =
     (if cv_Type m \<noteq> 0 then 1 + sov (u64 (cv_Type m)) else 0)
     + (if cv_Height m \<noteq> 0 then 9 else 0) + (if cv_Round m \<noteq> 0 then 9 else 0)
     + (case cv_BlockID m of None \<Rightarrow> 0 | Some b \<Rightarrow> (let l = cbid_Size b in 1 + l + sov l))
     + (let l = length (stdTime (cv_Timestamp m)) in 1 + l + sov l)
     + (let l = length (cv_ChainID m) in if l > 0 then 1 + l + sov l else 0)"

section \<open>Encodings are unambiguous\<close>

named_theorems wire_inj \<open>one field of an encoding determines its value and the rest\<close>

lemma of_nat_byte_inj: "a < 256 \<Longrightarrow> b < 256 \<Longrightarrow> (of_nat a :: byte) = of_nat b \<longleftrightarrow> a = b"
  by (simp add: word_of_nat_eq_iff take_bit_nat_eq_self)

lemma encodeVarint_cancel:
  "encodeVarint a @ xs = encodeVarint b @ ys \<Longrightarrow> a = b \<and> xs = ys"
proof (induction a arbitrary: b rule: encodeVarint.induct)
  case (1 a)
  have bytes: "a mod 128 + 128 < 256" "b mod 128 + 128 < 256" by auto
  show ?case
  proof (cases "128 \<le> a"; cases "128 \<le> b")
    assume a: "128 \<le> a" and b: "128 \<le> b"
    then have "a mod 128 = b mod 128" "encodeVarint (a div 128) @ xs = encodeVarint (b div 128) @ ys"
      using 1(2) bytes by (auto simp: encodeVarint.simps [of a] encodeVarint.simps [of b] of_nat_byte_inj
          simp del: of_nat_add)
    with 1(1) [OF a] show ?thesis by (metis div_mult_mod_eq)
  qed (use 1(2) bytes in \<open>auto simp: encodeVarint.simps [of a] encodeVarint.simps [of b] of_nat_byte_inj
      simp del: of_nat_add\<close>)
qed

lemma message_field_cancel [wire_inj]:
  "message_field t a @ xs = message_field t b @ ys \<Longrightarrow> a = b \<and> xs = ys"
  unfolding message_field_def using encodeVarint_cancel [of "length a" "a @ xs" "length b" "b @ ys"] by auto

lemma length_le64: "length (le64 x) = 8"
  by (simp add: le64_def le_bytes_def)

lemma le_bytes_inj: "le_bytes v = le_bytes w \<Longrightarrow> v = w"
proof (rule bit_word_eqI)
  fix n assume eq: "le_bytes v = le_bytes w" and "n < LENGTH(64)"
  then have n: "n div 8 < 8" by simp
  have "le_bytes u ! (n div 8) = ucast (drop_bit (8 * (n div 8)) u)" for u
    using n by (simp add: le_bytes_def)
  then have "bit (ucast (drop_bit (8 * (n div 8)) v) :: byte) (n mod 8)
      = bit (ucast (drop_bit (8 * (n div 8)) w) :: byte) (n mod 8)"
    using eq by metis
  then show "bit v n = bit w n"
    by (simp add: bit_ucast_iff bit_drop_bit_eq)
qed

lemma le64_inj: "in_i64 x \<Longrightarrow> in_i64 y \<Longrightarrow> le64 x = le64 y \<Longrightarrow> x = y"
proof (rule u64_inj)
  assume "le64 x = le64 y"
  then have "(word_of_int x :: 64 word) = word_of_int y"
    unfolding le64_def by (rule le_bytes_inj)
  then show "u64 x = u64 y"
    by (simp add: u64_def word_of_int_eq_iff take_bit_eq_mod)
qed

text \<open>The tag that a sequence of fields starts with tells whether an optional field is present.\<close>

fun starts :: "byte \<Rightarrow> bytes \<Rightarrow> bool" where
  "starts t [] = False"
| "starts t (x # xs) = (x = t)"

lemma starts_fields [simp]:
  "starts t (varint_field t' v @ r) \<longleftrightarrow> v \<noteq> 0 \<and> t' = t \<or> v = 0 \<and> starts t r"
  "starts t (fixed64_field t' i @ r) \<longleftrightarrow> i \<noteq> 0 \<and> t' = t \<or> i = 0 \<and> starts t r"
  "starts t (message_field t' m @ r) = (t' = t)"
  "starts t (message_field t' m) = (t' = t)"
  "starts t (bytes_field t' m @ r) \<longleftrightarrow> m \<noteq> [] \<and> t' = t \<or> m = [] \<and> starts t r"
  "starts t (bytes_field t' m) = (m \<noteq> [] \<and> t' = t)"
  "starts t (opt_message_field t' om @ r) \<longleftrightarrow> om \<noteq> None \<and> t' = t \<or> om = None \<and> starts t r"
  by (auto simp: varint_field_def fixed64_field_def message_field_def bytes_field_def
      opt_message_field_def split: option.splits)

lemma varint_field_cancel [wire_inj]:
  assumes "varint_field t a @ xs = varint_field t b @ ys" "\<not> starts t xs" "\<not> starts t ys"
  shows "a = b \<and> xs = ys"
  using assms encodeVarint_cancel [of a xs b ys]
  by (cases "a = 0"; cases "b = 0") (auto simp: varint_field_def)

lemma fixed64_field_cancel [wire_inj]:
  assumes "fixed64_field t a @ xs = fixed64_field t b @ ys" "\<not> starts t xs" "\<not> starts t ys"
    "in_i64 a" "in_i64 b"
  shows "a = b \<and> xs = ys"
  using assms le64_inj [of a b]
  by (cases "a = 0"; cases "b = 0") (auto simp: fixed64_field_def length_le64 append_eq_append_conv)

lemma bytes_field_cancel [wire_inj]:
  assumes "bytes_field t a @ xs = bytes_field t b @ ys" "\<not> starts t xs" "\<not> starts t ys"
  shows "a = b \<and> xs = ys"
  using assms message_field_cancel [of t a xs b ys]
  by (cases "a = []"; cases "b = []") (auto simp: bytes_field_def message_field_def)

lemma opt_message_field_cancel [wire_inj]:
  assumes "opt_message_field t a @ xs = opt_message_field t b @ ys" "\<not> starts t xs" "\<not> starts t ys"
  shows "a = b \<and> xs = ys"
proof (cases a; cases b)
  fix x y assume "a = Some x" "b = Some y"
  with assms(1) message_field_cancel [of t x xs y ys] show ?thesis
    by (auto simp: opt_message_field_def)
qed (use assms in \<open>auto simp: opt_message_field_def message_field_def\<close>)

lemma bytes_field_inj: "bytes_field t a = bytes_field t b \<Longrightarrow> a = b"
  using bytes_field_cancel [of t a "[]" b "[]"] by simp

lemma psh_Marshal_inj: "psh_Marshal a = psh_Marshal b \<Longrightarrow> a = b"
  unfolding psh_Marshal_def
  using varint_field_cancel [of "0x08" "pbpsh_Total a" "bytes_field 0x12 (pbpsh_Hash a)" "pbpsh_Total b"
      "bytes_field 0x12 (pbpsh_Hash b)"] bytes_field_inj [of "0x12" "pbpsh_Hash a" "pbpsh_Hash b"]
  by auto

lemma cbid_Marshal_inj:
  assumes "cbid_Marshal a = cbid_Marshal b"
  shows "a = b"
proof -
  have eq: "cbid_Hash a = cbid_Hash b"
      "message_field 0x12 (psh_Marshal (cbid_PartSetHeader a)) @ []
        = message_field 0x12 (psh_Marshal (cbid_PartSetHeader b)) @ []"
    using bytes_field_cancel [OF assms [unfolded cbid_Marshal_def]] by auto
  then show ?thesis
    using message_field_cancel [OF eq(2)] psh_Marshal_inj by auto
qed

lemma cv_Marshal_inj:
  assumes eq: "cv_Marshal stdTime a = cv_Marshal stdTime b" and time: "inj stdTime"
    and a: "in_i64 (cv_Type a)" "in_i64 (cv_Height a)" "in_i64 (cv_Round a)"
    and b: "in_i64 (cv_Type b)" "in_i64 (cv_Height b)" "in_i64 (cv_Round b)"
  shows "a = b"
proof -
  let ?r5 = "\<lambda>m. bytes_field 0x32 (cv_ChainID m)"
  let ?r4 = "\<lambda>m. message_field 0x2a (stdTime (cv_Timestamp m)) @ ?r5 m"
  let ?r3 = "\<lambda>m. opt_message_field 0x22 (map_option cbid_Marshal (cv_BlockID m)) @ ?r4 m"
  let ?r2 = "\<lambda>m. fixed64_field 0x19 (cv_Round m) @ ?r3 m"
  let ?r1 = "\<lambda>m. fixed64_field 0x11 (cv_Height m) @ ?r2 m"
  have c1: "u64 (cv_Type a) = u64 (cv_Type b) \<and> ?r1 a = ?r1 b"
    using varint_field_cancel [OF eq [unfolded cv_Marshal_def]] by simp
  then have 1: "cv_Type a = cv_Type b" using u64_inj a(1) b(1) by simp
  have c2: "cv_Height a = cv_Height b \<and> ?r2 a = ?r2 b"
    using fixed64_field_cancel [OF c1 [THEN conjunct2] _ _ a(2) b(2)] by simp
  have c3: "cv_Round a = cv_Round b \<and> ?r3 a = ?r3 b"
    using fixed64_field_cancel [OF c2 [THEN conjunct2] _ _ a(3) b(3)] by simp
  have c4: "map_option cbid_Marshal (cv_BlockID a) = map_option cbid_Marshal (cv_BlockID b)
      \<and> ?r4 a = ?r4 b"
    using opt_message_field_cancel [OF c3 [THEN conjunct2]] by simp
  then have 4: "cv_BlockID a = cv_BlockID b"
    by (auto intro: option.inj_map_strong [rotated] simp: cbid_Marshal_inj)
  have c5: "stdTime (cv_Timestamp a) = stdTime (cv_Timestamp b) \<and> ?r5 a = ?r5 b"
    using message_field_cancel [OF c4 [THEN conjunct2]] by simp
  have 5: "cv_Timestamp a = cv_Timestamp b" using c5 time by (auto dest: injD)
  have 6: "cv_ChainID a = cv_ChainID b" using c5 by (auto dest: bytes_field_inj)
  show ?thesis using 1 c2 c3 4 5 6 by simp
qed

lemma MarshalDelimited_inj: "MarshalDelimited a = MarshalDelimited b \<Longrightarrow> a = b"
  unfolding MarshalDelimited_def by (drule encodeVarint_cancel) simp

lemma cp_Marshal_inj:
  assumes eq: "cp_Marshal stdTime a = cp_Marshal stdTime b" and time: "inj stdTime"
    and a: "in_i64 (cp_Type a)" "in_i64 (cp_Height a)" "in_i64 (cp_Round a)" "in_i64 (cp_POLRound a)"
    and b: "in_i64 (cp_Type b)" "in_i64 (cp_Height b)" "in_i64 (cp_Round b)" "in_i64 (cp_POLRound b)"
  shows "a = b"
proof -
  let ?r6 = "\<lambda>m. bytes_field 0x3a (cp_ChainID m)"
  let ?r5 = "\<lambda>m. message_field 0x32 (stdTime (cp_Timestamp m)) @ ?r6 m"
  let ?r4 = "\<lambda>m. opt_message_field 0x2a (map_option cbid_Marshal (cp_BlockID m)) @ ?r5 m"
  let ?r3 = "\<lambda>m. varint_field 0x20 (u64 (cp_POLRound m)) @ ?r4 m"
  let ?r2 = "\<lambda>m. fixed64_field 0x19 (cp_Round m) @ ?r3 m"
  let ?r1 = "\<lambda>m. fixed64_field 0x11 (cp_Height m) @ ?r2 m"
  have c1: "u64 (cp_Type a) = u64 (cp_Type b) \<and> ?r1 a = ?r1 b"
    using varint_field_cancel [OF eq [unfolded cp_Marshal_def]] by simp
  have c2: "cp_Height a = cp_Height b \<and> ?r2 a = ?r2 b"
    using fixed64_field_cancel [OF c1 [THEN conjunct2] _ _ a(2) b(2)] by simp
  have c3: "cp_Round a = cp_Round b \<and> ?r3 a = ?r3 b"
    using fixed64_field_cancel [OF c2 [THEN conjunct2] _ _ a(3) b(3)] by simp
  have c4: "u64 (cp_POLRound a) = u64 (cp_POLRound b) \<and> ?r4 a = ?r4 b"
    using varint_field_cancel [OF c3 [THEN conjunct2]] by simp
  have c5: "map_option cbid_Marshal (cp_BlockID a) = map_option cbid_Marshal (cp_BlockID b)
      \<and> ?r5 a = ?r5 b"
    using opt_message_field_cancel [OF c4 [THEN conjunct2]] by simp
  then have bid: "cp_BlockID a = cp_BlockID b"
    by (auto intro: option.inj_map_strong [rotated] simp: cbid_Marshal_inj)
  have c6: "stdTime (cp_Timestamp a) = stdTime (cp_Timestamp b) \<and> ?r6 a = ?r6 b"
    using message_field_cancel [OF c5 [THEN conjunct2]] by simp
  have ts: "cp_Timestamp a = cp_Timestamp b" using c6 time by (auto dest: injD)
  have chain: "cp_ChainID a = cp_ChainID b" using c6 by (auto dest: bytes_field_inj)
  have "cp_Type a = cp_Type b" "cp_POLRound a = cp_POLRound b"
    using c1 c4 u64_inj a b by auto
  with c2 c3 bid ts chain show ?thesis by simp
qed

text \<open>A vote and a proposal never have the same sign bytes: their type fields differ.\<close>

lemma cv_cp_Marshal_neq:
  assumes "in_i64 (cv_Type v)" "in_i64 (cp_Type p)" "cv_Type v \<noteq> cp_Type p"
    "cv_Type v \<noteq> 0" "cp_Type p \<noteq> 0"
  shows "cv_Marshal stdTime v \<noteq> cp_Marshal stdTime p"
proof
  assume eq: "cv_Marshal stdTime v = cp_Marshal stdTime p"
  have nz: "u64 (cv_Type v) \<noteq> 0" "u64 (cp_Type p) \<noteq> 0"
    using u64_inj [of _ 0] assms by (auto simp: u64_def [of 0])
  then have "u64 (cv_Type v) = u64 (cp_Type p)"
    using eq unfolding cv_Marshal_def cp_Marshal_def
    by (auto simp: varint_field_def dest: encodeVarint_cancel)
  then show False using u64_inj assms by blast
qed

subsection \<open>The computed sizes are the lengths\<close>

lemma bits_Len_half: "0 < n \<Longrightarrow> bits_Len n = Suc (bits_Len (n div 2))"
  by (subst bits_Len.simps) simp

lemma bits_Len_128:
  assumes "64 \<le> n"
  shows "bits_Len n = bits_Len (n div 128) + 7"
proof -
  have step: "bits_Len (n div 2 ^ k) = Suc (bits_Len (n div 2 ^ Suc k))" if "k \<le> 6" for k
  proof -
    have "(2 :: int) ^ k \<le> 2 ^ 6" using that by (rule power_increasing) simp
    then have "0 < n div 2 ^ k" using assms by (simp add: pos_imp_zdiv_pos_iff)
    then show ?thesis by (subst bits_Len_half) (simp_all add: zdiv_zmult2_eq [symmetric] mult.commute)
  qed
  show ?thesis
    using step [of 0] step [of 1] step [of 2] step [of 3] step [of 4] step [of 5] step [of 6] by simp
qed

lemma bits_Len_small: "0 \<le> n \<Longrightarrow> n < 64 \<Longrightarrow> bits_Len n \<le> 6"
proof (cases "n = 0")
  case False
  assume "0 \<le> n" "n < 64"
  with False bits_Len_bounds [of n] have "(2 :: int) ^ (bits_Len n - 1) < 2 ^ 6" by auto
  then have "bits_Len n - 1 < 6" by (subst (asm) power_strict_increasing_iff) auto
  then show ?thesis by simp
qed (simp add: bits_Len.simps)

lemma sov_half: "sov v = (bits_Len (int (v div 2)) + 7) div 7"
proof -
  define q where "q = v div 2"
  have "v OR 1 = 2 * q + 1" unfolding q_def by (cases "even v") (auto simp: or_one_eq elim: oddE simp del: One_nat_def)
  then have "bits_Len (int (v OR 1)) = Suc (bits_Len (int q))"
    by (subst bits_Len_half) simp_all
  then show ?thesis by (simp add: sov_def q_def)
qed

lemma sov_length: "sov v = length (encodeVarint v)"
proof (induction v rule: encodeVarint.induct)
  case (1 v)
  show ?case
  proof (cases "128 \<le> v")
    case True
    have "int (v div 2) div 128 = int (v div 128 div 2)"
      by (simp add: zdiv_int zdiv_zmult2_eq [symmetric])
    then have "bits_Len (int (v div 2)) = bits_Len (int (v div 128 div 2)) + 7"
      using bits_Len_128 [of "int (v div 2)"] True by simp
    then have "sov v = sov (v div 128) + 1" by (simp add: sov_half)
    then show ?thesis
      using 1 True by (simp add: encodeVarint.simps [of v])
  next
    case False
    then have "bits_Len (int (v div 2)) \<le> 6" by (intro bits_Len_small) auto
    then have "sov v = 1" by (simp add: sov_half)
    with False show ?thesis by (simp add: encodeVarint.simps [of v])
  qed
qed

lemma length_fields:
  "length (varint_field t v) = (if v \<noteq> 0 then 1 + sov v else 0)"
  "length (fixed64_field t x) = (if x \<noteq> 0 then 9 else 0)"
  "length (message_field t m) = 1 + length m + sov (length m)"
  "length (bytes_field t m) = (if 0 < length m then 1 + length m + sov (length m) else 0)"
  by (simp_all add: varint_field_def fixed64_field_def message_field_def bytes_field_def sov_length
      length_le64)

lemma psh_Size_eq: "psh_Size m = length (psh_Marshal m)"
  by (simp add: psh_Size_def psh_Marshal_def length_fields Let_def)

lemma cbid_Size_eq: "cbid_Size m = length (cbid_Marshal m)"
  by (simp add: cbid_Size_def cbid_Marshal_def length_fields psh_Size_eq Let_def)

section \<open>Properties\<close>

text \<open>
  The size that the generated code computes before it allocates the buffer of a canonical vote is
  the length of the encoding, so the buffer it fills from the end is filled exactly.
\<close>

theorem canonical_vote_size_exact:
  assumes "in_i64 (cv_Type m)"
  shows "cv_Size stdTime m = length (cv_Marshal stdTime m)"
proof -
  have "u64 (cv_Type m) = 0 \<longleftrightarrow> cv_Type m = 0"
    using u64_inj [OF assms, of 0] by (auto simp: u64_def [of 0])
  then show ?thesis
    by (auto simp: cv_Size_def cv_Marshal_def length_fields cbid_Size_eq Let_def opt_message_field_def
        split: option.splits)
qed

theorem canonical_vote_size_exact_witness:
  "cv_Size (\<lambda>t. [8, 5]) \<lparr>cv_Type = 2, cv_Height = 3, cv_Round = 0, cv_BlockID = None,
     cv_Timestamp = 5, cv_ChainID = [0x61]\<rparr>
   = length (cv_Marshal (\<lambda>t. [8, 5]) \<lparr>cv_Type = 2, cv_Height = 3, cv_Round = 0, cv_BlockID = None,
     cv_Timestamp = 5, cv_ChainID = [0x61]\<rparr>)"
  by (rule canonical_vote_size_exact) (simp add: in_i64_def)

end
