(* ===== verification/BlockTypes.thy ===== *)
theory BlockTypes
  imports BitArray Merkle Proto
begin

text \<open>
  The data that votes and commits are made of: \<open>PartSetHeader\<close> (\<open>types/part_set.go\<close>), \<open>BlockID\<close>,
  \<open>CommitSig\<close> and \<open>Commit\<close> (\<open>types/block.go\<close>), \<open>Vote\<close> (\<open>types/vote.go\<close>), their canonical forms
  (\<open>types/canonical.go\<close>), and their protobuf counterparts.

  A \<open>uint32\<close> is a \<open>nat\<close>, a \<open>time.Time\<close> the number of nanoseconds since the epoch, a hash or an address
  a byte list whose empty value stands for nil (the code only takes lengths and compares bytes).
  What the code calls outside the repository is the record \<open>env\<close>: SHA-256, the address of a
  public key, signature verification and the encoding of timestamps.
\<close>

section \<open>The environment\<close>

record env =
  env_Sum :: "bytes \<Rightarrow> bytes"
  env_Address :: "bytes \<Rightarrow> bytes"
  env_VerifySignature :: "bytes \<Rightarrow> bytes \<Rightarrow> bytes \<Rightarrow> bool"
  env_StdTime :: "int \<Rightarrow> bytes"

definition AddressSize :: nat where
  "AddressSize = 20"

definition MaxSignatureSize :: int where
  "MaxSignatureSize = MaxInt 64 64"

text \<open>\<open>time.Time{}\<close>, the first of January of year 1.\<close>

definition zero_time :: int where
  "zero_time = -62135596800 * 10 ^ 9"

abbreviation (input) PrevoteType :: int where "PrevoteType \<equiv> 1"
abbreviation (input) PrecommitType :: int where "PrecommitType \<equiv> 2"
abbreviation (input) ProposalType :: int where "ProposalType \<equiv> 32"

datatype basic_error = ErrWrongHashSize | ErrNilMessage | ErrInvalidType | ErrNegativeHeight
  | ErrNegativeRound | ErrZeroHeight | ErrBlockIDIncomplete | ErrAddressSize | ErrNegativeValidatorIndex
  | ErrSignatureMissing | ErrSignatureTooBig | ErrUnknownBlockIDFlag | ErrAddressPresent | ErrTimePresent
  | ErrSignaturePresent | ErrCommitNilBlock | ErrNoSignatures | ErrTooBig | ErrBadProof proof_error

definition IsVoteTypeValid :: "int \<Rightarrow> bool" where
  "IsVoteTypeValid t \<longleftrightarrow> t = PrevoteType \<or> t = PrecommitType"

definition ValidateHash :: "bytes \<Rightarrow> basic_error option" where
  "ValidateHash h =
     (if length h > 0 \<and> length h \<noteq> tmhash_Size then Some ErrWrongHashSize else None)"

section \<open>Part set headers and block identifiers\<close>

record part_set_header =
  psh_Total :: nat
  psh_Hash :: bytes

definition psh_IsZero :: "part_set_header \<Rightarrow> bool" where
  "psh_IsZero psh \<longleftrightarrow> psh_Total psh = 0 \<and> length (psh_Hash psh) = 0"

definition psh_Equals :: "part_set_header \<Rightarrow> part_set_header \<Rightarrow> bool" where
  "psh_Equals psh other \<longleftrightarrow> psh_Total psh = psh_Total other \<and> psh_Hash psh = psh_Hash other"

definition psh_ValidateBasic :: "part_set_header \<Rightarrow> basic_error option" where
  "psh_ValidateBasic psh = ValidateHash (psh_Hash psh)"

definition psh_ToProto :: "part_set_header \<Rightarrow> pb_part_set_header" where
  "psh_ToProto psh = \<lparr>pbpsh_Total = psh_Total psh, pbpsh_Hash = psh_Hash psh\<rparr>"

definition PartSetHeaderFromProto :: "pb_part_set_header \<Rightarrow> basic_error + part_set_header" where
  "PartSetHeaderFromProto ppsh =
     (let psh = \<lparr>psh_Total = pbpsh_Total ppsh, psh_Hash = pbpsh_Hash ppsh\<rparr> in
      case psh_ValidateBasic psh of Some e \<Rightarrow> Inl e | None \<Rightarrow> Inr psh)"

record block_id =
  bid_Hash :: bytes
  bid_PartSetHeader :: part_set_header

definition zero_block_id :: block_id where
  "zero_block_id = \<lparr>bid_Hash = [], bid_PartSetHeader = \<lparr>psh_Total = 0, psh_Hash = []\<rparr>\<rparr>"

definition bid_Equals :: "block_id \<Rightarrow> block_id \<Rightarrow> bool" where
  "bid_Equals b other \<longleftrightarrow>
     bid_Hash b = bid_Hash other \<and> psh_Equals (bid_PartSetHeader b) (bid_PartSetHeader other)"

text \<open>
  \<open>fmt.Sprint\<close> of two strings: no space is added between operands when both are strings.
\<close>

definition bid_Key :: "block_id \<Rightarrow> bytes" where
  "bid_Key b = bid_Hash b @ psh_Marshal (psh_ToProto (bid_PartSetHeader b))"

definition bid_ValidateBasic :: "block_id \<Rightarrow> basic_error option" where
  "bid_ValidateBasic b =
     (case ValidateHash (bid_Hash b) of
        Some e \<Rightarrow> Some e
      | None \<Rightarrow> psh_ValidateBasic (bid_PartSetHeader b))"

definition bid_IsZero :: "block_id \<Rightarrow> bool" where
  "bid_IsZero b \<longleftrightarrow> length (bid_Hash b) = 0 \<and> psh_IsZero (bid_PartSetHeader b)"

definition bid_IsComplete :: "block_id \<Rightarrow> bool" where
  "bid_IsComplete b \<longleftrightarrow> length (bid_Hash b) = tmhash_Size \<and> psh_Total (bid_PartSetHeader b) > 0
     \<and> length (psh_Hash (bid_PartSetHeader b)) = tmhash_Size"

record pb_block_id =
  pbbid_Hash :: bytes
  pbbid_PartSetHeader :: pb_part_set_header

definition bid_ToProto :: "block_id \<Rightarrow> pb_block_id" where
  "bid_ToProto b =
     \<lparr>pbbid_Hash = bid_Hash b, pbbid_PartSetHeader = psh_ToProto (bid_PartSetHeader b)\<rparr>"

definition BlockIDFromProto :: "pb_block_id \<Rightarrow> basic_error + block_id" where
  "BlockIDFromProto bID =
     (case PartSetHeaderFromProto (pbbid_PartSetHeader bID) of
        Inl e \<Rightarrow> Inl e
      | Inr ph \<Rightarrow>
          (let b = \<lparr>bid_Hash = pbbid_Hash bID, bid_PartSetHeader = ph\<rparr> in
           case bid_ValidateBasic b of Some e \<Rightarrow> Inl e | None \<Rightarrow> Inr b))"

section \<open>Votes\<close>

record vote =
  v_Type :: int
  v_Height :: int
  v_Round :: int
  v_BlockID :: block_id
  v_Timestamp :: int
  v_ValidatorAddress :: bytes
  v_ValidatorIndex :: int
  v_Signature :: bytes

record pb_vote =
  pbv_Type :: int
  pbv_Height :: int
  pbv_Round :: int
  pbv_BlockID :: pb_block_id
  pbv_Timestamp :: int
  pbv_ValidatorAddress :: bytes
  pbv_ValidatorIndex :: int
  pbv_Signature :: bytes

definition v_ToProto :: "vote \<Rightarrow> pb_vote" where
  "v_ToProto v =
     \<lparr>pbv_Type = v_Type v, pbv_Height = v_Height v, pbv_Round = v_Round v,
      pbv_BlockID = bid_ToProto (v_BlockID v), pbv_Timestamp = v_Timestamp v,
      pbv_ValidatorAddress = v_ValidatorAddress v, pbv_ValidatorIndex = v_ValidatorIndex v,
      pbv_Signature = v_Signature v\<rparr>"

text \<open>The canonical form panics on a block identifier that does not convert.\<close>

definition CanonicalizePartSetHeader :: "pb_part_set_header \<Rightarrow> pb_part_set_header" where
  "CanonicalizePartSetHeader psh = psh"

definition CanonicalizeBlockID :: "pb_block_id \<Rightarrow> pb_canonical_block_id option option" where
  "CanonicalizeBlockID bid =
     (case BlockIDFromProto bid of
        Inl _ \<Rightarrow> None
      | Inr rbid \<Rightarrow>
          (if bid_IsZero rbid then Some None
           else Some (Some \<lparr>cbid_Hash = pbbid_Hash bid,
                            cbid_PartSetHeader = CanonicalizePartSetHeader (pbbid_PartSetHeader bid)\<rparr>)))"

definition CanonicalizeVote :: "bytes \<Rightarrow> pb_vote \<Rightarrow> canonical_vote option" where
  "CanonicalizeVote chainID v =
     map_option (\<lambda>bid. \<lparr>cv_Type = pbv_Type v, cv_Height = pbv_Height v, cv_Round = pbv_Round v,
                        cv_BlockID = bid, cv_Timestamp = pbv_Timestamp v, cv_ChainID = chainID\<rparr>)
       (CanonicalizeBlockID (pbv_BlockID v))"

definition VoteSignBytes :: "env \<Rightarrow> bytes \<Rightarrow> pb_vote \<Rightarrow> bytes option" where
  "VoteSignBytes E chainID v =
     map_option (\<lambda>pb. MarshalDelimited (cv_Marshal (env_StdTime E) pb)) (CanonicalizeVote chainID v)"

datatype vote_error = ErrVoteUnexpectedStep | ErrVoteInvalidValidatorIndex
  | ErrVoteInvalidValidatorAddress | ErrVoteInvalidSignature | ErrVoteInvalidBlockHash
  | ErrVoteNonDeterministicSignature | ErrVoteNil | ErrVoteConflictingVotes vote vote

definition v_Verify :: "env \<Rightarrow> bytes \<Rightarrow> bytes \<Rightarrow> vote \<Rightarrow> vote_error option option" where
  "v_Verify E chainID pubKey v =
     (if env_Address E pubKey \<noteq> v_ValidatorAddress v then Some (Some ErrVoteInvalidValidatorAddress)
      else do {
        bz \<leftarrow> VoteSignBytes E chainID (v_ToProto v);
        if \<not> env_VerifySignature E pubKey bz (v_Signature v) then Some (Some ErrVoteInvalidSignature)
        else Some None
      })"

definition v_ValidateBasic :: "vote \<Rightarrow> basic_error option" where
  "v_ValidateBasic v =
     (if \<not> IsVoteTypeValid (v_Type v) then Some ErrInvalidType
      else if v_Height v < 0 then Some ErrNegativeHeight
      else if v_Round v < 0 then Some ErrNegativeRound
      else case bid_ValidateBasic (v_BlockID v) of
        Some e \<Rightarrow> Some e
      | None \<Rightarrow>
          (if \<not> bid_IsZero (v_BlockID v) \<and> \<not> bid_IsComplete (v_BlockID v) then Some ErrBlockIDIncomplete
           else if length (v_ValidatorAddress v) \<noteq> AddressSize then Some ErrAddressSize
           else if v_ValidatorIndex v < 0 then Some ErrNegativeValidatorIndex
           else if length (v_Signature v) = 0 then Some ErrSignatureMissing
           else if int (length (v_Signature v)) > MaxSignatureSize then Some ErrSignatureTooBig
           else None))"

definition VoteFromProto :: "pb_vote \<Rightarrow> basic_error + vote" where
  "VoteFromProto pv =
     (case BlockIDFromProto (pbv_BlockID pv) of
        Inl e \<Rightarrow> Inl e
      | Inr blockID \<Rightarrow>
          (let v = \<lparr>v_Type = pbv_Type pv, v_Height = pbv_Height pv, v_Round = pbv_Round pv,
                    v_BlockID = blockID, v_Timestamp = pbv_Timestamp pv,
                    v_ValidatorAddress = pbv_ValidatorAddress pv,
                    v_ValidatorIndex = pbv_ValidatorIndex pv, v_Signature = pbv_Signature pv\<rparr> in
           case v_ValidateBasic v of Some e \<Rightarrow> Inl e | None \<Rightarrow> Inr v))"

section \<open>Commits\<close>

abbreviation (input) BlockIDFlagAbsent :: int where "BlockIDFlagAbsent \<equiv> 1"
abbreviation (input) BlockIDFlagCommit :: int where "BlockIDFlagCommit \<equiv> 2"
abbreviation (input) BlockIDFlagNil :: int where "BlockIDFlagNil \<equiv> 3"

record commit_sig =
  cs_BlockIDFlag :: int
  cs_ValidatorAddress :: bytes
  cs_Timestamp :: int
  cs_Signature :: bytes

definition NewCommitSigForBlock :: "bytes \<Rightarrow> bytes \<Rightarrow> int \<Rightarrow> commit_sig" where
  "NewCommitSigForBlock sig valAddr ts =
     \<lparr>cs_BlockIDFlag = BlockIDFlagCommit, cs_ValidatorAddress = valAddr, cs_Timestamp = ts,
      cs_Signature = sig\<rparr>"

definition NewCommitSigAbsent :: commit_sig where
  "NewCommitSigAbsent =
     \<lparr>cs_BlockIDFlag = BlockIDFlagAbsent, cs_ValidatorAddress = [], cs_Timestamp = zero_time,
      cs_Signature = []\<rparr>"

definition cs_ForBlock :: "commit_sig \<Rightarrow> bool" where
  "cs_ForBlock cs \<longleftrightarrow> cs_BlockIDFlag cs = BlockIDFlagCommit"

definition cs_Absent :: "commit_sig \<Rightarrow> bool" where
  "cs_Absent cs \<longleftrightarrow> cs_BlockIDFlag cs = BlockIDFlagAbsent"

definition cs_BlockID :: "commit_sig \<Rightarrow> block_id \<Rightarrow> block_id option" where
  "cs_BlockID cs commitBlockID =
     (if cs_BlockIDFlag cs = BlockIDFlagAbsent then Some zero_block_id
      else if cs_BlockIDFlag cs = BlockIDFlagCommit then Some commitBlockID
      else if cs_BlockIDFlag cs = BlockIDFlagNil then Some zero_block_id
      else None)"

definition cs_ValidateBasic :: "commit_sig \<Rightarrow> basic_error option" where
  "cs_ValidateBasic cs =
     (if cs_BlockIDFlag cs \<notin> {BlockIDFlagAbsent, BlockIDFlagCommit, BlockIDFlagNil}
      then Some ErrUnknownBlockIDFlag
      else if cs_BlockIDFlag cs = BlockIDFlagAbsent then
        (if length (cs_ValidatorAddress cs) \<noteq> 0 then Some ErrAddressPresent
         else if cs_Timestamp cs \<noteq> zero_time then Some ErrTimePresent
         else if length (cs_Signature cs) \<noteq> 0 then Some ErrSignaturePresent
         else None)
      else
        (if length (cs_ValidatorAddress cs) \<noteq> AddressSize then Some ErrAddressSize
         else if length (cs_Signature cs) = 0 then Some ErrSignatureMissing
         else if int (length (cs_Signature cs)) > MaxSignatureSize then Some ErrSignatureTooBig
         else None))"

text \<open>\<open>Vote.CommitSig\<close>: a nil vote is absent, an incomplete block identifier panics.\<close>

definition v_CommitSig :: "vote option \<Rightarrow> commit_sig option" where
  "v_CommitSig v =
     (case v of
        None \<Rightarrow> Some NewCommitSigAbsent
      | Some vt \<Rightarrow>
          do {
            flag \<leftarrow> (if bid_IsComplete (v_BlockID vt) then Some BlockIDFlagCommit
                     else if bid_IsZero (v_BlockID vt) then Some BlockIDFlagNil
                     else None);
            Some \<lparr>cs_BlockIDFlag = flag, cs_ValidatorAddress = v_ValidatorAddress vt,
                  cs_Timestamp = v_Timestamp vt, cs_Signature = v_Signature vt\<rparr>
          })"

text \<open>The memoized hash and bit array of a commit are recomputed where they are used.\<close>

record commit =
  c_Height :: int
  c_Round :: int
  c_BlockID :: block_id
  c_Signatures :: "commit_sig list"

definition NewCommit :: "int \<Rightarrow> int \<Rightarrow> block_id \<Rightarrow> commit_sig list \<Rightarrow> commit" where
  "NewCommit height rnd blockID commitSigs =
     \<lparr>c_Height = height, c_Round = rnd, c_BlockID = blockID, c_Signatures = commitSigs\<rparr>"

definition c_GetVote :: "commit \<Rightarrow> int \<Rightarrow> vote option" where
  "c_GetVote c valIdx =
     do {
       commitSig \<leftarrow> go_index (c_Signatures c) valIdx;
       blockID \<leftarrow> cs_BlockID commitSig (c_BlockID c);
       Some \<lparr>v_Type = PrecommitType, v_Height = c_Height c, v_Round = c_Round c,
             v_BlockID = blockID, v_Timestamp = cs_Timestamp commitSig,
             v_ValidatorAddress = cs_ValidatorAddress commitSig, v_ValidatorIndex = valIdx,
             v_Signature = cs_Signature commitSig\<rparr>
     }"

definition c_VoteSignBytes :: "env \<Rightarrow> bytes \<Rightarrow> commit \<Rightarrow> int \<Rightarrow> bytes option" where
  "c_VoteSignBytes E chainID c valIdx =
     do { v \<leftarrow> c_GetVote c valIdx; VoteSignBytes E chainID (v_ToProto v) }"

definition c_Size :: "commit option \<Rightarrow> int" where
  "c_Size c = (case c of None \<Rightarrow> 0 | Some c \<Rightarrow> int (length (c_Signatures c)))"

fun set_bits :: "int \<Rightarrow> commit_sig list \<Rightarrow> bit_array option \<Rightarrow> bit_array option option" where
  "set_bits i [] b = Some b"
| "set_bits i (cs # css) b =
     do { (b', ok) \<leftarrow> ba_SetIndex b i (\<not> cs_Absent cs); set_bits (i + 1) css b' }"

definition c_BitArray :: "commit \<Rightarrow> bit_array option option" where
  "c_BitArray c =
     set_bits 0 (c_Signatures c) (NewBitArray (int (length (c_Signatures c))))"

definition c_IsCommit :: "commit \<Rightarrow> bool" where
  "c_IsCommit c \<longleftrightarrow> length (c_Signatures c) \<noteq> 0"

fun first_error :: "('a \<Rightarrow> 'e option) \<Rightarrow> 'a list \<Rightarrow> 'e option" where
  "first_error f [] = None"
| "first_error f (x # xs) = (case f x of Some e \<Rightarrow> Some e | None \<Rightarrow> first_error f xs)"

definition c_ValidateBasic :: "commit \<Rightarrow> basic_error option" where
  "c_ValidateBasic c =
     (if c_Height c < 0 then Some ErrNegativeHeight
      else if c_Round c < 0 then Some ErrNegativeRound
      else if c_Height c \<ge> 1 then
        (if bid_IsZero (c_BlockID c) then Some ErrCommitNilBlock
         else if length (c_Signatures c) = 0 then Some ErrNoSignatures
         else first_error cs_ValidateBasic (c_Signatures c))
      else None)"

section \<open>Lemmas\<close>

named_theorems bid_simps \<open>block identifiers as records\<close>

lemma psh_Equals_iff [simp]: "psh_Equals a b \<longleftrightarrow> a = b"
  by (auto simp: psh_Equals_def)

lemma bid_Equals_iff [simp]: "bid_Equals a b \<longleftrightarrow> a = b"
  by (auto simp: bid_Equals_def)

lemma bid_IsZero_iff [bid_simps]: "bid_IsZero b \<longleftrightarrow> b = zero_block_id"
proof -
  have psh: "psh_IsZero h \<longleftrightarrow> h = \<lparr>psh_Total = 0, psh_Hash = []\<rparr>" for h
    by (cases h) (simp add: psh_IsZero_def)
  show ?thesis by (cases b) (simp add: bid_IsZero_def psh zero_block_id_def)
qed

lemma bid_zero_not_complete [simp]: "\<not> bid_IsComplete zero_block_id"
  by (simp add: bid_IsComplete_def zero_block_id_def)

lemma psh_ToProto_inj [simp]: "psh_ToProto a = psh_ToProto b \<longleftrightarrow> a = b"
  by (cases a; cases b) (simp add: psh_ToProto_def)

lemma bid_ToProto_inj [simp]: "bid_ToProto a = bid_ToProto b \<longleftrightarrow> a = b"
  by (cases a; cases b) (simp add: bid_ToProto_def)

lemma psh_eta [simp]: "\<lparr>psh_Total = psh_Total h, psh_Hash = psh_Hash h\<rparr> = h"
  by (cases h) simp

lemma bid_eta [simp]: "\<lparr>bid_Hash = bid_Hash b, bid_PartSetHeader = bid_PartSetHeader b\<rparr> = b"
  by (cases b) simp

lemma psh_from_to [simp]:
  "PartSetHeaderFromProto (psh_ToProto h)
     = (case psh_ValidateBasic h of Some e \<Rightarrow> Inl e | None \<Rightarrow> Inr h)"
  by (simp add: PartSetHeaderFromProto_def psh_ToProto_def Let_def)

lemma bid_from_to:
  "BlockIDFromProto (bid_ToProto b)
     = (case psh_ValidateBasic (bid_PartSetHeader b) of Some e \<Rightarrow> Inl e
        | None \<Rightarrow> (case ValidateHash (bid_Hash b) of Some e \<Rightarrow> Inl e | None \<Rightarrow> Inr b))"
  by (auto simp: BlockIDFromProto_def bid_ToProto_def bid_ValidateBasic_def Let_def
      split: option.splits)

lemma bid_from_to_valid: "bid_ValidateBasic b = None \<Longrightarrow> BlockIDFromProto (bid_ToProto b) = Inr b"
  by (auto simp: bid_from_to bid_ValidateBasic_def split: option.splits)

lemma bid_from_to_Inr: "BlockIDFromProto (bid_ToProto b) = Inr b' \<Longrightarrow> b' = b"
  by (auto simp: bid_from_to split: option.splits)

lemma bid_complete_valid: "bid_IsComplete b \<Longrightarrow> bid_ValidateBasic b = None"
  by (simp add: bid_IsComplete_def bid_ValidateBasic_def ValidateHash_def psh_ValidateBasic_def)

lemma bid_zero_valid: "bid_ValidateBasic zero_block_id = None"
  by (simp add: zero_block_id_def bid_ValidateBasic_def ValidateHash_def psh_ValidateBasic_def)

text \<open>The identifiers a vote may carry: the zero one for nil, or a complete one.\<close>

definition bid_ok :: "block_id \<Rightarrow> bool" where
  "bid_ok b \<longleftrightarrow> b = zero_block_id \<or> bid_IsComplete b"

lemma bid_Key_inj:
  assumes "bid_Key a = bid_Key b" "bid_ok a" "bid_ok b"
  shows "a = b"
proof -
  have zero: "bid_Key zero_block_id = []"
    by (simp add: bid_Key_def zero_block_id_def psh_ToProto_def psh_Marshal_def varint_field_def
        bytes_field_def)
  have complete: "bid_Key c \<noteq> []" if "bid_IsComplete c" for c
    using that by (auto simp: bid_Key_def bid_IsComplete_def)
  show ?thesis
  proof (cases "a = zero_block_id \<or> b = zero_block_id")
    case True
    with assms zero complete show ?thesis by (metis bid_ok_def)
  next
    case False
    then have "length (bid_Hash a) = length (bid_Hash b)"
      using assms(2,3) by (auto simp: bid_ok_def bid_IsComplete_def)
    then have "bid_Hash a = bid_Hash b" "bid_PartSetHeader a = bid_PartSetHeader b"
      using assms(1) by (auto simp: bid_Key_def dest: psh_Marshal_inj)
    then show ?thesis by simp
  qed
qed

lemma CanonicalizeBlockID_inj:
  assumes "CanonicalizeBlockID (bid_ToProto a) = Some c" "CanonicalizeBlockID (bid_ToProto b) = Some c"
  shows "a = b"
proof -
  have parts: "pbbid_Hash (bid_ToProto x) = bid_Hash x"
      "pbbid_PartSetHeader (bid_ToProto x) = psh_ToProto (bid_PartSetHeader x)" for x
    by (simp_all add: bid_ToProto_def)
  obtain a' b' where ab: "BlockIDFromProto (bid_ToProto a) = Inr a'" "BlockIDFromProto (bid_ToProto b) = Inr b'"
    using assms by (auto simp: CanonicalizeBlockID_def split: sum.splits)
  then have eq: "a' = a" "b' = b" using bid_from_to_Inr by auto
  show ?thesis
    using assms ab unfolding eq CanonicalizeBlockID_def
    by (auto simp: bid_IsZero_iff parts CanonicalizePartSetHeader_def split: if_splits)
qed

lemma CanonicalizeVote_Some_iff:
  "CanonicalizeVote chainID (v_ToProto v) = Some c \<longleftrightarrow>
     CanonicalizeBlockID (bid_ToProto (v_BlockID v)) = Some (cv_BlockID c)
     \<and> cv_Type c = v_Type v \<and> cv_Height c = v_Height v \<and> cv_Round c = v_Round v
     \<and> cv_Timestamp c = v_Timestamp v \<and> cv_ChainID c = chainID"
  by (cases c) (auto simp: CanonicalizeVote_def v_ToProto_def)

definition v_in_range :: "vote \<Rightarrow> bool" where
  "v_in_range v \<longleftrightarrow> in_i64 (v_Type v) \<and> in_i64 (v_Height v) \<and> in_i64 (v_Round v)"

lemma VoteSignBytes_inj:
  assumes "VoteSignBytes E c1 (v_ToProto v1) = Some bz" "VoteSignBytes E c2 (v_ToProto v2) = Some bz"
    and "v_in_range v1" "v_in_range v2" and "inj (env_StdTime E)"
  shows "c1 = c2 \<and> v_Type v1 = v_Type v2 \<and> v_Height v1 = v_Height v2 \<and> v_Round v1 = v_Round v2
    \<and> v_BlockID v1 = v_BlockID v2 \<and> v_Timestamp v1 = v_Timestamp v2"
proof -
  obtain k1 k2 where k: "CanonicalizeVote c1 (v_ToProto v1) = Some k1"
      "CanonicalizeVote c2 (v_ToProto v2) = Some k2"
      "MarshalDelimited (cv_Marshal (env_StdTime E) k1) = MarshalDelimited (cv_Marshal (env_StdTime E) k2)"
    using assms(1,2) by (auto simp: VoteSignBytes_def)
  have "k1 = k2"
    by (rule cv_Marshal_inj [OF MarshalDelimited_inj [OF k(3)] assms(5)])
      (use assms(3,4) k(1,2) in \<open>auto simp: v_in_range_def CanonicalizeVote_Some_iff\<close>)
  with k(1,2) show ?thesis
    by (auto simp: CanonicalizeVote_Some_iff dest: CanonicalizeBlockID_inj)
qed

section \<open>Properties\<close>


definition sample_vote :: vote where
  "sample_vote = \<lparr>v_Type = 1, v_Height = 7, v_Round = 0, v_BlockID = zero_block_id, v_Timestamp = 3,
     v_ValidatorAddress = [], v_ValidatorIndex = 0, v_Signature = [1]\<rparr>"

text \<open>A concrete environment: an injective time encoding and a signature that is the signed text.\<close>

definition sample_env :: env where
  "sample_env = \<lparr>env_Sum = pad_hash, env_Address = (\<lambda>pk. pk),
     env_VerifySignature = (\<lambda>pk m s. s = m),
     env_StdTime = (\<lambda>t. (if t < 0 then 1 else 0) # encodeVarint (nat \<bar>t\<bar>))\<rparr>"

lemma sample_env_time: "inj (env_StdTime sample_env)"
proof (rule injI)
  fix x y assume "env_StdTime sample_env x = env_StdTime sample_env y"
  then have "(x < 0) = (y < 0)" "encodeVarint (nat \<bar>x\<bar>) @ [] = encodeVarint (nat \<bar>y\<bar>) @ []"
    by (auto simp: sample_env_def split: if_splits)
  with encodeVarint_cancel [OF this(2)] show "x = y" by linarith
qed


end
