(* ===== verification/ValidatorSet.thy ===== *)
theory ValidatorSet
  imports BlockTypes "HOL-Library.Product_Lexorder" "HOL-Library.Multiset"
begin

text \<open>
  \<open>types/validator.go\<close> and \<open>types/validator_set.go\<close>: validators, the set of them with its cached total
  power, the change of a set by a list of updates and removals, and the proposer election by
  priorities.

  All the \<open>int64\<close> arithmetic is written with its wrap-around or clipping. The cached total is part of
  the state, so the functions that read it return the set again. \<open>sort.Sort\<close> is \<open>sort_key\<close>: the keys are
  distinct wherever the result depends on their order. \<open>Proposer\<close> holds the validator as it was when it
  was elected; in the code it points into the list, so its priority (which only the protobuf form
  reads) follows later changes.
\<close>

section \<open>Validators\<close>

record validator =
  val_Address :: bytes
  val_PubKey :: "bytes option"
  val_VotingPower :: int
  val_ProposerPriority :: int

definition NewValidator :: "env \<Rightarrow> bytes \<Rightarrow> int \<Rightarrow> validator" where
  "NewValidator E pubKey votingPower =
     \<lparr>val_Address = env_Address E pubKey, val_PubKey = Some pubKey, val_VotingPower = votingPower,
      val_ProposerPriority = 0\<rparr>"

datatype val_error = ErrNilValidator | ErrNoPubKey | ErrNegativePower | ErrWrongAddressSize
  | ErrDuplicateEntry | ErrPowerTooHigh | ErrDeletesNotAllowed | ErrEmptyResult
  | ErrRemovalNotFound | ErrTotalVotingPowerOverflow | ErrNilOrEmptySet

definition val_ValidateBasic :: "validator option \<Rightarrow> val_error option" where
  "val_ValidateBasic v =
     (case v of
        None \<Rightarrow> Some ErrNilValidator
      | Some v \<Rightarrow>
          (if val_PubKey v = None then Some ErrNoPubKey
           else if val_VotingPower v < 0 then Some ErrNegativePower
           else if length (val_Address v) \<noteq> AddressSize then Some ErrWrongAddressSize
           else None))"

definition CompareProposerPriority :: "validator option \<Rightarrow> validator \<Rightarrow> validator option" where
  "CompareProposerPriority v other =
     (case v of
        None \<Rightarrow> Some other
      | Some v \<Rightarrow>
          (if val_ProposerPriority v > val_ProposerPriority other then Some v
           else if val_ProposerPriority v < val_ProposerPriority other then Some other
           else (let result = bytes_compare (val_Address v) (val_Address other) in
                 if result < 0 then Some v
                 else if result > 0 then Some other
                 else None)))"

section \<open>Checked arithmetic\<close>

definition safeAdd :: "int \<Rightarrow> int \<Rightarrow> int \<times> bool" where
  "safeAdd a b =
     (if b > 0 \<and> a > i64 (MaxInt64 - b) then (-1, True)
      else if b < 0 \<and> a < i64 (MinInt64 - b) then (-1, True)
      else (i64 (a + b), False))"

definition safeSub :: "int \<Rightarrow> int \<Rightarrow> int \<times> bool" where
  "safeSub a b =
     (if b > 0 \<and> a < i64 (MinInt64 + b) then (-1, True)
      else if b < 0 \<and> a > i64 (MaxInt64 + b) then (-1, True)
      else (i64 (a - b), False))"

definition safeAddClip :: "int \<Rightarrow> int \<Rightarrow> int" where
  "safeAddClip a b =
     (let (c, overflow) = safeAdd a b in
      if overflow then (if b < 0 then MinInt64 else MaxInt64) else c)"

definition safeSubClip :: "int \<Rightarrow> int \<Rightarrow> int" where
  "safeSubClip a b =
     (let (c, overflow) = safeSub a b in
      if overflow then (if b > 0 then MinInt64 else MaxInt64) else c)"

definition safeMul :: "int \<Rightarrow> int \<Rightarrow> int \<times> bool" where
  "safeMul a b =
     (if a = 0 \<or> b = 0 then (0, False)
      else
        (let absOfB = (if b < 0 then i64 (- b) else b);
             absOfA = (if a < 0 then i64 (- a) else a)
         in if absOfA > MaxInt64 sdiv absOfB then (0, True) else (i64 (a * b), False)))"

section \<open>Validator sets\<close>

definition MaxTotalVotingPower :: int where
  "MaxTotalVotingPower = MaxInt64 sdiv 8"

definition PriorityWindowSizeFactor :: int where
  "PriorityWindowSizeFactor = 2"

record validator_set =
  vs_Validators :: "validator list"
  vs_Proposer :: "validator option"
  vs_totalVotingPower :: int

definition IsNilOrEmpty :: "validator_set \<Rightarrow> bool" where
  "IsNilOrEmpty vals \<longleftrightarrow> length (vs_Validators vals) = 0"

definition vals_ValidateBasic :: "validator_set \<Rightarrow> val_error option" where
  "vals_ValidateBasic vals =
     (if IsNilOrEmpty vals then Some ErrNilOrEmptySet
      else case first_error (\<lambda>v. val_ValidateBasic (Some v)) (vs_Validators vals) of
        Some e \<Rightarrow> Some e
      | None \<Rightarrow> val_ValidateBasic (vs_Proposer vals))"

definition HasAddress :: "validator_set \<Rightarrow> bytes \<Rightarrow> bool" where
  "HasAddress vals address = list_ex (\<lambda>val. val_Address val = address) (vs_Validators vals)"

fun find_address :: "validator list \<Rightarrow> bytes \<Rightarrow> int \<Rightarrow> int \<times> validator option" where
  "find_address [] address idx = (-1, None)"
| "find_address (val # vs) address idx =
     (if val_Address val = address then (i32 idx, Some val) else find_address vs address (idx + 1))"

definition GetByAddress :: "validator_set \<Rightarrow> bytes \<Rightarrow> int \<times> validator option" where
  "GetByAddress vals address = find_address (vs_Validators vals) address 0"

definition GetByIndex :: "validator_set \<Rightarrow> int \<Rightarrow> bytes \<times> validator option" where
  "GetByIndex vals index =
     (if index < 0 \<or> index \<ge> int (length (vs_Validators vals)) then ([], None)
      else (let val = vs_Validators vals ! nat index in (val_Address val, Some val)))"

definition vals_Size :: "validator_set \<Rightarrow> int" where
  "vals_Size vals = int (length (vs_Validators vals))"

subsection \<open>Total voting power\<close>

fun sum_powers :: "validator list \<Rightarrow> int \<Rightarrow> int option" where
  "sum_powers [] acc = Some acc"
| "sum_powers (val # vs) acc =
     (let acc' = safeAddClip acc (val_VotingPower val) in
      if acc' > MaxTotalVotingPower then None else sum_powers vs acc')"

definition updateTotalVotingPower :: "validator_set \<Rightarrow> validator_set option" where
  "updateTotalVotingPower vals =
     map_option (\<lambda>s. vals\<lparr>vs_totalVotingPower := s\<rparr>) (sum_powers (vs_Validators vals) 0)"

definition TotalVotingPower :: "validator_set \<Rightarrow> (int \<times> validator_set) option" where
  "TotalVotingPower vals =
     do {
       vals \<leftarrow> (if vs_totalVotingPower vals = 0 then updateTotalVotingPower vals else Some vals);
       Some (vs_totalVotingPower vals, vals)
     }"

subsection \<open>Proposer election\<close>

definition upd_priorities :: "(validator \<Rightarrow> int) \<Rightarrow> validator_set \<Rightarrow> validator_set" where
  "upd_priorities f vals =
     vals\<lparr>vs_Validators := map (\<lambda>v. v\<lparr>val_ProposerPriority := f v\<rparr>) (vs_Validators vals)\<rparr>"

definition min_prio :: "int \<Rightarrow> validator \<Rightarrow> int" where
  "min_prio m v = (if val_ProposerPriority v < m then val_ProposerPriority v else m)"

definition max_prio :: "int \<Rightarrow> validator \<Rightarrow> int" where
  "max_prio m v = (if val_ProposerPriority v > m then val_ProposerPriority v else m)"

definition computeMaxMinPriorityDiff :: "validator_set \<Rightarrow> int option" where
  "computeMaxMinPriorityDiff vals =
     (if IsNilOrEmpty vals then None
      else
        (let mx = foldl max_prio MinInt64 (vs_Validators vals);
             mn = foldl min_prio MaxInt64 (vs_Validators vals);
             diff = i64 (mx - mn)
         in Some (if diff < 0 then i64 (- 1 * diff) else diff)))"

definition RescalePriorities :: "int \<Rightarrow> validator_set \<Rightarrow> validator_set option" where
  "RescalePriorities diffMax vals =
     (if IsNilOrEmpty vals then None
      else if diffMax \<le> 0 then Some vals
      else do {
        diff \<leftarrow> computeMaxMinPriorityDiff vals;
        let ratio = i64 (i64 (diff + diffMax) - 1) sdiv diffMax in
        if diff > diffMax
        then (if ratio = 0 then None
              else Some (upd_priorities (\<lambda>v. i64 (val_ProposerPriority v sdiv ratio)) vals))
        else Some vals
      })"

text \<open>\<open>big.Int.Div\<close> is Euclidean division, which for the positive number of validators is \<open>div\<close>.\<close>

definition computeAvgProposerPriority :: "validator_set \<Rightarrow> int option" where
  "computeAvgProposerPriority vals =
     (let n = int (length (vs_Validators vals));
          s = sum_list (map val_ProposerPriority (vs_Validators vals))
      in if n = 0 then None
         else (let avg = s div n in if in_i64 avg then Some avg else None))"

definition shiftByAvgProposerPriority :: "validator_set \<Rightarrow> validator_set option" where
  "shiftByAvgProposerPriority vals =
     (if IsNilOrEmpty vals then None
      else do {
        avg \<leftarrow> computeAvgProposerPriority vals;
        Some (upd_priorities (\<lambda>v. safeSubClip (val_ProposerPriority v) avg) vals)
      })"

fun most_priority :: "validator option \<Rightarrow> validator list \<Rightarrow> validator option option" where
  "most_priority res [] = Some res"
| "most_priority res (val # vs) =
     do { r \<leftarrow> CompareProposerPriority res val; most_priority (Some r) vs }"

definition getValWithMostPriority :: "validator_set \<Rightarrow> validator option option" where
  "getValWithMostPriority vals = most_priority None (vs_Validators vals)"

text \<open>
  \<open>mostest\<close> is a pointer into the list; the comparison has told every two validators apart, so the
  update reaches the one entry with its address.
\<close>

definition set_priority :: "bytes \<Rightarrow> int \<Rightarrow> validator_set \<Rightarrow> validator_set" where
  "set_priority addr p vals =
     vals\<lparr>vs_Validators := map (\<lambda>v. if val_Address v = addr then v\<lparr>val_ProposerPriority := p\<rparr> else v)
             (vs_Validators vals)\<rparr>"

definition incrementProposerPriority :: "validator_set \<Rightarrow> (validator \<times> validator_set) option" where
  "incrementProposerPriority vals =
     (let vals1 = upd_priorities (\<lambda>v. safeAddClip (val_ProposerPriority v) (val_VotingPower v)) vals in
      do {
        res \<leftarrow> getValWithMostPriority vals1;
        mostest \<leftarrow> res;
        (tvp, vals2) \<leftarrow> TotalVotingPower vals1;
        let newPrio = safeSubClip (val_ProposerPriority mostest) tvp in
        Some (mostest\<lparr>val_ProposerPriority := newPrio\<rparr>, set_priority (val_Address mostest) newPrio vals2)
      })"

fun increment_times :: "nat \<Rightarrow> validator option \<Rightarrow> validator_set \<Rightarrow> (validator option \<times> validator_set) option" where
  "increment_times 0 proposer vals = Some (proposer, vals)"
| "increment_times (Suc n) proposer vals =
     do { (p, vals') \<leftarrow> incrementProposerPriority vals; increment_times n (Some p) vals' }"

definition IncrementProposerPriority :: "int \<Rightarrow> validator_set \<Rightarrow> validator_set option" where
  "IncrementProposerPriority tms vals =
     (if IsNilOrEmpty vals then None
      else if tms \<le> 0 then None
      else do {
        (tvp, vals1) \<leftarrow> TotalVotingPower vals;
        let diffMax = i64 (PriorityWindowSizeFactor * tvp);
        vals2 \<leftarrow> RescalePriorities diffMax vals1;
        vals3 \<leftarrow> shiftByAvgProposerPriority vals2;
        (proposer, vals4) \<leftarrow> increment_times (nat tms) None vals3;
        Some (vals4\<lparr>vs_Proposer := proposer\<rparr>)
      })"

definition CopyIncrementProposerPriority :: "int \<Rightarrow> validator_set \<Rightarrow> validator_set option" where
  "CopyIncrementProposerPriority tms vals = IncrementProposerPriority tms vals"

fun find_proposer :: "validator option \<Rightarrow> validator list \<Rightarrow> validator option option" where
  "find_proposer proposer [] = Some proposer"
| "find_proposer proposer (val # vs) =
     do {
       p \<leftarrow> (if proposer = None \<or> val_Address val \<noteq> val_Address (the proposer)
             then map_option Some (CompareProposerPriority proposer val) else Some proposer);
       find_proposer p vs
     }"

definition findProposer :: "validator_set \<Rightarrow> validator option option" where
  "findProposer vals = find_proposer None (vs_Validators vals)"

definition GetProposer :: "validator_set \<Rightarrow> (validator option \<times> validator_set) option" where
  "GetProposer vals =
     (if length (vs_Validators vals) = 0 then Some (None, vals)
      else do {
        vals1 \<leftarrow> (if vs_Proposer vals = None
                  then map_option (\<lambda>p. vals\<lparr>vs_Proposer := p\<rparr>) (findProposer vals) else Some vals);
        Some (vs_Proposer vals1, vals1)
      })"

fun find_previous :: "validator option \<Rightarrow> validator list \<Rightarrow> validator option option" where
  "find_previous prev [] = Some prev"
| "find_previous prev (val # vs) =
     (case prev of
        None \<Rightarrow> find_previous (Some val) vs
      | Some p \<Rightarrow>
          do {
            r \<leftarrow> CompareProposerPriority (Some p) val;
            find_previous (if r = p then Some val else Some p) vs
          })"

definition findPreviousProposer :: "validator_set \<Rightarrow> validator option option" where
  "findPreviousProposer vals = find_previous None (vs_Validators vals)"

subsection \<open>Changing the set\<close>

fun scan_changes ::
  "bytes \<Rightarrow> validator list \<Rightarrow> validator list \<Rightarrow> validator list
     \<Rightarrow> val_error + validator list \<times> validator list" where
  "scan_changes prevAddr [] updates removals = Inr (updates, removals)"
| "scan_changes prevAddr (v # changes) updates removals =
     (if val_Address v = prevAddr then Inl ErrDuplicateEntry
      else if val_VotingPower v < 0 then Inl ErrNegativePower
      else if val_VotingPower v > MaxTotalVotingPower then Inl ErrPowerTooHigh
      else if val_VotingPower v = 0 then scan_changes (val_Address v) changes updates (removals @ [v])
      else scan_changes (val_Address v) changes (updates @ [v]) removals)"

definition processChanges :: "validator list \<Rightarrow> val_error + validator list \<times> validator list" where
  "processChanges origChanges = scan_changes [] (sort_key val_Address origChanges) [] []"

definition power_delta :: "validator_set \<Rightarrow> validator \<Rightarrow> int" where
  "power_delta vals update =
     (case GetByAddress vals (val_Address update) of
        (_, Some val) \<Rightarrow> i64 (val_VotingPower update - val_VotingPower val)
      | (_, None) \<Rightarrow> val_VotingPower update)"

fun add_deltas :: "validator_set \<Rightarrow> validator list \<Rightarrow> int \<Rightarrow> int option" where
  "add_deltas vals [] tvp = Some tvp"
| "add_deltas vals (upd # upds) tvp =
     (let tvp' = i64 (tvp + power_delta vals upd) in
      if tvp' > MaxTotalVotingPower then None else add_deltas vals upds tvp')"

definition verifyUpdates ::
  "validator list \<Rightarrow> validator_set \<Rightarrow> int \<Rightarrow> ((val_error + int) \<times> validator_set) option" where
  "verifyUpdates updates vals removedPower =
     do {
       (tvp, vals1) \<leftarrow> TotalVotingPower vals;
       Some (case add_deltas vals1 (sort_key (power_delta vals1) updates) (i64 (tvp - removedPower)) of
               None \<Rightarrow> Inl ErrTotalVotingPowerOverflow
             | Some tvpAfterRemovals \<Rightarrow> Inr (i64 (tvpAfterRemovals + removedPower)),
             vals1)
     }"

definition numNewValidators :: "validator list \<Rightarrow> validator_set \<Rightarrow> nat" where
  "numNewValidators updates vals = length (filter (\<lambda>u. \<not> HasAddress vals (val_Address u)) updates)"

text \<open>\<open>x >> 3\<close> on \<open>int64\<close> rounds towards minus infinity: \<open>div 8\<close>.\<close>

definition computeNewPriorities :: "validator list \<Rightarrow> validator_set \<Rightarrow> int \<Rightarrow> validator list" where
  "computeNewPriorities updates vals updatedTotalVotingPower =
     map (\<lambda>u. u\<lparr>val_ProposerPriority :=
            (case GetByAddress vals (val_Address u) of
               (_, None) \<Rightarrow>
                 i64 (- i64 (updatedTotalVotingPower + updatedTotalVotingPower div 8))
             | (_, Some val) \<Rightarrow> val_ProposerPriority val)\<rparr>) updates"

fun merge_updates :: "validator list \<Rightarrow> validator list \<Rightarrow> validator list" where
  "merge_updates (e # existing) (u # updates) =
     (if bytes_compare (val_Address e) (val_Address u) < 0
      then e # merge_updates existing (u # updates)
      else if val_Address e = val_Address u then u # merge_updates existing updates
      else u # merge_updates (e # existing) updates)"
| "merge_updates existing updates = existing @ updates"

definition applyUpdates :: "validator list \<Rightarrow> validator_set \<Rightarrow> validator_set" where
  "applyUpdates updates vals =
     vals\<lparr>vs_Validators := merge_updates (sort_key val_Address (vs_Validators vals)) updates\<rparr>"

fun sum_removals :: "validator list \<Rightarrow> validator_set \<Rightarrow> int \<Rightarrow> val_error + int" where
  "sum_removals [] vals acc = Inr acc"
| "sum_removals (d # deletes) vals acc =
     (case GetByAddress vals (val_Address d) of
        (_, None) \<Rightarrow> Inl ErrRemovalNotFound
      | (_, Some val) \<Rightarrow> sum_removals deletes vals (i64 (acc + val_VotingPower val)))"

definition verifyRemovals :: "validator list \<Rightarrow> validator_set \<Rightarrow> (val_error + int) option" where
  "verifyRemovals deletes vals =
     (case sum_removals deletes vals 0 of
        Inl e \<Rightarrow> Some (Inl e)
      | Inr p \<Rightarrow> (if length deletes > length (vs_Validators vals) then None else Some (Inr p)))"

text \<open>
  The loop indexes \<open>existing[0]\<close> while there are deletes left and writes to a slice of
  \<open>len(existing)-len(deletes)\<close> entries: both panic when a delete is not in the list.
\<close>

fun remove_loop :: "validator list \<Rightarrow> validator list \<Rightarrow> validator list option" where
  "remove_loop existing [] = Some existing"
| "remove_loop [] (d # deletes) = None"
| "remove_loop (e # existing) (d # deletes) =
     (if val_Address e = val_Address d then remove_loop existing deletes
      else map_option ((#) e) (remove_loop existing (d # deletes)))"

definition applyRemovals :: "validator list \<Rightarrow> validator_set \<Rightarrow> validator_set option" where
  "applyRemovals deletes vals =
     (if length (vs_Validators vals) < length deletes then None
      else map_option (\<lambda>vs. vals\<lparr>vs_Validators := vs\<rparr>) (remove_loop (vs_Validators vals) deletes))"

definition ValidatorsByVotingPower :: "validator list \<Rightarrow> validator list" where
  "ValidatorsByVotingPower = sort_key (\<lambda>v. (- val_VotingPower v, val_Address v))"

definition updateWithChangeSet ::
  "validator list \<Rightarrow> bool \<Rightarrow> validator_set \<Rightarrow> (val_error option \<times> validator_set) option" where
  "updateWithChangeSet changes allowDeletes vals =
     (if length changes = 0 then Some (None, vals)
      else case processChanges changes of
        Inl e \<Rightarrow> Some (Some e, vals)
      | Inr (updates, deletes) \<Rightarrow>
          (if \<not> allowDeletes \<and> length deletes \<noteq> 0 then Some (Some ErrDeletesNotAllowed, vals)
           else if numNewValidators updates vals = 0 \<and> length (vs_Validators vals) = length deletes
           then Some (Some ErrEmptyResult, vals)
           else do {
             r \<leftarrow> verifyRemovals deletes vals;
             case r of
               Inl e \<Rightarrow> Some (Some e, vals)
             | Inr removedVotingPower \<Rightarrow>
                 do {
                   (u, vals1) \<leftarrow> verifyUpdates updates vals removedVotingPower;
                   case u of
                     Inl e \<Rightarrow> Some (Some e, vals1)
                   | Inr tvp \<Rightarrow>
                       do {
                         let updates' = computeNewPriorities updates vals1 tvp;
                         let vals2 = applyUpdates updates' vals1;
                         vals3 \<leftarrow> applyRemovals deletes vals2;
                         vals4 \<leftarrow> updateTotalVotingPower vals3;
                         (total', vals5) \<leftarrow> TotalVotingPower vals4;
                         vals6 \<leftarrow> RescalePriorities (i64 (PriorityWindowSizeFactor * total')) vals5;
                         vals7 \<leftarrow> shiftByAvgProposerPriority vals6;
                         Some (None, vals7\<lparr>vs_Validators := ValidatorsByVotingPower (vs_Validators vals7)\<rparr>)
                       }
                 }
           }))"

definition UpdateWithChangeSet ::
  "validator list \<Rightarrow> validator_set \<Rightarrow> (val_error option \<times> validator_set) option" where
  "UpdateWithChangeSet changes vals = updateWithChangeSet changes True vals"

definition empty_set :: validator_set where
  "empty_set = \<lparr>vs_Validators = [], vs_Proposer = None, vs_totalVotingPower = 0\<rparr>"

definition NewValidatorSet :: "validator list \<Rightarrow> validator_set option" where
  "NewValidatorSet valz =
     do {
       (err, vals) \<leftarrow> updateWithChangeSet valz False empty_set;
       if err \<noteq> None then None
       else if length valz > 0 then IncrementProposerPriority 1 vals
       else Some vals
     }"

definition ValidatorSetFromExistingValidators :: "validator list \<Rightarrow> (val_error + validator_set) option" where
  "ValidatorSetFromExistingValidators valz =
     (if length valz = 0 then Some (Inl ErrNilOrEmptySet)
      else case first_error (\<lambda>v. val_ValidateBasic (Some v)) valz of
        Some e \<Rightarrow> Some (Inl e)
      | None \<Rightarrow>
          do {
            let vals = \<lparr>vs_Validators = valz, vs_Proposer = None, vs_totalVotingPower = 0\<rparr>;
            p \<leftarrow> findPreviousProposer vals;
            vals2 \<leftarrow> updateTotalVotingPower (vals\<lparr>vs_Proposer := p\<rparr>);
            Some (Inr (vals2\<lparr>vs_Validators := ValidatorsByVotingPower (vs_Validators vals2)\<rparr>))
          })"

section \<open>Arithmetic facts\<close>

definition clip64 :: "int \<Rightarrow> int" where
  "clip64 x = max MinInt64 (min MaxInt64 x)"

lemma clip64_id [simp]: "in_i64 x \<Longrightarrow> clip64 x = x"
  by (simp add: clip64_def in_i64_def)

lemma safeAddClip_eq: "in_i64 a \<Longrightarrow> in_i64 b \<Longrightarrow> safeAddClip a b = clip64 (a + b)"
proof -
  assume a: "in_i64 a" and b: "in_i64 b"
  have "b > 0 \<Longrightarrow> i64 (MaxInt64 - b) = MaxInt64 - b" "b < 0 \<Longrightarrow> i64 (MinInt64 - b) = MinInt64 - b"
    using b by (auto intro!: i64_id simp: in_i64_def)
  then show ?thesis
    using a b by (auto simp: safeAddClip_def safeAdd_def clip64_def in_i64_def Let_def
        intro!: i64_id)
qed

lemma safeSubClip_eq: "in_i64 a \<Longrightarrow> in_i64 b \<Longrightarrow> safeSubClip a b = clip64 (a - b)"
proof -
  assume a: "in_i64 a" and b: "in_i64 b"
  have "b > 0 \<Longrightarrow> i64 (MinInt64 + b) = MinInt64 + b" "b < 0 \<Longrightarrow> i64 (MaxInt64 + b) = MaxInt64 + b"
    using b by (auto intro!: i64_id simp: in_i64_def)
  then show ?thesis
    using a b by (auto simp: safeSubClip_def safeSub_def clip64_def in_i64_def Let_def
        intro!: i64_id)
qed

lemma MaxTotal_val [simp]: "MaxTotalVotingPower = 1152921504606846975"
  by (simp add: MaxTotalVotingPower_def)

lemma sum_powers_eq:
  assumes "\<forall>v \<in> set vs. 0 \<le> val_VotingPower v" "0 \<le> acc"
    and "acc + sum_list (map val_VotingPower vs) \<le> MaxTotalVotingPower"
  shows "sum_powers vs acc = Some (acc + sum_list (map val_VotingPower vs))"
  using assms
proof (induction vs arbitrary: acc)
  case (Cons v vs)
  have nn: "0 \<le> sum_list (map val_VotingPower vs)"
    using Cons.prems(1) by (intro sum_list_nonneg) auto
  then have "in_i64 (acc + val_VotingPower v)" "in_i64 acc" "in_i64 (val_VotingPower v)"
    using Cons.prems by (auto simp: in_i64_def)
  then have "safeAddClip acc (val_VotingPower v) = acc + val_VotingPower v"
    by (simp add: safeAddClip_eq)
  then show ?case
    using Cons nn by (simp add: add.assoc)
qed simp

lemma find_address_snd: "snd (find_address vs a i) = find (\<lambda>v. val_Address v = a) vs"
  by (induction vs a i rule: find_address.induct) auto

lemma find_distinct:
  "distinct (map val_Address vs) \<Longrightarrow> find (\<lambda>v. val_Address v = a) vs = Some v
     \<longleftrightarrow> v \<in> set vs \<and> val_Address v = a"
proof (induction vs)
  case (Cons w vs)
  then show ?case by (cases "val_Address w = a") (auto simp: image_iff)
qed simp

lemma snd_GetByAddress: "snd (GetByAddress vals a) = find (\<lambda>v. val_Address v = a) (vs_Validators vals)"
  by (simp add: GetByAddress_def find_address_snd)

text \<open>
  \<open>safeMul\<close> reports an overflow exactly when the product of the absolute values leaves the range, for
  factors other than the least \<open>int64\<close>, whose absolute value wraps.
\<close>

lemma safeMul_eq:
  assumes a: "in_i64 a" "a \<noteq> MinInt64" and b: "in_i64 b" "b \<noteq> MinInt64"
  shows "safeMul a b = (if \<bar>a\<bar> * \<bar>b\<bar> > MaxInt64 then (0, True) else (a * b, False))"
proof (cases "a = 0 \<or> b = 0")
  case False
  have abs: "(if b < 0 then i64 (- b) else b) = \<bar>b\<bar>" "(if a < 0 then i64 (- a) else a) = \<bar>a\<bar>"
    using a b by (auto simp: in_i64_def intro!: i64_id)
  have "\<bar>a\<bar> > MaxInt64 div \<bar>b\<bar> \<longleftrightarrow> \<bar>a\<bar> * \<bar>b\<bar> > MaxInt64"
    using False int_le_div_iff [of "\<bar>b\<bar>" "\<bar>a\<bar>" MaxInt64] by auto
  moreover have "in_i64 (a * b)" if "\<not> \<bar>a\<bar> * \<bar>b\<bar> > MaxInt64"
    using that by (simp add: in_i64_def abs_mult [symmetric] abs_le_iff not_less)
  ultimately show ?thesis
    using False by (simp add: safeMul_def abs Let_def)
qed (auto simp: safeMul_def)

lemma safeMul_min_wraps: "safeMul MinInt64 2 = (0, False)"
  by (simp add: safeMul_def wrap_def)

end
