(* ===== verification/ProposerElection.thy ===== *)
theory ProposerElection
  imports ValidatorSet
begin

text \<open>
  The proposer election of \<open>types/validator_set.go\<close>: the election on unbounded integers that the code
  implements, the bounds within which its \<open>int64\<close> arithmetic never clips or wraps, and that within them
  \<open>IncrementProposerPriority\<close> is the unbounded election.
\<close>

abbreviation prio :: "validator \<Rightarrow> int" where "prio \<equiv> val_ProposerPriority"
abbreviation vpower :: "validator \<Rightarrow> int" where "vpower \<equiv> val_VotingPower"
abbreviation addrs :: "validator list \<Rightarrow> bytes list" where "addrs \<equiv> map val_Address"
abbreviation total_power :: "validator list \<Rightarrow> int" where "total_power vs \<equiv> sum_list (map vpower vs)"
abbreviation total_prio :: "validator list \<Rightarrow> int" where "total_prio vs \<equiv> sum_list (map prio vs)"

section \<open>Well-formed sets\<close>

definition vals_ok :: "validator_set \<Rightarrow> bool" where
  "vals_ok vals \<longleftrightarrow> vs_Validators vals \<noteq> [] \<and> distinct (addrs (vs_Validators vals))
     \<and> (\<forall>v \<in> set (vs_Validators vals). 0 < vpower v)
     \<and> total_power (vs_Validators vals) \<le> MaxTotalVotingPower
     \<and> vs_totalVotingPower vals \<in> {0, total_power (vs_Validators vals)}"

lemma sum_list_map_nonneg:
  fixes f :: "'a \<Rightarrow> int"
  shows "\<forall>v \<in> set vs. 0 \<le> f v \<Longrightarrow> 0 \<le> sum_list (map f vs)"
  by (induction vs) auto

lemma total_prio_nonpos: "\<forall>v \<in> set vs. prio v \<le> 0 \<Longrightarrow> total_prio vs \<le> 0"
  by (induction vs) auto

lemma total_power_pos:
  assumes "vs \<noteq> []" "\<forall>v \<in> set vs. 0 < vpower v"
  shows "0 < total_power vs"
  using assms sum_list_map_nonneg [of "tl vs" val_VotingPower] by (cases vs) fastforce+

lemma member_le_sum_list_int:
  fixes f :: "'a \<Rightarrow> int"
  assumes "v \<in> set vs" "\<forall>w \<in> set vs. 0 \<le> f w"
  shows "f v \<le> sum_list (map f vs)"
  using assms
proof (induction vs)
  case (Cons a vs)
  with sum_list_map_nonneg [of vs f] show ?case by fastforce
qed simp

lemma TotalVotingPower_ok:
  assumes "vals_ok vals"
  shows "TotalVotingPower vals
    = Some (total_power (vs_Validators vals),
        vals\<lparr>vs_totalVotingPower := total_power (vs_Validators vals)\<rparr>)"
proof -
  let ?P = "total_power (vs_Validators vals)"
  have "0 < ?P" using total_power_pos assms by (auto simp: vals_ok_def)
  moreover have "sum_powers (vs_Validators vals) 0 = Some ?P"
    using sum_powers_eq [of "vs_Validators vals" 0] assms by (auto simp: vals_ok_def less_imp_le)
  ultimately show ?thesis
    using assms by (auto simp: TotalVotingPower_def updateTotalVotingPower_def vals_ok_def)
qed

section \<open>The election without bounds\<close>

definition beats :: "validator \<Rightarrow> validator \<Rightarrow> bool" where
  "beats m v \<longleftrightarrow> prio v < prio m \<or> prio v = prio m \<and> val_Address m \<le> val_Address v"

fun champion :: "validator \<Rightarrow> validator list \<Rightarrow> validator" where
  "champion m [] = m"
| "champion m (v # vs) = champion (if beats m v then m else v) vs"

definition elect :: "validator list \<Rightarrow> validator" where
  "elect vs = champion (hd vs) (tl vs)"

definition add_powers :: "validator list \<Rightarrow> validator list" where
  "add_powers vs = map (\<lambda>v. v\<lparr>val_ProposerPriority := prio v + vpower v\<rparr>) vs"

definition charge :: "int \<Rightarrow> validator \<Rightarrow> validator list \<Rightarrow> validator list" where
  "charge P m vs = map (\<lambda>v. if val_Address v = val_Address m
     then v\<lparr>val_ProposerPriority := prio m - P\<rparr> else v) vs"

text \<open>One round: everybody gains its power, the one with most priority is elected and pays the total.\<close>

definition ideal_round :: "validator list \<Rightarrow> validator \<times> validator list" where
  "ideal_round vs =
     (let P = total_power vs; vs1 = add_powers vs; m = elect vs1
      in (m\<lparr>val_ProposerPriority := prio m - P\<rparr>, charge P m vs1))"

fun ideal_rounds :: "nat \<Rightarrow> validator list \<Rightarrow> validator list" where
  "ideal_rounds 0 vs = vs"
| "ideal_rounds (Suc n) vs = ideal_rounds n (snd (ideal_round vs))"

lemma beats_trans: "beats a b \<Longrightarrow> beats b c \<Longrightarrow> beats a c"
  by (auto simp: beats_def)

lemma beats_total: "beats a b \<or> beats b a"
  by (auto simp: beats_def)

lemma beats_refl [simp]: "beats a a"
  by (simp add: beats_def)

lemma champion_in: "champion m vs \<in> insert m (set vs)"
  by (induction m vs rule: champion.induct) auto

lemma champion_beats: "beats (champion m vs) m \<and> (\<forall>v \<in> set vs. beats (champion m vs) v)"
proof (induction m vs rule: champion.induct)
  case (2 m v vs)
  let ?c = "champion (if beats m v then m else v) vs"
  have "beats (if beats m v then m else v) m" "beats (if beats m v then m else v) v"
    using beats_total [of m v] by auto
  moreover have "beats ?c (if beats m v then m else v)" "\<forall>w \<in> set vs. beats ?c w"
    using 2 by blast+
  ultimately have "beats ?c m" "beats ?c v" "\<forall>w \<in> set vs. beats ?c w"
    by (blast intro: beats_trans)+
  then show ?case by simp
qed simp

lemma elect_in: "vs \<noteq> [] \<Longrightarrow> elect vs \<in> set vs"
  using champion_in [of "hd vs" "tl vs"] by (cases vs) (auto simp: elect_def)

lemma elect_beats: "v \<in> set vs \<Longrightarrow> beats (elect vs) v"
  using champion_beats [of "hd vs" "tl vs"] by (cases vs) (auto simp: elect_def)

lemma elect_max: "v \<in> set vs \<Longrightarrow> prio v \<le> prio (elect vs)"
  using elect_beats [of v vs] by (auto simp: beats_def)

lemma Compare_champion:
  assumes "val_Address m \<noteq> val_Address v"
  shows "CompareProposerPriority (Some m) v = Some (if beats m v then m else v)"
  using assms by (auto simp: CompareProposerPriority_def beats_def bytes_compare_order Let_def)

lemma most_priority_champion:
  "distinct (addrs (m # vs)) \<Longrightarrow> most_priority (Some m) vs = Some (Some (champion m vs))"
proof (induction m vs rule: champion.induct)
  case (2 m v vs)
  then show ?case by (auto simp: Compare_champion)
qed simp

lemma getValWithMostPriority_elect:
  assumes "vs_Validators vals \<noteq> []" "distinct (addrs (vs_Validators vals))"
  shows "getValWithMostPriority vals = Some (Some (elect (vs_Validators vals)))"
  using assms most_priority_champion [of "hd (vs_Validators vals)" "tl (vs_Validators vals)"]
  by (cases "vs_Validators vals")
    (auto simp: getValWithMostPriority_def elect_def CompareProposerPriority_def)

lemma add_powers_simps [simp]:
  "addrs (add_powers vs) = addrs vs" "map vpower (add_powers vs) = map vpower vs"
  "total_prio (add_powers vs) = total_prio vs + total_power vs"
  "add_powers vs = [] \<longleftrightarrow> vs = []" "length (add_powers vs) = length vs"
  by (induction vs) (auto simp: add_powers_def)

lemma charge_simps [simp]:
  "addrs (charge P m vs) = addrs vs" "map vpower (charge P m vs) = map vpower vs"
  "charge P m vs = [] \<longleftrightarrow> vs = []" "length (charge P m vs) = length vs"
  by (auto simp: charge_def)

lemma total_prio_charge:
  assumes "distinct (addrs vs)" "m \<in> set vs"
  shows "total_prio (charge P m vs) = total_prio vs - P"
  using assms
proof (induction vs)
  case (Cons v vs)
  show ?case
  proof (cases "val_Address v = val_Address m")
    case True
    then have "charge P m vs = vs"
      using Cons.prems(1) by (auto simp: charge_def image_iff intro!: map_idI)
    moreover have "v = m" using True Cons.prems by auto
    ultimately show ?thesis by (simp add: charge_def)
  next
    case False
    then have "m \<in> set vs" "total_prio (charge P m (v # vs)) = prio v + total_prio (charge P m vs)"
      using Cons.prems(2) by (auto simp: charge_def)
    with Cons show ?thesis by simp
  qed
qed simp

lemma ideal_round_simps:
  assumes "vs \<noteq> []" "distinct (addrs vs)"
  shows "addrs (snd (ideal_round vs)) = addrs vs" "map vpower (snd (ideal_round vs)) = map vpower vs"
    "total_prio (snd (ideal_round vs)) = total_prio vs" "length (snd (ideal_round vs)) = length vs"
  using assms elect_in [of "add_powers vs"]
  by (simp_all add: ideal_round_def Let_def total_prio_charge)

section \<open>One round of the code\<close>

lemma upd_priorities_add:
  assumes "\<forall>v \<in> set (vs_Validators vals). in_i64 (prio v) \<and> in_i64 (vpower v) \<and> in_i64 (prio v + vpower v)"
  shows "upd_priorities (\<lambda>v. safeAddClip (prio v) (vpower v)) vals
    = vals\<lparr>vs_Validators := add_powers (vs_Validators vals)\<rparr>"
proof -
  have "map (\<lambda>v. v\<lparr>val_ProposerPriority := safeAddClip (prio v) (vpower v)\<rparr>) (vs_Validators vals)
      = add_powers (vs_Validators vals)"
    unfolding add_powers_def using assms by (intro map_cong) (auto simp: safeAddClip_eq)
  then show ?thesis by (simp add: upd_priorities_def)
qed

lemma vals_ok_same:
  assumes "vals_ok vals" "addrs vs = addrs (vs_Validators vals)"
    "map vpower vs = map vpower (vs_Validators vals)"
  shows "vals_ok (vals\<lparr>vs_Validators := vs\<rparr>)"
proof -
  have "set (map vpower vs) = set (map vpower (vs_Validators vals))" using assms(3) by simp
  then have "\<forall>v \<in> set vs. 0 < vpower v"
    using assms(1) by (force simp: vals_ok_def image_iff set_eq_iff)
  moreover have "vs \<noteq> []" using assms(1,2) by (auto simp: vals_ok_def)
  ultimately show ?thesis using assms by (simp add: vals_ok_def)
qed

definition in_bounds :: "validator_set \<Rightarrow> int \<Rightarrow> int \<Rightarrow> bool" where
  "in_bounds vals lo hi \<longleftrightarrow> (\<forall>v \<in> set (vs_Validators vals). lo \<le> prio v \<and> prio v \<le> hi)"

lemma vpower_bounds:
  assumes "vals_ok vals" "v \<in> set (vs_Validators vals)"
  shows "0 < vpower v" "vpower v \<le> total_power (vs_Validators vals)"
  using assms member_le_sum_list_int [of v "vs_Validators vals" val_VotingPower]
  by (auto simp: vals_ok_def less_imp_le)

lemma elected_positive:
  assumes "vals_ok vals" "0 \<le> total_prio (vs_Validators vals)"
  shows "0 < prio (elect (add_powers (vs_Validators vals)))"
proof (rule ccontr)
  let ?vs = "add_powers (vs_Validators vals)"
  assume "\<not> ?thesis"
  then have "\<forall>v \<in> set ?vs. prio v \<le> 0" using elect_max [of _ ?vs] by fastforce
  from total_prio_nonpos [OF this] have "total_prio ?vs \<le> 0" .
  then show False
    using assms total_power_pos [of "vs_Validators vals"] by (auto simp: vals_ok_def)
qed

lemma increment_refines:
  assumes ok: "vals_ok vals" and lo: "in_bounds vals (- B) U"
    and B: "total_power (vs_Validators vals) \<le> B" "B \<le> 2 ^ 62"
    and U: "U + total_power (vs_Validators vals) \<le> MaxInt64" and S: "0 \<le> total_prio (vs_Validators vals)"
  shows "incrementProposerPriority vals
      = Some (fst (ideal_round (vs_Validators vals)),
              vals\<lparr>vs_Validators := snd (ideal_round (vs_Validators vals)),
                   vs_totalVotingPower := total_power (vs_Validators vals)\<rparr>)"
    and "\<forall>v \<in> set (snd (ideal_round (vs_Validators vals))). - B \<le> prio v
      \<and> prio v \<le> U + total_power (vs_Validators vals)"
proof -
  let ?vs = "vs_Validators vals" and ?P = "total_power (vs_Validators vals)"
  let ?m = "elect (add_powers ?vs)"
  let ?vals1 = "vals\<lparr>vs_Validators := add_powers ?vs\<rparr>"
  have P: "0 < ?P" "?P \<le> 2 ^ 60"
    using ok total_power_pos [of ?vs] by (auto simp: vals_ok_def)
  have "\<forall>v \<in> set ?vs. in_i64 (prio v) \<and> in_i64 (vpower v) \<and> in_i64 (prio v + vpower v)"
  proof
    fix v assume v: "v \<in> set ?vs"
    then have "- B \<le> prio v" "prio v \<le> U" using lo by (auto simp: in_bounds_def)
    with vpower_bounds [OF ok v] B U P
    show "in_i64 (prio v) \<and> in_i64 (vpower v) \<and> in_i64 (prio v + vpower v)"
      by (auto simp: in_i64_def)
  qed
  note vals1 = upd_priorities_add [OF this]
  have ok1: "vals_ok ?vals1" by (rule vals_ok_same [OF ok]) simp_all
  have m: "?m \<in> set (add_powers ?vs)" using elect_in [of "add_powers ?vs"] ok by (simp add: vals_ok_def)
  have m_pos: "0 < prio ?m" by (rule elected_positive [OF ok S])
  have add_bounds: "- B \<le> prio v \<and> prio v \<le> U + ?P" if v: "v \<in> set (add_powers ?vs)" for v
  proof -
    obtain w where w: "w \<in> set ?vs" "prio v = prio w + vpower w"
      using v by (auto simp: add_powers_def)
    with vpower_bounds [OF ok w(1)] lo show ?thesis by (auto simp: in_bounds_def)
  qed
  have "safeSubClip (prio ?m) ?P = prio ?m - ?P"
    using m_pos add_bounds [OF m] P U by (subst safeSubClip_eq) (auto simp: in_i64_def)
  then show "incrementProposerPriority vals
      = Some (fst (ideal_round ?vs),
              vals\<lparr>vs_Validators := snd (ideal_round ?vs), vs_totalVotingPower := ?P\<rparr>)"
    using getValWithMostPriority_elect [of ?vals1] TotalVotingPower_ok [OF ok1] ok1
    by (simp add: incrementProposerPriority_def vals1 vals_ok_def ideal_round_def Let_def charge_def
        set_priority_def)
  show "\<forall>v \<in> set (snd (ideal_round ?vs)). - B \<le> prio v \<and> prio v \<le> U + ?P"
  proof
    fix v assume "v \<in> set (snd (ideal_round ?vs))"
    then consider "v \<in> set (add_powers ?vs)" | "prio v = prio ?m - ?P"
      by (auto simp: ideal_round_def Let_def charge_def split: if_splits)
    then show "- B \<le> prio v \<and> prio v \<le> U + ?P"
      using add_bounds add_bounds [OF m] m_pos B P by cases auto
  qed
qed

section \<open>Many rounds\<close>

lemma prio_upper_from_sum:
  assumes "\<forall>v \<in> set vs. - B \<le> prio v" "v \<in> set vs" "0 \<le> B"
  shows "prio v \<le> total_prio vs + int (length vs) * B"
proof -
  have "prio v + B \<le> sum_list (map (\<lambda>v. prio v + B) vs)"
    by (rule member_le_sum_list_int) (use assms in auto)
  also have "\<dots> = total_prio vs + int (length vs) * B"
    by (induction vs) (auto simp: algebra_simps)
  finally show ?thesis using assms(3) by simp
qed

text \<open>There is room for \<open>k\<close> more rounds before an \<open>int64\<close> overflows.\<close>

definition room :: "nat \<Rightarrow> int \<Rightarrow> validator list \<Rightarrow> bool" where
  "room k B vs \<longleftrightarrow> (\<exists>U. (\<forall>v \<in> set vs. prio v \<le> U) \<and> U + int k * total_power vs \<le> MaxInt64)
     \<or> total_prio vs + int (length vs) * B + total_power vs \<le> MaxInt64"

lemma rounds_refine:
  assumes "vals_ok vals" "\<forall>v \<in> set (vs_Validators vals). - B \<le> prio v" "0 \<le> total_prio (vs_Validators vals)"
    and "total_power (vs_Validators vals) \<le> B" "B \<le> 2 ^ 62" "room k B (vs_Validators vals)" "0 < k"
  shows "increment_times k p vals
    = Some (Some (fst (ideal_round (ideal_rounds (k - 1) (vs_Validators vals)))),
            vals\<lparr>vs_Validators := ideal_rounds k (vs_Validators vals),
                 vs_totalVotingPower := total_power (vs_Validators vals)\<rparr>)"
  using assms
proof (induction k arbitrary: vals p)
  case (Suc k)
  let ?vs = "vs_Validators vals" and ?P = "total_power (vs_Validators vals)"
  let ?vs' = "snd (ideal_round ?vs)"
  let ?vals' = "vals\<lparr>vs_Validators := ?vs', vs_totalVotingPower := ?P\<rparr>"
  have P: "0 < ?P" using Suc.prems(1) total_power_pos [of ?vs] by (auto simp: vals_ok_def)
  have dist: "?vs \<noteq> []" "distinct (addrs ?vs)" using Suc.prems(1) by (auto simp: vals_ok_def)
  note same = ideal_round_simps [OF dist]
  have "\<forall>v \<in> set ?vs. prio v \<le> total_prio ?vs + int (length ?vs) * B"
    using prio_upper_from_sum [OF Suc.prems(2)] Suc.prems(4) P by auto
  then obtain U where U: "(\<forall>v \<in> set ?vs. prio v \<le> U) \<and> (U + int (Suc k) * ?P \<le> MaxInt64
      \<or> U = total_prio ?vs + int (length ?vs) * B \<and> U + ?P \<le> MaxInt64)"
    using Suc.prems(6) unfolding room_def by blast
  have "0 \<le> int k * ?P" using P by simp
  then have UP: "U + ?P \<le> MaxInt64" using U by (auto simp: algebra_simps)
  have bounds: "in_bounds vals (- B) U" using Suc.prems(2) U by (auto simp: in_bounds_def)
  note step = increment_refines [OF Suc.prems(1) bounds Suc.prems(4,5) UP Suc.prems(3)]
  have ok': "vals_ok ?vals'"
    using vals_ok_same [OF Suc.prems(1) same(1,2)] same(2) by (simp add: vals_ok_def)
  have room': "room k B ?vs'"
    using U step(2) same unfolding room_def
    by (auto simp: algebra_simps intro!: exI [of _ "U + ?P"])
  show ?case
  proof (cases "k = 0")
    case True
    then show ?thesis using step(1) by simp
  next
    case False
    with Suc.IH [of ?vals' "Some (fst (ideal_round ?vs))"] ok' step(2) room' same Suc.prems
    have "increment_times k (Some (fst (ideal_round ?vs))) ?vals'
        = Some (Some (fst (ideal_round (ideal_rounds (k - 1) ?vs'))),
            vals\<lparr>vs_Validators := ideal_rounds k ?vs', vs_totalVotingPower := ?P\<rparr>)"
      by simp
    moreover have "ideal_rounds (k - 1) ?vs' = ideal_rounds k ?vs"
      using False by (cases k) auto
    ultimately show ?thesis using step(1) by simp
  qed
qed simp

section \<open>Rescaling and centring\<close>

lemma fold_max_prio:
  "(\<forall>v \<in> set vs. prio v \<le> foldl max_prio m vs) \<and> m \<le> foldl max_prio m vs
   \<and> (foldl max_prio m vs = m \<or> (\<exists>v \<in> set vs. foldl max_prio m vs = prio v))"
proof (induction vs arbitrary: m)
  case (Cons v vs)
  have "m \<le> max_prio m v" "prio v \<le> max_prio m v" "max_prio m v = m \<or> max_prio m v = prio v"
    by (auto simp: max_prio_def)
  with Cons.IH [of "max_prio m v"] show ?case by fastforce
qed simp

lemma fold_min_prio:
  "(\<forall>v \<in> set vs. foldl min_prio m vs \<le> prio v) \<and> foldl min_prio m vs \<le> m
   \<and> (foldl min_prio m vs = m \<or> (\<exists>v \<in> set vs. foldl min_prio m vs = prio v))"
proof (induction vs arbitrary: m)
  case (Cons v vs)
  have "min_prio m v \<le> m" "min_prio m v \<le> prio v" "min_prio m v = m \<or> min_prio m v = prio v"
    by (auto simp: min_prio_def)
  with Cons.IH [of "min_prio m v"] show ?case by fastforce
qed simp

definition spread_le :: "int \<Rightarrow> validator list \<Rightarrow> bool" where
  "spread_le D vs \<longleftrightarrow> (\<forall>v \<in> set vs. \<forall>w \<in> set vs. prio v - prio w \<le> D)"

lemma computeMaxMinPriorityDiff_eq:
  assumes "vs_Validators vals \<noteq> []" "\<forall>v \<in> set (vs_Validators vals). in_i64 (prio v)"
    "spread_le G (vs_Validators vals)" "G \<le> MaxInt64"
  shows "\<exists>d. computeMaxMinPriorityDiff vals = Some d \<and> 0 \<le> d \<and> d \<le> G \<and> spread_le d (vs_Validators vals)"
proof -
  let ?vs = "vs_Validators vals"
  let ?mx = "foldl max_prio MinInt64 ?vs" and ?mn = "foldl min_prio MaxInt64 ?vs"
  obtain v0 where v0: "v0 \<in> set ?vs" using assms(1) by (cases ?vs) auto
  then have r0: "MinInt64 \<le> prio v0" "prio v0 \<le> MaxInt64" using assms(2) by (auto simp: in_i64_def)
  have mx: "\<forall>v \<in> set ?vs. prio v \<le> ?mx" "\<exists>v \<in> set ?vs. ?mx = prio v"
    using fold_max_prio [of ?vs MinInt64] v0 r0 by (blast, metis order_antisym)
  have mn: "\<forall>v \<in> set ?vs. ?mn \<le> prio v" "\<exists>v \<in> set ?vs. ?mn = prio v"
    using fold_min_prio [of ?vs MaxInt64] v0 r0 by (blast, metis order_antisym)
  have "?mx - ?mn \<le> G" using mx(2) mn(2) assms(3) by (auto simp: spread_le_def)
  moreover have "0 \<le> ?mx - ?mn" using mx(1) mn(1) v0 by fastforce
  moreover have "spread_le (?mx - ?mn) ?vs" using mx(1) mn(1) by (fastforce simp: spread_le_def)
  moreover have "i64 (?mx - ?mn) = ?mx - ?mn" using calculation assms(4) by (auto simp: in_i64_def intro!: i64_id)
  ultimately show ?thesis
    using assms(1) by (simp add: computeMaxMinPriorityDiff_def IsNilOrEmpty_def Let_def)
qed

lemma sdiv_neg: "0 < r \<Longrightarrow> x < 0 \<Longrightarrow> x sdiv r = - ((- x) div (r :: int))"
  by (simp add: signed_divide_int_def sgn_if)

text \<open>Truncating division shrinks distances.\<close>

lemma sdiv_distance:
  fixes r :: int
  assumes r: "0 < r" and D: "0 \<le> D" and xy: "x - y \<le> r * D"
  shows "x sdiv r - y sdiv r \<le> D"
proof -
  have nn: "a sdiv r = a div r" if "0 \<le> a" for a using that r by simp
  have bounds: "a div r * r \<le> a" "a < a div r * r + r" for a
    using r pos_mod_sign [of r a] pos_mod_bound [of r a] minus_mod_eq_div_mult [of a r] by linarith+
  have div_le: "p \<le> q + D" if "p * r < q * r + r + r * D" for p q
  proof -
    have "p * r < (q + 1 + D) * r" using that by (simp add: algebra_simps)
    then show ?thesis using r by (simp add: mult_less_cancel_right)
  qed
  consider "0 \<le> x" "0 \<le> y" | "0 \<le> x" "y < 0" | "x < 0" "0 \<le> y" | "x < 0" "y < 0" by linarith
  then show ?thesis
  proof cases
    case 1
    have "x div r \<le> y div r + D"
      by (rule div_le) (use bounds(1) [of x] bounds(2) [of y] xy in linarith)
    with 1 show ?thesis by (simp add: nn)
  next
    case 2
    have "x div r * r + (- y) div r * r \<le> r * D"
      using bounds(1) [of x] bounds(1) [of "- y"] xy by linarith
    then have "x div r + (- y) div r \<le> D" using r by (simp add: mult.commute [of r] ring_distribs(2) [symmetric])
    with 2 show ?thesis by (simp add: nn sdiv_neg [OF r])
  next
    case 3
    have "0 \<le> y div r" "0 \<le> (- x) div r" using 3 r by (auto simp: pos_imp_zdiv_nonneg_iff)
    with 3 D show ?thesis by (simp add: nn sdiv_neg [OF r])
  next
    case 4
    have "(- y) div r \<le> (- x) div r + D"
      by (rule div_le) (use bounds(1) [of "- y"] bounds(2) [of "- x"] xy in linarith)
    with 4 show ?thesis by (simp add: sdiv_neg [OF r])
  qed
qed

lemma abs_sdiv_le:
  assumes r: "0 < r"
  shows "\<bar>x sdiv r\<bar> \<le> \<bar>x :: int\<bar>"
proof (cases "0 \<le> x")
  case True
  then have "0 \<le> x div r" "x div r \<le> x"
    using r zdiv_mono2 [of x 1 r] by (auto simp: pos_imp_zdiv_nonneg_iff)
  with True r show ?thesis by simp
next
  case False
  then have "0 \<le> (- x) div r" "(- x) div r \<le> - x"
    using r zdiv_mono2 [of "- x" 1 r] by (auto simp: pos_imp_zdiv_nonneg_iff)
  with False r show ?thesis by (simp add: sdiv_neg)
qed

definition same_vals :: "validator_set \<Rightarrow> validator_set \<Rightarrow> bool" where
  "same_vals a b \<longleftrightarrow> addrs (vs_Validators a) = addrs (vs_Validators b)
     \<and> map vpower (vs_Validators a) = map vpower (vs_Validators b)
     \<and> vs_totalVotingPower a = vs_totalVotingPower b"

lemma same_vals_upd: "same_vals (upd_priorities f vals) vals"
  by (simp add: same_vals_def upd_priorities_def comp_def)

lemma same_vals_ok: "same_vals a b \<Longrightarrow> vals_ok b \<Longrightarrow> vals_ok a"
  using vals_ok_same [of b "vs_Validators a"] by (cases a; cases b) (auto simp: same_vals_def vals_ok_def)

lemma same_vals_trans: "same_vals a b \<Longrightarrow> same_vals b c \<Longrightarrow> same_vals a c"
  by (simp add: same_vals_def)

lemma RescalePriorities_ok:
  assumes ne: "vs_Validators vals \<noteq> []" and r: "\<forall>v \<in> set (vs_Validators vals). in_i64 (prio v)"
    and G: "spread_le G (vs_Validators vals)" "G + D \<le> MaxInt64" and D: "0 < D"
  shows "\<exists>vals'. RescalePriorities D vals = Some vals' \<and> same_vals vals' vals
    \<and> spread_le D (vs_Validators vals') \<and> (\<forall>v \<in> set (vs_Validators vals'). in_i64 (prio v))"
proof -
  have "G \<le> MaxInt64" using G(2) D by linarith
  from computeMaxMinPriorityDiff_eq [OF ne r G(1) this] obtain d where
    d: "computeMaxMinPriorityDiff vals = Some d" "0 \<le> d" "d \<le> G" "spread_le d (vs_Validators vals)"
    by blast
  define q where "q = (d + D - 1) sdiv D"
  have "in_i64 (d + D)" "in_i64 (d + D - 1)" using d G(2) D by (auto simp: in_i64_def)
  then have ratio: "i64 (i64 (d + D) - 1) sdiv D = q" by (simp add: q_def)
  show ?thesis
  proof (cases "d > D")
    case False
    then have "RescalePriorities D vals = Some vals"
      using ne D d(1) by (simp add: RescalePriorities_def IsNilOrEmpty_def)
    moreover have "spread_le D (vs_Validators vals)"
      using d(4) False by (fastforce simp: spread_le_def)
    ultimately show ?thesis using r by (auto simp: same_vals_def)
  next
    case True
    have q: "q = (d + D - 1) div D" using d D by (simp add: q_def)
    have qpos: "0 < q" using True D by (simp add: q pos_imp_zdiv_pos_iff)
    have "d + D - 1 < q * D + D"
      using pos_mod_bound [of D "d + D - 1"] minus_mod_eq_div_mult [of "d + D - 1" D] D
      unfolding q by linarith
    then have dq: "d \<le> q * D" by linarith
    let ?f = "\<lambda>v. i64 (prio v sdiv q)"
    have f: "?f v = prio v sdiv q" "in_i64 (prio v sdiv q)" if v: "v \<in> set (vs_Validators vals)" for v
    proof -
      show "in_i64 (prio v sdiv q)"
      proof (cases "prio v sdiv q = MaxInt64 + 1")
        case False
        then show ?thesis
          using abs_sdiv_le [OF qpos, of "prio v"] r v by (auto simp: in_i64_def)
      next
        case True
        then have "0 < prio v sdiv q" by simp
        then have "0 \<le> prio v"
          using sdiv_neg [OF qpos, of "prio v"] pos_imp_zdiv_nonneg_iff [OF qpos, of "- prio v"] by fastforce
        then show ?thesis
          using True abs_sdiv_le [OF qpos, of "prio v"] r v by (auto simp: in_i64_def)
      qed
      then show "?f v = prio v sdiv q" by simp
    qed
    have "RescalePriorities D vals = Some (upd_priorities ?f vals)"
      using ne D d(1) True qpos by (simp add: RescalePriorities_def IsNilOrEmpty_def ratio)
    moreover have "spread_le D (vs_Validators (upd_priorities ?f vals))"
      unfolding spread_le_def upd_priorities_def
    proof (clarsimp)
      fix v w assume vw: "v \<in> set (vs_Validators vals)" "w \<in> set (vs_Validators vals)"
      have "prio v - prio w \<le> q * D" using d(4) vw dq by (fastforce simp: spread_le_def)
      then have "prio v sdiv q - prio w sdiv q \<le> D"
        using sdiv_distance [OF qpos] D by simp
      then show "i64 (prio v sdiv q) - i64 (prio w sdiv q) \<le> D"
        using f vw by simp
    qed
    moreover have "\<forall>v \<in> set (vs_Validators (upd_priorities ?f vals)). in_i64 (prio v)"
      using f by (auto simp: upd_priorities_def)
    ultimately show ?thesis using same_vals_upd by blast
  qed
qed

lemma total_prio_bounds:
  assumes "\<forall>v \<in> set vs. lo \<le> prio v \<and> prio v \<le> hi"
  shows "int (length vs) * lo \<le> total_prio vs \<and> total_prio vs \<le> int (length vs) * hi"
  using assms by (induction vs) (auto simp: algebra_simps)

lemma spread_range:
  assumes "spread_le D vs" "v0 \<in> set vs"
  obtains lo hi where "\<forall>v \<in> set vs. lo \<le> prio v \<and> prio v \<le> hi" "hi - lo \<le> D"
    "lo \<in> prio ` set vs" "hi \<in> prio ` set vs"
proof -
  have fin: "finite (prio ` set vs)" "prio ` set vs \<noteq> {}" using assms(2) by auto
  obtain a b where ab: "a \<in> set vs" "Min (prio ` set vs) = prio a" "b \<in> set vs" "Max (prio ` set vs) = prio b"
    using Min_in [OF fin] Max_in [OF fin] by (metis (no_types, lifting) imageE)
  then have "Max (prio ` set vs) - Min (prio ` set vs) \<le> D" using assms(1) by (simp add: spread_le_def)
  moreover have "\<forall>v \<in> set vs. Min (prio ` set vs) \<le> prio v \<and> prio v \<le> Max (prio ` set vs)"
    by simp
  ultimately show thesis
    using that Min_in [OF fin] Max_in [OF fin] by blast
qed

lemma shiftByAvg_ok:
  assumes ne: "vs_Validators vals \<noteq> []" and r: "\<forall>v \<in> set (vs_Validators vals). in_i64 (prio v)"
    and D: "spread_le D (vs_Validators vals)" "D \<le> 2 ^ 62"
  shows "\<exists>vals'. shiftByAvgProposerPriority vals = Some vals' \<and> same_vals vals' vals
    \<and> (\<forall>v \<in> set (vs_Validators vals'). - D \<le> prio v \<and> prio v \<le> D)
    \<and> 0 \<le> total_prio (vs_Validators vals')
    \<and> total_prio (vs_Validators vals') < int (length (vs_Validators vals'))"
proof -
  let ?vs = "vs_Validators vals" and ?n = "int (length (vs_Validators vals))"
  let ?avg = "total_prio ?vs div ?n"
  have n: "0 < ?n" using ne by simp
  obtain v0 where "v0 \<in> set ?vs" using ne by (cases ?vs) auto
  then obtain lo hi where b: "\<forall>v \<in> set ?vs. lo \<le> prio v \<and> prio v \<le> hi" "hi - lo \<le> D"
      "in_i64 lo" "in_i64 hi"
    using spread_range [OF D(1)] r by (smt (verit) image_iff)
  have avg: "lo \<le> ?avg" "?avg \<le> hi"
  proof -
    have "?n * lo \<le> total_prio ?vs" "total_prio ?vs \<le> ?n * hi" using total_prio_bounds [OF b(1)] by auto
    from zdiv_mono1 [OF this(1) n] zdiv_mono1 [OF this(2) n] show "lo \<le> ?avg" "?avg \<le> hi"
      using n by auto
  qed
  then have "in_i64 ?avg" using b(3,4) by (auto simp: in_i64_def)
  then have avg_eq: "computeAvgProposerPriority vals = Some ?avg"
    using n by (simp add: computeAvgProposerPriority_def Let_def)
  let ?vals' = "upd_priorities (\<lambda>v. safeSubClip (prio v) ?avg) vals"
  have sub: "safeSubClip (prio v) ?avg = prio v - ?avg" "- D \<le> prio v - ?avg \<and> prio v - ?avg \<le> D"
    if v: "v \<in> set ?vs" for v
  proof -
    show range: "- D \<le> prio v - ?avg \<and> prio v - ?avg \<le> D" using b(1,2) v avg by fastforce
    then have "in_i64 (prio v - ?avg)" using D(2) by (auto simp: in_i64_def)
    then show "safeSubClip (prio v) ?avg = prio v - ?avg"
      using safeSubClip_eq r v \<open>in_i64 ?avg\<close> by simp
  qed
  have "map prio (vs_Validators ?vals') = map (\<lambda>v. prio v - ?avg) ?vs"
    using sub by (simp add: upd_priorities_def comp_def)
  then have "total_prio (vs_Validators ?vals') = total_prio ?vs mod ?n"
    using n by (simp add: sum_list_subtractf sum_list_triv minus_div_mult_eq_mod [symmetric] mult.commute)
  moreover have "shiftByAvgProposerPriority vals = Some ?vals'"
    using ne avg_eq by (simp add: shiftByAvgProposerPriority_def IsNilOrEmpty_def)
  moreover have "\<forall>v \<in> set (vs_Validators ?vals'). - D \<le> prio v \<and> prio v \<le> D"
    using sub by (auto simp: upd_priorities_def)
  ultimately show ?thesis
    using n same_vals_upd [of _ vals] by (auto simp: upd_priorities_def)
qed

section \<open>How often each validator is elected\<close>

fun elected :: "nat \<Rightarrow> validator list \<Rightarrow> bytes list" where
  "elected 0 vs = []"
| "elected (Suc n) vs = val_Address (fst (ideal_round vs)) # elected n (snd (ideal_round vs))"

definition vs_ok :: "validator list \<Rightarrow> bool" where
  "vs_ok vs \<longleftrightarrow> vs \<noteq> [] \<and> distinct (addrs vs) \<and> (\<forall>v \<in> set vs. 0 < vpower v)"

lemma nth_same:
  assumes "addrs vs' = addrs vs" "map vpower vs' = map vpower vs" "i < length vs"
  shows "val_Address (vs' ! i) = val_Address (vs ! i)" "vpower (vs' ! i) = vpower (vs ! i)"
  using assms by (metis length_map nth_map)+

lemma vs_ok_round:
  assumes "vs_ok vs"
  shows "vs_ok (snd (ideal_round vs))"
proof -
  note same = ideal_round_simps [of vs]
  have "set (map vpower (snd (ideal_round vs))) = set (map vpower vs)"
    using same(2) assms by (simp add: vs_ok_def)
  then have "\<forall>v \<in> set (snd (ideal_round vs)). 0 < vpower v"
    using assms by (force simp: vs_ok_def image_iff set_eq_iff)
  moreover have "snd (ideal_round vs) \<noteq> []"
    using same(4) assms by (metis length_0_conv vs_ok_def)
  ultimately show ?thesis using same assms by (simp add: vs_ok_def)
qed

lemma round_nth:
  assumes "vs_ok vs" "i < length vs"
  shows "prio (snd (ideal_round vs) ! i) = prio (vs ! i) + vpower (vs ! i)
    - (if val_Address (vs ! i) = val_Address (fst (ideal_round vs)) then total_power vs else 0)"
proof -
  let ?vs1 = "add_powers vs" and ?m = "elect (add_powers vs)"
  have m: "?m \<in> set ?vs1" using assms by (intro elect_in) (simp add: vs_ok_def)
  have "?m = ?vs1 ! i" if "val_Address (?vs1 ! i) = val_Address ?m"
    using m assms that distinct_map [of val_Address ?vs1] nth_mem [of i ?vs1]
    by (auto simp: vs_ok_def dest: inj_onD)
  then show ?thesis
    using assms(2) by (auto simp: ideal_round_def Let_def charge_def add_powers_def)
qed

lemma rounds_nth:
  assumes "vs_ok vs" "i < length vs"
  shows "prio (ideal_rounds k vs ! i) = prio (vs ! i) + int k * vpower (vs ! i)
    - total_power vs * int (count_list (elected k vs) (val_Address (vs ! i)))
    \<and> length (ideal_rounds k vs) = length vs"
  using assms
proof (induction k arbitrary: vs)
  case (Suc k)
  note same = ideal_round_simps [of vs]
  have d: "vs \<noteq> []" "distinct (addrs vs)" using Suc.prems by (auto simp: vs_ok_def)
  have nth: "val_Address (snd (ideal_round vs) ! i) = val_Address (vs ! i)"
      "vpower (snd (ideal_round vs) ! i) = vpower (vs ! i)"
    using nth_same [OF same(1,2) [OF d] Suc.prems(2)] .
  show ?case
    using Suc.IH [OF vs_ok_round [OF Suc.prems(1)]] round_nth [OF Suc.prems] same(2,4) [OF d] nth Suc.prems(2)
    by (auto simp: algebra_simps)
qed simp

lemma round_lower:
  assumes "vs_ok vs" "\<forall>v \<in> set vs. - B \<le> prio v" "0 \<le> total_prio vs" "total_power vs \<le> B"
  shows "\<forall>v \<in> set (snd (ideal_round vs)). - B \<le> prio v"
proof
  fix v assume "v \<in> set (snd (ideal_round vs))"
  then consider w where "w \<in> set vs" "prio v = prio w + vpower w"
    | "prio v = prio (elect (add_powers vs)) - total_power vs"
    by (auto simp: ideal_round_def Let_def charge_def add_powers_def split: if_splits)
  then show "- B \<le> prio v"
  proof cases
    case 1
    then have "- B \<le> prio w" "0 < vpower w" using assms(1,2) by (auto simp: vs_ok_def)
    with 1 show ?thesis by linarith
  next
    case 2
    have "\<exists>w \<in> set (add_powers vs). 0 \<le> prio w"
    proof (rule ccontr)
      assume "\<not> ?thesis"
      then have "\<forall>w \<in> set (add_powers vs). prio w \<le> 0" by auto
      then have "total_prio (add_powers vs) \<le> 0" by (rule total_prio_nonpos)
      then show False using assms(1,3) total_power_pos [of vs] by (auto simp: vs_ok_def)
    qed
    then have "0 \<le> prio (elect (add_powers vs))" using elect_max by fastforce
    with 2 assms(4) show ?thesis by linarith
  qed
qed

lemma rounds_invariant:
  assumes "vs_ok vs" "\<forall>v \<in> set vs. - B \<le> prio v" "0 \<le> total_prio vs" "total_power vs \<le> B"
  shows "(\<forall>v \<in> set (ideal_rounds k vs). - B \<le> prio v) \<and> total_prio (ideal_rounds k vs) = total_prio vs"
  using assms
proof (induction k arbitrary: vs)
  case (Suc k)
  note same = ideal_round_simps [of vs]
  have d: "vs \<noteq> []" "distinct (addrs vs)" using Suc.prems by (auto simp: vs_ok_def)
  show ?case
    using Suc.IH [OF vs_ok_round [OF Suc.prems(1)] round_lower [OF Suc.prems]] same(2,3) [OF d] Suc.prems
    by simp
qed simp

section \<open>Properties\<close>

lemma increment_ideal:
  fixes vals :: validator_set
  defines "vs \<equiv> vs_Validators vals"
  assumes ok: "vals_ok vals" and r: "\<forall>v \<in> set vs. in_i64 (prio v)"
    and G: "spread_le G vs" "G + 2 * total_power vs \<le> MaxInt64" and k: "0 < k"
    and room: "(2 + k) * total_power vs \<le> MaxInt64
      \<or> int (length vs) * (2 * total_power vs + 1) + total_power vs \<le> MaxInt64"
  shows "\<exists>vs0 vals'. IncrementProposerPriority k vals = Some vals'
    \<and> addrs vs0 = addrs vs \<and> map vpower vs0 = map vpower vs
    \<and> (\<forall>v \<in> set vs0. \<bar>prio v\<bar> \<le> 2 * total_power vs)
    \<and> 0 \<le> total_prio vs0 \<and> total_prio vs0 < int (length vs)
    \<and> vs_Validators vals' = ideal_rounds (nat k) vs0
    \<and> vs_Proposer vals' = Some (fst (ideal_round (ideal_rounds (nat k - 1) vs0)))
    \<and> vs_totalVotingPower vals' = total_power vs"
proof -
  let ?P = "total_power vs"
  let ?vals1 = "vals\<lparr>vs_totalVotingPower := ?P\<rparr>"
  have ne: "vs \<noteq> []" using ok by (simp add: vals_ok_def vs_def)
  have P: "0 < ?P" "?P \<le> 2 ^ 60" using ok total_power_pos [of vs] by (auto simp: vals_ok_def vs_def)
  have two: "i64 (PriorityWindowSizeFactor * ?P) = 2 * ?P"
    using P by (auto simp: PriorityWindowSizeFactor_def in_i64_def intro!: i64_id)
  have ok1: "vals_ok ?vals1" using ok by (simp add: vals_ok_def vs_def)
  obtain vals2 where v2: "RescalePriorities (2 * ?P) ?vals1 = Some vals2" "same_vals vals2 ?vals1"
      "spread_le (2 * ?P) (vs_Validators vals2)" "\<forall>v \<in> set (vs_Validators vals2). in_i64 (prio v)"
    using RescalePriorities_ok [of ?vals1 G "2 * ?P"] ne r G P by (auto simp: vs_def)
  have ok2: "vals_ok vals2" by (rule same_vals_ok [OF v2(2) ok1])
  obtain vals3 where v3: "shiftByAvgProposerPriority vals2 = Some vals3" "same_vals vals3 vals2"
      "\<forall>v \<in> set (vs_Validators vals3). - (2 * ?P) \<le> prio v \<and> prio v \<le> 2 * ?P"
      "0 \<le> total_prio (vs_Validators vals3)"
      "total_prio (vs_Validators vals3) < int (length (vs_Validators vals3))"
    using shiftByAvg_ok [OF _ v2(4,3)] ok2 P by (auto simp: vals_ok_def)
  have ok3: "vals_ok vals3" by (rule same_vals_ok [OF v3(2) ok2])
  have same: "addrs (vs_Validators vals3) = addrs vs" "map vpower (vs_Validators vals3) = map vpower vs"
    using v2(2) v3(2) by (auto simp: same_vals_def vs_def)
  then have len: "length (vs_Validators vals3) = length vs" by (metis length_map)
  have room3: "room (nat k) (2 * ?P) (vs_Validators vals3)"
    using room
  proof
    assume "(2 + k) * ?P \<le> MaxInt64"
    then show ?thesis
      using v3(3) k same unfolding room_def by (intro disjI1 exI [of _ "2 * ?P"]) (auto simp: algebra_simps)
  next
    assume "int (length vs) * (2 * ?P + 1) + ?P \<le> MaxInt64"
    then show ?thesis
      using v3(5) len same unfolding room_def by (intro disjI2) (simp add: algebra_simps)
  qed
  have "increment_times (nat k) None vals3
      = Some (Some (fst (ideal_round (ideal_rounds (nat k - 1) (vs_Validators vals3)))),
          vals3\<lparr>vs_Validators := ideal_rounds (nat k) (vs_Validators vals3), vs_totalVotingPower := ?P\<rparr>)"
    using rounds_refine [OF ok3 _ v3(4) _ _ room3] v3(3) P k same by auto
  then have "IncrementProposerPriority k vals = Some (vals3\<lparr>vs_Validators := ideal_rounds (nat k) (vs_Validators vals3),
      vs_totalVotingPower := ?P,
      vs_Proposer := Some (fst (ideal_round (ideal_rounds (nat k - 1) (vs_Validators vals3))))\<rparr>)"
    using ne k TotalVotingPower_ok [OF ok] v2(1) v3(1) two
    by (simp add: IncrementProposerPriority_def IsNilOrEmpty_def vs_def [symmetric] Let_def)
  with v3(3-5) same len show ?thesis
    by (intro exI [of _ "vs_Validators vals3"]) (auto simp: abs_le_iff)
qed

definition sample_vals :: "validator list" where
  "sample_vals =
     [\<lparr>val_Address = [1], val_PubKey = None, val_VotingPower = 3, val_ProposerPriority = 0\<rparr>,
      \<lparr>val_Address = [2], val_PubKey = None, val_VotingPower = 1, val_ProposerPriority = 1\<rparr>]"





end
