(* ===== verification/ValidatorUpdates.thy ===== *)
theory ValidatorUpdates
  imports ProposerElection
begin

text \<open>
  The change of a validator set, \<open>updateWithChangeSet\<close> of \<open>types/validator_set.go\<close>: what the scan of the
  changes accepts, that the merges implement the update of a finite map from addresses to powers, that
  the power check is exact and never wraps, and that the resulting set is well formed.
\<close>

section \<open>Sets as maps from addresses to powers\<close>

definition pmap :: "validator list \<Rightarrow> bytes \<Rightarrow> int option" where
  "pmap vs a = map_option val_VotingPower (find (\<lambda>v. val_Address v = a) vs)"

definition pw :: "validator list \<Rightarrow> bytes \<Rightarrow> int" where
  "pw vs a = (case pmap vs a of None \<Rightarrow> 0 | Some p \<Rightarrow> p)"

lemma pmap_None_iff: "pmap vs a = None \<longleftrightarrow> a \<notin> set (addrs vs)"
  by (auto simp: pmap_def find_None_iff)

lemma pmap_Some_iff:
  "distinct (addrs vs) \<Longrightarrow> pmap vs a = Some p \<longleftrightarrow> (\<exists>v \<in> set vs. val_Address v = a \<and> vpower v = p)"
  by (auto simp: pmap_def find_distinct)

lemma pw_member: "distinct (addrs vs) \<Longrightarrow> v \<in> set vs \<Longrightarrow> pw vs (val_Address v) = vpower v"
  using pmap_Some_iff [of vs "val_Address v" "vpower v"] by (auto simp: pw_def)

lemma pw_absent: "a \<notin> set (addrs vs) \<Longrightarrow> pw vs a = 0"
  using pmap_None_iff [of vs a] by (simp add: pw_def)

lemma pmap_cong: "addrs vs = addrs ws \<Longrightarrow> map vpower vs = map vpower ws \<Longrightarrow> pmap vs a = pmap ws a"
proof (induction vs arbitrary: ws)
  case (Cons v vs)
  then obtain w ws' where "ws = w # ws'" by (cases ws) auto
  with Cons show ?case by (auto simp: pmap_def)
qed simp

lemma total_power_pw:
  assumes "distinct (addrs vs)" "finite A" "set (addrs vs) \<subseteq> A"
  shows "total_power vs = (\<Sum>a\<in>A. pw vs a)"
proof -
  have "total_power vs = (\<Sum>v\<leftarrow>vs. pw vs (val_Address v))"
    using pw_member [OF assms(1)] by (intro arg_cong [of _ _ sum_list] map_cong) auto
  also have "\<dots> = sum_list (map (pw vs) (addrs vs))" by (simp add: comp_def)
  also have "\<dots> = (\<Sum>a\<in>set (addrs vs). pw vs a)"
    using assms(1) by (rule sum_list_distinct_conv_sum_set)
  also have "\<dots> = (\<Sum>a\<in>A. pw vs a)"
    using assms(2,3) by (intro sum.mono_neutral_left) (auto intro: pw_absent)
  finally show ?thesis .
qed

lemma snd_GetByAddress_pmap: "pmap (vs_Validators vals) a = map_option val_VotingPower (snd (GetByAddress vals a))"
  by (simp add: pmap_def snd_GetByAddress)

section \<open>Scanning the changes\<close>

abbreviation upds :: "validator list \<Rightarrow> validator list" where
  "upds cs \<equiv> filter (\<lambda>c. 0 < vpower c) cs"
abbreviation dels :: "validator list \<Rightarrow> validator list" where
  "dels cs \<equiv> filter (\<lambda>c. vpower c = 0) cs"

abbreviation asc :: "validator list \<Rightarrow> bool" where
  "asc vs \<equiv> sorted_wrt (<) (addrs vs)"

lemma Nil_less_iff: "[] < (xs :: bytes) \<longleftrightarrow> xs \<noteq> []"
  by (cases xs) simp_all

lemma asc_distinct: "asc vs \<Longrightarrow> distinct (addrs vs)"
  by (simp add: strict_sorted_iff)

lemma asc_filter: "asc vs \<Longrightarrow> asc (filter f vs)"
  by (induction vs) auto

definition changes_ok :: "validator list \<Rightarrow> bool" where
  "changes_ok cs \<longleftrightarrow> distinct (addrs cs) \<and> [] \<notin> set (addrs cs)
     \<and> (\<forall>c \<in> set cs. 0 \<le> vpower c \<and> vpower c \<le> MaxTotalVotingPower)"

lemma scan_changes_ok:
  assumes "asc cs" "\<forall>c \<in> set cs. prev < val_Address c"
    "\<forall>c \<in> set cs. 0 \<le> vpower c \<and> vpower c \<le> MaxTotalVotingPower"
  shows "scan_changes prev cs us rs = Inr (us @ upds cs, rs @ dels cs)"
  using assms by (induction prev cs us rs rule: scan_changes.induct) auto

lemma scan_changes_Inr:
  assumes "scan_changes prev cs us rs = Inr x" "sorted (addrs cs)" "\<forall>c \<in> set cs. prev \<le> val_Address c"
  shows "asc cs \<and> (\<forall>c \<in> set cs. prev < val_Address c)
    \<and> (\<forall>c \<in> set cs. 0 \<le> vpower c \<and> vpower c \<le> MaxTotalVotingPower)"
  using assms
proof (induction prev cs us rs rule: scan_changes.induct)
  case (2 prev v cs us rs)
  have v: "val_Address v \<noteq> prev" "0 \<le> vpower v" "vpower v \<le> MaxTotalVotingPower"
    using 2(3) by (auto split: if_splits)
  then have pv: "prev < val_Address v" using 2(5) by (auto simp: order_less_le)
  have le: "sorted (addrs cs)" "\<forall>c \<in> set cs. val_Address v \<le> val_Address c" using 2(4) by auto
  have "asc cs \<and> (\<forall>c \<in> set cs. val_Address v < val_Address c)
      \<and> (\<forall>c \<in> set cs. 0 \<le> vpower c \<and> vpower c \<le> MaxTotalVotingPower)"
  proof (cases "vpower v = 0")
    case True
    then have "scan_changes (val_Address v) cs us (rs @ [v]) = Inr x" using 2(3) v by simp
    from 2(1) [OF v(1) _ _ True this le] v show ?thesis by simp
  next
    case False
    then have "scan_changes (val_Address v) cs (us @ [v]) rs = Inr x" using 2(3) v by simp
    from 2(2) [OF v(1) _ _ False this le] v show ?thesis by simp
  qed
  with v pv show ?case by auto
qed simp

lemma processChanges_iff:
  "processChanges cs = Inr x \<longleftrightarrow> changes_ok cs
     \<and> x = (upds (sort_key val_Address cs), dels (sort_key val_Address cs))"
proof -
  let ?cs = "sort_key val_Address cs"
  have s: "sorted (addrs ?cs)" "set ?cs = set cs" by simp_all
  have d: "distinct (addrs ?cs) = distinct (addrs cs)"
    by (rule mset_eq_imp_distinct_iff) simp
  have asc: "asc ?cs \<longleftrightarrow> distinct (addrs cs)" using s d by (simp add: strict_sorted_iff)
  have ne: "(\<forall>c \<in> set ?cs. [] < val_Address c) \<longleftrightarrow> [] \<notin> set (addrs cs)"
    by (force simp: s(2) Nil_less_iff)
  show ?thesis
  proof
    assume R: "processChanges cs = Inr x"
    then have "asc ?cs" "\<forall>c \<in> set ?cs. [] < val_Address c"
        "\<forall>c \<in> set ?cs. 0 \<le> vpower c \<and> vpower c \<le> MaxTotalVotingPower"
      using scan_changes_Inr [of "[]" ?cs "[]" "[]" x] s by (auto simp: processChanges_def)
    with R show "changes_ok cs \<and> x = (upds ?cs, dels ?cs)"
      using scan_changes_ok [of ?cs "[]" "[]" "[]"] asc ne s(2)
      by (simp add: processChanges_def changes_ok_def)
  next
    assume "changes_ok cs \<and> x = (upds ?cs, dels ?cs)"
    then show "processChanges cs = Inr x"
      using scan_changes_ok [of ?cs "[]" "[]" "[]"] asc ne s(2)
      by (simp add: processChanges_def changes_ok_def)
  qed
qed

section \<open>The merges\<close>

lemma merge_updates_set:
  assumes "asc es" "asc us"
  shows "set (merge_updates es us) = set us \<union> {e \<in> set es. val_Address e \<notin> set (addrs us)}
    \<and> asc (merge_updates es us)"
  using assms
proof (induction es us rule: merge_updates.induct)
  case (1 e es u us)
  consider "val_Address e < val_Address u" | "val_Address e = val_Address u" | "val_Address u < val_Address e"
    using linorder_less_linear by blast
  then show ?case
  proof cases
    case 1
    then show ?thesis using "1.IH"(1) "1.prems" by (auto simp: bytes_compare_order)
  next
    case 2
    then show ?thesis using "1.IH"(2) "1.prems" by (auto simp: bytes_compare_order)
  next
    case 3
    then show ?thesis using "1.IH"(3) "1.prems" by (auto simp: bytes_compare_order)
  qed
qed auto

lemma remove_loop_filter:
  assumes "asc es" "asc ds" "set (addrs ds) \<subseteq> set (addrs es)"
  shows "remove_loop es ds = Some (filter (\<lambda>e. val_Address e \<notin> set (addrs ds)) es)"
  using assms
proof (induction es ds rule: remove_loop.induct)
  case (3 e es d ds)
  show ?case
  proof (cases "val_Address e = val_Address d")
    case True
    have "val_Address d \<notin> set (addrs ds)" using 3(4) by auto
    then have "set (addrs ds) \<subseteq> set (addrs es)" using True 3(5) by (auto simp: subset_insert)
    moreover have "filter (\<lambda>x. val_Address x \<notin> set (addrs (d # ds))) es
        = filter (\<lambda>x. val_Address x \<notin> set (addrs ds)) es"
      using True 3(3) by (intro filter_cong) auto
    ultimately show ?thesis using True 3 by simp
  next
    case False
    then have d: "val_Address d \<in> set (addrs es)" using 3(5) by auto
    then have lt: "val_Address e < val_Address d" using 3(3) by auto
    then have "val_Address e \<notin> set (addrs (d # ds))" using 3(4) False by auto
    moreover from this have "set (addrs (d # ds)) \<subseteq> set (addrs es)" using 3(5) by (auto simp: subset_insert)
    ultimately show ?thesis using False 3 by simp
  qed
qed simp_all

section \<open>The power check\<close>

definition vals_wf :: "validator_set \<Rightarrow> bool" where
  "vals_wf vals \<longleftrightarrow> distinct (addrs (vs_Validators vals))
     \<and> (\<forall>v \<in> set (vs_Validators vals). 0 < vpower v)
     \<and> total_power (vs_Validators vals) \<le> MaxTotalVotingPower
     \<and> vs_totalVotingPower vals \<in> {0, total_power (vs_Validators vals)}"

lemma vals_wf_ok: "vals_ok vals \<longleftrightarrow> vals_wf vals \<and> vs_Validators vals \<noteq> []"
  by (auto simp: vals_ok_def vals_wf_def)

lemma total_power_nonneg: "vals_wf vals \<Longrightarrow> 0 \<le> total_power (vs_Validators vals)"
  by (rule sum_list_map_nonneg) (auto simp: vals_wf_def less_imp_le)

lemma pw_nonneg: "vals_wf vals \<Longrightarrow> 0 \<le> pw (vs_Validators vals) a"
  by (auto simp: pw_def pmap_def vals_wf_def find_Some_iff less_imp_le split: option.splits)

lemma TotalVotingPower_wf:
  assumes "vals_wf vals"
  shows "TotalVotingPower vals = Some (total_power (vs_Validators vals),
      vals\<lparr>vs_totalVotingPower := total_power (vs_Validators vals)\<rparr>)"
proof (cases "vs_Validators vals = []")
  case True
  then show ?thesis
    using assms by (auto simp: TotalVotingPower_def updateTotalVotingPower_def vals_wf_def)
qed (use assms TotalVotingPower_ok vals_wf_ok in auto)

lemma sum_pw_le:
  assumes "vals_wf vals" "distinct (addrs us)"
  shows "(\<Sum>u\<leftarrow>us. pw (vs_Validators vals) (val_Address u)) \<le> total_power (vs_Validators vals)"
proof -
  let ?vs = "vs_Validators vals"
  let ?A = "set (addrs ?vs) \<union> set (addrs us)"
  have "(\<Sum>u\<leftarrow>us. pw ?vs (val_Address u)) = (\<Sum>a\<in>set (addrs us). pw ?vs a)"
    using sum_list_distinct_conv_sum_set [OF assms(2), of "pw ?vs"] by (simp add: comp_def)
  also have "\<dots> \<le> (\<Sum>a\<in>?A. pw ?vs a)"
    using pw_nonneg [OF assms(1)] by (intro sum_mono2) auto
  also have "\<dots> = total_power ?vs"
    using total_power_pw [of ?vs ?A] assms(1) by (simp add: vals_wf_def)
  finally show ?thesis .
qed

lemma pw_le: "vals_wf vals \<Longrightarrow> pw (vs_Validators vals) a \<le> MaxTotalVotingPower"
proof -
  assume wf: "vals_wf vals"
  have "pw (vs_Validators vals) a \<le> total_power (vs_Validators vals)"
    using sum_pw_le [OF wf, of "[\<lparr>val_Address = a, val_PubKey = None, val_VotingPower = 0,
        val_ProposerPriority = 0\<rparr>]"] by simp
  with wf show ?thesis by (simp add: vals_wf_def)
qed

lemma power_delta_eq:
  assumes "vals_wf vals" "0 \<le> vpower u" "vpower u \<le> MaxTotalVotingPower"
  shows "power_delta vals u = vpower u - pw (vs_Validators vals) (val_Address u)"
proof -
  have "in_i64 (vpower u - pw (vs_Validators vals) (val_Address u))"
    using assms pw_nonneg [OF assms(1)] pw_le [OF assms(1)] by (simp add: in_i64_def) (smt (verit))
  moreover have "pw (vs_Validators vals) (val_Address u)
      = (case snd (GetByAddress vals (val_Address u)) of None \<Rightarrow> 0 | Some v \<Rightarrow> vpower v)"
    by (simp add: pw_def snd_GetByAddress_pmap split: option.splits)
  ultimately show ?thesis
    by (auto simp: power_delta_def split: prod.splits option.splits)
qed

lemma add_deltas_eq:
  assumes wf: "vals_wf vals" and "\<forall>u \<in> set us. 0 \<le> vpower u \<and> vpower u \<le> MaxTotalVotingPower"
    and "sorted (map (power_delta vals) us)" "t \<le> MaxTotalVotingPower"
    and "(\<Sum>u\<leftarrow>us. pw (vs_Validators vals) (val_Address u)) \<le> t"
  shows "add_deltas vals us t = (let r = t + sum_list (map (power_delta vals) us) in
    if r > MaxTotalVotingPower then (if us = [] then Some t else None) else Some r)"
  using assms(2-)
proof (induction us arbitrary: t)
  case (Cons u us)
  let ?o = "\<lambda>u. pw (vs_Validators vals) (val_Address u)"
  have d: "power_delta vals u = vpower u - ?o u" using power_delta_eq [OF wf] Cons.prems(1) by simp
  have o: "0 \<le> ?o u" "0 \<le> (\<Sum>u\<leftarrow>us. ?o u)" "?o u \<le> MaxTotalVotingPower"
    using pw_nonneg [OF wf] pw_le [OF wf] by (auto intro!: sum_list_map_nonneg)
  let ?t = "t + power_delta vals u"
  have t: "i64 ?t = ?t" "(\<Sum>u\<leftarrow>us. ?o u) \<le> ?t"
    using Cons.prems(1,3,4) d o by (auto simp: in_i64_def intro!: i64_id)
  show ?case
  proof (cases "?t > MaxTotalVotingPower")
    case True
    then have "0 < power_delta vals u" using Cons.prems(3) by linarith
    then have "\<forall>w \<in> set us. 0 \<le> power_delta vals w" using Cons.prems(2) by fastforce
    from sum_list_map_nonneg [OF this] True t show ?thesis by (simp add: Let_def)
  next
    case False
    with Cons.IH [of ?t] Cons.prems t show ?thesis by (auto simp: Let_def add.assoc)
  qed
qed simp

lemma sum_removals_eq:
  assumes wf: "vals_wf vals" and "set (addrs ds) \<subseteq> set (addrs (vs_Validators vals))" "0 \<le> acc"
    and "acc + (\<Sum>d\<leftarrow>ds. pw (vs_Validators vals) (val_Address d)) \<le> MaxTotalVotingPower"
  shows "sum_removals ds vals acc = Inr (acc + (\<Sum>d\<leftarrow>ds. pw (vs_Validators vals) (val_Address d)))"
  using assms(2-)
proof (induction ds arbitrary: acc)
  case (Cons d ds)
  let ?o = "\<lambda>u. pw (vs_Validators vals) (val_Address u)"
  obtain v where v: "snd (GetByAddress vals (val_Address d)) = Some v" "vpower v = ?o d"
    using Cons.prems(1) pmap_None_iff [of "vs_Validators vals" "val_Address d"]
    by (auto simp: pw_def snd_GetByAddress_pmap split: option.splits)
  have o: "0 \<le> ?o d" "0 \<le> (\<Sum>u\<leftarrow>ds. ?o u)"
    using pw_nonneg [OF wf] by (auto intro!: sum_list_map_nonneg)
  then have "i64 (acc + ?o d) = acc + ?o d" "0 \<le> acc + ?o d"
      "acc + ?o d + (\<Sum>u\<leftarrow>ds. ?o u) \<le> MaxTotalVotingPower"
    using Cons.prems by (auto simp: in_i64_def intro!: i64_id)
  with Cons.IH [of "acc + ?o d"] Cons.prems v show ?case
    by (auto split: prod.splits option.splits simp: add.assoc)
qed simp

lemma sum_removals_absent:
  "\<not> set (addrs ds) \<subseteq> set (addrs (vs_Validators vals)) \<Longrightarrow> sum_removals ds vals acc = Inl ErrRemovalNotFound"
proof (induction ds arbitrary: acc)
  case (Cons d ds)
  then show ?case
    using pmap_None_iff [of "vs_Validators vals" "val_Address d"]
    by (cases "GetByAddress vals (val_Address d)")
      (auto simp: snd_GetByAddress_pmap split: option.splits)
qed simp

section \<open>The specification of a change\<close>

definition new_pmap :: "validator list \<Rightarrow> validator list \<Rightarrow> bytes \<Rightarrow> int option" where
  "new_pmap vs cs a =
     (case pmap cs a of None \<Rightarrow> pmap vs a | Some p \<Rightarrow> if p = 0 then None else Some p)"

definition new_total :: "validator list \<Rightarrow> validator list \<Rightarrow> int" where
  "new_total vs cs =
     (\<Sum>a\<in>set (addrs vs) \<union> set (addrs cs). case new_pmap vs cs a of None \<Rightarrow> 0 | Some p \<Rightarrow> p)"

definition change_valid :: "bool \<Rightarrow> validator list \<Rightarrow> validator list \<Rightarrow> bool" where
  "change_valid allowDeletes vs cs \<longleftrightarrow> changes_ok cs \<and> (allowDeletes \<or> dels cs = [])
     \<and> set (addrs (dels cs)) \<subseteq> set (addrs vs) \<and> new_total vs cs \<le> MaxTotalVotingPower
     \<and> (\<exists>a. new_pmap vs cs a \<noteq> None)"

lemma sum_if_subset:
  fixes f :: "'a \<Rightarrow> int"
  assumes "finite A" "distinct xs" "set xs \<subseteq> A"
  shows "(\<Sum>a\<in>A. if a \<in> set xs then f a else 0) = sum_list (map f xs)"
proof -
  have "(\<Sum>a\<in>A. if a \<in> set xs then f a else 0) = (\<Sum>a\<in>set xs. f a)"
    using assms by (simp add: sum.If_cases Int_absorb1)
  then show ?thesis using sum_list_distinct_conv_sum_set [OF assms(2), of f] by simp
qed

text \<open>The total that the code computes incrementally is the total of the new set.\<close>

lemma new_total_eq:
  assumes d: "distinct (addrs vs)" "distinct (addrs cs)" and nn: "\<forall>c \<in> set cs. 0 \<le> vpower c"
  shows "new_total vs cs = total_power vs - (\<Sum>c\<leftarrow>dels cs. pw vs (val_Address c))
    + (\<Sum>c\<leftarrow>upds cs. vpower c - pw vs (val_Address c))"
proof -
  let ?A = "set (addrs vs) \<union> set (addrs cs)"
  let ?D = "addrs (dels cs)" and ?U = "addrs (upds cs)"
  have dd: "distinct ?D" "distinct ?U" using d(2) by (auto simp: distinct_map_filter)
  have inD: "a \<in> set ?D \<longleftrightarrow> pmap cs a = Some 0" for a using d(2) by (auto simp: pmap_Some_iff)
  have inU: "a \<in> set ?U \<longleftrightarrow> (\<exists>p. pmap cs a = Some p \<and> p > 0)" for a
    using d(2) by (auto simp: pmap_Some_iff)
  have cs: "pmap cs a = Some p \<Longrightarrow> 0 \<le> p" for a p using d(2) nn by (auto simp: pmap_Some_iff)
  have "new_total vs cs = (\<Sum>a\<in>?A. pw vs a - (if a \<in> set ?D then pw vs a else 0)
      + (if a \<in> set ?U then pw cs a - pw vs a else 0))"
    unfolding new_total_def
  proof (rule sum.cong)
    fix a
    show "(case new_pmap vs cs a of None \<Rightarrow> 0 | Some p \<Rightarrow> p)
      = pw vs a - (if a \<in> set ?D then pw vs a else 0) + (if a \<in> set ?U then pw cs a - pw vs a else 0)"
      unfolding inD inU using cs [of a] by (cases "pmap cs a") (auto simp: new_pmap_def pw_def)
  qed simp
  also have "\<dots> = (\<Sum>a\<in>?A. pw vs a) - (\<Sum>a\<in>?A. if a \<in> set ?D then pw vs a else 0)
      + (\<Sum>a\<in>?A. if a \<in> set ?U then pw cs a - pw vs a else 0)"
    by (simp add: sum.distrib sum_subtractf)
  also have "(\<Sum>a\<in>?A. if a \<in> set ?D then pw vs a else 0) = sum_list (map (pw vs) ?D)"
    using dd(1) by (intro sum_if_subset) auto
  also have "(\<Sum>a\<in>?A. if a \<in> set ?U then pw cs a - pw vs a else 0)
      = sum_list (map (\<lambda>a. pw cs a - pw vs a) ?U)"
    using dd(2) by (intro sum_if_subset) auto
  also have "(\<Sum>a\<in>?A. pw vs a) = total_power vs" using total_power_pw [OF d(1), of ?A] by simp
  also have "map (\<lambda>a. pw cs a - pw vs a) ?U = map (\<lambda>c. vpower c - pw vs (val_Address c)) (upds cs)"
    using pw_member [OF d(2)] by auto
  finally show ?thesis by (simp add: comp_def)
qed

definition updated :: "validator list \<Rightarrow> validator list \<Rightarrow> validator list \<Rightarrow> validator list" where
  "updated vs us ds = filter (\<lambda>e. val_Address e \<notin> set (addrs ds)) (merge_updates (sort_key val_Address vs) us)"

lemma asc_sort: "distinct (addrs vs) \<Longrightarrow> asc (sort_key val_Address vs)"
proof -
  assume "distinct (addrs vs)"
  moreover have "distinct (addrs (sort_key val_Address vs)) = distinct (addrs vs)"
    by (rule mset_eq_imp_distinct_iff) simp
  ultimately show ?thesis by (simp add: strict_sorted_iff)
qed

lemma updated_spec:
  assumes d: "distinct (addrs vs)" and cs: "changes_ok cs"
    and us: "us = map (\<lambda>u. u\<lparr>val_ProposerPriority := f u\<rparr>) (upds (sort_key val_Address cs))"
    and ds: "ds = dels (sort_key val_Address cs)" "set (addrs (dels cs)) \<subseteq> set (addrs vs)"
    and pos: "\<forall>v \<in> set vs. 0 < vpower v"
  shows "remove_loop (merge_updates (sort_key val_Address vs) us) ds = Some (updated vs us ds)"
    "length ds \<le> length (merge_updates (sort_key val_Address vs) us)"
    "distinct (addrs (updated vs us ds))" "pmap (updated vs us ds) = new_pmap vs cs"
    "\<forall>v \<in> set (updated vs us ds). 0 < vpower v"
    "\<forall>v \<in> set (updated vs us ds). v \<in> set us \<or> v \<in> set vs"
proof -
  let ?cs = "sort_key val_Address cs"
  let ?M = "merge_updates (sort_key val_Address vs) us"
  have dcs: "distinct (addrs cs)" "asc ?cs" using cs asc_sort by (auto simp: changes_ok_def)
  have au: "addrs us = addrs (upds ?cs)" by (simp add: us comp_def)
  have aus: "asc us" "asc ds" unfolding au ds(1) using asc_filter [OF dcs(2)] by auto
  have M: "set ?M = set us \<union> {e \<in> set vs. val_Address e \<notin> set (addrs us)}" "asc ?M"
    using merge_updates_set [OF asc_sort [OF d] aus(1)] by auto
  have addrU: "set (addrs us) = set (addrs (upds cs))" unfolding au by simp
  have addrD: "set (addrs ds) = set (addrs (dels cs))" unfolding ds(1) by simp
  have inj: "c = c'" if "c \<in> set cs" "c' \<in> set cs" "val_Address c = val_Address c'" for c c'
    using dcs(1) that unfolding distinct_map by (blast dest: inj_onD)
  have disj: "a \<notin> set (addrs (upds cs))" if a: "a \<in> set (addrs (dels cs))" for a
  proof
    assume "a \<in> set (addrs (upds cs))"
    with a obtain c c' where "c \<in> set cs" "c' \<in> set cs" "val_Address c = a" "val_Address c' = a"
        "vpower c = 0" "0 < vpower c'"
      by (auto simp: image_iff)
    with inj [of c c'] show False by simp
  qed
  have DM: "set (addrs ds) \<subseteq> set (addrs ?M)"
  proof
    fix a assume a: "a \<in> set (addrs ds)"
    then obtain v where "v \<in> set vs" "val_Address v = a" using ds(2) addrD by auto
    moreover have "a \<notin> set (addrs us)" using a addrD addrU disj by auto
    ultimately show "a \<in> set (addrs ?M)" using M(1) by auto
  qed
  show "remove_loop ?M ds = Some (updated vs us ds)"
    unfolding updated_def by (rule remove_loop_filter [OF M(2) aus(2) DM])
  have "length (addrs ds) \<le> length (addrs ?M)"
    using card_mono [OF _ DM] unfolding distinct_card [OF asc_distinct [OF aus(2)]]
      distinct_card [OF asc_distinct [OF M(2)]] by simp
  then show "length ds \<le> length ?M" by simp
  have dN: "distinct (addrs (updated vs us ds))"
    unfolding updated_def by (rule asc_distinct [OF asc_filter [OF M(2)]])
  then show "distinct (addrs (updated vs us ds))" .
  have N: "v \<in> set (updated vs us ds) \<longleftrightarrow> (v \<in> set us \<or> v \<in> set vs \<and> val_Address v \<notin> set (addrs us))
      \<and> val_Address v \<notin> set (addrs ds)" for v
    by (auto simp: updated_def M(1))
  have ups: "(\<exists>v \<in> set us. val_Address v = a \<and> vpower v = p) \<longleftrightarrow> pmap cs a = Some p \<and> p \<noteq> 0" for a p
    using cs by (auto simp: us pmap_Some_iff [OF dcs(1)] changes_ok_def order_less_le)
  have memD: "a \<in> set (addrs ds) \<longleftrightarrow> pmap cs a = Some 0" for a
    unfolding addrD pmap_Some_iff [OF dcs(1)] by auto
  have memU: "a \<in> set (addrs us) \<longleftrightarrow> (\<exists>p. pmap cs a = Some p \<and> p \<noteq> 0)" for a
    using ups [of a] by auto
  have "pmap (updated vs us ds) a = Some p \<longleftrightarrow> new_pmap vs cs a = Some p" for a p
  proof -
    have "pmap (updated vs us ds) a = Some p
        \<longleftrightarrow> (\<exists>v. v \<in> set (updated vs us ds) \<and> val_Address v = a \<and> vpower v = p)"
      unfolding pmap_Some_iff [OF dN] by blast
    also have "\<dots> \<longleftrightarrow> ((\<exists>v \<in> set us. val_Address v = a \<and> vpower v = p)
        \<or> (\<exists>v \<in> set vs. val_Address v = a \<and> vpower v = p) \<and> a \<notin> set (addrs us)) \<and> a \<notin> set (addrs ds)"
      unfolding N by blast
    also have "\<dots> \<longleftrightarrow> new_pmap vs cs a = Some p"
      unfolding ups pmap_Some_iff [OF d, symmetric] memU memD
      by (cases "pmap cs a") (auto simp: new_pmap_def)
    finally show ?thesis .
  qed
  then show "pmap (updated vs us ds) = new_pmap vs cs"
    by (intro ext) (metis option.exhaust)
  show "\<forall>v \<in> set (updated vs us ds). 0 < vpower v"
    using N pos by (auto simp: us)
  show "\<forall>v \<in> set (updated vs us ds). v \<in> set us \<or> v \<in> set vs" using N by blast
qed

section \<open>The change of the set\<close>

lemma sum_list_sort_key: "sum_list (map f (sort_key g xs)) = sum_list (map f (xs :: 'a list) :: int list)"
  by (metis mset_map mset_sort sum_mset_sum_list)

lemma sort_filter_sum:
  "sum_list (map f (filter Q (sort_key g xs))) = sum_list (map f (filter Q (xs :: 'a list)) :: int list)"
  by (metis mset_filter mset_map mset_sort sum_mset_sum_list)

lemma verifyUpdates_eq:
  assumes wf: "vals_wf vals" and cs: "changes_ok cs" and ds: "set (addrs (dels cs)) \<subseteq> set (addrs (vs_Validators vals))"
  defines "us \<equiv> upds (sort_key val_Address cs)"
    and "R \<equiv> (\<Sum>d\<leftarrow>dels (sort_key val_Address cs). pw (vs_Validators vals) (val_Address d))"
  shows "verifyUpdates us vals R = Some
    (if new_total (vs_Validators vals) cs > MaxTotalVotingPower then Inl ErrTotalVotingPowerOverflow
     else Inr (new_total (vs_Validators vals) cs + R),
     vals\<lparr>vs_totalVotingPower := total_power (vs_Validators vals)\<rparr>)"
    and "0 \<le> R" "R \<le> total_power (vs_Validators vals)" "0 \<le> new_total (vs_Validators vals) cs"
proof -
  let ?vs = "vs_Validators vals" and ?cs = "sort_key val_Address cs"
  let ?o = "\<lambda>u. pw (vs_Validators vals) (val_Address u)"
  let ?vals1 = "vals\<lparr>vs_totalVotingPower := total_power ?vs\<rparr>"
  let ?P = "total_power ?vs"
  have wf1: "vals_wf ?vals1" using wf by (simp add: vals_wf_def)
  have d: "distinct (addrs cs)" "distinct (addrs ?vs)" using cs wf by (auto simp: changes_ok_def vals_wf_def)
  have u: "\<forall>u \<in> set us. 0 \<le> vpower u \<and> vpower u \<le> MaxTotalVotingPower"
    using cs by (auto simp: us_def changes_ok_def)
  have R: "R = (\<Sum>d\<leftarrow>dels cs. ?o d)" unfolding R_def by (rule sort_filter_sum)
  show R0: "0 \<le> R" unfolding R_def using pw_nonneg [OF wf] by (intro sum_list_map_nonneg) auto
  have all: "(\<Sum>c\<leftarrow>dels cs. ?o c) + (\<Sum>c\<leftarrow>upds cs. ?o c) = (\<Sum>c\<leftarrow>cs. ?o c)"
  proof -
    have "\<forall>c \<in> set cs. 0 < vpower c \<longleftrightarrow> vpower c \<noteq> 0" using cs by (auto simp: changes_ok_def order_less_le)
    then show ?thesis by (induction cs) auto
  qed
  have sumle: "R + (\<Sum>u\<leftarrow>us. ?o u) \<le> ?P"
    using sum_pw_le [OF wf d(1)] all unfolding R us_def sort_filter_sum by simp
  have Unn: "0 \<le> (\<Sum>u\<leftarrow>us. ?o u)" using pw_nonneg [OF wf] by (intro sum_list_map_nonneg) auto
  then show "R \<le> ?P" using sumle by linarith
  have P: "0 \<le> ?P" "?P \<le> MaxTotalVotingPower" using wf total_power_nonneg [OF wf] by (auto simp: vals_wf_def)
  have delta: "map (power_delta ?vals1) us = map (\<lambda>c. vpower c - ?o c) us"
    using power_delta_eq [OF wf1] u by auto
  have new: "new_total ?vs cs = ?P - R + sum_list (map (power_delta ?vals1) us)"
  proof -
    have "sum_list (map (power_delta ?vals1) us) = (\<Sum>c\<leftarrow>upds cs. vpower c - ?o c)"
      unfolding delta unfolding us_def by (rule sort_filter_sum)
    then show ?thesis using new_total_eq [OF d(2,1)] cs unfolding R by (simp add: changes_ok_def)
  qed
  show "0 \<le> new_total ?vs cs"
  proof -
    have "0 \<le> (\<Sum>u\<leftarrow>us. vpower u)" using u by (intro sum_list_map_nonneg) auto
    then show ?thesis using sumle unfolding new delta by (simp add: sum_list_subtractf)
  qed
  have t: "i64 (?P - R) = ?P - R" using P R0 \<open>R \<le> ?P\<close> by (auto simp: in_i64_def intro!: i64_id)
  have add: "add_deltas ?vals1 (sort_key (power_delta ?vals1) us) (?P - R)
      = (if new_total ?vs cs > MaxTotalVotingPower then None else Some (new_total ?vs cs))"
  proof -
    have "add_deltas ?vals1 (sort_key (power_delta ?vals1) us) (?P - R)
      = (let r = ?P - R + sum_list (map (power_delta ?vals1) (sort_key (power_delta ?vals1) us)) in
         if r > MaxTotalVotingPower
         then (if sort_key (power_delta ?vals1) us = [] then Some (?P - R) else None) else Some r)"
      by (rule add_deltas_eq [OF wf1]) (use u P R0 sumle in \<open>auto simp: sum_list_sort_key\<close>)
    moreover have "sort_key (power_delta ?vals1) us = [] \<Longrightarrow> us = []"
      by (metis set_empty set_sort)
    ultimately show ?thesis
      using new P R0 by (auto simp: Let_def sum_list_sort_key)
  qed
  have "i64 (new_total ?vs cs + R) = new_total ?vs cs + R" if "\<not> new_total ?vs cs > MaxTotalVotingPower"
    using that R0 \<open>R \<le> ?P\<close> P \<open>0 \<le> new_total ?vs cs\<close> by (auto simp: in_i64_def intro!: i64_id)
  then show "verifyUpdates us vals R = Some
    (if new_total ?vs cs > MaxTotalVotingPower then Inl ErrTotalVotingPowerOverflow
     else Inr (new_total ?vs cs + R), ?vals1)"
    using TotalVotingPower_wf [OF wf] t add by (simp add: verifyUpdates_def)
qed

lemma dels_length:
  assumes "distinct (addrs vs)" "changes_ok cs" "set (addrs (dels cs)) \<subseteq> set (addrs vs)"
  shows "length (dels cs) \<le> length vs"
    and "length vs = length (dels cs) \<longleftrightarrow> set (addrs vs) = set (addrs (dels cs))"
proof -
  have d: "distinct (addrs (dels cs))" using assms(2) by (auto simp: changes_ok_def distinct_map_filter)
  have c: "card (set (addrs (dels cs))) = length (dels cs)" "card (set (addrs vs)) = length vs"
    using distinct_card [OF d] distinct_card [OF assms(1)] by simp_all
  show "length (dels cs) \<le> length vs" using card_mono [OF _ assms(3)] c by simp
  show "length vs = length (dels cs) \<longleftrightarrow> set (addrs vs) = set (addrs (dels cs))"
    using card_subset_eq [OF _ assms(3)] c by (metis List.finite_set)
qed

lemma empty_check:
  assumes d: "distinct (addrs (vs_Validators vals))" and cs: "changes_ok cs"
    and sub: "set (addrs (dels cs)) \<subseteq> set (addrs (vs_Validators vals))"
  shows "numNewValidators (upds (sort_key val_Address cs)) vals = 0
      \<and> length (vs_Validators vals) = length (dels (sort_key val_Address cs))
    \<longleftrightarrow> (\<forall>a. new_pmap (vs_Validators vals) cs a = None)"
proof -
  let ?vs = "vs_Validators vals"
  have dcs: "distinct (addrs cs)" using cs by (simp add: changes_ok_def)
  have len: "length (dels (sort_key val_Address cs)) = length (dels cs)"
    by (metis mset_filter mset_sort size_mset)
  have new: "numNewValidators (upds (sort_key val_Address cs)) vals = 0
      \<longleftrightarrow> set (addrs (upds cs)) \<subseteq> set (addrs ?vs)"
  proof -
    have has: "HasAddress vals a \<longleftrightarrow> a \<in> set (addrs ?vs)" for a by (auto simp: HasAddress_def list_ex_iff)
    show ?thesis
      unfolding numNewValidators_def length_0_conv filter_empty_conv has by auto
  qed
  have inD: "a \<in> set (addrs (dels cs)) \<longleftrightarrow> pmap cs a = Some 0" for a
    unfolding pmap_Some_iff [OF dcs] by auto
  have inU: "a \<in> set (addrs (upds cs)) \<longleftrightarrow> (\<exists>p. pmap cs a = Some p \<and> p \<noteq> 0)" for a
    unfolding pmap_Some_iff [OF dcs] using cs by (auto simp: changes_ok_def order_less_le)
  have inV: "a \<in> set (addrs ?vs) \<longleftrightarrow> pmap ?vs a \<noteq> None" for a by (simp add: pmap_None_iff)
  have none: "new_pmap ?vs cs a = None
      \<longleftrightarrow> a \<notin> set (addrs (upds cs)) \<and> (a \<in> set (addrs ?vs) \<longrightarrow> a \<in> set (addrs (dels cs)))" for a
    unfolding inU inV inD by (cases "pmap cs a") (auto simp: new_pmap_def)
  have disj: "a \<in> set (addrs (dels cs)) \<Longrightarrow> a \<notin> set (addrs (upds cs))" for a
    unfolding inU inD by auto
  show ?thesis
    unfolding len new dels_length(2) [OF d cs sub] none using sub disj by blast
qed

abbreviation by_power :: "validator \<Rightarrow> int \<times> bytes" where
  "by_power v \<equiv> (- vpower v, val_Address v)"

definition set_ok :: "validator_set \<Rightarrow> bool" where
  "set_ok vals \<longleftrightarrow> vals_ok vals \<and> vs_totalVotingPower vals = total_power (vs_Validators vals)
     \<and> sorted (map by_power (vs_Validators vals))
     \<and> (\<forall>v \<in> set (vs_Validators vals). \<bar>prio v\<bar> \<le> 2 * total_power (vs_Validators vals))
     \<and> 0 \<le> total_prio (vs_Validators vals)
     \<and> total_prio (vs_Validators vals) < int (length (vs_Validators vals))"

text \<open>The last steps of a change: the total, the scaling, the centring and the sort.\<close>

lemma finish_change:
  assumes ne: "vs_Validators vals \<noteq> []" and d: "distinct (addrs (vs_Validators vals))"
    and pos: "\<forall>v \<in> set (vs_Validators vals). 0 < vpower v"
    and tot: "total_power (vs_Validators vals) \<le> MaxTotalVotingPower"
    and pr: "\<forall>v \<in> set (vs_Validators vals). \<bar>prio v\<bar> \<le> 3 * 2 ^ 60"
  shows "\<exists>vals'. do {
      vals4 \<leftarrow> updateTotalVotingPower vals;
      (total', vals5) \<leftarrow> TotalVotingPower vals4;
      vals6 \<leftarrow> RescalePriorities (i64 (PriorityWindowSizeFactor * total')) vals5;
      vals7 \<leftarrow> shiftByAvgProposerPriority vals6;
      Some (None :: val_error option, vals7\<lparr>vs_Validators := ValidatorsByVotingPower (vs_Validators vals7)\<rparr>)
    } = Some (None, vals') \<and> set_ok vals' \<and> pmap (vs_Validators vals') = pmap (vs_Validators vals)"
proof -
  let ?vs = "vs_Validators vals"
  let ?P = "total_power ?vs"
  let ?vals4 = "vals\<lparr>vs_totalVotingPower := ?P\<rparr>"
  have u: "updateTotalVotingPower vals = Some ?vals4"
    using sum_powers_eq [of ?vs 0] pos tot by (simp add: updateTotalVotingPower_def less_imp_le)
  have ok4: "vals_ok ?vals4" using ne d pos tot by (simp add: vals_ok_def)
  have P: "0 < ?P" using total_power_pos [OF ne pos] .
  have two: "i64 (PriorityWindowSizeFactor * ?P) = 2 * ?P"
    using P tot by (auto simp: PriorityWindowSizeFactor_def in_i64_def intro!: i64_id)
  have r: "\<forall>v \<in> set ?vs. in_i64 (prio v)" using pr by (auto simp: in_i64_def abs_le_iff)
  have sp: "spread_le (6 * 2 ^ 60) ?vs" 
    unfolding spread_le_def
  proof (intro ballI)
    fix v w assume "v \<in> set ?vs" "w \<in> set ?vs"
    then have "\<bar>prio v\<bar> \<le> 3 * 2 ^ 60" "\<bar>prio w\<bar> \<le> 3 * 2 ^ 60" using pr by auto
    then show "prio v - prio w \<le> 6 * 2 ^ 60" by simp
  qed
  obtain vals6 where v6: "RescalePriorities (2 * ?P) ?vals4 = Some vals6" "same_vals vals6 ?vals4"
      "spread_le (2 * ?P) (vs_Validators vals6)" "\<forall>v \<in> set (vs_Validators vals6). in_i64 (prio v)"
    using RescalePriorities_ok [of ?vals4 "6 * 2 ^ 60" "2 * ?P"] ne r sp P tot by auto
  have ok6: "vals_ok vals6" by (rule same_vals_ok [OF v6(2) ok4])
  obtain vals7 where v7: "shiftByAvgProposerPriority vals6 = Some vals7" "same_vals vals7 vals6"
      "\<forall>v \<in> set (vs_Validators vals7). - (2 * ?P) \<le> prio v \<and> prio v \<le> 2 * ?P"
      "0 \<le> total_prio (vs_Validators vals7)"
      "total_prio (vs_Validators vals7) < int (length (vs_Validators vals7))"
    using shiftByAvg_ok [OF _ v6(4,3)] ok6 tot by (auto simp: vals_ok_def)
  have same: "same_vals vals7 ?vals4" by (rule same_vals_trans [OF v7(2) v6(2)])
  have ok7: "vals_ok vals7" by (rule same_vals_ok [OF same ok4])
  let ?ws = "ValidatorsByVotingPower (vs_Validators vals7)"
  let ?vals' = "vals7\<lparr>vs_Validators := ?ws\<rparr>"
  have ws: "mset ?ws = mset (vs_Validators vals7)" "sorted (map by_power ?ws)"
    by (simp_all add: ValidatorsByVotingPower_def)
  have sums: "total_power ?ws = total_power (vs_Validators vals7)" "total_prio ?ws = total_prio (vs_Validators vals7)"
    unfolding ValidatorsByVotingPower_def by (rule sum_list_sort_key)+
  have dw: "distinct (addrs ?ws)"
    using ok7 mset_eq_imp_distinct_iff [of "addrs ?ws" "addrs (vs_Validators vals7)"] ws(1)
    by (simp add: vals_ok_def)
  have set: "set ?ws = set (vs_Validators vals7)" using ws(1) by (metis set_mset_mset)
  have len: "length ?ws = length (vs_Validators vals7)" using ws(1) by (metis size_mset)
  have P7: "total_power (vs_Validators vals7) = ?P" "vs_totalVotingPower vals7 = ?P"
    using same by (simp_all add: same_vals_def)
  have "set_ok ?vals'"
    using ok7 dw set len sums P7 v7(3-5) ws(2) unfolding set_ok_def vals_ok_def
    by (auto simp: abs_le_iff)
  moreover have "pmap ?ws = pmap ?vs"
  proof
    fix a
    have "pmap (vs_Validators vals7) a = pmap ?vs a"
      using same d by (auto simp: same_vals_def intro!: pmap_cong)
    moreover have "pmap ?ws a = Some p \<longleftrightarrow> pmap (vs_Validators vals7) a = Some p" for p
      using ok7 dw set by (simp add: pmap_Some_iff vals_ok_def)
    ultimately show "pmap ?ws a = pmap ?vs a" by (metis option.exhaust)
  qed
  ultimately show ?thesis
    using u TotalVotingPower_ok [OF ok4] two v6(1) v7(1) by (intro exI [of _ ?vals']) simp
qed

lemma prio_of_update:
  assumes pr: "\<forall>v \<in> set (vs_Validators vals). \<bar>prio v\<bar> \<le> 3 * 2 ^ 60"
    and t: "0 \<le> tvp" "tvp \<le> 2 ^ 61" and u: "u \<in> set (computeNewPriorities us vals tvp)"
  shows "\<bar>prio u\<bar> \<le> 3 * 2 ^ 60"
proof -
  have w: "prio u = (case GetByAddress vals (val_Address u) of
      (_, None) \<Rightarrow> i64 (- i64 (tvp + tvp div 8)) | (_, Some val) \<Rightarrow> prio val)"
    using u by (auto simp: computeNewPriorities_def)
  show ?thesis
  proof (cases "snd (GetByAddress vals (val_Address u))")
    case None
    have "tvp div 8 \<le> 2 ^ 58" "0 \<le> tvp div 8" using t by auto
    then have "i64 (- i64 (tvp + tvp div 8)) = - (tvp + tvp div 8)"
      using t by (simp add: i64_id in_i64_def)
    then show ?thesis using None w t \<open>tvp div 8 \<le> 2 ^ 58\<close> \<open>0 \<le> tvp div 8\<close>
      by (cases "GetByAddress vals (val_Address u)") simp
  next
    case (Some val)
    then have "val \<in> set (vs_Validators vals)"
      using snd_GetByAddress [of vals "val_Address u"] by (auto simp: find_Some_iff)
    then show ?thesis using Some w pr by (cases "GetByAddress vals (val_Address u)") fastforce
  qed
qed

lemma change_accepted:
  assumes wf: "vals_wf vals" and pr: "\<forall>v \<in> set (vs_Validators vals). \<bar>prio v\<bar> \<le> 3 * 2 ^ 60"
    and ne: "cs \<noteq> []" and ok: "change_valid allow (vs_Validators vals) cs"
  shows "\<exists>vals'. updateWithChangeSet cs allow vals = Some (None, vals') \<and> set_ok vals'
    \<and> pmap (vs_Validators vals') = new_pmap (vs_Validators vals) cs"
proof -
  let ?vs = "vs_Validators vals" and ?cs = "sort_key val_Address cs"
  let ?U = "upds ?cs" and ?D = "dels ?cs"
  let ?vals1 = "vals\<lparr>vs_totalVotingPower := total_power ?vs\<rparr>"
  define R where "R = (\<Sum>d\<leftarrow>?D. pw ?vs (val_Address d))"
  define us where "us = computeNewPriorities ?U ?vals1 (new_total ?vs cs + R)"
  have cs: "changes_ok cs" and sub: "set (addrs (dels cs)) \<subseteq> set (addrs ?vs)"
    and new: "new_total ?vs cs \<le> MaxTotalVotingPower" and al: "\<not> (\<not> allow \<and> length ?D \<noteq> 0)"
    and some: "\<exists>a. new_pmap ?vs cs a \<noteq> None"
    using ok by (auto simp: change_valid_def filter_empty_conv)
  have d: "distinct (addrs ?vs)" and pos: "\<forall>v \<in> set ?vs. 0 < vpower v"
    and P: "total_power ?vs \<le> MaxTotalVotingPower" using wf by (auto simp: vals_wf_def)
  note vu = verifyUpdates_eq [OF wf cs sub, folded R_def]
  have rem: "verifyRemovals ?D vals = Some (Inr R)"
    using sum_removals_eq [OF wf, of ?D 0, folded R_def] vu(3) P sub dels_length(1) [OF d cs sub]
    by (simp add: verifyRemovals_def filter_sort not_less)
  have upd: "verifyUpdates ?U vals R = Some (Inr (new_total ?vs cs + R), ?vals1)"
    using vu(1) new by simp
  have nonempty: "\<not> (numNewValidators ?U vals = 0 \<and> length ?vs = length ?D)"
    using empty_check [OF d cs sub] some by simp
  note us = updated_spec [OF d cs us_def [unfolded computeNewPriorities_def] refl sub pos]
  let ?N = "updated ?vs us ?D"
  have sel: "vs_Validators (?vals1\<lparr>vs_Validators := ?N\<rparr>) = ?N" by simp
  have N: "\<exists>vals'. do {
      vals4 \<leftarrow> updateTotalVotingPower (?vals1\<lparr>vs_Validators := ?N\<rparr>);
      (total', vals5) \<leftarrow> TotalVotingPower vals4;
      vals6 \<leftarrow> RescalePriorities (i64 (PriorityWindowSizeFactor * total')) vals5;
      vals7 \<leftarrow> shiftByAvgProposerPriority vals6;
      Some (None :: val_error option, vals7\<lparr>vs_Validators := ValidatorsByVotingPower (vs_Validators vals7)\<rparr>)
    } = Some (None, vals') \<and> set_ok vals' \<and> pmap (vs_Validators vals') = pmap ?N"
  proof (rule finish_change [of "?vals1\<lparr>vs_Validators := ?N\<rparr>", unfolded sel])
    show "?N \<noteq> []" using some unfolding us(4) [symmetric] by (auto simp: pmap_def)
    show "distinct (addrs ?N)" "\<forall>v \<in> set ?N. 0 < vpower v" using us(3,5) by auto
    have "set (addrs ?N) \<subseteq> set (addrs ?vs) \<union> set (addrs cs)"
      using us(6) by (fastforce simp: us_def computeNewPriorities_def)
    then have "total_power ?N = new_total ?vs cs"
      using total_power_pw [OF us(3)] by (simp add: new_total_def pw_def us(4))
    then show "total_power ?N \<le> MaxTotalVotingPower" using new by simp
    show "\<forall>v \<in> set ?N. \<bar>prio v\<bar> \<le> 3 * 2 ^ 60"
      using us(6) pr prio_of_update [of ?vals1 "new_total ?vs cs + R" _ ?U, folded us_def] vu(2-4) new P
      by fastforce
  qed
  moreover have "applyRemovals ?D (applyUpdates us ?vals1) = Some (?vals1\<lparr>vs_Validators := ?N\<rparr>)"
    using us(1,2) by (simp add: applyRemovals_def applyUpdates_def not_less)
  moreover have "processChanges cs = Inr (?U, ?D)" using cs by (simp add: processChanges_iff)
  ultimately show ?thesis
    using ne al nonempty rem upd us(4)
    unfolding updateWithChangeSet_def by (simp add: us_def [symmetric] Let_def)
qed

lemma change_rejected:
  assumes wf: "vals_wf vals" and ne: "cs \<noteq> []" and bad: "\<not> change_valid allow (vs_Validators vals) cs"
  shows "\<exists>e vals'. updateWithChangeSet cs allow vals = Some (Some e, vals')
    \<and> vs_Validators vals' = vs_Validators vals \<and> vs_Proposer vals' = vs_Proposer vals"
proof (cases "changes_ok cs \<and> (allow \<or> dels cs = [])")
  case False
  have len: "length (dels (sort_key val_Address cs)) = 0 \<longleftrightarrow> dels cs = []"
    by (simp add: filter_empty_conv)
  show ?thesis
  proof (cases "processChanges cs")
    case Inl
    then show ?thesis using ne by (simp add: updateWithChangeSet_def)
  next
    case (Inr x)
    then have "changes_ok cs" and x: "x = (upds (sort_key val_Address cs), dels (sort_key val_Address cs))"
      by (auto simp: processChanges_iff)
    then have "\<not> allow \<and> length (dels (sort_key val_Address cs)) \<noteq> 0" using False len by simp
    then show ?thesis using Inr x ne by (simp add: updateWithChangeSet_def)
  qed
next
  case True
  let ?vs = "vs_Validators vals" and ?cs = "sort_key val_Address cs"
  let ?U = "upds ?cs" and ?D = "dels ?cs"
  have cs: "changes_ok cs" and pc: "processChanges cs = Inr (?U, ?D)"
    and al: "\<not> (\<not> allow \<and> length ?D \<noteq> 0)"
    using True by (auto simp: processChanges_iff filter_empty_conv)
  have d: "distinct (addrs ?vs)" and P: "total_power ?vs \<le> MaxTotalVotingPower"
    using wf by (auto simp: vals_wf_def)
  show ?thesis
  proof (cases "set (addrs (dels cs)) \<subseteq> set (addrs ?vs)")
    case False
    then have "sum_removals ?D vals 0 = Inl ErrRemovalNotFound" by (intro sum_removals_absent) simp
    then show ?thesis
      using ne pc al by (auto simp: updateWithChangeSet_def verifyRemovals_def)
  next
    case sub: True
    define R where "R = (\<Sum>d\<leftarrow>?D. pw ?vs (val_Address d))"
    note vu = verifyUpdates_eq [OF wf cs sub, folded R_def]
    have rem: "verifyRemovals ?D vals = Some (Inr R)"
      using sum_removals_eq [OF wf, of ?D 0, folded R_def] vu(3) P sub dels_length(1) [OF d cs sub]
      by (simp add: verifyRemovals_def filter_sort not_less)
    show ?thesis
    proof (cases "new_total ?vs cs > MaxTotalVotingPower")
      case True
      then show ?thesis using ne pc al rem vu(1) by (auto simp: updateWithChangeSet_def)
    next
      case False
      then have "\<forall>a. new_pmap ?vs cs a = None"
        using bad cs True sub by (auto simp: change_valid_def)
      then have "numNewValidators ?U vals = 0 \<and> length ?vs = length ?D"
        using empty_check [OF d cs sub] by simp
      then show ?thesis using ne pc al by (auto simp: updateWithChangeSet_def)
    qed
  qed
qed

section \<open>Properties\<close>

text \<open>
  C10: on a well-formed validator set whose priorities are at most 3 * 2^60 in absolute value,
  \<open>updateWithChangeSet\<close> never panics.  It accepts exactly the valid changes: no duplicate
  address, powers between zero and the maximum, removals only of members and only where
  allowed, a total that stays below the maximum and a result that is not empty.  An accepted
  change gives the set with exactly the new powers, sorted by power and then address, with the
  right cached total and with centred and scaled priorities, so the next change meets the same
  precondition; a refused change leaves validators and proposer as they were.
\<close>
theorem validator_change_exact:
  assumes "vals_wf vals" "\<forall>v \<in> set (vs_Validators vals). \<bar>val_ProposerPriority v\<bar> \<le> 3 * 2 ^ 60" "cs \<noteq> []"
  shows "\<exists>err vals'. updateWithChangeSet cs allow vals = Some (err, vals')
    \<and> (err = None \<longleftrightarrow> change_valid allow (vs_Validators vals) cs)
    \<and> (if err = None
       then set_ok vals' \<and> (\<forall>a. pmap (vs_Validators vals') a = new_pmap (vs_Validators vals) cs a)
       else vs_Validators vals' = vs_Validators vals \<and> vs_Proposer vals' = vs_Proposer vals)"
proof (cases "change_valid allow (vs_Validators vals) cs")
  case True
  then show ?thesis using change_accepted [OF assms] by fastforce
next
  case False
  then show ?thesis using change_rejected [OF assms(1,3)] by fastforce
qed

definition sample_changes :: "validator list" where
  "sample_changes = [\<lparr>val_Address = [9], val_PubKey = Some [9], val_VotingPower = 5, val_ProposerPriority = 0\<rparr>]"

definition sample_val_set :: validator_set where
  "sample_val_set = \<lparr>vs_Validators = sample_vals, vs_Proposer = None, vs_totalVotingPower = 4\<rparr>"

theorem validator_change_exact_witness:
  "\<exists>vals'. updateWithChangeSet sample_changes True sample_val_set = Some (None, vals')
    \<and> set_ok vals' \<and> pmap (vs_Validators vals') [9] = Some 5 \<and> pmap (vs_Validators vals') [1] = Some 3"
proof -
  have wf: "vals_wf sample_val_set" by (simp add: vals_wf_def sample_val_set_def sample_vals_def)
  have pr: "\<forall>v \<in> set (vs_Validators sample_val_set). \<bar>val_ProposerPriority v\<bar> \<le> 3 * 2 ^ 60"
    by (simp add: sample_val_set_def sample_vals_def)
  have ne: "sample_changes \<noteq> []" by (simp add: sample_changes_def)
  have new: "new_pmap sample_vals sample_changes [9] = Some 5" "new_pmap sample_vals sample_changes [1] = Some 3"
    "new_pmap sample_vals sample_changes [2] = Some 1"
    by (simp_all add: new_pmap_def pmap_def sample_changes_def sample_vals_def)
  have addr: "set (addrs sample_vals) \<union> set (addrs sample_changes) = {[1], [2], [9]}"
    by (auto simp: sample_vals_def sample_changes_def)
  have "new_total sample_vals sample_changes = 9"
    unfolding new_total_def addr by (simp add: new)
  then have ok: "change_valid True (vs_Validators sample_val_set) sample_changes"
    using new by (auto simp: change_valid_def sample_val_set_def changes_ok_def sample_changes_def)
  then show ?thesis
    using validator_change_exact [OF wf pr ne, of True] new by (auto simp: sample_val_set_def)
qed

end
