(* ===== verification/CommitVerify.thy ===== *)
theory CommitVerify
  imports ValidatorUpdates
begin

text \<open>
  The verification of commits, \<open>types/validation.go\<close>, with the dispatch to the batch verifiers
  (\<open>crypto/batch/batch.go\<close>, \<open>crypto/ed25519/ed25519.go\<close>, \<open>crypto/sr25519/batch.go\<close>).

  A public key is its bytes; the type of a key, the decoding of sr25519 keys and signatures and
  the batch verification itself belong to the curve libraries and are the record \<open>batch_env\<close>.
  The caches that \<open>TotalVotingPower\<close> and \<open>GetProposer\<close> fill in are part of the result.
\<close>

section \<open>Batch verifiers\<close>

record batch_env =
  be_KeyType :: "bytes \<Rightarrow> string"
  be_SrPubKeyOk :: "bytes \<Rightarrow> bool"
  be_SrSignatureOk :: "bytes \<Rightarrow> bool"
  be_Verify :: "string \<Rightarrow> (bytes \<times> bytes \<times> bytes) list \<Rightarrow> bool \<times> bool list"

definition ed25519_KeyType :: string where "ed25519_KeyType = ''ed25519''"
definition sr25519_KeyType :: string where "sr25519_KeyType = ''sr25519''"

definition ed25519_PubKeySize :: nat where "ed25519_PubKeySize = 32"
definition ed25519_SignatureSize :: nat where "ed25519_SignatureSize = 64"

text \<open>A batch verifier: the scheme it was created for and the entries added so far.\<close>

record batch_verifier =
  bv_Type :: string
  bv_Entries :: "(bytes \<times> bytes \<times> bytes) list"

datatype commit_error = ErrNilValidatorSet | ErrNilCommit | ErrZeroDenominator | ErrNumeratorOverflow
  | ErrInvalidCommitSignatures int int | ErrInvalidCommitHeight int int | ErrWrongBlockID
  | ErrDoubleVote nat nat | ErrWrongSignature nat | ErrNotEnoughVotingPowerSigned int int
  | ErrBatchUnsupported | ErrBatchKeyType | ErrBatchPubKey | ErrBatchSignature | ErrBatchBug

definition CreateBatchVerifier :: "batch_env \<Rightarrow> bytes \<Rightarrow> batch_verifier option" where
  "CreateBatchVerifier B pk =
     (if be_KeyType B pk = ed25519_KeyType then Some \<lparr>bv_Type = ed25519_KeyType, bv_Entries = []\<rparr>
      else if be_KeyType B pk = sr25519_KeyType then Some \<lparr>bv_Type = sr25519_KeyType, bv_Entries = []\<rparr>
      else None)"

definition SupportsBatchVerifier :: "batch_env \<Rightarrow> bytes \<Rightarrow> bool" where
  "SupportsBatchVerifier B pk \<longleftrightarrow> be_KeyType B pk = ed25519_KeyType \<or> be_KeyType B pk = sr25519_KeyType"

definition ed25519_Add ::
  "batch_env \<Rightarrow> bytes option \<Rightarrow> bytes \<Rightarrow> bytes \<Rightarrow> batch_verifier \<Rightarrow> commit_error + batch_verifier" where
  "ed25519_Add B key msg signature bv =
     (case key of
        None \<Rightarrow> Inl ErrBatchKeyType
      | Some pk \<Rightarrow>
          (if be_KeyType B pk \<noteq> ed25519_KeyType then Inl ErrBatchKeyType
           else if length pk \<noteq> ed25519_PubKeySize then Inl ErrBatchPubKey
           else if length signature \<noteq> ed25519_SignatureSize then Inl ErrBatchSignature
           else Inr (bv\<lparr>bv_Entries := bv_Entries bv @ [(pk, msg, signature)]\<rparr>)))"

definition sr25519_Add ::
  "batch_env \<Rightarrow> bytes option \<Rightarrow> bytes \<Rightarrow> bytes \<Rightarrow> batch_verifier \<Rightarrow> commit_error + batch_verifier" where
  "sr25519_Add B key msg signature bv =
     (case key of
        None \<Rightarrow> Inl ErrBatchKeyType
      | Some pk \<Rightarrow>
          (if be_KeyType B pk \<noteq> sr25519_KeyType then Inl ErrBatchKeyType
           else if \<not> be_SrPubKeyOk B pk then Inl ErrBatchPubKey
           else if \<not> be_SrSignatureOk B signature then Inl ErrBatchSignature
           else Inr (bv\<lparr>bv_Entries := bv_Entries bv @ [(pk, msg, signature)]\<rparr>)))"

definition bv_Add ::
  "batch_env \<Rightarrow> bytes option \<Rightarrow> bytes \<Rightarrow> bytes \<Rightarrow> batch_verifier \<Rightarrow> commit_error + batch_verifier" where
  "bv_Add B key msg signature bv =
     (if bv_Type bv = ed25519_KeyType then ed25519_Add B key msg signature bv
      else sr25519_Add B key msg signature bv)"

definition bv_Verify :: "batch_env \<Rightarrow> batch_verifier \<Rightarrow> bool \<times> bool list" where
  "bv_Verify B bv = be_Verify B (bv_Type bv) (bv_Entries bv)"

section \<open>The two verification routines\<close>

text \<open>The parameters that both routines take, in the order of the source.\<close>

record commit_check =
  cc_chainID :: bytes
  cc_vals :: validator_set
  cc_commit :: commit
  cc_votingPowerNeeded :: int
  cc_ignoreSig :: "commit_sig \<Rightarrow> bool"
  cc_countSig :: "commit_sig \<Rightarrow> bool"
  cc_countAllSignatures :: bool
  cc_lookUpByIndex :: bool

text \<open>
  The lookup of the validator behind a signature: by index (a panic out of range) or by address,
  where an unknown address is skipped and a second signature of a validator is an error.
\<close>

datatype lookup = Skip | DoubleVote nat nat | Use validator "int \<rightharpoonup> nat"

definition lookup_val :: "commit_check \<Rightarrow> nat \<Rightarrow> commit_sig \<Rightarrow> (int \<rightharpoonup> nat) \<Rightarrow> lookup option" where
  "lookup_val C idx commitSig seenVals =
     (if cc_lookUpByIndex C
      then map_option (\<lambda>val. Use val seenVals) (go_index (vs_Validators (cc_vals C)) (int idx))
      else case GetByAddress (cc_vals C) (cs_ValidatorAddress commitSig) of
        (valIdx, None) \<Rightarrow> Some Skip
      | (valIdx, Some val) \<Rightarrow>
          (case seenVals valIdx of
             Some firstIndex \<Rightarrow> Some (DoubleVote firstIndex idx)
           | None \<Rightarrow> Some (Use val (seenVals(valIdx \<mapsto> idx)))))"

definition tally :: "commit_check \<Rightarrow> commit_sig \<Rightarrow> validator \<Rightarrow> int \<Rightarrow> int" where
  "tally C commitSig val talliedVotingPower =
     (if cc_countSig C commitSig then i64 (talliedVotingPower + val_VotingPower val)
      else talliedVotingPower)"

definition enough :: "commit_check \<Rightarrow> int \<Rightarrow> commit_error option" where
  "enough C talliedVotingPower =
     (if talliedVotingPower \<le> cc_votingPowerNeeded C
      then Some (ErrNotEnoughVotingPowerSigned talliedVotingPower (cc_votingPowerNeeded C)) else None)"

fun single_loop ::
  "env \<Rightarrow> commit_check \<Rightarrow> nat \<Rightarrow> commit_sig list \<Rightarrow> (int \<rightharpoonup> nat) \<Rightarrow> int \<Rightarrow> commit_error option option" where
  "single_loop E C idx [] seenVals talliedVotingPower = Some (enough C talliedVotingPower)"
| "single_loop E C idx (commitSig # sigs) seenVals talliedVotingPower =
     (if cc_ignoreSig C commitSig then single_loop E C (Suc idx) sigs seenVals talliedVotingPower
      else do {
        l \<leftarrow> lookup_val C idx commitSig seenVals;
        case l of
          Skip \<Rightarrow> single_loop E C (Suc idx) sigs seenVals talliedVotingPower
        | DoubleVote i j \<Rightarrow> Some (Some (ErrDoubleVote i j))
        | Use val seenVals' \<Rightarrow>
            do {
              voteSignBytes \<leftarrow> c_VoteSignBytes E (cc_chainID C) (cc_commit C) (i32 (int idx));
              pk \<leftarrow> val_PubKey val;
              if \<not> env_VerifySignature E pk voteSignBytes (cs_Signature commitSig)
              then Some (Some (ErrWrongSignature idx))
              else (let t = tally C commitSig val talliedVotingPower in
                    if \<not> cc_countAllSignatures C \<and> t > cc_votingPowerNeeded C then Some None
                    else single_loop E C (Suc idx) sigs seenVals' t)
            }
      })"

definition verifyCommitSingle :: "env \<Rightarrow> commit_check \<Rightarrow> commit_error option option" where
  "verifyCommitSingle E C = single_loop E C 0 (c_Signatures (cc_commit C)) Map.empty 0"

fun batch_loop ::
  "env \<Rightarrow> batch_env \<Rightarrow> commit_check \<Rightarrow> nat \<Rightarrow> commit_sig list \<Rightarrow> (int \<rightharpoonup> nat) \<Rightarrow> int \<Rightarrow> batch_verifier \<Rightarrow> nat list
     \<Rightarrow> (commit_error + int \<times> batch_verifier \<times> nat list) option" where
  "batch_loop E B C idx [] seenVals talliedVotingPower bv batchSigIdxs =
     Some (Inr (talliedVotingPower, bv, batchSigIdxs))"
| "batch_loop E B C idx (commitSig # sigs) seenVals talliedVotingPower bv batchSigIdxs =
     (if cc_ignoreSig C commitSig
      then batch_loop E B C (Suc idx) sigs seenVals talliedVotingPower bv batchSigIdxs
      else do {
        l \<leftarrow> lookup_val C idx commitSig seenVals;
        case l of
          Skip \<Rightarrow> batch_loop E B C (Suc idx) sigs seenVals talliedVotingPower bv batchSigIdxs
        | DoubleVote i j \<Rightarrow> Some (Inl (ErrDoubleVote i j))
        | Use val seenVals' \<Rightarrow>
            do {
              voteSignBytes \<leftarrow> c_VoteSignBytes E (cc_chainID C) (cc_commit C) (i32 (int idx));
              case bv_Add B (val_PubKey val) voteSignBytes (cs_Signature commitSig) bv of
                Inl err \<Rightarrow> Some (Inl err)
              | Inr bv' \<Rightarrow>
                  (let t = tally C commitSig val talliedVotingPower in
                   if \<not> cc_countAllSignatures C \<and> t > cc_votingPowerNeeded C
                   then Some (Inr (t, bv', batchSigIdxs @ [idx]))
                   else batch_loop E B C (Suc idx) sigs seenVals' t bv' (batchSigIdxs @ [idx]))
            }
      })"

text \<open>The index of the first invalid signature, back in the commit.\<close>

fun first_invalid :: "bool list \<Rightarrow> nat list \<Rightarrow> commit_error option" where
  "first_invalid [] idxs = Some ErrBatchBug"
| "first_invalid (ok # validSigs) idxs =
     (if ok then first_invalid validSigs (tl idxs)
      else (case idxs of [] \<Rightarrow> None | idx # _ \<Rightarrow> Some (ErrWrongSignature idx)))"

definition proposer_key :: "validator_set \<Rightarrow> (bytes \<times> validator_set) option" where
  "proposer_key vals =
     do {
       (p, vals') \<leftarrow> GetProposer vals;
       val \<leftarrow> p;
       pk \<leftarrow> val_PubKey val;
       Some (pk, vals')
     }"

definition batchVerifyThreshold :: nat where "batchVerifyThreshold = 2"

definition verifyCommitBatch :: "env \<Rightarrow> batch_env \<Rightarrow> commit_check \<Rightarrow> commit_error option option" where
  "verifyCommitBatch E B C =
     do {
       (pk, _) \<leftarrow> proposer_key (cc_vals C);
       case CreateBatchVerifier B pk of
         None \<Rightarrow> Some (Some ErrBatchUnsupported)
       | Some bv \<Rightarrow>
           (if length (c_Signatures (cc_commit C)) < batchVerifyThreshold then Some (Some ErrBatchUnsupported)
            else do {
              r \<leftarrow> batch_loop E B C 0 (c_Signatures (cc_commit C)) Map.empty 0 bv [];
              case r of
                Inl err \<Rightarrow> Some (Some err)
              | Inr (talliedVotingPower, bv', batchSigIdxs) \<Rightarrow>
                  (case enough C talliedVotingPower of
                     Some err \<Rightarrow> Some (Some err)
                   | None \<Rightarrow>
                       (case bv_Verify B bv' of
                          (True, validSigs) \<Rightarrow> Some None
                        | (False, validSigs) \<Rightarrow>
                            do { err \<leftarrow> first_invalid validSigs batchSigIdxs; Some (Some err) }))
            })
     }"

definition shouldBatchVerify :: "batch_env \<Rightarrow> validator_set \<Rightarrow> commit \<Rightarrow> (bool \<times> validator_set) option" where
  "shouldBatchVerify B vals c =
     (if length (c_Signatures c) \<ge> batchVerifyThreshold
      then do { (pk, vals') \<leftarrow> proposer_key vals; Some (SupportsBatchVerifier B pk, vals') }
      else Some (False, vals))"

definition verify_signatures ::
  "env \<Rightarrow> batch_env \<Rightarrow> commit_check \<Rightarrow> (commit_error option \<times> validator_set) option" where
  "verify_signatures E B C =
     do {
       (batch, vals) \<leftarrow> shouldBatchVerify B (cc_vals C) (cc_commit C);
       err \<leftarrow> (if batch then verifyCommitBatch E B (C\<lparr>cc_vals := vals\<rparr>)
               else verifyCommitSingle E (C\<lparr>cc_vals := vals\<rparr>));
       Some (err, vals)
     }"

section \<open>The checks of a commit\<close>

definition verifyBasicValsAndCommit ::
  "validator_set option \<Rightarrow> commit option \<Rightarrow> int \<Rightarrow> block_id \<Rightarrow> commit_error option" where
  "verifyBasicValsAndCommit vals c height blockID =
     (case vals of
        None \<Rightarrow> Some ErrNilValidatorSet
      | Some vals \<Rightarrow>
          (case c of
             None \<Rightarrow> Some ErrNilCommit
           | Some c \<Rightarrow>
               (if vals_Size vals \<noteq> int (length (c_Signatures c))
                then Some (ErrInvalidCommitSignatures (vals_Size vals) (int (length (c_Signatures c))))
                else if height \<noteq> c_Height c then Some (ErrInvalidCommitHeight height (c_Height c))
                else if \<not> bid_Equals blockID (c_BlockID c) then Some ErrWrongBlockID
                else None)))"

type_synonym verify_result = "(commit_error option \<times> validator_set option) option"

definition VerifyCommit ::
  "env \<Rightarrow> batch_env \<Rightarrow> bytes \<Rightarrow> validator_set option \<Rightarrow> block_id \<Rightarrow> int \<Rightarrow> commit option \<Rightarrow> verify_result" where
  "VerifyCommit E B chainID vals blockID height c =
     (case verifyBasicValsAndCommit vals c height blockID of
        Some err \<Rightarrow> Some (Some err, vals)
      | None \<Rightarrow>
          do {
            (total', vals1) \<leftarrow> TotalVotingPower (the vals);
            (err, vals2) \<leftarrow> verify_signatures E B
              \<lparr>cc_chainID = chainID, cc_vals = vals1, cc_commit = the c,
               cc_votingPowerNeeded = i64 (total' * 2) sdiv 3, cc_ignoreSig = cs_Absent,
               cc_countSig = cs_ForBlock, cc_countAllSignatures = True, cc_lookUpByIndex = True\<rparr>;
            Some (err, Some vals2)
          })"

definition VerifyCommitLight ::
  "env \<Rightarrow> batch_env \<Rightarrow> bytes \<Rightarrow> validator_set option \<Rightarrow> block_id \<Rightarrow> int \<Rightarrow> commit option \<Rightarrow> verify_result" where
  "VerifyCommitLight E B chainID vals blockID height c =
     (case verifyBasicValsAndCommit vals c height blockID of
        Some err \<Rightarrow> Some (Some err, vals)
      | None \<Rightarrow>
          do {
            (total', vals1) \<leftarrow> TotalVotingPower (the vals);
            (err, vals2) \<leftarrow> verify_signatures E B
              \<lparr>cc_chainID = chainID, cc_vals = vals1, cc_commit = the c,
               cc_votingPowerNeeded = i64 (total' * 2) sdiv 3, cc_ignoreSig = (\<lambda>cs. \<not> cs_ForBlock cs),
               cc_countSig = (\<lambda>_. True), cc_countAllSignatures = False, cc_lookUpByIndex = True\<rparr>;
            Some (err, Some vals2)
          })"

definition VerifyCommitLightTrusting ::
  "env \<Rightarrow> batch_env \<Rightarrow> bytes \<Rightarrow> validator_set option \<Rightarrow> commit option \<Rightarrow> fraction \<Rightarrow> verify_result" where
  "VerifyCommitLightTrusting E B chainID vals c trustLevel =
     (case vals of
        None \<Rightarrow> Some (Some ErrNilValidatorSet, vals)
      | Some vs \<Rightarrow>
          (if Denominator trustLevel = 0 then Some (Some ErrZeroDenominator, vals)
           else case c of
             None \<Rightarrow> Some (Some ErrNilCommit, vals)
           | Some cm \<Rightarrow>
               do {
                 (total', vals1) \<leftarrow> TotalVotingPower vs;
                 let (product, overflow) = safeMul total' (i64 (uint (Numerator trustLevel)));
                 if overflow then Some (Some ErrNumeratorOverflow, Some vals1)
                 else do {
                   (err, vals2) \<leftarrow> verify_signatures E B
                     \<lparr>cc_chainID = chainID, cc_vals = vals1, cc_commit = cm,
                      cc_votingPowerNeeded = i64 (product sdiv i64 (uint (Denominator trustLevel))),
                      cc_ignoreSig = (\<lambda>cs. \<not> cs_ForBlock cs), cc_countSig = (\<lambda>_. True),
                      cc_countAllSignatures = False, cc_lookUpByIndex = False\<rparr>;
                   Some (err, Some vals2)
                 }
               }))"

section \<open>What the loops select\<close>

text \<open>
  The part of both loops that does not look at signatures: the signatures they examine, each with
  its index and validator, and how the loop ends: a double vote, an early exit, or the end of the
  list, with the tallied power.
\<close>

datatype scan_end = Double nat nat | Early int | Finished int

fun scan ::
  "commit_check \<Rightarrow> nat \<Rightarrow> commit_sig list \<Rightarrow> (int \<rightharpoonup> nat) \<Rightarrow> int
     \<Rightarrow> ((nat \<times> commit_sig \<times> validator) list \<times> scan_end) option" where
  "scan C idx [] seen t = Some ([], Finished t)"
| "scan C idx (cs # sigs) seen t =
     (if cc_ignoreSig C cs then scan C (Suc idx) sigs seen t
      else do {
        l \<leftarrow> lookup_val C idx cs seen;
        case l of
          Skip \<Rightarrow> scan C (Suc idx) sigs seen t
        | DoubleVote i j \<Rightarrow> Some ([], Double i j)
        | Use val seen' \<Rightarrow>
            (let t' = tally C cs val t in
             if \<not> cc_countAllSignatures C \<and> t' > cc_votingPowerNeeded C then Some ([(idx, cs, val)], Early t')
             else map_option (\<lambda>(items, e). ((idx, cs, val) # items, e)) (scan C (Suc idx) sigs seen' t'))
      })"

abbreviation item_val :: "nat \<times> commit_sig \<times> validator \<Rightarrow> validator" where
  "item_val x \<equiv> snd (snd x)"

definition sig_valid :: "env \<Rightarrow> commit_check \<Rightarrow> nat \<times> commit_sig \<times> validator \<Rightarrow> bool" where
  "sig_valid E C x \<longleftrightarrow> (case x of (idx, cs, val) \<Rightarrow>
     \<exists>bz pk. c_VoteSignBytes E (cc_chainID C) (cc_commit C) (i32 (int idx)) = Some bz
       \<and> val_PubKey val = Some pk \<and> env_VerifySignature E pk bz (cs_Signature cs))"

definition accepts :: "commit_check \<Rightarrow> scan_end \<Rightarrow> bool" where
  "accepts C e \<longleftrightarrow> (case e of Double i j \<Rightarrow> False | Early t \<Rightarrow> True
     | Finished t \<Rightarrow> t > cc_votingPowerNeeded C)"

lemma single_loop_use:
  assumes "\<not> cc_ignoreSig C cs" "lookup_val C idx cs seen = Some (Use val seen')"
  shows "single_loop E C idx (cs # sigs) seen t = Some None \<longleftrightarrow> sig_valid E C (idx, cs, val)
    \<and> (\<not> cc_countAllSignatures C \<and> tally C cs val t > cc_votingPowerNeeded C
       \<or> single_loop E C (Suc idx) sigs seen' (tally C cs val t) = Some None)"
proof -
  let ?bz = "c_VoteSignBytes E (cc_chainID C) (cc_commit C) (i32 (int idx))"
  have "sig_valid E C (idx, cs, val) \<longleftrightarrow> ?bz \<noteq> None \<and> val_PubKey val \<noteq> None
      \<and> env_VerifySignature E (the (val_PubKey val)) (the ?bz) (cs_Signature cs)"
    by (auto simp: sig_valid_def)
  then show ?thesis
    using assms by (cases ?bz; cases "val_PubKey val") (simp_all add: Let_def)
qed

lemma single_loop_accepts_iff:
  "single_loop E C idx sigs seen t = Some None \<longleftrightarrow>
     (\<exists>items e. scan C idx sigs seen t = Some (items, e) \<and> list_all (sig_valid E C) items \<and> accepts C e)"
proof (induction sigs arbitrary: idx seen t)
  case Nil
  then show ?case by (auto simp: accepts_def enough_def)
next
  case (Cons cs sigs)
  show ?case
  proof (cases "\<not> cc_ignoreSig C cs \<and> (\<exists>val seen'. lookup_val C idx cs seen = Some (Use val seen'))")
    case True
    then obtain val seen' where l: "\<not> cc_ignoreSig C cs" "lookup_val C idx cs seen = Some (Use val seen')"
      by blast
    show ?thesis
      unfolding single_loop_use [OF l] Cons using l by (auto simp: Let_def accepts_def)
  next
    case False
    then show ?thesis
      using Cons by (cases "lookup_val C idx cs seen"; cases "the (lookup_val C idx cs seen)")
        (auto simp: accepts_def)
  qed
qed

section \<open>The batch\<close>

definition addable :: "batch_env \<Rightarrow> string \<Rightarrow> bytes \<Rightarrow> bytes \<Rightarrow> bool" where
  "addable B ty pk sig \<longleftrightarrow>
     (if ty = ed25519_KeyType
      then be_KeyType B pk = ed25519_KeyType \<and> length pk = ed25519_PubKeySize \<and> length sig = ed25519_SignatureSize
      else be_KeyType B pk = sr25519_KeyType \<and> be_SrPubKeyOk B pk \<and> be_SrSignatureOk B sig)"

lemma bv_Add_iff:
  "bv_Add B key msg sig bv = Inr bv' \<longleftrightarrow> (\<exists>pk. key = Some pk \<and> addable B (bv_Type bv) pk sig
     \<and> bv' = bv\<lparr>bv_Entries := bv_Entries bv @ [(pk, msg, sig)]\<rparr>)"
  by (cases key) (auto simp: bv_Add_def ed25519_Add_def sr25519_Add_def addable_def)

definition entry :: "env \<Rightarrow> commit_check \<Rightarrow> nat \<times> commit_sig \<times> validator \<Rightarrow> bytes \<times> bytes \<times> bytes" where
  "entry E C x = (case x of (idx, cs, val) \<Rightarrow>
     (the (val_PubKey val), the (c_VoteSignBytes E (cc_chainID C) (cc_commit C) (i32 (int idx))), cs_Signature cs))"

definition batchable :: "env \<Rightarrow> batch_env \<Rightarrow> commit_check \<Rightarrow> string \<Rightarrow> nat \<times> commit_sig \<times> validator \<Rightarrow> bool" where
  "batchable E B C ty x \<longleftrightarrow> (case x of (idx, cs, val) \<Rightarrow>
     c_VoteSignBytes E (cc_chainID C) (cc_commit C) (i32 (int idx)) \<noteq> None
     \<and> (\<exists>pk. val_PubKey val = Some pk \<and> addable B ty pk (cs_Signature cs)))"

definition end_tally :: "scan_end \<Rightarrow> int option" where
  "end_tally e = (case e of Double i j \<Rightarrow> None | Early t \<Rightarrow> Some t | Finished t \<Rightarrow> Some t)"

lemma batch_loop_use:
  assumes "\<not> cc_ignoreSig C cs" "lookup_val C idx cs seen = Some (Use val seen')"
  shows "batch_loop E B C idx (cs # sigs) seen t bv idxs = Some (Inr r) \<longleftrightarrow>
    batchable E B C (bv_Type bv) (idx, cs, val)
    \<and> (let bv' = bv\<lparr>bv_Entries := bv_Entries bv @ [entry E C (idx, cs, val)]\<rparr> in
       if \<not> cc_countAllSignatures C \<and> tally C cs val t > cc_votingPowerNeeded C
       then r = (tally C cs val t, bv', idxs @ [idx])
       else batch_loop E B C (Suc idx) sigs seen' (tally C cs val t) bv' (idxs @ [idx]) = Some (Inr r))"
proof -
  let ?bz = "c_VoteSignBytes E (cc_chainID C) (cc_commit C) (i32 (int idx))"
  show ?thesis
  proof (cases ?bz)
    case None
    then show ?thesis using assms by (simp add: batchable_def)
  next
    case (Some bz)
    show ?thesis
    proof (cases "bv_Add B (val_PubKey val) bz (cs_Signature cs) bv")
      case (Inl e)
      then have "\<not> batchable E B C (bv_Type bv) (idx, cs, val)"
        using bv_Add_iff [of B "val_PubKey val" bz "cs_Signature cs" bv] by (auto simp: batchable_def)
      then show ?thesis using Inl Some assms by simp
    next
      case (Inr bv')
      then have "batchable E B C (bv_Type bv) (idx, cs, val)"
          "bv' = bv\<lparr>bv_Entries := bv_Entries bv @ [entry E C (idx, cs, val)]\<rparr>"
        using bv_Add_iff [of B "val_PubKey val" bz "cs_Signature cs" bv bv'] Some
        by (auto simp: batchable_def entry_def)
      then show ?thesis using Inr Some assms by (auto simp: Let_def)
    qed
  qed
qed

lemma batch_loop_iff:
  "batch_loop E B C idx sigs seen t bv idxs = Some (Inr (t', bv', idxs')) \<longleftrightarrow>
     (\<exists>items e. scan C idx sigs seen t = Some (items, e) \<and> end_tally e = Some t'
        \<and> list_all (batchable E B C (bv_Type bv)) items
        \<and> bv' = bv\<lparr>bv_Entries := bv_Entries bv @ map (entry E C) items\<rparr> \<and> idxs' = idxs @ map fst items)"
proof (induction sigs arbitrary: idx seen t bv idxs)
  case Nil
  then show ?case by (auto simp: end_tally_def)
next
  case (Cons cs sigs)
  show ?case
  proof (cases "\<not> cc_ignoreSig C cs \<and> (\<exists>val seen'. lookup_val C idx cs seen = Some (Use val seen'))")
    case True
    then obtain val seen' where l: "\<not> cc_ignoreSig C cs" "lookup_val C idx cs seen = Some (Use val seen')"
      by blast
    show ?thesis
      unfolding batch_loop_use [OF l] Let_def Cons using l by (auto simp: Let_def end_tally_def)
  next
    case False
    then show ?thesis
      using Cons by (cases "lookup_val C idx cs seen"; cases "the (lookup_val C idx cs seen)")
        (auto simp: end_tally_def)
  qed
qed

text \<open>
  What the curve libraries document: a batch verifier reports for each entry whether it is valid,
  and whether all are; single verification accepts only keys and signatures of the right form.
\<close>

definition verifies :: "env \<Rightarrow> bytes \<times> bytes \<times> bytes \<Rightarrow> bool" where
  "verifies E x = (case x of (pk, msg, sig) \<Rightarrow> env_VerifySignature E pk msg sig)"

definition batch_lib_ok :: "env \<Rightarrow> batch_env \<Rightarrow> bool" where
  "batch_lib_ok E B \<longleftrightarrow>
     (\<forall>ty es. es \<noteq> [] \<longrightarrow> be_Verify B ty es = (list_all (verifies E) es, map (verifies E) es))"

definition key_ok :: "env \<Rightarrow> batch_env \<Rightarrow> string \<Rightarrow> validator \<Rightarrow> bool" where
  "key_ok E B ty val \<longleftrightarrow> (\<exists>pk. val_PubKey val = Some pk \<and> be_KeyType B pk = ty
     \<and> (\<forall>msg sig. env_VerifySignature E pk msg sig
          \<longrightarrow> ty \<in> {ed25519_KeyType, sr25519_KeyType} \<longrightarrow> addable B ty pk sig))"

lemma sig_valid_entry:
  "c_VoteSignBytes E (cc_chainID C) (cc_commit C) (i32 (int (fst x))) \<noteq> None \<Longrightarrow> val_PubKey (item_val x) \<noteq> None
     \<Longrightarrow> sig_valid E C x \<longleftrightarrow> verifies E (entry E C x)"
  by (cases x) (auto simp: sig_valid_def verifies_def entry_def)

lemma scan_early: "scan C idx sigs seen t = Some (items, Early t') \<Longrightarrow> t' > cc_votingPowerNeeded C"
  by (induction C idx sigs seen t arbitrary: items rule: scan.induct)
    (auto simp: Let_def split: if_splits Option.bind_splits lookup.splits)

lemma scan_empty: "scan C idx sigs seen t = Some ([], e) \<Longrightarrow> e = Finished t \<or> (\<exists>i j. e = Double i j)"
  by (induction C idx sigs seen t arbitrary: e rule: scan.induct)
    (auto simp: Let_def split: if_splits Option.bind_splits lookup.splits)

lemma accepts_iff_tally:
  assumes "scan C idx sigs seen t = Some (items, e)"
  shows "accepts C e \<longleftrightarrow> (\<exists>t'. end_tally e = Some t' \<and> t' > cc_votingPowerNeeded C)"
  using assms scan_early [of C idx sigs seen t items] by (cases e) (auto simp: accepts_def end_tally_def)

definition selected :: "env \<Rightarrow> commit_check \<Rightarrow> (nat \<times> commit_sig \<times> validator) list \<Rightarrow> bool" where
  "selected E C items \<longleftrightarrow> (\<exists>e. scan C 0 (c_Signatures (cc_commit C)) Map.empty 0 = Some (items, e)
     \<and> accepts C e \<and> list_all (sig_valid E C) items)"

lemma verifyCommitSingle_iff: "verifyCommitSingle E C = Some None \<longleftrightarrow> (\<exists>items. selected E C items)"
  unfolding verifyCommitSingle_def single_loop_accepts_iff selected_def by blast

lemma verifyCommitBatch_iff:
  assumes key: "proposer_key (cc_vals C) = Some (pk, vals')" "be_KeyType B pk = ty"
      "ty = ed25519_KeyType \<or> ty = sr25519_KeyType"
    and len: "length (c_Signatures (cc_commit C)) \<ge> 2" and lib: "batch_lib_ok E B"
    and needed: "0 \<le> cc_votingPowerNeeded C"
  shows "verifyCommitBatch E B C = Some None
    \<longleftrightarrow> (\<exists>items. selected E C items \<and> list_all (batchable E B C ty) items)"
proof -
  let ?bv = "\<lparr>bv_Type = ty, bv_Entries = []\<rparr>"
  have bv: "CreateBatchVerifier B pk = Some ?bv" using key by (auto simp: CreateBatchVerifier_def)
  define r where "r = batch_loop E B C 0 (c_Signatures (cc_commit C)) Map.empty 0 ?bv []"
  have iff: "verifyCommitBatch E B C = Some None \<longleftrightarrow> (\<exists>t bv' idxs. r = Some (Inr (t, bv', idxs))
      \<and> t > cc_votingPowerNeeded C \<and> fst (bv_Verify B bv'))"
    using key(1) bv len
    by (auto simp: verifyCommitBatch_def r_def [symmetric] batchVerifyThreshold_def enough_def
        split: Option.bind_splits sum.splits option.splits prod.splits bool.splits if_splits)
  have ok: "fst (bv_Verify B (?bv\<lparr>bv_Entries := [] @ map (entry E C) items\<rparr>)) \<longleftrightarrow> list_all (sig_valid E C) items"
    if ne: "items \<noteq> []" and b: "list_all (batchable E B C ty) items" for items
  proof -
    have "list_all (verifies E) (map (entry E C) items) \<longleftrightarrow> list_all (sig_valid E C) items"
      unfolding list_all_iff using b
      by (auto simp: list_all_iff batchable_def sig_valid_def verifies_def entry_def split: prod.splits)
        fastforce+
    then show ?thesis using lib ne by (simp add: bv_Verify_def batch_lib_ok_def)
  qed
  have ne: "items \<noteq> []" if "scan C 0 (c_Signatures (cc_commit C)) Map.empty 0 = Some (items, e)" "accepts C e"
    for items e
    using that needed scan_empty [of C 0 "c_Signatures (cc_commit C)" Map.empty 0 e]
    by (auto simp: accepts_def)
  show ?thesis
    unfolding iff r_def batch_loop_iff selected_def
    using ok ne accepts_iff_tally [of C 0 "c_Signatures (cc_commit C)" Map.empty 0] by fastforce
qed

section \<open>No panic\<close>

lemma lookup_val_cong:
  "vs_Validators (cc_vals C) = vs_Validators vals \<Longrightarrow> lookup_val (C\<lparr>cc_vals := vals\<rparr>) = lookup_val C"
  by (intro ext) (simp add: lookup_val_def GetByAddress_def cong: if_cong)

lemma scan_cong:
  assumes "vs_Validators (cc_vals C) = vs_Validators vals"
  shows "scan (C\<lparr>cc_vals := vals\<rparr>) idx sigs seen t = scan C idx sigs seen t"
proof (induction sigs arbitrary: idx seen t)
  case (Cons cs sigs)
  have tally: "tally (C\<lparr>cc_vals := vals\<rparr>) = tally C" by (intro ext) (simp add: tally_def)
  show ?case unfolding scan.simps lookup_val_cong [OF assms] tally Cons by simp
qed simp

lemma selected_cong:
  "vs_Validators (cc_vals C) = vs_Validators vals \<Longrightarrow> selected E (C\<lparr>cc_vals := vals\<rparr>) items \<longleftrightarrow> selected E C items"
  by (simp add: selected_def scan_cong accepts_def sig_valid_def [abs_def] cong: scan_end.case_cong)

text \<open>The validator a lookup returns belongs to the set.\<close>

lemma lookup_val_by_address:
  assumes "\<not> cc_lookUpByIndex C" "lookup_val C idx cs seen = Some (Use val seen')"
  shows "\<exists>k. GetByAddress (cc_vals C) (cs_ValidatorAddress cs) = (k, Some val) \<and> seen k = None
    \<and> seen' = seen(k \<mapsto> idx) \<and> val \<in> set (vs_Validators (cc_vals C)) \<and> val_Address val = cs_ValidatorAddress cs"
proof -
  obtain k o' where g: "GetByAddress (cc_vals C) (cs_ValidatorAddress cs) = (k, o')"
    by (cases "GetByAddress (cc_vals C) (cs_ValidatorAddress cs)")
  with assms have "o' = Some val" "seen k = None" "seen' = seen(k \<mapsto> idx)"
    by (auto simp: lookup_val_def split: option.splits)
  moreover from this g have "find (\<lambda>v. val_Address v = cs_ValidatorAddress cs) (vs_Validators (cc_vals C)) = Some val"
    using snd_GetByAddress [of "cc_vals C" "cs_ValidatorAddress cs"] by simp
  ultimately show ?thesis using g by (auto simp: find_Some_iff)
qed

lemma lookup_val_member: "lookup_val C idx cs seen = Some (Use val seen') \<Longrightarrow> val \<in> set (vs_Validators (cc_vals C))"
  using lookup_val_by_address [of C idx cs seen val seen']
  by (cases "cc_lookUpByIndex C") (auto simp: lookup_val_def go_index_Some_iff)

lemma scan_ConsE:
  assumes "scan C idx (cs # sigs) seen t = Some (items, e)"
  obtains (skip) "scan C (Suc idx) sigs seen t = Some (items, e)"
  | (double) i j where "items = []" "e = Double i j"
  | (exit) val seen' where "\<not> cc_ignoreSig C cs" "lookup_val C idx cs seen = Some (Use val seen')"
      "items = [(idx, cs, val)]" "e = Early (tally C cs val t)"
  | (step) val seen' items' where "\<not> cc_ignoreSig C cs" "lookup_val C idx cs seen = Some (Use val seen')"
      "items = (idx, cs, val) # items'" "scan C (Suc idx) sigs seen' (tally C cs val t) = Some (items', e)"
proof (cases "cc_ignoreSig C cs")
  case True
  then show thesis using assms skip by simp
next
  case False
  then obtain l where l: "lookup_val C idx cs seen = Some l" using assms by (auto split: Option.bind_splits)
  show thesis
  proof (cases l)
    case Skip
    then show thesis using assms skip False l by simp
  next
    case (DoubleVote i j)
    then show thesis using assms False l by (intro double [of i j]) simp_all
  next
    case (Use val seen')
    show thesis
    proof (cases "\<not> cc_countAllSignatures C \<and> tally C cs val t > cc_votingPowerNeeded C")
      case True
      then show thesis using assms False l Use by (intro exit [of val seen']) (simp_all add: Let_def)
    next
      case False': False
      then obtain items' where "scan C (Suc idx) sigs seen' (tally C cs val t) = Some (items', e)"
          "items = (idx, cs, val) # items'"
        using assms False l Use by (auto simp: Let_def)
      then show thesis using step False l Use by blast
    qed
  qed
qed

lemma scan_member:
  "scan C idx sigs seen t = Some (items, e) \<Longrightarrow> item_val ` set items \<subseteq> set (vs_Validators (cc_vals C))"
proof (induction sigs arbitrary: idx seen t items)
  case (Cons cs sigs)
  from Cons.prems show ?case
  proof (cases rule: scan_ConsE)
    case skip
    then show ?thesis by (rule Cons.IH)
  next
    case (step val seen' items')
    then show ?thesis using Cons.IH [OF step(4)] lookup_val_member [OF step(2)] by simp
  qed (auto dest: lookup_val_member)
qed simp

definition total_check :: "env \<Rightarrow> commit_check \<Rightarrow> bool" where
  "total_check E C \<longleftrightarrow> (\<forall>i < length (c_Signatures (cc_commit C)).
       cc_ignoreSig C (c_Signatures (cc_commit C) ! i)
       \<or> c_VoteSignBytes E (cc_chainID C) (cc_commit C) (i32 (int i)) \<noteq> None)
     \<and> (cc_lookUpByIndex C \<longrightarrow> length (c_Signatures (cc_commit C)) \<le> length (vs_Validators (cc_vals C)))
     \<and> (\<forall>v \<in> set (vs_Validators (cc_vals C)). val_PubKey v \<noteq> None)"

lemma lookup_val_total:
  "(cc_lookUpByIndex C \<Longrightarrow> idx < length (vs_Validators (cc_vals C))) \<Longrightarrow> lookup_val C idx cs seen \<noteq> None"
  by (auto simp: lookup_val_def go_index_def split: prod.splits option.splits)

lemma total_checkD:
  assumes "total_check E C" "c_Signatures (cc_commit C) = pre @ cs # sigs"
  shows "\<not> cc_ignoreSig C cs \<Longrightarrow>
      c_VoteSignBytes E (cc_chainID C) (cc_commit C) (i32 (int (length pre))) \<noteq> None"
    and "lookup_val C (length pre) cs seen \<noteq> None"
proof -
  have lt: "length pre < length (c_Signatures (cc_commit C))" and nth: "c_Signatures (cc_commit C) ! length pre = cs"
    using assms(2) by simp_all
  show "\<not> cc_ignoreSig C cs \<Longrightarrow>
      c_VoteSignBytes E (cc_chainID C) (cc_commit C) (i32 (int (length pre))) \<noteq> None"
    using assms(1) lt nth unfolding total_check_def by blast
  show "lookup_val C (length pre) cs seen \<noteq> None"
    using assms(1) lt by (intro lookup_val_total) (simp add: total_check_def)
qed

lemma loops_total:
  assumes "total_check E C" "c_Signatures (cc_commit C) = pre @ sigs"
  shows "single_loop E C (length pre) sigs seen t \<noteq> None"
    "batch_loop E B C (length pre) sigs seen t bv idxs \<noteq> None"
  using assms(2)
proof (induction sigs arbitrary: pre seen t bv idxs)
  case (Cons cs sigs)
  { case 1
    note D = total_checkD [OF assms(1) 1]
    obtain l where l: "lookup_val C (length pre) cs seen = Some l" using D(2) [of seen] by blast
    have IH: "single_loop E C (Suc (length pre)) sigs seen t \<noteq> None" for seen t
      using Cons.IH(1) [of "pre @ [cs]"] 1 by simp
    have "\<And>val seen'. l = Use val seen' \<Longrightarrow> val_PubKey val \<noteq> None"
      using lookup_val_member l assms(1) by (auto simp: total_check_def)
    then show ?case
      using IH D(1) l by (cases l; cases "cc_ignoreSig C cs") (auto simp: Let_def) }
  { case 2
    note D = total_checkD [OF assms(1) 2]
    obtain l where l: "lookup_val C (length pre) cs seen = Some l" using D(2) [of seen] by blast
    have IH: "batch_loop E B C (Suc (length pre)) sigs seen t bv idxs \<noteq> None" for seen t bv idxs
      using Cons.IH(2) [of "pre @ [cs]"] 2 by simp
    show ?case
      using IH D(1) l by (cases l; cases "cc_ignoreSig C cs") (auto simp: Let_def split: sum.splits) }
qed auto

lemma find_proposer_total:
  "\<exists>q. find_proposer p vs = Some q \<and> (p \<noteq> None \<or> vs \<noteq> [] \<longrightarrow> q \<noteq> None)
     \<and> (\<forall>w. q = Some w \<longrightarrow> w \<in> set_option p \<union> set vs)"
proof (induction vs arbitrary: p)
  case (Cons v vs)
  let ?c = "p = None \<or> val_Address v \<noteq> val_Address (the p)"
  obtain p' where p': "(if ?c then map_option Some (CompareProposerPriority p v) else Some p) = Some p'"
      "p' \<noteq> None" "\<forall>w. p' = Some w \<longrightarrow> w \<in> set_option p \<union> {v}"
  proof (cases p)
    case None
    then show ?thesis using that by (simp add: CompareProposerPriority_def)
  next
    case (Some a)
    have "val_Address v = val_Address a \<or> (\<exists>w \<in> {a, v}. CompareProposerPriority (Some a) v = Some w)"
      using bytes_compare_order [of "val_Address a" "val_Address v"]
      by (auto simp: CompareProposerPriority_def Let_def)
    then have "\<exists>w \<in> {a, v}. (if ?c then map_option Some (CompareProposerPriority p v) else Some p) = Some (Some w)"
      using Some by (cases "val_Address v = val_Address a") auto
    then obtain w where "w \<in> {a, v}" "(if ?c then map_option Some (CompareProposerPriority p v) else Some p) = Some (Some w)"
      by blast
    then show ?thesis using that [of "Some w"] Some by auto
  qed
  from Cons [of p'] obtain q where "find_proposer p' vs = Some q" "q \<noteq> None"
      "\<forall>w. q = Some w \<longrightarrow> w \<in> set_option p' \<union> set vs"
    using p'(2) by blast
  with p' show ?case by (intro exI [of _ q]) auto
qed auto

lemma proposer_key_ok:
  assumes "vs_Validators vals \<noteq> []" "\<forall>v \<in> set (vs_Validators vals). key_ok E B ty v"
    and "\<forall>p. vs_Proposer vals = Some p \<longrightarrow> key_ok E B ty p"
  shows "\<exists>pk vals'. proposer_key vals = Some (pk, vals') \<and> be_KeyType B pk = ty
    \<and> vs_Validators vals' = vs_Validators vals"
proof -
  obtain q where q: "findProposer vals = Some q" "q \<noteq> None" "\<forall>w. q = Some w \<longrightarrow> w \<in> set (vs_Validators vals)"
    using find_proposer_total [of None "vs_Validators vals"] assms(1) by (auto simp: findProposer_def)
  show ?thesis
    using q assms by (cases "vs_Proposer vals") (fastforce simp: proposer_key_def GetProposer_def key_ok_def)+
qed

lemma verifyCommitBatch_total:
  assumes tc: "total_check E C" and lib: "batch_lib_ok E B" and key: "proposer_key (cc_vals C) = Some (pk, vals')"
    and needed: "0 \<le> cc_votingPowerNeeded C"
  shows "verifyCommitBatch E B C \<noteq> None"
proof (cases "CreateBatchVerifier B pk")
  case None
  then show ?thesis using key by (simp add: verifyCommitBatch_def)
next
  case (Some bv)
  then have e: "bv_Entries bv = []" by (auto simp: CreateBatchVerifier_def split: if_splits)
  obtain r where r: "batch_loop E B C 0 (c_Signatures (cc_commit C)) Map.empty 0 bv [] = Some r"
    using loops_total(2) [OF tc, of "[]" "c_Signatures (cc_commit C)" B Map.empty 0 bv "[]"] by auto
  have inv: "length vs = length is \<Longrightarrow> first_invalid vs is \<noteq> None" for vs "is"
    by (induction vs "is" rule: list_induct2) auto
  have len: "length (snd (bv_Verify B bv')) = length idxs"
    if "r = Inr (t, bv', idxs)" "enough C t = None" for t bv' idxs
  proof -
    from that r obtain items e where s: "scan C 0 (c_Signatures (cc_commit C)) Map.empty 0 = Some (items, e)"
        "end_tally e = Some t" "bv_Entries bv' = map (entry E C) items" "idxs = map fst items"
      using batch_loop_iff [of E B C 0 "c_Signatures (cc_commit C)" Map.empty 0 bv "[]" t bv' idxs] e by auto
    moreover have "items \<noteq> []"
      using scan_empty [of C 0 "c_Signatures (cc_commit C)" Map.empty 0 e] s that(2) needed
      by (auto simp: enough_def end_tally_def split: if_splits)
    ultimately show ?thesis using lib by (simp add: bv_Verify_def batch_lib_ok_def)
  qed
  show ?thesis
  proof (cases r)
    case (Inl err)
    then show ?thesis using key Some r by (simp add: verifyCommitBatch_def)
  next
    case (Inr x)
    then obtain t bv' idxs where x: "r = Inr (t, bv', idxs)" by (cases x) auto
    obtain ok vs where v: "bv_Verify B bv' = (ok, vs)" by (cases "bv_Verify B bv'")
    show ?thesis
      using key Some r x v inv [of vs idxs] len [OF x]
      by (cases ok; cases "enough C t") (auto simp: verifyCommitBatch_def)
  qed
qed

lemma verify_signatures_exact:
  assumes tc: "total_check E C" and lib: "batch_lib_ok E B" and needed: "0 \<le> cc_votingPowerNeeded C"
    and ne: "vs_Validators (cc_vals C) \<noteq> []"
    and keys: "\<forall>v \<in> set (vs_Validators (cc_vals C)). key_ok E B ty v"
      "\<forall>p. vs_Proposer (cc_vals C) = Some p \<longrightarrow> key_ok E B ty p"
  shows "\<exists>err vals'. verify_signatures E B C = Some (err, vals')
    \<and> vs_Validators vals' = vs_Validators (cc_vals C) \<and> (err = None \<longleftrightarrow> (\<exists>items. selected E C items))"
proof -
  obtain pk vals' where pk: "proposer_key (cc_vals C) = Some (pk, vals')" "be_KeyType B pk = ty"
      "vs_Validators vals' = vs_Validators (cc_vals C)"
    using proposer_key_ok [OF ne keys] by blast
  have pk': "proposer_key vals' = Some (pk, vals')"
    using pk(1) unfolding proposer_key_def GetProposer_def
    by (auto split: Option.bind_splits if_splits)
  let ?C = "C\<lparr>cc_vals := vals'\<rparr>"
  have tc': "total_check E ?C" using tc pk(3) by (simp add: total_check_def)
  have batch: "ty = ed25519_KeyType \<or> ty = sr25519_KeyType \<Longrightarrow> sig_valid E C x \<Longrightarrow>
      item_val x \<in> set (vs_Validators (cc_vals C)) \<Longrightarrow> batchable E B ?C ty x" for x
    using keys(1) by (cases x) (fastforce simp: sig_valid_def batchable_def key_ok_def)
  have mem: "selected E C items \<Longrightarrow> item_val ` set items \<subseteq> set (vs_Validators (cc_vals C))" for items
    unfolding selected_def using scan_member by blast
  have sel: "(\<exists>items. selected E ?C items \<and> list_all (batchable E B ?C ty) items) \<longleftrightarrow> (\<exists>items. selected E C items)"
    if "ty = ed25519_KeyType \<or> ty = sr25519_KeyType"
  proof -
    have "list_all (batchable E B ?C ty) items" if s: "selected E C items" for items
      unfolding list_all_iff
    proof
      fix x assume "x \<in> set items"
      then have "sig_valid E C x" "item_val x \<in> set (vs_Validators (cc_vals C))"
        using s mem [OF s] by (auto simp: selected_def list_all_iff)
      then show "batchable E B ?C ty x" by (rule batch [OF \<open>ty = ed25519_KeyType \<or> ty = sr25519_KeyType\<close>])
    qed
    then show ?thesis unfolding selected_cong [OF pk(3) [symmetric]] by blast
  qed
  show ?thesis
  proof (cases "length (c_Signatures (cc_commit C)) \<ge> 2 \<and> SupportsBatchVerifier B pk")
    case True
    then have ty: "ty = ed25519_KeyType \<or> ty = sr25519_KeyType" using pk(2) by (auto simp: SupportsBatchVerifier_def)
    obtain err where err: "verifyCommitBatch E B ?C = Some err"
      using verifyCommitBatch_total [OF tc' lib] pk' needed by fastforce
    moreover have "err = None \<longleftrightarrow> (\<exists>items. selected E C items)"
      using verifyCommitBatch_iff [of ?C pk vals' B ty E] True pk' pk(2) ty lib needed err sel [OF ty] by simp
    ultimately show ?thesis
      using True pk by (simp add: verify_signatures_def shouldBatchVerify_def batchVerifyThreshold_def)
  next
    case False
    have single: "\<exists>err. verifyCommitSingle E (C\<lparr>cc_vals := vals\<rparr>) = Some err \<and> (err = None \<longleftrightarrow> (\<exists>items. selected E C items))"
      if v: "vs_Validators vals = vs_Validators (cc_vals C)" for vals
    proof -
      have "total_check E (C\<lparr>cc_vals := vals\<rparr>)" using tc v by (simp add: total_check_def)
      then obtain err where "verifyCommitSingle E (C\<lparr>cc_vals := vals\<rparr>) = Some err"
        using loops_total(1) [of E "C\<lparr>cc_vals := vals\<rparr>" "[]" "c_Signatures (cc_commit C)" Map.empty 0] by (auto simp: verifyCommitSingle_def)
      then show ?thesis
        using verifyCommitSingle_iff [of E "C\<lparr>cc_vals := vals\<rparr>"] selected_cong [OF v [symmetric]] by auto
    qed
    show ?thesis
      using False pk single [of vals'] single [of "cc_vals C"]
      by (cases "length (c_Signatures (cc_commit C)) \<ge> 2")
        (auto simp: verify_signatures_def shouldBatchVerify_def batchVerifyThreshold_def)
  qed
qed

section \<open>The tallied power\<close>

definition counted_power :: "commit_check \<Rightarrow> (nat \<times> commit_sig \<times> validator) list \<Rightarrow> int" where
  "counted_power C items = (\<Sum>(i, cs, v)\<leftarrow>items. if cc_countSig C cs then vpower v else 0)"

lemma counted_power_simps [simp]:
  "counted_power C [] = 0"
  "counted_power C ((i, cs, v) # items) = (if cc_countSig C cs then vpower v else 0) + counted_power C items"
  by (simp_all add: counted_power_def)

lemma counted_power_le:
  "\<forall>x \<in> set items. 0 \<le> vpower (item_val x) \<Longrightarrow>
     0 \<le> counted_power C items \<and> counted_power C items \<le> total_power (map item_val items)"
  by (induction items) auto

lemma tally_eq:
  "0 \<le> t \<Longrightarrow> 0 \<le> vpower v \<Longrightarrow> t + vpower v \<le> MaxInt64
     \<Longrightarrow> tally C cs v t = t + (if cc_countSig C cs then vpower v else 0)"
  by (simp add: tally_def i64_id in_i64_def)

lemma scan_tally:
  assumes "scan C idx sigs seen t = Some (items, e)" "end_tally e = Some t'"
    and "\<forall>v \<in> set (vs_Validators (cc_vals C)). 0 \<le> vpower v" "0 \<le> t"
    and "t + total_power (map item_val items) \<le> MaxInt64"
  shows "t' = t + counted_power C items"
  using assms
proof (induction sigs arbitrary: idx seen t items)
  case (Cons cs sigs)
  from Cons.prems(1) show ?case
  proof (cases rule: scan_ConsE)
    case skip
    then show ?thesis using Cons by blast
  next
    case (exit val seen')
    then show ?thesis
      using Cons.prems lookup_val_member [OF exit(2)] by (auto simp: end_tally_def tally_eq)
  next
    case (step val seen' items')
    have nn: "0 \<le> vpower val" "0 \<le> total_power (map item_val items')"
      using lookup_val_member [OF step(2)] scan_member [OF step(4)] Cons.prems(3)
      by (auto intro!: sum_list_map_nonneg)
    have t: "tally C cs val t = t + (if cc_countSig C cs then vpower val else 0)"
      using nn Cons.prems(4,5) step(3) by (intro tally_eq) auto
    show ?thesis
      using Cons.IH [OF step(4) Cons.prems(2,3)] Cons.prems(4,5) nn step(3) unfolding t
      by (cases "cc_countSig C cs") auto
  qed (use Cons.prems(2) in \<open>auto simp: end_tally_def\<close>)
qed (auto simp: end_tally_def)

lemma scan_items:
  assumes "scan C idx sigs seen t = Some (items, e)" "distinct (addrs (vs_Validators (cc_vals C)))"
  shows "distinct (addrs (map item_val items))
    \<and> (\<forall>(i, cs, v) \<in> set items. idx \<le> i \<and> i < idx + length sigs \<and> cs = sigs ! (i - idx) \<and> \<not> cc_ignoreSig C cs
        \<and> (if cc_lookUpByIndex C then i < length (vs_Validators (cc_vals C)) \<and> v = vs_Validators (cc_vals C) ! i
           else val_Address v = cs_ValidatorAddress cs
             \<and> (\<exists>k. GetByAddress (cc_vals C) (val_Address v) = (k, Some v) \<and> seen k = None)))"
  using assms(1)
proof (induction sigs arbitrary: idx seen t items)
  case (Cons cs sigs)
  from Cons.prems(1) show ?case
  proof (cases rule: scan_ConsE)
    case skip
    from Cons.IH [OF this] show ?thesis by (fastforce simp: nth_Cons' split: prod.splits)
  next
    case (exit val seen')
    then show ?thesis
      using lookup_val_by_address [of C idx cs seen val seen']
      by (cases "cc_lookUpByIndex C") (auto simp: lookup_val_def go_index_Some_iff)
  next
    case (step val seen' items')
    note IH = Cons.IH [OF step(4)]
    show ?thesis
    proof (cases "cc_lookUpByIndex C")
      case True
      then have v: "idx < length (vs_Validators (cc_vals C))" "val = vs_Validators (cc_vals C) ! idx"
        using step(2) by (auto simp: lookup_val_def go_index_Some_iff)
      have "val_Address val \<notin> set (addrs (map item_val items'))"
      proof
        assume "val_Address val \<in> set (addrs (map item_val items'))"
        then obtain i cs' v' where m: "(i, cs', v') \<in> set items'" "val_Address v' = val_Address val"
          by force
        with IH True have "Suc idx \<le> i" "i < length (vs_Validators (cc_vals C))"
            "v' = vs_Validators (cc_vals C) ! i" by auto
        with m(2) v assms(2) show False
          using nth_eq_iff_index_eq [OF assms(2), of i idx] by simp
      qed
      then show ?thesis using IH v True step(1,3) by (fastforce simp: nth_Cons' split: prod.splits)
    next
      case False
      obtain k where k: "GetByAddress (cc_vals C) (cs_ValidatorAddress cs) = (k, Some val)" "seen k = None"
          "seen' = seen(k \<mapsto> idx)" "val_Address val = cs_ValidatorAddress cs"
        using lookup_val_by_address [OF False step(2)] by blast
      have "val_Address val \<notin> set (addrs (map item_val items'))"
      proof
        assume "val_Address val \<in> set (addrs (map item_val items'))"
        then obtain i cs' v' where m: "(i, cs', v') \<in> set items'" "val_Address v' = val_Address val"
          by force
        with IH False obtain k' where "GetByAddress (cc_vals C) (val_Address v') = (k', Some v')" "seen' k' = None"
          by fastforce
        with m(2) k show False by simp
      qed
      moreover have "seen k' = None" if "seen' k' = None" for k' using that k(3) by (auto split: if_splits)
      ultimately show ?thesis
        using IH k False step(1,3) by (fastforce simp: nth_Cons' split: prod.splits)
    qed
  qed auto
qed auto

text \<open>The selected signatures carry more than the needed power and belong to distinct validators.\<close>

lemma items_power_le:
  assumes wf: "vals_wf vals" and d: "distinct (addrs ws)" and sub: "set ws \<subseteq> set (vs_Validators vals)"
  shows "total_power ws \<le> total_power (vs_Validators vals)"
proof -
  have "total_power ws = (\<Sum>u\<leftarrow>ws. pw (vs_Validators vals) (val_Address u))"
    using pw_member [of "vs_Validators vals"] sub wf by (intro arg_cong [of _ _ sum_list] map_cong) (auto simp: vals_wf_def)
  with sum_pw_le [OF wf d] show ?thesis by simp
qed

lemma scan_power:
  assumes wf: "vals_wf (cc_vals C)"
    and s: "scan C 0 sigs Map.empty 0 = Some (items, e)"
  shows "accepts C e \<longleftrightarrow> (\<exists>t. end_tally e = Some t) \<and> counted_power C items > cc_votingPowerNeeded C"
    and "total_power (map item_val items) \<le> total_power (vs_Validators (cc_vals C))"
proof -
  have d: "distinct (addrs (map item_val items))"
    using scan_items [OF s] wf by (simp add: vals_wf_def)
  show le: "total_power (map item_val items) \<le> total_power (vs_Validators (cc_vals C))"
    by (rule items_power_le [OF wf d]) (use scan_member [OF s] in auto)
  moreover have "total_power (vs_Validators (cc_vals C)) \<le> MaxInt64" using wf by (auto simp: vals_wf_def)
  ultimately have "end_tally e = Some t \<Longrightarrow> t = counted_power C items" for t
    using scan_tally [OF s, of t] wf by (auto simp: vals_wf_def less_imp_le)
  then show "accepts C e \<longleftrightarrow> (\<exists>t. end_tally e = Some t) \<and> counted_power C items > cc_votingPowerNeeded C"
    unfolding accepts_iff_tally [OF s] by auto
qed

text \<open>By index, a scan that does not exit early selects every signature that is not ignored.\<close>

lemma scan_by_index:
  assumes "cc_lookUpByIndex C" and "vs_Validators (cc_vals C) = pre @ vs" "length sigs = length vs"
  shows "\<exists>items e. scan C (length pre) sigs seen t = Some (items, e)
    \<and> (\<not> cc_countAllSignatures C \<and> (\<exists>t'. e = Early t')
       \<or> (\<exists>t'. e = Finished t') \<and> items = filter (\<lambda>(i, cs, v). \<not> cc_ignoreSig C cs) (enumerate (length pre) (zip sigs vs)))"
  using assms(2,3)
proof (induction sigs arbitrary: pre vs t)
  case (Cons cs sigs)
  then obtain v vs' where vs: "vs = v # vs'" by (cases vs) auto
  have l: "lookup_val C (length pre) cs seen = Some (Use v seen)"
    using Cons.prems assms(1) by (simp add: lookup_val_def vs go_index_def nth_append)
  let ?t = "if cc_ignoreSig C cs then t else tally C cs v t"
  obtain items e where "scan C (Suc (length pre)) sigs seen ?t = Some (items, e)"
      "\<not> cc_countAllSignatures C \<and> (\<exists>t'. e = Early t')
       \<or> (\<exists>t'. e = Finished t')
         \<and> items = filter (\<lambda>(i, cs, v). \<not> cc_ignoreSig C cs) (enumerate (Suc (length pre)) (zip sigs vs'))"
    using Cons.IH [of "pre @ [v]" vs' ?t] Cons.prems vs by auto
  then show ?case using vs l by (cases "cc_ignoreSig C cs") (auto simp: Let_def)
qed simp

end
