(* ===== verification/Quorum.thy ===== *)
theory Quorum
  imports Main
begin

text \<open>
  Weighted quorums: the contract between a set of validators with their voting powers and the
  components that count votes. Any two sets with more than two thirds of the weight share
  members with more than a third of it, and a set with more than two thirds cannot be disjoint
  from one with more than a third.
\<close>

locale weighted_quorum =
  fixes members :: "'a set" and weight :: "'a \<Rightarrow> int"
  assumes finite_members: "finite members"
    and weight_nonneg: "x \<in> members \<Longrightarrow> 0 \<le> weight x"
begin

definition whole :: int where
  "whole = sum weight members"

definition quorum :: "'a set \<Rightarrow> bool" where
  "quorum A \<longleftrightarrow> A \<subseteq> members \<and> 2 * whole < 3 * sum weight A"

lemma weight_mono: "A \<subseteq> B \<Longrightarrow> B \<subseteq> members \<Longrightarrow> sum weight A \<le> sum weight B"
  using weight_nonneg finite_members by (intro sum_mono2) (auto intro: finite_subset)

lemma weight_overlap:
  assumes "A \<subseteq> members" "B \<subseteq> members"
  shows "sum weight A + sum weight B \<le> whole + sum weight (A \<inter> B)"
proof -
  have "finite A" "finite B" using assms finite_members finite_subset by auto
  then have "sum weight A + sum weight B = sum weight (A \<union> B) + sum weight (A \<inter> B)"
    by (simp add: sum.union_inter)
  moreover have "sum weight (A \<union> B) \<le> whole"
    unfolding whole_def using assms by (intro weight_mono) auto
  ultimately show ?thesis by simp
qed

lemma quorum_overlap: "quorum A \<Longrightarrow> quorum B \<Longrightarrow> whole < 3 * sum weight (A \<inter> B)"
  using weight_overlap [of A B] by (auto simp: quorum_def)

lemma quorum_mono: "quorum A \<Longrightarrow> A \<subseteq> B \<Longrightarrow> B \<subseteq> members \<Longrightarrow> quorum B"
  using weight_mono [of A B] by (auto simp: quorum_def)

lemma quorums_meet: "quorum A \<Longrightarrow> quorum B \<Longrightarrow> 0 \<le> whole \<Longrightarrow> A \<inter> B \<noteq> {}"
  using quorum_overlap [of A B] by auto

end

end
