(* ===== verification/CommitSafety.thy ===== *)
theory CommitSafety
  imports CommitVerify Quorum
begin

text \<open>
  What the commit checks of \<open>types/validation.go\<close> guarantee: the exact condition under which
  \<open>VerifyCommit\<close> accepts, the relation between the full and the light check, the guarantee of the
  trusting check, and the overlap of the signers of two accepted commits.
\<close>

section \<open>Well-formed commits and keys\<close>

definition commit_ok :: "commit \<Rightarrow> bool" where
  "commit_ok c \<longleftrightarrow> c_ValidateBasic c = None \<and> bid_ValidateBasic (c_BlockID c) = None
     \<and> 1 \<le> c_Height c \<and> int (length (c_Signatures c)) \<le> MaxInt32"

definition keys_uniform :: "env \<Rightarrow> batch_env \<Rightarrow> validator_set \<Rightarrow> bool" where
  "keys_uniform E B vals \<longleftrightarrow> (\<exists>ty. (\<forall>v \<in> set (vs_Validators vals). key_ok E B ty v)
     \<and> (\<forall>p. vs_Proposer vals = Some p \<longrightarrow> key_ok E B ty p))"

text \<open>The signature at an index verifies under the key of a validator.\<close>

definition sig_ok :: "env \<Rightarrow> bytes \<Rightarrow> commit \<Rightarrow> nat \<Rightarrow> validator \<Rightarrow> bool" where
  "sig_ok E chainID c i v \<longleftrightarrow> (\<exists>bz pk. c_VoteSignBytes E chainID c (int i) = Some bz
     \<and> val_PubKey v = Some pk \<and> env_VerifySignature E pk bz (cs_Signature (c_Signatures c ! i)))"

lemma first_error_None: "first_error f xs = None \<longleftrightarrow> (\<forall>x \<in> set xs. f x = None)"
  by (induction xs) (auto split: option.splits)

lemma commit_ok_sig: "commit_ok c \<Longrightarrow> cs \<in> set (c_Signatures c) \<Longrightarrow> cs_ValidateBasic cs = None"
  by (auto simp: commit_ok_def c_ValidateBasic_def first_error_None split: if_splits)

lemma VoteSignBytes_defined:
  "bid_ValidateBasic (v_BlockID v) = None \<Longrightarrow> \<exists>bz. VoteSignBytes E chainID (v_ToProto v) = Some bz"
  using bid_from_to_valid [of "v_BlockID v"]
  by (auto simp: VoteSignBytes_def CanonicalizeVote_def CanonicalizeBlockID_def v_ToProto_def)

lemma commit_sign_bytes:
  assumes "commit_ok c" "i < length (c_Signatures c)"
  shows "\<exists>bz. c_VoteSignBytes E chainID c (int i) = Some bz"
proof -
  let ?cs = "c_Signatures c ! i"
  have "cs_ValidateBasic ?cs = None" using commit_ok_sig assms by simp
  then obtain b where b: "cs_BlockID ?cs (c_BlockID c) = Some b" "bid_ValidateBasic b = None"
    using assms(1) bid_zero_valid
    by (auto simp: cs_ValidateBasic_def cs_BlockID_def commit_ok_def split: if_splits)
  then show ?thesis using assms(2) by (auto simp: c_VoteSignBytes_def c_GetVote_def intro!: VoteSignBytes_defined)
qed

lemma commit_index: "commit_ok c \<Longrightarrow> i < length (c_Signatures c) \<Longrightarrow> i32 (int i) = int i"
  by (rule i32_id) (auto simp: commit_ok_def in_i32_def)

lemma keys_total: "keys_uniform E B vals \<Longrightarrow> v \<in> set (vs_Validators vals) \<Longrightarrow> val_PubKey v \<noteq> None"
  by (auto simp: keys_uniform_def key_ok_def)

lemma total_check_ok:
  assumes "commit_ok (cc_commit C)" "keys_uniform E B (cc_vals C)"
    and "cc_lookUpByIndex C \<Longrightarrow> length (c_Signatures (cc_commit C)) = length (vs_Validators (cc_vals C))"
  shows "total_check E C"
  unfolding total_check_def
  using assms keys_total [OF assms(2)] commit_index [OF assms(1)] commit_sign_bytes [OF assms(1)] by auto

lemma sig_valid_ok:
  "commit_ok (cc_commit C) \<Longrightarrow> i < length (c_Signatures (cc_commit C)) \<Longrightarrow>
     sig_valid E C (i, c_Signatures (cc_commit C) ! i, v) \<longleftrightarrow> sig_ok E (cc_chainID C) (cc_commit C) i v"
  by (simp add: sig_valid_def sig_ok_def commit_index)

section \<open>The full check\<close>

abbreviation full_check :: "bytes \<Rightarrow> validator_set \<Rightarrow> commit \<Rightarrow> commit_check" where
  "full_check chainID vals c \<equiv>
     \<lparr>cc_chainID = chainID, cc_vals = vals, cc_commit = c,
      cc_votingPowerNeeded = i64 (total_power (vs_Validators vals) * 2) sdiv 3, cc_ignoreSig = cs_Absent,
      cc_countSig = cs_ForBlock, cc_countAllSignatures = True, cc_lookUpByIndex = True\<rparr>"

abbreviation light_check :: "bytes \<Rightarrow> validator_set \<Rightarrow> commit \<Rightarrow> commit_check" where
  "light_check chainID vals c \<equiv>
     \<lparr>cc_chainID = chainID, cc_vals = vals, cc_commit = c,
      cc_votingPowerNeeded = i64 (total_power (vs_Validators vals) * 2) sdiv 3,
      cc_ignoreSig = (\<lambda>cs. \<not> cs_ForBlock cs), cc_countSig = (\<lambda>_. True),
      cc_countAllSignatures = False, cc_lookUpByIndex = True\<rparr>"

abbreviation filled :: "validator_set \<Rightarrow> validator_set" where
  "filled vals \<equiv> vals\<lparr>vs_totalVotingPower := total_power (vs_Validators vals)\<rparr>"

definition block_power :: "commit \<Rightarrow> validator list \<Rightarrow> int" where
  "block_power c vs = (\<Sum>(cs, v)\<leftarrow>zip (c_Signatures c) vs. if cs_ForBlock cs then vpower v else 0)"

definition commit_matches :: "validator_set \<Rightarrow> block_id \<Rightarrow> int \<Rightarrow> commit \<Rightarrow> bool" where
  "commit_matches vals blockID height c \<longleftrightarrow> length (vs_Validators vals) = length (c_Signatures c)
     \<and> height = c_Height c \<and> blockID = c_BlockID c"

lemma verifyBasic_None:
  "verifyBasicValsAndCommit (Some vals) (Some c) height blockID = None \<longleftrightarrow> commit_matches vals blockID height c"
  by (auto simp: verifyBasicValsAndCommit_def commit_matches_def vals_Size_def)

lemma two_thirds:
  assumes "0 \<le> P" "P \<le> MaxTotalVotingPower"
  shows "x > i64 (P * 2) sdiv 3 \<longleftrightarrow> 2 * P < 3 * x" "0 \<le> i64 (P * 2) sdiv 3"
proof -
  have "i64 (P * 2) = 2 * P" using assms by (auto simp: in_i64_def intro!: i64_id)
  then have e: "i64 (P * 2) sdiv 3 = 2 * P div 3" using assms by simp
  show "x > i64 (P * 2) sdiv 3 \<longleftrightarrow> 2 * P < 3 * x"
    unfolding e using int_le_div_iff [of 3 x "2 * P"] by linarith
  show "0 \<le> i64 (P * 2) sdiv 3" unfolding e using assms by simp
qed

lemma vals_ok_total: "vals_ok vals \<Longrightarrow> 0 \<le> total_power (vs_Validators vals) \<and> total_power (vs_Validators vals) \<le> MaxTotalVotingPower"
  using total_power_pos [of "vs_Validators vals"] by (auto simp: vals_ok_def)

lemma counted_filter:
  "(\<Sum>(i, cs, v)\<leftarrow>filter (\<lambda>(i, cs, v). \<not> ign cs) (enumerate n (zip css vs)). if cnt cs then vpower v else 0)
     = (\<Sum>(cs, v)\<leftarrow>zip css vs. if \<not> ign cs \<and> cnt cs then vpower v else 0)"
  by (induction css vs arbitrary: n rule: list_induct2') auto

lemma list_all_enumerate:
  assumes "length css = length vs"
  shows "list_all Q (filter (\<lambda>(i, cs, v). \<not> ign cs) (enumerate 0 (zip css vs)))
    \<longleftrightarrow> (\<forall>i < length css. ign (css ! i) \<or> Q (i, css ! i, vs ! i))"
proof -
  have "set (enumerate 0 (zip css vs)) = (\<lambda>i. (i, css ! i, vs ! i)) ` {..<length css}"
    using assms by (force simp: in_set_enumerate_eq image_iff)
  then show ?thesis by (simp add: list_all_iff split_beta) blast
qed

lemma full_selected_iff:
  assumes wf: "vals_wf vals" and c: "commit_ok c" and m: "length (vs_Validators vals) = length (c_Signatures c)"
    and P: "0 \<le> total_power (vs_Validators vals)"
  shows "(\<exists>items. selected E (full_check chainID vals c) items) \<longleftrightarrow>
    (\<forall>i < length (c_Signatures c). cs_Absent (c_Signatures c ! i) \<or> sig_ok E chainID c i (vs_Validators vals ! i))
    \<and> 2 * total_power (vs_Validators vals) < 3 * block_power c (vs_Validators vals)"
proof -
  let ?C = "full_check chainID vals c"
  let ?items = "filter (\<lambda>(i, cs, v). \<not> cs_Absent cs) (enumerate 0 (zip (c_Signatures c) (vs_Validators vals)))"
  obtain t where s: "scan ?C 0 (c_Signatures c) Map.empty 0 = Some (?items, Finished t)"
    using scan_by_index [of ?C "[]" "vs_Validators vals" "c_Signatures c" Map.empty 0] m by auto
  have pow: "counted_power ?C ?items = block_power c (vs_Validators vals)"
    unfolding counted_power_def block_power_def by (simp add: counted_filter cs_Absent_def cs_ForBlock_def)
      (rule arg_cong [of _ _ sum_list], auto intro!: map_cong)
  have "list_all (sig_valid E ?C) ?items \<longleftrightarrow> (\<forall>i < length (c_Signatures c).
      cs_Absent (c_Signatures c ! i) \<or> sig_ok E chainID c i (vs_Validators vals ! i))"
    using sig_valid_ok [of ?C] c list_all_enumerate [OF m [symmetric]] by simp
  moreover have "accepts ?C (Finished t) \<longleftrightarrow> 2 * total_power (vs_Validators vals) < 3 * block_power c (vs_Validators vals)"
    using scan_power(1) [OF _ s] wf two_thirds(1) [OF P] pow by (simp add: end_tally_def vals_wf_def)
  ultimately show ?thesis using s by (auto simp: selected_def)
qed

lemma VerifyCommit_exact:
  assumes ok: "vals_ok vals" and keys: "keys_uniform E B vals" and c: "commit_ok c" and lib: "batch_lib_ok E B"
  shows "\<exists>err vals'. VerifyCommit E B chainID (Some vals) blockID height (Some c) = Some (err, Some vals')
    \<and> vs_Validators vals' = vs_Validators vals
    \<and> (err = None \<longleftrightarrow> commit_matches vals blockID height c
       \<and> (\<forall>i < length (c_Signatures c). cs_Absent (c_Signatures c ! i) \<or> sig_ok E chainID c i (vs_Validators vals ! i))
       \<and> 2 * total_power (vs_Validators vals) < 3 * block_power c (vs_Validators vals))"
proof (cases "commit_matches vals blockID height c")
  case False
  then show ?thesis
    using verifyBasic_None [of vals c height blockID] by (auto simp: VerifyCommit_def split: option.splits)
next
  case True
  let ?vals = "filled vals"
  let ?C = "full_check chainID ?vals c"
  have wf: "vals_wf ?vals" and P: "0 \<le> total_power (vs_Validators vals)" "total_power (vs_Validators vals) \<le> MaxTotalVotingPower"
    using ok vals_ok_total [OF ok] by (auto simp: vals_ok_def vals_wf_def)
  have m: "length (vs_Validators vals) = length (c_Signatures c)" using True by (simp add: commit_matches_def)
  obtain ty where ty: "\<forall>v \<in> set (vs_Validators vals). key_ok E B ty v"
      "\<forall>p. vs_Proposer vals = Some p \<longrightarrow> key_ok E B ty p" using keys by (auto simp: keys_uniform_def)
  have tc: "total_check E ?C" using keys c m by (intro total_check_ok) (auto simp: keys_uniform_def)
  obtain err vals' where v: "verify_signatures E B ?C = Some (err, vals')" "vs_Validators vals' = vs_Validators vals"
      "err = None \<longleftrightarrow> (\<exists>items. selected E ?C items)"
    using verify_signatures_exact [OF tc lib, of ty] ty ok two_thirds(2) [OF P] by (auto simp: vals_ok_def)
  have "VerifyCommit E B chainID (Some vals) blockID height (Some c) = Some (err, Some vals')"
    using True v(1) verifyBasic_None [of vals c height blockID] TotalVotingPower_ok [OF ok]
    by (simp add: VerifyCommit_def)
  then show ?thesis
    using True v(2,3) full_selected_iff [OF wf c, of E chainID] m P by auto
qed

section \<open>The light checks\<close>

definition valid_power :: "env \<Rightarrow> bytes \<Rightarrow> commit \<Rightarrow> validator list \<Rightarrow> int" where
  "valid_power E chainID c vs = (\<Sum>i<length vs.
     if cs_ForBlock (c_Signatures c ! i) \<and> sig_ok E chainID c i (vs ! i) then vpower (vs ! i) else 0)"

lemma light_selected_power:
  assumes wf: "vals_wf vals" and c: "commit_ok c" and m: "length (vs_Validators vals) = length (c_Signatures c)"
    and P: "0 \<le> total_power (vs_Validators vals)" and sel: "selected E (light_check chainID vals c) items"
  shows "2 * total_power (vs_Validators vals) < 3 * valid_power E chainID c (vs_Validators vals)"
proof -
  let ?C = "light_check chainID vals c" and ?vs = "vs_Validators vals"
  let ?f = "\<lambda>i. if cs_ForBlock (c_Signatures c ! i) \<and> sig_ok E chainID c i (?vs ! i) then vpower (?vs ! i) else 0"
  obtain e where s: "scan ?C 0 (c_Signatures c) Map.empty 0 = Some (items, e)" "accepts ?C e"
      "list_all (sig_valid E ?C) items" using sel by (auto simp: selected_def)
  have d: "distinct (addrs ?vs)" using wf by (simp add: vals_wf_def)
  have it: "distinct (addrs (map item_val items))" "\<And>x. x \<in> set items \<Longrightarrow> fst x < length ?vs
      \<and> x = (fst x, c_Signatures c ! fst x, ?vs ! fst x) \<and> cs_ForBlock (c_Signatures c ! fst x)"
    using scan_items [OF s(1)] d m by fastforce+
  have dist: "distinct (map fst items)"
  proof -
    have "addrs (map item_val items) = map (\<lambda>i. val_Address (?vs ! i)) (map fst items)"
      using it(2) by (auto simp: comp_def)
    then show ?thesis using it(1) by (metis distinct_map)
  qed
  have "counted_power ?C items = (\<Sum>x\<leftarrow>items. ?f (fst x))"
    unfolding counted_power_def
  proof (intro arg_cong [of _ _ sum_list] map_cong refl)
    fix x assume x: "x \<in> set items"
    have "sig_ok E chainID c (fst x) (?vs ! fst x)"
      using it(2) [OF x] s(3) x sig_valid_ok [of ?C "fst x" E "?vs ! fst x"] c m by (auto simp: list_all_iff)
    then show "(case x of (i, cs, v) \<Rightarrow> if cc_countSig ?C cs then vpower v else 0) = ?f (fst x)"
      using it(2) [OF x] by (cases x) auto
  qed
  also have "\<dots> = (\<Sum>i\<in>set (map fst items). ?f i)"
    using sum_list_distinct_conv_sum_set [OF dist, of ?f] by (simp add: comp_def)
  also have "\<dots> \<le> valid_power E chainID c ?vs"
    unfolding valid_power_def using it(2) wf by (intro sum_mono2) (auto simp: vals_wf_def less_imp_le)
  finally show ?thesis
    using scan_power(1) [OF _ s(1)] s(2) wf two_thirds(1) [OF P] by (auto simp: vals_wf_def)
qed

lemma full_gives_light:
  assumes wf: "vals_wf vals" and c: "commit_ok c" and m: "length (vs_Validators vals) = length (c_Signatures c)"
    and P: "0 \<le> total_power (vs_Validators vals)" and sel: "selected E (full_check chainID vals c) items"
  shows "\<exists>items. selected E (light_check chainID vals c) items"
proof -
  let ?C = "light_check chainID vals c"
  let ?items = "filter (\<lambda>(i, cs, v). \<not> \<not> cs_ForBlock cs) (enumerate 0 (zip (c_Signatures c) (vs_Validators vals)))"
  have full: "\<forall>i < length (c_Signatures c). cs_Absent (c_Signatures c ! i) \<or> sig_ok E chainID c i (vs_Validators vals ! i)"
      "2 * total_power (vs_Validators vals) < 3 * block_power c (vs_Validators vals)"
    using full_selected_iff [OF wf c m P, of E chainID] sel by blast+
  obtain items e where s: "scan ?C 0 (c_Signatures c) Map.empty 0 = Some (items, e)"
      "(\<exists>t. e = Early t) \<or> (\<exists>t. e = Finished t) \<and> items = ?items"
    using scan_by_index [of ?C "[]" "vs_Validators vals" "c_Signatures c" Map.empty 0] m by auto
  have "list_all (sig_valid E ?C) items"
    unfolding list_all_iff
  proof
    fix x assume x: "x \<in> set items"
    then have i: "fst x < length (c_Signatures c)"
        "x = (fst x, c_Signatures c ! fst x, vs_Validators vals ! fst x)" "cs_ForBlock (c_Signatures c ! fst x)"
      using scan_items [OF s(1)] wf m by (fastforce simp: vals_wf_def)+
    then have "sig_ok E chainID c (fst x) (vs_Validators vals ! fst x)"
      using full(1) by (auto simp: cs_Absent_def cs_ForBlock_def)
    then have "sig_valid E ?C (fst x, c_Signatures c ! fst x, vs_Validators vals ! fst x)"
      using sig_valid_ok [of ?C "fst x"] c i(1) by simp
    then show "sig_valid E ?C x" unfolding i(2) [symmetric] .
  qed
  moreover have "accepts ?C e"
    using s(2)
  proof
    assume e: "(\<exists>t. e = Finished t) \<and> items = ?items"
    have "counted_power ?C ?items = block_power c (vs_Validators vals)"
      unfolding counted_power_def block_power_def
      using counted_filter [where ign = "\<lambda>cs. \<not> cs_ForBlock cs" and cnt = "\<lambda>_. True"] by simp
    then show ?thesis
      using scan_power(1) [OF _ s(1)] e wf two_thirds(1) [OF P] full(2) by (auto simp: vals_wf_def end_tally_def)
  qed (auto simp: accepts_def)
  ultimately show ?thesis using s(1) by (auto simp: selected_def)
qed

lemma VerifyCommitLight_exact:
  assumes ok: "vals_ok vals" and keys: "keys_uniform E B vals" and c: "commit_ok c" and lib: "batch_lib_ok E B"
  shows "\<exists>err vals'. VerifyCommitLight E B chainID (Some vals) blockID height (Some c) = Some (err, Some vals')
    \<and> vs_Validators vals' = vs_Validators vals
    \<and> (err = None \<longleftrightarrow> commit_matches vals blockID height c
       \<and> (\<exists>items. selected E (light_check chainID (filled vals) c) items))"
proof (cases "commit_matches vals blockID height c")
  case False
  then show ?thesis
    using verifyBasic_None [of vals c height blockID] by (auto simp: VerifyCommitLight_def split: option.splits)
next
  case True
  let ?C = "light_check chainID (filled vals) c"
  have P: "0 \<le> total_power (vs_Validators vals)" "total_power (vs_Validators vals) \<le> MaxTotalVotingPower"
    using vals_ok_total [OF ok] by auto
  have m: "length (vs_Validators vals) = length (c_Signatures c)" using True by (simp add: commit_matches_def)
  obtain ty where ty: "\<forall>v \<in> set (vs_Validators vals). key_ok E B ty v"
      "\<forall>p. vs_Proposer vals = Some p \<longrightarrow> key_ok E B ty p" using keys by (auto simp: keys_uniform_def)
  have tc: "total_check E ?C" using keys c m by (intro total_check_ok) (auto simp: keys_uniform_def)
  obtain err vals' where v: "verify_signatures E B ?C = Some (err, vals')" "vs_Validators vals' = vs_Validators vals"
      "err = None \<longleftrightarrow> (\<exists>items. selected E ?C items)"
    using verify_signatures_exact [OF tc lib, of ty] ty ok two_thirds(2) [OF P] by (auto simp: vals_ok_def)
  have "VerifyCommitLight E B chainID (Some vals) blockID height (Some c) = Some (err, Some vals')"
    using True v(1) verifyBasic_None [of vals c height blockID] TotalVotingPower_ok [OF ok]
    by (simp add: VerifyCommitLight_def)
  then show ?thesis using True v(2,3) by auto
qed

text \<open>The facts about an accepted commit that the properties below rest on.\<close>

lemma light_accepted:
  assumes ok: "vals_ok vals" and keys: "keys_uniform E B vals" and c: "commit_ok c" and lib: "batch_lib_ok E B"
    and acc: "VerifyCommitLight E B chainID (Some vals) blockID height (Some c) = Some (None, vals')"
  shows "commit_matches vals blockID height c"
    and "2 * total_power (vs_Validators vals) < 3 * valid_power E chainID c (vs_Validators vals)"
proof -
  have wf: "vals_wf (filled vals)" using ok by (auto simp: vals_ok_def vals_wf_def)
  have P: "0 \<le> total_power (vs_Validators vals)" using vals_ok_total [OF ok] by auto
  obtain items where m: "commit_matches vals blockID height c"
      and s: "selected E (light_check chainID (filled vals) c) items"
    using VerifyCommitLight_exact [OF ok keys c lib, of chainID blockID height] acc by auto
  show "commit_matches vals blockID height c" by (rule m)
  show "2 * total_power (vs_Validators vals) < 3 * valid_power E chainID c (vs_Validators vals)"
    using light_selected_power [OF wf c _ _ s] m P by (simp add: commit_matches_def)
qed

section \<open>Validators as a quorum system\<close>

text \<open>The members are the indices of the validators, weighted by their powers.\<close>

interpretation val_quorum: weighted_quorum "{..<length vs}" "\<lambda>i. max 0 (vpower (vs ! i))" for vs
  by unfold_locales auto

lemma val_quorum_sum:
  assumes "\<forall>v \<in> set vs. 0 < vpower v" "A \<subseteq> {..<length vs}"
  shows "(\<Sum>i\<in>A. max 0 (vpower (vs ! i))) = (\<Sum>i\<in>A. vpower (vs ! i))"
proof (rule sum.cong [OF refl])
  fix i assume "i \<in> A"
  then have "vs ! i \<in> set vs" using assms(2) by auto
  then show "max 0 (vpower (vs ! i)) = vpower (vs ! i)" using assms(1) by (auto simp: max_def)
qed

lemma val_quorum_whole:
  assumes "\<forall>v \<in> set vs. 0 < vpower v"
  shows "val_quorum.whole vs = total_power vs"
  using val_quorum_sum [OF assms, of "{..<length vs}"]
  by (simp add: val_quorum.whole_def sum_list_map_nth)

definition valid_signers :: "env \<Rightarrow> bytes \<Rightarrow> commit \<Rightarrow> validator list \<Rightarrow> nat set" where
  "valid_signers E chainID c vs = {i. i < length vs \<and> cs_ForBlock (c_Signatures c ! i) \<and> sig_ok E chainID c i (vs ! i)}"

lemma light_accepted_quorum:
  assumes "vals_ok vals" "keys_uniform E B vals" "commit_ok c" "batch_lib_ok E B"
    and "VerifyCommitLight E B chainID (Some vals) blockID height (Some c) = Some (None, vals')"
  shows "val_quorum.quorum (vs_Validators vals) (valid_signers E chainID c (vs_Validators vals))"
proof -
  let ?vs = "vs_Validators vals" let ?A = "valid_signers E chainID c ?vs"
  have pos: "\<forall>v \<in> set ?vs. 0 < vpower v" using assms(1) by (simp add: vals_ok_def)
  have sub: "?A \<subseteq> {..<length ?vs}" by (auto simp: valid_signers_def)
  have A: "?A = {i \<in> {..<length ?vs}. cs_ForBlock (c_Signatures c ! i) \<and> sig_ok E chainID c i (?vs ! i)}"
    by (auto simp: valid_signers_def)
  have "valid_power E chainID c ?vs = (\<Sum>i\<in>?A. vpower (?vs ! i))"
    unfolding valid_power_def A by (rule sum.inter_filter [symmetric]) simp
  then show ?thesis
    using light_accepted(2) [OF assms] val_quorum_sum [OF pos sub] val_quorum_whole [OF pos] sub
    by (simp add: val_quorum.quorum_def)
qed

definition equivocates :: "env \<Rightarrow> bytes \<Rightarrow> commit \<Rightarrow> commit \<Rightarrow> nat \<Rightarrow> validator \<Rightarrow> bool" where
  "equivocates E chainID c1 c2 i v \<longleftrightarrow> (\<exists>pk bz1 bz2. val_PubKey v = Some pk
     \<and> c_VoteSignBytes E chainID c1 (int i) = Some bz1 \<and> c_VoteSignBytes E chainID c2 (int i) = Some bz2
     \<and> bz1 \<noteq> bz2 \<and> env_VerifySignature E pk bz1 (cs_Signature (c_Signatures c1 ! i))
     \<and> env_VerifySignature E pk bz2 (cs_Signature (c_Signatures c2 ! i)))"

lemma commit_sign_bytes_differ:
  assumes "c_VoteSignBytes E chainID c1 (int i) = Some bz" "c_VoteSignBytes E chainID c2 (int i) = Some bz"
    and "cs_ForBlock (c_Signatures c1 ! i)" "cs_ForBlock (c_Signatures c2 ! i)"
    and r: "in_i64 (c_Height c1)" "in_i64 (c_Round c1)" "in_i64 (c_Height c2)" "in_i64 (c_Round c2)"
    and inj: "inj (env_StdTime E)"
  shows "c_BlockID c1 = c_BlockID c2"
proof -
  obtain v1 v2 where v: "VoteSignBytes E chainID (v_ToProto v1) = Some bz" "VoteSignBytes E chainID (v_ToProto v2) = Some bz"
      "c_GetVote c1 (int i) = Some v1" "c_GetVote c2 (int i) = Some v2"
    using assms(1,2) by (auto simp: c_VoteSignBytes_def split: Option.bind_splits)
  have b: "v_BlockID v1 = c_BlockID c1" "v_BlockID v2 = c_BlockID c2" "v_in_range v1" "v_in_range v2"
    using v(3,4) assms(3,4) r
    by (auto simp: c_GetVote_def cs_BlockID_def cs_ForBlock_def go_index_Some_iff v_in_range_def
        split: Option.bind_splits) (simp_all add: in_i64_def)
  then show ?thesis using VoteSignBytes_inj [OF v(1,2) b(3,4) inj] by simp
qed

lemma trusting_selected:
  assumes wf: "vals_wf (cc_vals C)" and byaddr: "\<not> cc_lookUpByIndex C" and c: "commit_ok (cc_commit C)"
    and fb: "cc_ignoreSig C = (\<lambda>cs. \<not> cs_ForBlock cs)" "cc_countSig C = (\<lambda>_. True)" and sel: "selected E C items"
  shows "distinct (addrs (map item_val items)) \<and> set (map item_val items) \<subseteq> set (vs_Validators (cc_vals C))
    \<and> (\<forall>v \<in> set (map item_val items). \<exists>i < length (c_Signatures (cc_commit C)).
        cs_ForBlock (c_Signatures (cc_commit C) ! i) \<and> cs_ValidatorAddress (c_Signatures (cc_commit C) ! i) = val_Address v
        \<and> sig_ok E (cc_chainID C) (cc_commit C) i v)
    \<and> cc_votingPowerNeeded C < total_power (map item_val items)"
proof -
  let ?css = "c_Signatures (cc_commit C)"
  obtain e where s: "scan C 0 ?css Map.empty 0 = Some (items, e)" "accepts C e" "list_all (sig_valid E C) items"
    using sel by (auto simp: selected_def)
  have d: "distinct (addrs (map item_val items))" and it: "\<forall>(i, cs, v) \<in> set items. i < length ?css \<and> cs = ?css ! i
      \<and> cs_ForBlock cs \<and> val_Address v = cs_ValidatorAddress cs"
    using scan_items [OF s(1)] wf byaddr fb by (fastforce simp: vals_wf_def)+
  have "\<exists>i < length ?css. cs_ForBlock (?css ! i) \<and> cs_ValidatorAddress (?css ! i) = val_Address (item_val x)
        \<and> sig_ok E (cc_chainID C) (cc_commit C) i (item_val x)" if x: "x \<in> set items" for x
  proof -
    obtain i cs v where e: "x = (i, cs, v)" by (cases x)
    with it x have i: "i < length ?css" "cs = ?css ! i" "cs_ForBlock cs" "val_Address v = cs_ValidatorAddress cs" by auto
    moreover have "sig_valid E C (i, ?css ! i, v)" using s(3) x e i(2) by (auto simp: list_all_iff)
    ultimately show ?thesis using sig_valid_ok [OF c i(1)] e by auto
  qed
  moreover have "counted_power C items = total_power (map item_val items)"
    by (induction items) (auto simp: fb(2))
  ultimately show ?thesis
    using scan_power(1) [OF wf s(1)] s(2) d scan_member [OF s(1)] by auto
qed

section \<open>A concrete network\<close>

text \<open>
  Two validators with keys of one byte, a signature scheme in which the signature is the key, and
  the commits of both for two blocks.
\<close>

definition toy_env :: env where
  "toy_env = sample_env\<lparr>env_Address := (\<lambda>pk. replicate 20 (hd pk)), env_VerifySignature := (\<lambda>pk m s. s = pk)\<rparr>"

definition toy_batch :: "(bytes \<Rightarrow> string) \<Rightarrow> batch_env" where
  "toy_batch ty = \<lparr>be_KeyType = ty, be_SrPubKeyOk = (\<lambda>_. True), be_SrSignatureOk = (\<lambda>_. True),
     be_Verify = (\<lambda>_ es. (list_all (verifies toy_env) es, map (verifies toy_env) es))\<rparr>"

definition toy_val :: "byte \<Rightarrow> validator" where
  "toy_val k = \<lparr>val_Address = replicate 20 k, val_PubKey = Some [k], val_VotingPower = 5, val_ProposerPriority = 0\<rparr>"

definition toy_vals :: validator_set where
  "toy_vals = \<lparr>vs_Validators = [toy_val 1, toy_val 2], vs_Proposer = Some (toy_val 1), vs_totalVotingPower = 10\<rparr>"

definition toy_block :: "byte \<Rightarrow> block_id" where
  "toy_block h = \<lparr>bid_Hash = replicate 32 h, bid_PartSetHeader = \<lparr>psh_Total = 1, psh_Hash = replicate 32 h\<rparr>\<rparr>"

definition toy_commit :: "byte \<Rightarrow> commit" where
  "toy_commit h = \<lparr>c_Height = 3, c_Round = 0, c_BlockID = toy_block h,
     c_Signatures = [NewCommitSigForBlock [1] (replicate 20 1) 7, NewCommitSigForBlock [2] (replicate 20 2) 7]\<rparr>"

abbreviation secp :: "bytes \<Rightarrow> string" where "secp \<equiv> \<lambda>_. ''secp256k1''"

lemma toy_lib: "batch_lib_ok toy_env (toy_batch ty)"
  by (simp add: batch_lib_ok_def toy_batch_def)

lemma toy_keys: "keys_uniform toy_env (toy_batch secp) toy_vals"
  by (auto simp: keys_uniform_def key_ok_def toy_vals_def toy_val_def toy_batch_def ed25519_KeyType_def
      sr25519_KeyType_def intro!: exI [of _ "''secp256k1''"])

lemma toy_vals_ok: "vals_ok toy_vals"
  by (simp add: vals_ok_def toy_vals_def toy_val_def)

lemma toy_commit_ok: "commit_ok (toy_commit h)"
  by (simp add: commit_ok_def toy_commit_def toy_block_def c_ValidateBasic_def bid_IsZero_def
      NewCommitSigForBlock_def cs_ValidateBasic_def AddressSize_def MaxSignatureSize_def bid_ValidateBasic_def
      ValidateHash_def psh_ValidateBasic_def)

lemma toy_signed: "i < 2 \<Longrightarrow> sig_ok toy_env chainID (toy_commit h) i (vs_Validators toy_vals ! i)"
proof -
  assume i: "i < 2"
  then obtain bz where bz: "c_VoteSignBytes toy_env chainID (toy_commit h) (int i) = Some bz"
    using commit_sign_bytes [OF toy_commit_ok, of i h toy_env chainID] by (auto simp: toy_commit_def)
  from i have "i = 0 \<or> i = 1" by auto
  then show ?thesis
    using bz by (auto simp: sig_ok_def toy_vals_def toy_val_def toy_env_def toy_commit_def NewCommitSigForBlock_def)
qed

lemma toy_accepted: "\<exists>vals'. VerifyCommit toy_env (toy_batch secp) [97] (Some toy_vals) (toy_block h) 3 (Some (toy_commit h)) = Some (None, Some vals')"
proof -
  have m: "commit_matches toy_vals (toy_block h) 3 (toy_commit h)"
    by (simp add: commit_matches_def toy_vals_def toy_commit_def)
  have "length (c_Signatures (toy_commit h)) = 2" by (simp add: toy_commit_def)
  then have "\<forall>i < length (c_Signatures (toy_commit h)). cs_Absent (c_Signatures (toy_commit h) ! i)
      \<or> sig_ok toy_env [97] (toy_commit h) i (vs_Validators toy_vals ! i)" using toy_signed by auto
  moreover have "2 * total_power (vs_Validators toy_vals) < 3 * block_power (toy_commit h) (vs_Validators toy_vals)"
    by (simp add: toy_vals_def toy_commit_def block_power_def toy_val_def NewCommitSigForBlock_def cs_ForBlock_def)
  ultimately show ?thesis
    using VerifyCommit_exact [OF toy_vals_ok toy_keys toy_commit_ok [of h] toy_lib, of "[97]" "toy_block h" 3] m by auto
qed

lemma toy_light: "\<exists>vals'. VerifyCommitLight toy_env (toy_batch secp) [97] (Some toy_vals) (toy_block h) 3 (Some (toy_commit h)) = Some (None, vals')"
proof -
  have wf: "vals_wf (filled toy_vals)" and P: "0 \<le> total_power (vs_Validators toy_vals)"
    using toy_vals_ok by (auto simp: vals_ok_def vals_wf_def toy_vals_def toy_val_def)
  have m: "commit_matches toy_vals (toy_block h) 3 (toy_commit h)"
    by (simp add: commit_matches_def toy_vals_def toy_commit_def)
  have "\<exists>items. selected toy_env (full_check [97] (filled toy_vals) (toy_commit h)) items"
    using toy_accepted [of h] VerifyCommit_exact [OF toy_vals_ok toy_keys toy_commit_ok [of h] toy_lib, of "[97]" "toy_block h" 3]
      full_selected_iff [OF wf toy_commit_ok [of h], of toy_env "[97]"] m P
    by (auto simp: commit_matches_def)
  then have "\<exists>items. selected toy_env (light_check [97] (filled toy_vals) (toy_commit h)) items"
    using full_gives_light [OF wf toy_commit_ok [of h], of toy_env "[97]"] m P by (auto simp: commit_matches_def)
  then show ?thesis
    using VerifyCommitLight_exact [OF toy_vals_ok toy_keys toy_commit_ok [of h] toy_lib, of "[97]" "toy_block h" 3] m by auto
qed

lemma trusting_accepted:
  assumes "vals_ok vals" "keys_uniform E B vals" "commit_ok c" "batch_lib_ok E B"
    and "uint (Numerator lvl) \<le> MaxInt64" "uint (Denominator lvl) \<le> MaxInt64"
    and "VerifyCommitLightTrusting E B chainID (Some vals) (Some c) lvl = Some (None, vals')"
  shows "\<exists>ws. distinct (map val_Address ws) \<and> set ws \<subseteq> set (vs_Validators vals)
    \<and> (\<forall>v \<in> set ws. \<exists>i < length (c_Signatures c). cs_ForBlock (c_Signatures c ! i)
         \<and> cs_ValidatorAddress (c_Signatures c ! i) = val_Address v \<and> sig_ok E chainID c i v)
    \<and> total_power (vs_Validators vals) * uint (Numerator lvl) < uint (Denominator lvl) * total_power ws"
proof -
  let ?P = "total_power (vs_Validators vals)" and ?n = "uint (Numerator lvl)" and ?d = "uint (Denominator lvl)"
  have P: "0 \<le> ?P" "?P \<le> MaxTotalVotingPower" using vals_ok_total [OF assms(1)] by auto
  have nn: "0 \<le> ?n" "0 \<le> ?d" by simp_all
  then have r: "in_i64 ?n" "in_i64 ?d" using assms(5,6) unfolding in_i64_def by linarith+
  then have i: "i64 ?n = ?n" "i64 ?d = ?d" by simp_all
  have nz: "Denominator lvl \<noteq> 0" using assms(7) by (auto simp: VerifyCommitLightTrusting_def)
  then have d: "0 < ?d" using nn(2) uint_0_iff [of "Denominator lvl"] by linarith
  have mul: "safeMul ?P ?n = (?P * ?n, False) \<and> ?P * ?n \<le> MaxInt64"
  proof -
    have "?n \<noteq> MinInt64" "?P \<noteq> MinInt64" "\<bar>?P\<bar> = ?P" "\<bar>?n\<bar> = ?n" using nn(1) P(1) by linarith+
    moreover have "in_i64 ?P" using P by (simp add: in_i64_def)
    ultimately have "safeMul ?P ?n = (if ?P * ?n > MaxInt64 then (0, True) else (?P * ?n, False))"
      using safeMul_eq [of ?P ?n] r by metis
    then show ?thesis
      using assms(7) nz TotalVotingPower_ok [OF assms(1)]
      by (auto simp: VerifyCommitLightTrusting_def i split: if_splits)
  qed
  have q: "0 \<le> ?P * ?n div ?d" "?P * ?n div ?d \<le> ?P * ?n"
    using P d by (auto simp: div_le_dividend pos_imp_zdiv_nonneg_iff intro: order_trans [OF zdiv_mono2 [of _ 1]])
  let ?C = "\<lparr>cc_chainID = chainID, cc_vals = filled vals, cc_commit = c, cc_votingPowerNeeded = ?P * ?n div ?d,
      cc_ignoreSig = (\<lambda>cs. \<not> cs_ForBlock cs), cc_countSig = (\<lambda>_. True),
      cc_countAllSignatures = False, cc_lookUpByIndex = False\<rparr>"
  have "i64 (?P * ?n sdiv i64 ?d) = ?P * ?n div ?d" using P d q mul i by (simp add: in_i64_def i64_id)
  then obtain v where v: "verify_signatures E B ?C = Some (None, v)"
    using assms(7) nz TotalVotingPower_ok [OF assms(1)] mul i
    by (auto simp: VerifyCommitLightTrusting_def split: Option.bind_splits)
  obtain ty where ty: "\<forall>v \<in> set (vs_Validators vals). key_ok E B ty v"
      "\<forall>p. vs_Proposer vals = Some p \<longrightarrow> key_ok E B ty p" using assms(2) by (auto simp: keys_uniform_def)
  have tc: "total_check E ?C" using assms(2,3) by (intro total_check_ok) (auto simp: keys_uniform_def)
  obtain items where "selected E ?C items"
    using verify_signatures_exact [OF tc assms(4), of ty] ty v q(1) assms(1) by (auto simp: vals_ok_def)
  from trusting_selected [OF _ _ _ _ _ this] assms(1,3) show ?thesis
    using int_le_div_iff [OF d, of "total_power (map item_val items)" "?P * ?n"]
    by (intro exI [of _ "map item_val items"]) (auto simp: vals_ok_def vals_wf_def mult.commute)
qed

section \<open>Properties\<close>



text \<open>
  C13: the light check is sound and weaker than the full one: a commit that \<open>VerifyCommitLight\<close> accepts
  matches height and block and carries valid signatures for the block of more than two thirds of the
  power, and every commit that \<open>VerifyCommit\<close> accepts is accepted by it.
\<close>

theorem light_check_sound:
  assumes "vals_ok vals" "keys_uniform E B vals" "commit_ok c" "batch_lib_ok E B"
  shows "(VerifyCommitLight E B chainID (Some vals) blockID height (Some c) = Some (None, vals1) \<longrightarrow>
      commit_matches vals blockID height c
      \<and> 2 * total_power (vs_Validators vals) < 3 * valid_power E chainID c (vs_Validators vals))
    \<and> (VerifyCommit E B chainID (Some vals) blockID height (Some c) = Some (None, vals2) \<longrightarrow>
      (\<exists>vals'. VerifyCommitLight E B chainID (Some vals) blockID height (Some c) = Some (None, vals')))"
proof (intro conjI impI)
  assume "VerifyCommitLight E B chainID (Some vals) blockID height (Some c) = Some (None, vals1)"
  from light_accepted [OF assms this] show "commit_matches vals blockID height c"
    "2 * total_power (vs_Validators vals) < 3 * valid_power E chainID c (vs_Validators vals)" .
next
  assume acc: "VerifyCommit E B chainID (Some vals) blockID height (Some c) = Some (None, vals2)"
  have wf: "vals_wf (filled vals)" and P: "0 \<le> total_power (vs_Validators vals)"
    using assms(1) vals_ok_total [OF assms(1)] by (auto simp: vals_ok_def vals_wf_def)
  have m: "commit_matches vals blockID height c" and full: "\<exists>items. selected E (full_check chainID (filled vals) c) items"
    using VerifyCommit_exact [OF assms, of chainID blockID height] acc full_selected_iff [OF wf assms(3), of E chainID] P
    by (auto simp: commit_matches_def)
  then have "\<exists>items. selected E (light_check chainID (filled vals) c) items"
    using full_gives_light [OF wf assms(3), of E chainID] P by (auto simp: commit_matches_def)
  then show "\<exists>vals'. VerifyCommitLight E B chainID (Some vals) blockID height (Some c) = Some (None, vals')"
    using VerifyCommitLight_exact [OF assms, of chainID blockID height] m by auto
qed

theorem light_check_sound_witness:
  "20 < 3 * valid_power toy_env [97] (toy_commit 9) (vs_Validators toy_vals)"
proof -
  obtain vals' where "VerifyCommitLight toy_env (toy_batch secp) [97] (Some toy_vals) (toy_block 9) 3 (Some (toy_commit 9)) = Some (None, vals')"
    using toy_light by blast
  then show ?thesis
    using light_check_sound [OF toy_vals_ok toy_keys toy_commit_ok [of 9] toy_lib, of "[97]" "toy_block 9" 3]
    by (auto simp: toy_vals_def toy_val_def)
qed



text \<open>
  C12: a commit that \<open>VerifyCommitLightTrusting\<close> accepts at trust level \<open>n/d\<close> carries valid signatures
  for its block of distinct validators of the trusted set whose power exceeds \<open>n/d\<close> of its total.
\<close>

theorem trusting_check_sound:
  assumes "vals_ok vals" "keys_uniform E B vals" "commit_ok c" "batch_lib_ok E B"
    and "uint (Numerator lvl) \<le> MaxInt64" "uint (Denominator lvl) \<le> MaxInt64"
    and "VerifyCommitLightTrusting E B chainID (Some vals) (Some c) lvl = Some (None, vals')"
  shows "\<exists>ws. distinct (map val_Address ws) \<and> set ws \<subseteq> set (vs_Validators vals)
    \<and> (\<forall>v \<in> set ws. \<exists>i < length (c_Signatures c). cs_ForBlock (c_Signatures c ! i)
         \<and> cs_ValidatorAddress (c_Signatures c ! i) = val_Address v \<and> sig_ok E chainID c i v)
    \<and> total_power (vs_Validators vals) * uint (Numerator lvl) < uint (Denominator lvl) * total_power ws"
  using assms by (rule trusting_accepted)

theorem trusting_check_sound_witness:
  "\<exists>vals' ws. VerifyCommitLightTrusting toy_env (toy_batch secp) [97] (Some toy_vals) (Some (toy_commit 9))
      \<lparr>Numerator = 1, Denominator = 3\<rparr> = Some (None, vals')
    \<and> distinct (map val_Address ws) \<and> set ws \<subseteq> {toy_val 1, toy_val 2} \<and> 10 < 3 * total_power ws"
proof -
  obtain bz where bz: "c_VoteSignBytes toy_env [97] (toy_commit 9) 0 = Some bz"
    using commit_sign_bytes [OF toy_commit_ok [of 9], of 0 toy_env "[97]"] by (auto simp: toy_commit_def)
  have "\<exists>vals'. VerifyCommitLightTrusting toy_env (toy_batch secp) [97] (Some toy_vals) (Some (toy_commit 9))
      \<lparr>Numerator = 1, Denominator = 3\<rparr> = Some (None, vals')"
    using bz by (simp add: VerifyCommitLightTrusting_def TotalVotingPower_def toy_vals_def safeMul_def Let_def
        verify_signatures_def shouldBatchVerify_def proposer_key_def GetProposer_def toy_val_def toy_batch_def
        SupportsBatchVerifier_def ed25519_KeyType_def sr25519_KeyType_def batchVerifyThreshold_def
        verifyCommitSingle_def toy_commit_def NewCommitSigForBlock_def cs_ForBlock_def lookup_val_def GetByAddress_def
        wrap_def toy_env_def tally_def)
  then obtain vals' where v: "VerifyCommitLightTrusting toy_env (toy_batch secp) [97] (Some toy_vals) (Some (toy_commit 9))
      \<lparr>Numerator = 1, Denominator = 3\<rparr> = Some (None, vals')" by blast
  have "uint (Numerator \<lparr>Numerator = 1, Denominator = 3\<rparr>) \<le> MaxInt64"
      "uint (Denominator \<lparr>Numerator = 1, Denominator = 3\<rparr>) \<le> MaxInt64" by simp_all
  from trusting_check_sound [OF toy_vals_ok toy_keys toy_commit_ok toy_lib this v] obtain ws where
    "distinct (map val_Address ws)" "set ws \<subseteq> set (vs_Validators toy_vals)" "total_power (vs_Validators toy_vals) < 3 * total_power ws"
    by auto
  then show ?thesis using v by (intro exI [of _ vals'] exI [of _ ws]) (simp add: toy_vals_def toy_val_def)
qed

text \<open>
  C34: the batch routine is chosen by the key of the proposer alone, so a validator set that mixes key
  types cannot commit: as soon as the proposer's key is an ed25519 key and some validator with another
  type of key has signed, \<open>VerifyCommit\<close> refuses, however many signatures are valid.
\<close>

theorem mixed_keys_never_commit:
  assumes "vals_ok vals" "commit_ok c" "batch_lib_ok E B" "length (c_Signatures c) \<ge> 2"
    and "vs_Proposer vals = Some p" "val_PubKey p = Some pk" "be_KeyType B pk = ed25519_KeyType"
    and "i < length (c_Signatures c)" "\<not> cs_Absent (c_Signatures c ! i)"
    and "val_PubKey (vs_Validators vals ! i) = Some pk'" "be_KeyType B pk' \<noteq> ed25519_KeyType"
  shows "VerifyCommit E B chainID (Some vals) blockID height (Some c) \<noteq> Some (None, vals')"
proof
  let ?C = "full_check chainID (filled vals) c"
  assume acc: "VerifyCommit E B chainID (Some vals) blockID height (Some c) = Some (None, vals')"
  have m: "commit_matches vals blockID height c"
    using acc verifyBasic_None [of vals c height blockID] by (auto simp: VerifyCommit_def split: option.splits)
  have ne: "vs_Validators vals \<noteq> []" using assms(1) by (simp add: vals_ok_def)
  then have pk: "proposer_key (filled vals) = Some (pk, filled vals)"
    using assms(5,6) by (simp add: proposer_key_def GetProposer_def)
  have "verifyCommitBatch E B ?C = Some None"
    using acc m verifyBasic_None [of vals c height blockID] TotalVotingPower_ok [OF assms(1)] pk assms(4,7)
    by (auto simp: VerifyCommit_def verify_signatures_def shouldBatchVerify_def batchVerifyThreshold_def
        SupportsBatchVerifier_def split: Option.bind_splits)
  then obtain items where s: "selected E ?C items" "list_all (batchable E B ?C ed25519_KeyType) items"
    using verifyCommitBatch_iff [of ?C pk "filled vals" B ed25519_KeyType E] pk assms(3,4,7)
      two_thirds(2) [of "total_power (vs_Validators vals)"] vals_ok_total [OF assms(1)] by auto
  then have "items = filter (\<lambda>(i, cs, v). \<not> cs_Absent cs) (enumerate 0 (zip (c_Signatures c) (vs_Validators vals)))"
    using scan_by_index [of ?C "[]" "vs_Validators vals" "c_Signatures c" Map.empty 0] m
    by (auto simp: selected_def commit_matches_def)
  then have "batchable E B ?C ed25519_KeyType (i, c_Signatures c ! i, vs_Validators vals ! i)"
    using s(2) list_all_enumerate [of "c_Signatures c" "vs_Validators vals"] m assms(8,9)
    by (auto simp: commit_matches_def)
  then show False using assms(10,11) by (simp add: batchable_def addable_def)
qed

theorem mixed_keys_never_commit_witness:
  "(\<forall>vals'. VerifyCommit toy_env (toy_batch (\<lambda>pk. if pk = [1] then ''ed25519'' else ''secp256k1'')) [97] (Some toy_vals)
      (toy_block 9) 3 (Some (toy_commit 9)) \<noteq> Some (None, vals'))
    \<and> sig_ok toy_env [97] (toy_commit 9) 0 (toy_val 1) \<and> sig_ok toy_env [97] (toy_commit 9) 1 (toy_val 2)"
proof -
  let ?B = "toy_batch (\<lambda>pk. if pk = [1] then ''ed25519'' else ''secp256k1'')"
  have "VerifyCommit toy_env ?B [97] (Some toy_vals) (toy_block 9) 3 (Some (toy_commit 9)) \<noteq> Some (None, vals')" for vals'
    by (rule mixed_keys_never_commit [OF toy_vals_ok toy_commit_ok toy_lib, where i = 1 and p = "toy_val 1" and pk = "[1]" and pk' = "[2]"])
      (simp_all add: toy_commit_def toy_vals_def toy_val_def toy_batch_def ed25519_KeyType_def NewCommitSigForBlock_def
        cs_Absent_def)
  then show ?thesis using toy_signed [of 0] toy_signed [of 1] by (simp add: toy_vals_def)
qed

end
