(* ===== verification/VoteSet.thy ===== *)
theory VoteSet
  imports CommitSafety
begin

text \<open>
  The collection of the votes of one type for one height and round, \<open>types/vote_set.go\<close>, and the
  conversion between a set of precommits and a commit (\<open>MakeCommit\<close>, and \<open>CommitToVoteSet\<close> of
  \<open>types/block.go\<close>).

  The map \<open>votesByBlock\<close> and the map of the peers' claims are read and written by key only: they
  are partial functions. The mutex makes every method atomic, so a history of a vote set is a
  sequence of method calls. The validator set is part of the state, as \<open>TotalVotingPower\<close> caches
  the total in it.
\<close>

section \<open>The votes for one block\<close>

record block_votes =
  bvs_peerMaj23 :: bool
  bvs_bitArray :: "bit_array option"
  bvs_votes :: "vote option list"
  bvs_sum :: int

definition newBlockVotes :: "bool \<Rightarrow> int \<Rightarrow> block_votes" where
  "newBlockVotes peerMaj23 numValidators =
     \<lparr>bvs_peerMaj23 = peerMaj23, bvs_bitArray = NewBitArray numValidators,
      bvs_votes = replicate (nat numValidators) None, bvs_sum = 0\<rparr>"

definition bvs_addVerifiedVote :: "vote \<Rightarrow> int \<Rightarrow> block_votes \<Rightarrow> block_votes option" where
  "bvs_addVerifiedVote v votingPower bvs =
     do {
       existing \<leftarrow> go_index (bvs_votes bvs) (v_ValidatorIndex v);
       if existing = None then
         do {
           (b, _) \<leftarrow> ba_SetIndex (bvs_bitArray bvs) (v_ValidatorIndex v) True;
           Some (bvs\<lparr>bvs_bitArray := b, bvs_votes := (bvs_votes bvs)[nat (v_ValidatorIndex v) := Some v],
                     bvs_sum := i64 (bvs_sum bvs + votingPower)\<rparr>)
         }
       else Some bvs
     }"

definition bvs_getByIndex :: "block_votes option \<Rightarrow> int \<Rightarrow> vote option option" where
  "bvs_getByIndex bvs index =
     (case bvs of None \<Rightarrow> Some None | Some bvs \<Rightarrow> go_index (bvs_votes bvs) index)"

section \<open>The vote set\<close>

record vote_set =
  vst_chainID :: bytes
  vst_height :: int
  vst_round :: int
  vst_signedMsgType :: int
  vst_valSet :: validator_set
  vst_votesBitArray :: "bit_array option"
  vst_votes :: "vote option list"
  vst_sum :: int
  vst_maj23 :: "block_id option"
  vst_votesByBlock :: "bytes \<rightharpoonup> block_votes"
  vst_peerMaj23s :: "string \<rightharpoonup> block_id"

definition NewVoteSet :: "bytes \<Rightarrow> int \<Rightarrow> int \<Rightarrow> int \<Rightarrow> validator_set \<Rightarrow> vote_set option" where
  "NewVoteSet chainID height rnd signedMsgType valSet =
     (if height = 0 then None
      else Some \<lparr>vst_chainID = chainID, vst_height = height, vst_round = rnd,
                 vst_signedMsgType = signedMsgType, vst_valSet = valSet,
                 vst_votesBitArray = NewBitArray (vals_Size valSet),
                 vst_votes = replicate (nat (vals_Size valSet)) None, vst_sum = 0, vst_maj23 = None,
                 vst_votesByBlock = Map.empty, vst_peerMaj23s = Map.empty\<rparr>)"

definition vst_GetHeight :: "vote_set option \<Rightarrow> int" where
  "vst_GetHeight s = (case s of None \<Rightarrow> 0 | Some s \<Rightarrow> vst_height s)"

definition vst_GetRound :: "vote_set option \<Rightarrow> int" where
  "vst_GetRound s = (case s of None \<Rightarrow> -1 | Some s \<Rightarrow> vst_round s)"

definition vst_Type :: "vote_set option \<Rightarrow> int" where
  "vst_Type s = (case s of None \<Rightarrow> 0 | Some s \<Rightarrow> vst_signedMsgType s mod 256)"

definition vst_Size :: "vote_set option \<Rightarrow> int" where
  "vst_Size s = (case s of None \<Rightarrow> 0 | Some s \<Rightarrow> vals_Size (vst_valSet s))"

definition vst_getVote :: "int \<Rightarrow> bytes \<Rightarrow> vote_set \<Rightarrow> vote option option" where
  "vst_getVote valIndex blockKey s =
     do {
       existing \<leftarrow> go_index (vst_votes s) valIndex;
       if existing \<noteq> None \<and> bid_Key (v_BlockID (the existing)) = blockKey then Some existing
       else bvs_getByIndex (vst_votesByBlock s blockKey) valIndex
     }"

text \<open>The votes of a block that just reached the quorum replace those in the primary list.\<close>

fun copy_votes :: "nat \<Rightarrow> vote option list \<Rightarrow> vote option list \<Rightarrow> vote option list option" where
  "copy_votes i [] votes = Some votes"
| "copy_votes i (v # vs) votes =
     (if v = None then copy_votes (Suc i) vs votes
      else if i < length votes then copy_votes (Suc i) vs (votes[i := v])
      else None)"

definition set_vote :: "vote \<Rightarrow> vote_set \<Rightarrow> vote_set option" where
  "set_vote v s =
     do {
       _ \<leftarrow> go_index (vst_votes s) (v_ValidatorIndex v);
       (b, _) \<leftarrow> ba_SetIndex (vst_votesBitArray s) (v_ValidatorIndex v) True;
       Some (s\<lparr>vst_votes := (vst_votes s)[nat (v_ValidatorIndex v) := Some v], vst_votesBitArray := b\<rparr>)
     }"

text \<open>The part of \<open>addVerifiedVote\<close> after the vote is known to be kept for its block.\<close>

definition add_to_block :: "vote \<Rightarrow> bytes \<Rightarrow> int \<Rightarrow> block_votes \<Rightarrow> vote_set \<Rightarrow> vote_set option" where
  "add_to_block v blockKey votingPower bvs s =
     do {
       (total', valSet') \<leftarrow> TotalVotingPower (vst_valSet s);
       let origSum = bvs_sum bvs;
       let quorum = i64 (i64 (total' * 2) sdiv 3 + 1);
       bvs' \<leftarrow> bvs_addVerifiedVote v votingPower bvs;
       let s' = s\<lparr>vst_valSet := valSet', vst_votesByBlock := (vst_votesByBlock s)(blockKey \<mapsto> bvs')\<rparr>;
       if origSum < quorum \<and> quorum \<le> bvs_sum bvs' \<and> vst_maj23 s' = None then
         do {
           votes \<leftarrow> copy_votes 0 (bvs_votes bvs') (vst_votes s');
           Some (s'\<lparr>vst_maj23 := Some (v_BlockID v), vst_votes := votes\<rparr>)
         }
       else Some s'
     }"

definition vst_addVerifiedVote ::
  "vote \<Rightarrow> bytes \<Rightarrow> int \<Rightarrow> vote_set \<Rightarrow> ((bool \<times> vote option) \<times> vote_set) option" where
  "vst_addVerifiedVote v blockKey votingPower s =
     do {
       existing \<leftarrow> go_index (vst_votes s) (v_ValidatorIndex v);
       s1 \<leftarrow> (case existing of
                Some e \<Rightarrow>
                  (if bid_Equals (v_BlockID e) (v_BlockID v) then None
                   else if vst_maj23 s \<noteq> None \<and> bid_Key (the (vst_maj23 s)) = blockKey then set_vote v s
                   else Some s)
              | None \<Rightarrow> map_option (\<lambda>s. s\<lparr>vst_sum := i64 (vst_sum s + votingPower)\<rparr>) (set_vote v s));
       let conflicting = existing;
       case vst_votesByBlock s1 blockKey of
         Some bvs \<Rightarrow>
           (if conflicting \<noteq> None \<and> \<not> bvs_peerMaj23 bvs then Some ((False, conflicting), s1)
            else map_option (\<lambda>s'. ((True, conflicting), s')) (add_to_block v blockKey votingPower bvs s1))
       | None \<Rightarrow>
           (if conflicting \<noteq> None then Some ((False, conflicting), s1)
            else map_option (\<lambda>s'. ((True, conflicting), s'))
                   (add_to_block v blockKey votingPower (newBlockVotes False (vals_Size (vst_valSet s1))) s1))
     }"

definition addVote ::
  "env \<Rightarrow> vote option \<Rightarrow> vote_set \<Rightarrow> ((bool \<times> vote_error option) \<times> vote_set) option" where
  "addVote E vote s =
     (case vote of
        None \<Rightarrow> Some ((False, Some ErrVoteNil), s)
      | Some v \<Rightarrow>
          (let valIndex = v_ValidatorIndex v; valAddr = v_ValidatorAddress v; blockKey = bid_Key (v_BlockID v) in
           if valIndex < 0 then Some ((False, Some ErrVoteInvalidValidatorIndex), s)
           else if length valAddr = 0 then Some ((False, Some ErrVoteInvalidValidatorAddress), s)
           else if v_Height v \<noteq> vst_height s \<or> v_Round v \<noteq> vst_round s \<or> v_Type v \<noteq> vst_signedMsgType s
           then Some ((False, Some ErrVoteUnexpectedStep), s)
           else case GetByIndex (vst_valSet s) valIndex of
             (_, None) \<Rightarrow> Some ((False, Some ErrVoteInvalidValidatorIndex), s)
           | (lookupAddr, Some val) \<Rightarrow>
               (if valAddr \<noteq> lookupAddr then Some ((False, Some ErrVoteInvalidValidatorAddress), s)
                else do {
                  known \<leftarrow> vst_getVote valIndex blockKey s;
                  case known of
                    Some existing \<Rightarrow>
                      (if v_Signature existing = v_Signature v then Some ((False, None), s)
                       else Some ((False, Some ErrVoteNonDeterministicSignature), s))
                  | None \<Rightarrow>
                      do {
                        pk \<leftarrow> val_PubKey val;
                        err \<leftarrow> v_Verify E (vst_chainID s) pk v;
                        if err \<noteq> None then Some ((False, err), s)
                        else do {
                          ((added, conflicting), s') \<leftarrow> vst_addVerifiedVote v blockKey (val_VotingPower val) s;
                          case conflicting of
                            Some c \<Rightarrow> Some ((added, Some (ErrVoteConflictingVotes c v)), s')
                          | None \<Rightarrow> (if \<not> added then None else Some ((added, None), s'))
                        }
                      }
                })))"

definition AddVote ::
  "env \<Rightarrow> vote option \<Rightarrow> vote_set option \<Rightarrow> ((bool \<times> vote_error option) \<times> vote_set) option" where
  "AddVote E vote s = (case s of None \<Rightarrow> None | Some s \<Rightarrow> addVote E vote s)"

text \<open>The result is whether the peer contradicts an earlier claim.\<close>

definition SetPeerMaj23 :: "string \<Rightarrow> block_id \<Rightarrow> vote_set option \<Rightarrow> (bool \<times> vote_set) option" where
  "SetPeerMaj23 peerID blockID s =
     (case s of
        None \<Rightarrow> None
      | Some s \<Rightarrow>
          (let blockKey = bid_Key blockID in
           case vst_peerMaj23s s peerID of
             Some existing \<Rightarrow> Some (\<not> bid_Equals existing blockID, s)
           | None \<Rightarrow>
               (let s1 = s\<lparr>vst_peerMaj23s := (vst_peerMaj23s s)(peerID \<mapsto> blockID)\<rparr> in
                case vst_votesByBlock s1 blockKey of
                  Some bvs \<Rightarrow>
                    (if bvs_peerMaj23 bvs then Some (False, s1)
                     else Some (False, s1\<lparr>vst_votesByBlock := (vst_votesByBlock s1)(blockKey \<mapsto> bvs\<lparr>bvs_peerMaj23 := True\<rparr>)\<rparr>))
                | None \<Rightarrow>
                    Some (False, s1\<lparr>vst_votesByBlock :=
                      (vst_votesByBlock s1)(blockKey \<mapsto> newBlockVotes True (vals_Size (vst_valSet s1)))\<rparr>))))"

definition vst_BitArray :: "vote_set option \<Rightarrow> bit_array option" where
  "vst_BitArray s = (case s of None \<Rightarrow> None | Some s \<Rightarrow> ba_Copy (vst_votesBitArray s))"

definition vst_BitArrayByBlockID :: "vote_set option \<Rightarrow> block_id \<Rightarrow> bit_array option" where
  "vst_BitArrayByBlockID s blockID =
     (case s of
        None \<Rightarrow> None
      | Some s \<Rightarrow>
          (case vst_votesByBlock s (bid_Key blockID) of
             Some bvs \<Rightarrow> ba_Copy (bvs_bitArray bvs)
           | None \<Rightarrow> None))"

definition vst_GetByIndex :: "vote_set option \<Rightarrow> int \<Rightarrow> vote option option" where
  "vst_GetByIndex s valIndex = (case s of None \<Rightarrow> Some None | Some s \<Rightarrow> go_index (vst_votes s) valIndex)"

definition vst_GetByAddress :: "vote_set option \<Rightarrow> bytes \<Rightarrow> vote option option" where
  "vst_GetByAddress s address =
     (case s of
        None \<Rightarrow> Some None
      | Some s \<Rightarrow>
          (case GetByAddress (vst_valSet s) address of
             (_, None) \<Rightarrow> None
           | (valIndex, Some _) \<Rightarrow> go_index (vst_votes s) valIndex))"

definition HasTwoThirdsMajority :: "vote_set option \<Rightarrow> bool" where
  "HasTwoThirdsMajority s = (case s of None \<Rightarrow> False | Some s \<Rightarrow> vst_maj23 s \<noteq> None)"

definition vst_IsCommit :: "vote_set option \<Rightarrow> bool" where
  "vst_IsCommit s =
     (case s of None \<Rightarrow> False
      | Some s \<Rightarrow> (if vst_signedMsgType s \<noteq> PrecommitType then False else vst_maj23 s \<noteq> None))"

definition HasTwoThirdsAny :: "vote_set option \<Rightarrow> (bool \<times> vote_set option) option" where
  "HasTwoThirdsAny s =
     (case s of
        None \<Rightarrow> Some (False, None)
      | Some s \<Rightarrow>
          do {
            (total', valSet') \<leftarrow> TotalVotingPower (vst_valSet s);
            Some (vst_sum s > i64 (total' * 2) sdiv 3, Some (s\<lparr>vst_valSet := valSet'\<rparr>))
          })"

definition HasAll :: "vote_set \<Rightarrow> (bool \<times> vote_set) option" where
  "HasAll s =
     do {
       (total', valSet') \<leftarrow> TotalVotingPower (vst_valSet s);
       Some (vst_sum s = total', s\<lparr>vst_valSet := valSet'\<rparr>)
     }"

definition TwoThirdsMajority :: "vote_set option \<Rightarrow> block_id \<times> bool" where
  "TwoThirdsMajority s =
     (case s of
        None \<Rightarrow> (zero_block_id, False)
      | Some s \<Rightarrow> (case vst_maj23 s of Some b \<Rightarrow> (b, True) | None \<Rightarrow> (zero_block_id, False)))"

section \<open>Commits\<close>

definition make_commit_sig :: "block_id \<Rightarrow> vote option \<Rightarrow> commit_sig option" where
  "make_commit_sig maj23 v =
     do {
       commitSig \<leftarrow> v_CommitSig v;
       if cs_ForBlock commitSig then
         do {
           vt \<leftarrow> v;
           Some (if \<not> bid_Equals (v_BlockID vt) maj23 then NewCommitSigAbsent else commitSig)
         }
       else Some commitSig
     }"

fun map_all :: "('a \<Rightarrow> 'b option) \<Rightarrow> 'a list \<Rightarrow> 'b list option" where
  "map_all f [] = Some []"
| "map_all f (x # xs) = do { y \<leftarrow> f x; ys \<leftarrow> map_all f xs; Some (y # ys) }"

definition MakeCommit :: "vote_set \<Rightarrow> commit option" where
  "MakeCommit s =
     (if vst_signedMsgType s \<noteq> PrecommitType then None
      else do {
        maj23 \<leftarrow> vst_maj23 s;
        commitSigs \<leftarrow> map_all (make_commit_sig maj23) (vst_votes s);
        Some (NewCommit (vst_GetHeight (Some s)) (vst_GetRound (Some s)) maj23 commitSigs)
      })"

fun add_commit_votes :: "env \<Rightarrow> commit \<Rightarrow> nat \<Rightarrow> commit_sig list \<Rightarrow> vote_set \<Rightarrow> vote_set option" where
  "add_commit_votes E c idx [] s = Some s"
| "add_commit_votes E c idx (commitSig # sigs) s =
     (if cs_Absent commitSig then add_commit_votes E c (Suc idx) sigs s
      else do {
        v \<leftarrow> c_GetVote c (i32 (int idx));
        ((added, err), s') \<leftarrow> AddVote E (Some v) (Some s);
        if \<not> added \<or> err \<noteq> None then None else add_commit_votes E c (Suc idx) sigs s'
      })"

definition CommitToVoteSet :: "env \<Rightarrow> bytes \<Rightarrow> commit \<Rightarrow> validator_set \<Rightarrow> vote_set option" where
  "CommitToVoteSet E chainID c vals =
     do {
       s \<leftarrow> NewVoteSet chainID (c_Height c) (c_Round c) PrecommitType vals;
       add_commit_votes E c 0 (c_Signatures c) s
     }"

end
