(* ===== verification/VoteSetInv.thy ===== *)
theory VoteSetInv
  imports VoteSet
begin

text \<open>
  The invariant of the vote set of \<open>types/vote_set.go\<close>: the primary votes and the votes by block
  agree, the sums are the powers of the validators counted, and the majority is the first block that
  more than two thirds of the power voted for. Every method keeps it and none panics.
\<close>

section \<open>The validators present in a list of votes\<close>

definition present :: "'a option list \<Rightarrow> nat set" where
  "present xs = {i. i < length xs \<and> xs ! i \<noteq> None}"

definition present_power :: "validator list \<Rightarrow> 'a option list \<Rightarrow> int" where
  "present_power vs xs = (\<Sum>i\<in>present xs. vpower (vs ! i))"

lemma finite_present [simp]: "finite (present xs)"
  by (rule finite_subset [of _ "{..<length xs}"]) (auto simp: present_def)

lemma present_replicate [simp]: "present (replicate n None) = {}"
  by (auto simp: present_def)

lemma present_update: "i < length xs \<Longrightarrow> present (xs[i := Some v]) = insert i (present xs)"
  by (auto simp: present_def nth_list_update)

lemma present_power_update:
  "i < length xs \<Longrightarrow> present_power vs (xs[i := Some v])
     = present_power vs xs + (if xs ! i = None then vpower (vs ! i) else 0)"
  by (auto simp: present_power_def present_update insert_absorb) (auto simp: present_def insert_absorb)

lemma present_power_bounds:
  assumes "length xs = length vs" "\<forall>v \<in> set vs. 0 < vpower v"
  shows "0 \<le> present_power vs xs" "present_power vs xs \<le> total_power vs"
proof -
  have nn: "0 \<le> vpower (vs ! i)" if "i < length vs" for i using assms(2) that by (simp add: less_imp_le)
  then show "0 \<le> present_power vs xs"
    unfolding present_power_def using assms(1) by (intro sum_nonneg) (auto simp: present_def)
  have "present_power vs xs \<le> (\<Sum>i<length vs. vpower (vs ! i))"
    unfolding present_power_def using nn assms(1) by (intro sum_mono2) (auto simp: present_def)
  then show "present_power vs xs \<le> total_power vs" by (simp add: sum_list_map_nth)
qed

lemma present_power_add:
  assumes "length xs = length vs" "\<forall>v \<in> set vs. 0 < vpower v" "i < length vs" "xs ! i = None"
    and "total_power vs \<le> MaxTotalVotingPower"
  shows "i64 (present_power vs xs + vpower (vs ! i)) = present_power vs (xs[i := Some v])"
proof -
  have "present_power vs (xs[i := Some v]) = present_power vs xs + vpower (vs ! i)"
    using present_power_update [of i xs vs v] assms by simp
  moreover have "0 \<le> present_power vs (xs[i := Some v])" "present_power vs (xs[i := Some v]) \<le> total_power vs"
    using present_power_bounds [of "xs[i := Some v]" vs] assms(1,2) by simp_all
  ultimately show ?thesis using assms(5) by (auto simp: in_i64_def intro!: i64_id)
qed

section \<open>The invariant\<close>

text \<open>What the set knows about a vote it holds for the validator at an index.\<close>

definition good_vote :: "env \<Rightarrow> vote_set \<Rightarrow> nat \<Rightarrow> vote \<Rightarrow> bool" where
  "good_vote E s i v \<longleftrightarrow> (let vs = vs_Validators (vst_valSet s) in
     i < length vs \<and> v_ValidatorIndex v = int i \<and> v_Height v = vst_height s \<and> v_Round v = vst_round s
     \<and> v_Type v = vst_signedMsgType s \<and> v_ValidatorAddress v = val_Address (vs ! i) \<and> v_ValidateBasic v = None
     \<and> (\<exists>pk. val_PubKey (vs ! i) = Some pk \<and> v_Verify E (vst_chainID s) pk v = Some None))"

lemma valid_bid_ok: "v_ValidateBasic v = None \<Longrightarrow> bid_ok (v_BlockID v)"
  by (auto simp: v_ValidateBasic_def bid_ok_def bid_IsZero_iff split: if_splits option.splits)

lemma good_bid_ok: "good_vote E s j w \<Longrightarrow> bid_ok (v_BlockID w)"
  by (simp add: good_vote_def Let_def valid_bid_ok)

definition more_than_two_thirds :: "vote_set \<Rightarrow> int \<Rightarrow> bool" where
  "more_than_two_thirds s p \<longleftrightarrow> 2 * total_power (vs_Validators (vst_valSet s)) < 3 * p"

definition block_inv :: "env \<Rightarrow> vote_set \<Rightarrow> bytes \<Rightarrow> block_votes \<Rightarrow> bool" where
  "block_inv E s k b \<longleftrightarrow> length (bvs_votes b) = length (vst_votes s) \<and> ba.tracks (bvs_bitArray b) (bvs_votes b)
     \<and> bvs_sum b = present_power (vs_Validators (vst_valSet s)) (bvs_votes b)
     \<and> (\<forall>i v. i < length (bvs_votes b) \<longrightarrow> bvs_votes b ! i = Some v
          \<longrightarrow> good_vote E s i v \<and> bid_Key (v_BlockID v) = k \<and> vst_votes s ! i \<noteq> None)
     \<and> (more_than_two_thirds s (bvs_sum b) \<longrightarrow> vst_maj23 s \<noteq> None)"

definition maj_inv :: "vote_set \<Rightarrow> block_id \<Rightarrow> bool" where
  "maj_inv s m \<longleftrightarrow> bid_ok m \<and> (\<exists>b. vst_votesByBlock s (bid_Key m) = Some b \<and> more_than_two_thirds s (bvs_sum b)
     \<and> (\<forall>i < length (bvs_votes b). bvs_votes b ! i \<noteq> None
          \<longrightarrow> (\<exists>v. vst_votes s ! i = Some v \<and> v_BlockID v = m)))"

definition vst_inv :: "env \<Rightarrow> vote_set \<Rightarrow> bool" where
  "vst_inv E s \<longleftrightarrow> vals_ok (vst_valSet s) \<and> (\<forall>v \<in> set (vs_Validators (vst_valSet s)). val_PubKey v \<noteq> None)
     \<and> length (vst_votes s) = length (vs_Validators (vst_valSet s))
     \<and> ba.tracks (vst_votesBitArray s) (vst_votes s)
     \<and> vst_sum s = present_power (vs_Validators (vst_valSet s)) (vst_votes s)
     \<and> (\<forall>i v. i < length (vst_votes s) \<longrightarrow> vst_votes s ! i = Some v
          \<longrightarrow> good_vote E s i v \<and> vst_votesByBlock s (bid_Key (v_BlockID v)) \<noteq> None)
     \<and> (\<forall>k b. vst_votesByBlock s k = Some b \<longrightarrow> block_inv E s k b)
     \<and> (\<forall>m. vst_maj23 s = Some m \<longrightarrow> maj_inv s m)"

lemmas vst_inv_defs = vst_inv_def block_inv_def maj_inv_def

text \<open>What no method changes.\<close>

definition same_frame :: "vote_set \<Rightarrow> vote_set \<Rightarrow> bool" where
  "same_frame s s' \<longleftrightarrow> vst_chainID s' = vst_chainID s \<and> vst_height s' = vst_height s \<and> vst_round s' = vst_round s
     \<and> vst_signedMsgType s' = vst_signedMsgType s
     \<and> vs_Validators (vst_valSet s') = vs_Validators (vst_valSet s)"

lemma same_frame_refl [simp]: "same_frame s s"
  by (simp add: same_frame_def)

lemma same_frame_trans: "same_frame s s' \<Longrightarrow> same_frame s' s'' \<Longrightarrow> same_frame s s''"
  by (simp add: same_frame_def)

lemma good_vote_frame: "same_frame s s' \<Longrightarrow> good_vote E s' i v \<longleftrightarrow> good_vote E s i v"
  by (simp add: same_frame_def good_vote_def)

lemma two_thirds_frame: "same_frame s s' \<Longrightarrow> more_than_two_thirds s' p \<longleftrightarrow> more_than_two_thirds s p"
  by (simp add: same_frame_def more_than_two_thirds_def)

lemma NewVoteSet_inv:
  assumes "vals_ok vals" "\<forall>v \<in> set (vs_Validators vals). val_PubKey v \<noteq> None" "height \<noteq> 0"
  shows "\<exists>s. NewVoteSet chainID height rnd ty vals = Some s \<and> vst_inv E s \<and> present (vst_votes s) = {}
    \<and> vst_votesByBlock s = Map.empty \<and> vst_maj23 s = None \<and> vst_chainID s = chainID \<and> vst_height s = height
    \<and> vst_round s = rnd \<and> vst_signedMsgType s = ty \<and> vst_valSet s = vals"
  using assms
  by (simp add: NewVoteSet_def vst_inv_def vals_Size_def ba.tracks_new present_power_def)

section \<open>Storing a vote\<close>

lemma set_vote_ok:
  assumes "ba.tracks (vst_votesBitArray s) (vst_votes s)" "v_ValidatorIndex v = int i" "i < length (vst_votes s)"
  shows "\<exists>b. set_vote v s = Some (s\<lparr>vst_votes := (vst_votes s)[i := Some v], vst_votesBitArray := b\<rparr>)
    \<and> ba.tracks b ((vst_votes s)[i := Some v])"
  using ba.tracks_set [OF assms(1,3), of v] assms(2,3) by (auto simp: set_vote_def)

lemma bvs_add_ok:
  assumes "ba.tracks (bvs_bitArray b) (bvs_votes b)" "v_ValidatorIndex v = int i" "i < length (bvs_votes b)"
    and "bvs_votes b ! i = None"
  shows "\<exists>ba'. bvs_addVerifiedVote v p b
      = Some (b\<lparr>bvs_bitArray := ba', bvs_votes := (bvs_votes b)[i := Some v], bvs_sum := i64 (bvs_sum b + p)\<rparr>)
    \<and> ba.tracks ba' ((bvs_votes b)[i := Some v])"
  using ba.tracks_set [OF assms(1,3), of v] assms(2-) by (auto simp: bvs_addVerifiedVote_def)

text \<open>The copy takes the block's vote wherever there is one.\<close>

definition prefer_block :: "vote option list \<Rightarrow> vote option list \<Rightarrow> vote option list" where
  "prefer_block bs xs = map (\<lambda>(b, x). if b = None then x else b) (zip bs xs)"

lemma copy_votes_eq:
  "length bs = length xs \<Longrightarrow> copy_votes (length pre) bs (pre @ xs) = Some (pre @ prefer_block bs xs)"
proof (induction bs xs arbitrary: pre rule: list_induct2)
  case (Cons b bs x xs)
  have "copy_votes (Suc (length pre)) bs (pre @ y # xs) = Some (pre @ y # prefer_block bs xs)" for y
    using Cons.IH [of "pre @ [y]"] by simp
  then show ?case by (simp add: prefer_block_def)
qed (simp add: prefer_block_def)

lemma copy_votes_all: "length bs = length xs \<Longrightarrow> copy_votes 0 bs xs = Some (prefer_block bs xs)"
  using copy_votes_eq [of bs xs "[]"] by simp

lemma length_prefer_block [simp]: "length bs = length xs \<Longrightarrow> length (prefer_block bs xs) = length xs"
  by (simp add: prefer_block_def)

lemma nth_prefer_block:
  "length bs = length xs \<Longrightarrow> i < length xs \<Longrightarrow> prefer_block bs xs ! i = (if bs ! i = None then xs ! i else bs ! i)"
  by (simp add: prefer_block_def)

section \<open>Adding a vote to its block\<close>

text \<open>
  Between the two halves of \<open>addVerifiedVote\<close> the invariant holds but for one validator, whose vote may not
  be counted for a block yet.
\<close>

definition pending_inv :: "env \<Rightarrow> vote_set \<Rightarrow> nat \<Rightarrow> bytes \<Rightarrow> bool" where
  "pending_inv E s x k \<longleftrightarrow> vals_ok (vst_valSet s) \<and> (\<forall>v \<in> set (vs_Validators (vst_valSet s)). val_PubKey v \<noteq> None)
     \<and> length (vst_votes s) = length (vs_Validators (vst_valSet s))
     \<and> ba.tracks (vst_votesBitArray s) (vst_votes s)
     \<and> vst_sum s = present_power (vs_Validators (vst_valSet s)) (vst_votes s)
     \<and> (\<forall>i v. i < length (vst_votes s) \<longrightarrow> vst_votes s ! i = Some v
          \<longrightarrow> good_vote E s i v \<and> (vst_votesByBlock s (bid_Key (v_BlockID v)) \<noteq> None \<or> bid_Key (v_BlockID v) = k))
     \<and> (\<forall>k b. vst_votesByBlock s k = Some b \<longrightarrow> block_inv E s k b)
     \<and> (\<forall>m. vst_maj23 s = Some m \<longrightarrow> maj_inv s m
          \<and> (bid_Key m = k \<longrightarrow> (\<exists>v. vst_votes s ! x = Some v \<and> v_BlockID v = m)))
     \<and> x < length (vst_votes s) \<and> vst_votes s ! x \<noteq> None"

lemma tracks_cong: "ba.tracks b xs \<Longrightarrow> length ys = length xs \<Longrightarrow> present ys = present xs \<Longrightarrow> ba.tracks b ys"
  unfolding ba.tracks_def present_def by (auto simp: set_eq_iff)

lemma tracks_new_block: "ba.tracks (bvs_bitArray (newBlockVotes p (int n))) (bvs_votes (newBlockVotes p (int n)))"
  by (simp add: newBlockVotes_def ba.tracks_new)

lemma quorum_reached:
  assumes "0 \<le> P" "P \<le> MaxTotalVotingPower"
  shows "i64 (i64 (P * 2) sdiv 3 + 1) \<le> x \<longleftrightarrow> 2 * P < 3 * x"
proof -
  have "i64 (P * 2) = 2 * P" using assms by (auto simp: in_i64_def intro!: i64_id)
  then have "i64 (P * 2) sdiv 3 = 2 * P div 3" using assms by simp
  moreover have "i64 (2 * P div 3 + 1) = 2 * P div 3 + 1" using assms by (intro i64_id) (auto simp: in_i64_def)
  ultimately have "i64 (i64 (P * 2) sdiv 3 + 1) = 2 * P div 3 + 1" by simp
  then show ?thesis using int_le_div_iff [of 3 x "2 * P"] by linarith
qed

lemma prefer_present:
  assumes "length bs = length xs" "present bs \<subseteq> present xs"
  shows "present (prefer_block bs xs) = present xs"
  using assms by (auto simp: present_def nth_prefer_block split: if_splits)

abbreviation block_of :: "bytes \<Rightarrow> vote_set \<Rightarrow> block_votes" where
  "block_of k s \<equiv> (case vst_votesByBlock s k of Some b \<Rightarrow> b | None \<Rightarrow> newBlockVotes False (vals_Size (vst_valSet s)))"

lemma block_of_inv:
  assumes "pending_inv E s x k"
  shows "block_inv E s k (block_of k s)"
proof (cases "vst_votesByBlock s k")
  case None
  then show ?thesis
    using assms tracks_new_block [of False "length (vs_Validators (vst_valSet s))"] vals_ok_total [of "vst_valSet s"]
    by (auto simp: pending_inv_def block_inv_def vals_Size_def newBlockVotes_def present_power_def more_than_two_thirds_def)
next
  case (Some b)
  then show ?thesis using assms by (simp add: pending_inv_def)
qed

definition with_vote :: "nat \<Rightarrow> vote \<Rightarrow> validator list \<Rightarrow> bit_array option \<Rightarrow> block_votes \<Rightarrow> block_votes" where
  "with_vote i v vs ba' b = b\<lparr>bvs_bitArray := ba', bvs_votes := (bvs_votes b)[i := Some v],
     bvs_sum := present_power vs ((bvs_votes b)[i := Some v])\<rparr>"

lemma add_to_block_eq:
  assumes pend: "pending_inv E s i k" and good: "good_vote E s i v" and k: "k = bid_Key (v_BlockID v)"
    and new: "bvs_votes (block_of k s) ! i = None"
  shows "\<exists>ba'. let b' = with_vote i v (vs_Validators (vst_valSet s)) ba' (block_of k s);
      s' = s\<lparr>vst_valSet := filled (vst_valSet s), vst_votesByBlock := (vst_votesByBlock s)(k \<mapsto> b')\<rparr> in
    ba.tracks ba' (bvs_votes b')
    \<and> add_to_block v k (vpower (vs_Validators (vst_valSet s) ! i)) (block_of k s) s
       = Some (if more_than_two_thirds s (bvs_sum b') \<and> vst_maj23 s = None
               then s'\<lparr>vst_maj23 := Some (v_BlockID v), vst_votes := prefer_block (bvs_votes b') (vst_votes s)\<rparr>
               else s')"
proof -
  let ?vs = "vs_Validators (vst_valSet s)" let ?b = "block_of k s" let ?p = "vpower (?vs ! i)"
  have b: "block_inv E s k ?b" by (rule block_of_inv [OF pend])
  have vok: "vals_ok (vst_valSet s)" and len: "length (vst_votes s) = length ?vs" "i < length ?vs"
    using pend good by (auto simp: pending_inv_def good_vote_def Let_def)
  have bt: "ba.tracks (bvs_bitArray ?b) (bvs_votes ?b)" and bl: "length (bvs_votes ?b) = length ?vs"
    and bs: "bvs_sum ?b = present_power ?vs (bvs_votes ?b)"
    using b len by (auto simp: block_inv_def)
  have vi: "v_ValidatorIndex v = int i" using good by (simp add: good_vote_def Let_def)
  have pos: "\<forall>v \<in> set ?vs. 0 < vpower v" "total_power ?vs \<le> MaxTotalVotingPower" "0 \<le> total_power ?vs"
    using vok vals_ok_total [OF vok] by (auto simp: vals_ok_def)
  obtain ba' where ba': "bvs_addVerifiedVote v ?p ?b
      = Some (?b\<lparr>bvs_bitArray := ba', bvs_votes := (bvs_votes ?b)[i := Some v], bvs_sum := i64 (bvs_sum ?b + ?p)\<rparr>)"
      "ba.tracks ba' ((bvs_votes ?b)[i := Some v])"
    using bvs_add_ok [OF bt vi _ new, of ?p] bl len by auto
  let ?b' = "with_vote i v ?vs ba' ?b"
  have b': "bvs_addVerifiedVote v ?p ?b = Some ?b'"
    using ba'(1) present_power_add [OF bl pos(1) len(2) new pos(2), of v] bs by (simp add: with_vote_def)
  have q: "i64 (i64 (total_power ?vs * 2) sdiv 3 + 1) \<le> x \<longleftrightarrow> more_than_two_thirds s x" for x
    unfolding more_than_two_thirds_def by (rule quorum_reached [OF pos(3,2)])
  have orig: "vst_maj23 s = None \<Longrightarrow> \<not> more_than_two_thirds s (bvs_sum ?b)"
    using b by (auto simp: block_inv_def)
  have tp: "TotalVotingPower (vst_valSet s) = Some (total_power ?vs, filled (vst_valSet s))"
    by (rule TotalVotingPower_ok [OF vok])
  have lb': "length (bvs_votes ?b') = length (vst_votes s)" using bl len by (simp add: with_vote_def)
  have cond: "bvs_sum ?b < i64 (i64 (total_power ?vs * 2) sdiv 3 + 1)
      \<and> i64 (i64 (total_power ?vs * 2) sdiv 3 + 1) \<le> bvs_sum ?b' \<and> vst_maj23 s = None
    \<longleftrightarrow> more_than_two_thirds s (bvs_sum ?b') \<and> vst_maj23 s = None"
    unfolding q using orig q [of "bvs_sum ?b"] by (auto simp: not_le [symmetric])
  show ?thesis
    unfolding Let_def
  proof (intro exI [of _ ba'] conjI)
    show "ba.tracks ba' (bvs_votes ?b')" using ba'(2) by (simp add: with_vote_def)
    show "add_to_block v k ?p ?b s
      = Some (if more_than_two_thirds s (bvs_sum ?b') \<and> vst_maj23 s = None
         then s\<lparr>vst_valSet := filled (vst_valSet s), vst_votesByBlock := (vst_votesByBlock s)(k \<mapsto> ?b')\<rparr>
               \<lparr>vst_maj23 := Some (v_BlockID v), vst_votes := prefer_block (bvs_votes ?b') (vst_votes s)\<rparr>
         else s\<lparr>vst_valSet := filled (vst_valSet s), vst_votesByBlock := (vst_votesByBlock s)(k \<mapsto> ?b')\<rparr>)"
      unfolding add_to_block_def using tp b' cond copy_votes_all [OF lb'] by (simp add: Let_def)
  qed
qed

text \<open>The validators counted for a block.\<close>

definition counted :: "vote_set \<Rightarrow> bytes \<Rightarrow> nat set" where
  "counted s k = (case vst_votesByBlock s k of None \<Rightarrow> {} | Some b \<Rightarrow> present (bvs_votes b))"

lemma present_block_of: "present (bvs_votes (block_of k s)) = counted s k"
  by (cases "vst_votesByBlock s k") (simp_all add: counted_def newBlockVotes_def)

lemma vals_ok_filled: "vals_ok vals \<Longrightarrow> vals_ok (filled vals)"
  by (simp add: vals_ok_def)

lemma block_invD:
  assumes "block_inv E s k b" "j < length (bvs_votes b)" "bvs_votes b ! j = Some w"
  shows "good_vote E s j w" "bid_Key (v_BlockID w) = k" "vst_votes s ! j \<noteq> None"
  using assms unfolding block_inv_def by blast+

lemma block_present: "block_inv E s k b \<Longrightarrow> present (bvs_votes b) \<subseteq> present (vst_votes s)"
  unfolding block_inv_def present_def by fastforce

lemma with_vote_present:
  assumes "pending_inv E s i k"
  shows "present (bvs_votes (with_vote i v vs ba' (block_of k s))) = insert i (counted s k)"
    "insert i (counted s k) \<subseteq> present (vst_votes s)"
proof -
  have b: "block_inv E s k (block_of k s)" by (rule block_of_inv [OF assms])
  then have "i < length (bvs_votes (block_of k s))" using assms by (simp add: block_inv_def pending_inv_def)
  then show "present (bvs_votes (with_vote i v vs ba' (block_of k s))) = insert i (counted s k)"
    by (simp add: with_vote_def present_update present_block_of)
  show "insert i (counted s k) \<subseteq> present (vst_votes s)"
    using block_present [OF b] assms unfolding present_block_of by (simp add: pending_inv_def present_def)
qed

lemma with_vote_inv:
  assumes pend: "pending_inv E s i k" and good: "good_vote E s i v" and k: "k = bid_Key (v_BlockID v)"
    and t: "ba.tracks ba' (bvs_votes (with_vote i v (vs_Validators (vst_valSet s)) ba' (block_of k s)))"
    and fr: "same_frame s s'" "length (vst_votes s') = length (vst_votes s)" "present (vst_votes s') = present (vst_votes s)"
    and maj: "more_than_two_thirds s (bvs_sum (with_vote i v (vs_Validators (vst_valSet s)) ba' (block_of k s)))
      \<Longrightarrow> vst_maj23 s' \<noteq> None"
  shows "block_inv E s' k (with_vote i v (vs_Validators (vst_valSet s)) ba' (block_of k s))"
proof -
  let ?b = "block_of k s" let ?b' = "with_vote i v (vs_Validators (vst_valSet s)) ba' ?b"
  have b: "block_inv E s k ?b" by (rule block_of_inv [OF pend])
  have sub: "present (bvs_votes ?b') \<subseteq> present (vst_votes s)"
    unfolding with_vote_present(1) [OF pend] by (rule with_vote_present(2) [OF pend])
  have g: "good_vote E s j w \<and> bid_Key (v_BlockID w) = k" if "j < length (bvs_votes ?b')" "bvs_votes ?b' ! j = Some w" for j w
  proof (cases "j = i")
    case True
    then show ?thesis using that good k by (simp add: with_vote_def)
  next
    case False
    then show ?thesis using that block_invD [OF b, of j w] by (simp add: with_vote_def)
  qed
  have vs: "vs_Validators (vst_valSet s') = vs_Validators (vst_valSet s)" using fr(1) by (simp add: same_frame_def)
  show ?thesis
    unfolding block_inv_def
  proof (intro conjI allI impI)
    show "length (bvs_votes ?b') = length (vst_votes s')" using b fr(2) by (simp add: block_inv_def with_vote_def)
    show "ba.tracks (bvs_bitArray ?b') (bvs_votes ?b')" using t by (simp add: with_vote_def)
    show "bvs_sum ?b' = present_power (vs_Validators (vst_valSet s')) (bvs_votes ?b')" using vs by (simp add: with_vote_def)
    show "more_than_two_thirds s' (bvs_sum ?b') \<Longrightarrow> vst_maj23 s' \<noteq> None" using maj two_thirds_frame [OF fr(1)] by simp
    fix j w assume j: "j < length (bvs_votes ?b')" "bvs_votes ?b' ! j = Some w"
    show "good_vote E s' j w" "bid_Key (v_BlockID w) = k" using g [OF j] good_vote_frame [OF fr(1)] by auto
    have "j \<in> present (vst_votes s')" using j sub fr(3) by (auto simp: present_def)
    then show "vst_votes s' ! j \<noteq> None" by (simp add: present_def)
  qed
qed

lemma block_inv_mono:
  assumes "block_inv E s k b" "same_frame s s'" "length (vst_votes s') = length (vst_votes s)"
    and "present (vst_votes s) \<subseteq> present (vst_votes s')" "vst_maj23 s \<noteq> None \<Longrightarrow> vst_maj23 s' \<noteq> None"
  shows "block_inv E s' k b"
proof -
  have "vs_Validators (vst_valSet s') = vs_Validators (vst_valSet s)" using assms(2) by (simp add: same_frame_def)
  then show ?thesis
    using assms unfolding block_inv_def two_thirds_frame [OF assms(2)] good_vote_frame [OF assms(2)]
    by (auto simp: present_def)
qed

lemma add_to_block_inv:
  assumes pend: "pending_inv E s i k" and good: "good_vote E s i v" and k: "k = bid_Key (v_BlockID v)"
    and new: "bvs_votes (block_of k s) ! i = None"
  shows "\<exists>s'. add_to_block v k (vpower (vs_Validators (vst_valSet s) ! i)) (block_of k s) s = Some s'
    \<and> vst_inv E s' \<and> same_frame s s' \<and> (vst_maj23 s \<noteq> None \<longrightarrow> vst_maj23 s' = vst_maj23 s)
    \<and> present (vst_votes s') = present (vst_votes s) \<and> vst_peerMaj23s s' = vst_peerMaj23s s
    \<and> (\<forall>k'. counted s' k' = (if k' = k then insert i (counted s k) else counted s k'))
    \<and> dom (vst_votesByBlock s') = insert k (dom (vst_votesByBlock s))"
proof -
  let ?vs = "vs_Validators (vst_valSet s)" let ?b = "block_of k s"
  obtain ba' where t: "ba.tracks ba' (bvs_votes (with_vote i v ?vs ba' ?b))"
    and eq: "add_to_block v k (vpower (?vs ! i)) ?b s
       = Some (let b' = with_vote i v ?vs ba' ?b;
                   s' = s\<lparr>vst_valSet := filled (vst_valSet s), vst_votesByBlock := (vst_votesByBlock s)(k \<mapsto> b')\<rparr> in
               if more_than_two_thirds s (bvs_sum b') \<and> vst_maj23 s = None
               then s'\<lparr>vst_maj23 := Some (v_BlockID v), vst_votes := prefer_block (bvs_votes b') (vst_votes s)\<rparr>
               else s')"
    using add_to_block_eq [OF assms] unfolding Let_def by blast
  define b' where "b' = with_vote i v ?vs ba' ?b"
  define s1 where "s1 = s\<lparr>vst_valSet := filled (vst_valSet s), vst_votesByBlock := (vst_votesByBlock s)(k \<mapsto> b')\<rparr>"
  define s2 where "s2 = (if more_than_two_thirds s (bvs_sum b') \<and> vst_maj23 s = None
    then s1\<lparr>vst_maj23 := Some (v_BlockID v), vst_votes := prefer_block (bvs_votes b') (vst_votes s)\<rparr> else s1)"
  have b: "block_inv E s k ?b" by (rule block_of_inv [OF pend])
  have lb: "length (bvs_votes b') = length (vst_votes s)" using b by (simp add: b'_def with_vote_def block_inv_def)
  have pb: "present (bvs_votes b') = insert i (counted s k)"
    unfolding b'_def by (rule with_vote_present(1) [OF pend])
  have sub: "present (bvs_votes b') \<subseteq> present (vst_votes s)"
    unfolding pb by (rule with_vote_present(2) [OF pend])
  have fr: "same_frame s s2" by (simp add: s2_def s1_def same_frame_def)
  have votes: "length (vst_votes s2) = length (vst_votes s)" "present (vst_votes s2) = present (vst_votes s)"
    using lb prefer_present [OF lb sub] by (auto simp: s2_def s1_def)
  have vbb: "vst_votesByBlock s2 = (vst_votesByBlock s)(k \<mapsto> b')" by (simp add: s2_def s1_def)
  have majs: "vst_maj23 s \<noteq> None \<Longrightarrow> vst_maj23 s2 = vst_maj23 s" by (auto simp: s2_def s1_def)
  have bi: "block_inv E s2 k' c" if "vst_votesByBlock s2 k' = Some c" for k' c
  proof (cases "k' = k")
    case True
    have "block_inv E s2 k b'"
      unfolding b'_def by (rule with_vote_inv [OF pend good k t fr votes]) (auto simp: s2_def s1_def b'_def)
    then show ?thesis using that True vbb by simp
  next
    case False
    then have "block_inv E s k' c" using that vbb pend by (simp add: pending_inv_def)
    then show ?thesis by (rule block_inv_mono [OF _ fr votes(1)]) (simp_all add: votes(2) majs)
  qed
  have gv: "good_vote E s2 j w \<and> vst_votesByBlock s2 (bid_Key (v_BlockID w)) \<noteq> None"
    if j: "j < length (vst_votes s2)" "vst_votes s2 ! j = Some w" for j w
  proof -
    have "vst_votes s ! j = Some w \<or> bvs_votes b' ! j = Some w"
      using j lb by (auto simp: s2_def s1_def nth_prefer_block split: if_splits)
    then show ?thesis
    proof
      assume "vst_votes s ! j = Some w"
      then show ?thesis using pend j(1) votes(1) good_vote_frame [OF fr] vbb by (auto simp: pending_inv_def)
    next
      assume "bvs_votes b' ! j = Some w"
      then show ?thesis using block_invD [OF bi [of k b'], of j w] vbb j(1) votes(1) lb by simp
    qed
  qed
  have mi: "maj_inv s2 m" if m: "vst_maj23 s2 = Some m" for m
  proof (cases "vst_maj23 s")
    case None
    then have c: "more_than_two_thirds s (bvs_sum b')" "m = v_BlockID v" "vst_votes s2 = prefer_block (bvs_votes b') (vst_votes s)"
      using m by (auto simp: s2_def s1_def split: if_splits)
    have "\<exists>w. vst_votes s2 ! j = Some w \<and> v_BlockID w = m" if j: "j < length (bvs_votes b')" "bvs_votes b' ! j \<noteq> None" for j
    proof -
      obtain w where w: "bvs_votes b' ! j = Some w" using j by auto
      then have "bid_Key (v_BlockID w) = k" "bid_ok (v_BlockID w)"
        using block_invD [OF bi [of k b'], of j w] vbb j good_bid_ok by auto
      then have "v_BlockID w = m"
        using c(2) k good_bid_ok [OF good] by (intro bid_Key_inj) auto
      then show ?thesis using w c(3) j lb by (simp add: nth_prefer_block)
    qed
    then show ?thesis
      using vbb c(1,2) k good_bid_ok [OF good] two_thirds_frame [OF fr] by (auto simp: maj_inv_def)
  next
    case (Some m')
    then have c: "m = m'" "vst_votes s2 = vst_votes s" "maj_inv s m"
        "bid_Key m = k \<longrightarrow> (\<exists>v. vst_votes s ! i = Some v \<and> v_BlockID v = m)"
      using m pend by (auto simp: s2_def s1_def pending_inv_def)
    show ?thesis
    proof (cases "bid_Key m = k")
      case False
      then show ?thesis using c vbb two_thirds_frame [OF fr] by (auto simp: maj_inv_def)
    next
      case True
      obtain b0 where b0: "vst_votesByBlock s k = Some b0" "more_than_two_thirds s (bvs_sum b0)"
          "\<forall>j < length (bvs_votes b0). bvs_votes b0 ! j \<noteq> None \<longrightarrow> (\<exists>v. vst_votes s ! j = Some v \<and> v_BlockID v = m)"
          "bid_ok m"
        using c(3) True by (auto simp: maj_inv_def)
      have "present_power ?vs (bvs_votes b0) \<le> present_power ?vs (bvs_votes b')"
        using b0(1) pend b new
        by (auto simp: b'_def with_vote_def present_power_update block_inv_def pending_inv_def vals_ok_def less_imp_le)
      then have "more_than_two_thirds s (bvs_sum b')"
        using b0(1,2) b by (auto simp: more_than_two_thirds_def block_inv_def b'_def with_vote_def)
      moreover have "\<exists>v. vst_votes s ! j = Some v \<and> v_BlockID v = m"
        if "j < length (bvs_votes b')" "bvs_votes b' ! j \<noteq> None" for j
        using that b0 c(4) True by (cases "j = i") (auto simp: b'_def with_vote_def)
      ultimately show ?thesis
        using c(2) True vbb b0(4) two_thirds_frame [OF fr] by (auto simp: maj_inv_def)
    qed
  qed
  have "vst_inv E s2"
    unfolding vst_inv_def
  proof (intro conjI allI impI)
    show "vals_ok (vst_valSet s2)" "length (vst_votes s2) = length (vs_Validators (vst_valSet s2))"
        "\<forall>v \<in> set (vs_Validators (vst_valSet s2)). val_PubKey v \<noteq> None"
      using pend votes(1) fr vals_ok_filled by (auto simp: pending_inv_def same_frame_def s2_def s1_def)
    show "ba.tracks (vst_votesBitArray s2) (vst_votes s2)"
      using pend votes tracks_cong [of "vst_votesBitArray s" "vst_votes s" "vst_votes s2"]
      by (auto simp: pending_inv_def s2_def s1_def)
    show "vst_sum s2 = present_power (vs_Validators (vst_valSet s2)) (vst_votes s2)"
      using pend votes(2) by (auto simp: pending_inv_def s2_def s1_def present_power_def)
  qed (use gv bi mi in auto)
  moreover have "add_to_block v k (vpower (?vs ! i)) ?b s = Some s2"
    using eq by (simp add: s2_def s1_def b'_def Let_def)
  moreover have "counted s2 k' = (if k' = k then insert i (counted s k) else counted s k')" for k'
    using pb vbb by (simp add: counted_def)
  moreover have "vst_peerMaj23s s2 = vst_peerMaj23s s" by (simp add: s2_def s1_def)
  ultimately show ?thesis using fr majs votes(2) vbb by auto
qed

section \<open>Adding a verified vote\<close>

lemma good_vote_index: "vst_inv E s \<Longrightarrow> good_vote E s i v \<Longrightarrow> i < length (vst_votes s) \<and> v_ValidatorIndex v = int i"
  by (simp add: vst_inv_def good_vote_def Let_def)

lemma vst_invD:
  assumes "vst_inv E s" "i < length (vst_votes s)" "vst_votes s ! i = Some v"
  shows "good_vote E s i v" "vst_votesByBlock s (bid_Key (v_BlockID v)) \<noteq> None"
  using assms unfolding vst_inv_def by blast+

text \<open>A vote stored in the primary list: what the second half may rely on.\<close>

lemma pending_store:
  assumes inv: "vst_inv E s" and good: "good_vote E s i v" and k: "k = bid_Key (v_BlockID v)"
    and t: "ba.tracks b ((vst_votes s)[i := Some v])"
    and s1: "s1 = s\<lparr>vst_votes := (vst_votes s)[i := Some v], vst_votesBitArray := b,
      vst_sum := present_power (vs_Validators (vst_valSet s)) ((vst_votes s)[i := Some v])\<rparr>"
    and old: "vst_votes s ! i = None \<or> (\<exists>m. vst_maj23 s = Some m \<and> bid_Key m = k)"
  shows "pending_inv E s1 i k \<and> same_frame s s1"
proof -
  have fr: "same_frame s s1" by (simp add: s1 same_frame_def)
  have i: "i < length (vst_votes s)" using good_vote_index [OF inv good] by simp
  have sub: "present (vst_votes s) \<subseteq> present (vst_votes s1)" using i by (auto simp: s1 present_update)
  have len: "length (vst_votes s1) = length (vst_votes s)" by (simp add: s1)
  have bi: "block_inv E s1 k' c" if "vst_votesByBlock s1 k' = Some c" for k' c
  proof -
    have "block_inv E s k' c" using that inv by (simp add: vst_inv_def s1)
    then show ?thesis by (rule block_inv_mono [OF _ fr len sub]) (simp add: s1)
  qed
  have mi: "maj_inv s1 m \<and> (bid_Key m = k \<longrightarrow> (\<exists>v. vst_votes s1 ! i = Some v \<and> v_BlockID v = m))"
    if m: "vst_maj23 s1 = Some m" for m
  proof -
    have mi: "maj_inv s m" using inv m by (simp add: vst_inv_def s1)
    have vm: "bid_Key m = k \<Longrightarrow> v_BlockID v = m"
      using bid_Key_inj [of "v_BlockID v" m] k good_bid_ok [OF good] mi by (auto simp: maj_inv_def)
    obtain b0 where b0: "vst_votesByBlock s (bid_Key m) = Some b0" "more_than_two_thirds s (bvs_sum b0)"
        "\<forall>j < length (bvs_votes b0). bvs_votes b0 ! j \<noteq> None \<longrightarrow> (\<exists>v. vst_votes s ! j = Some v \<and> v_BlockID v = m)"
      using mi by (auto simp: maj_inv_def)
    have "\<exists>w. vst_votes s1 ! j = Some w \<and> v_BlockID w = m"
      if j: "j < length (bvs_votes b0)" "bvs_votes b0 ! j \<noteq> None" for j
    proof (cases "j = i")
      case True
      then have "bid_Key m = k" using b0(3) j old m by (auto simp: s1)
      then show ?thesis using True vm i by (simp add: s1)
    next
      case False
      then show ?thesis using b0(3) j by (simp add: s1)
    qed
    then show ?thesis
      using mi b0(1,2) vm i two_thirds_frame [OF fr] by (auto simp: maj_inv_def s1)
  qed
  have gv: "good_vote E s1 j w \<and> (vst_votesByBlock s1 (bid_Key (v_BlockID w)) \<noteq> None \<or> bid_Key (v_BlockID w) = k)"
    if j: "j < length (vst_votes s1)" "vst_votes s1 ! j = Some w" for j w
  proof (cases "j = i")
    case True
    then show ?thesis using j good k i good_vote_frame [OF fr] by (simp add: s1)
  next
    case False
    then show ?thesis using vst_invD [OF inv, of j w] j good_vote_frame [OF fr] by (auto simp: s1)
  qed
  have "pending_inv E s1 i k"
    unfolding pending_inv_def
  proof (intro conjI allI impI)
    show "vals_ok (vst_valSet s1)" "\<forall>v \<in> set (vs_Validators (vst_valSet s1)). val_PubKey v \<noteq> None"
        "length (vst_votes s1) = length (vs_Validators (vst_valSet s1))"
      using inv by (simp_all add: vst_inv_def s1)
    show "ba.tracks (vst_votesBitArray s1) (vst_votes s1)" using t by (simp add: s1)
    show "vst_sum s1 = present_power (vs_Validators (vst_valSet s1)) (vst_votes s1)" by (simp add: s1)
    show "i < length (vst_votes s1)" "vst_votes s1 ! i \<noteq> None" using i by (simp_all add: s1)
  qed (use gv bi mi in auto)
  with fr show ?thesis by blast
qed

lemma pending_keep:
  assumes inv: "vst_inv E s" and "i < length (vst_votes s)" "vst_votes s ! i \<noteq> None"
    and "\<And>m. vst_maj23 s = Some m \<Longrightarrow> bid_Key m \<noteq> k"
  shows "pending_inv E s i k"
  using assms unfolding vst_inv_def pending_inv_def by auto

text \<open>A pending vote whose block is tracked leaves the full invariant.\<close>

lemma pending_tracked:
  assumes "pending_inv E s i k" "vst_votesByBlock s k \<noteq> None"
  shows "vst_inv E s"
proof -
  have "\<forall>i v. i < length (vst_votes s) \<longrightarrow> vst_votes s ! i = Some v
      \<longrightarrow> good_vote E s i v \<and> vst_votesByBlock s (bid_Key (v_BlockID v)) \<noteq> None"
    using assms unfolding pending_inv_def by metis
  then show ?thesis using assms(1) unfolding vst_inv_def pending_inv_def by blast
qed

text \<open>The first half of \<open>addVerifiedVote\<close>.\<close>

definition store_vote :: "vote \<Rightarrow> bytes \<Rightarrow> int \<Rightarrow> vote_set \<Rightarrow> vote option \<Rightarrow> vote_set option" where
  "store_vote v blockKey votingPower s existing =
     (case existing of
        Some e \<Rightarrow>
          (if bid_Equals (v_BlockID e) (v_BlockID v) then None
           else if vst_maj23 s \<noteq> None \<and> bid_Key (the (vst_maj23 s)) = blockKey then set_vote v s
           else Some s)
      | None \<Rightarrow> map_option (\<lambda>s. s\<lparr>vst_sum := i64 (vst_sum s + votingPower)\<rparr>) (set_vote v s))"

lemma store_vote_ok:
  assumes inv: "vst_inv E s" and good: "good_vote E s i v" and k: "k = bid_Key (v_BlockID v)"
    and diff: "\<And>e. vst_votes s ! i = Some e \<Longrightarrow> v_BlockID e \<noteq> v_BlockID v"
  shows "\<exists>s1. store_vote v k (vpower (vs_Validators (vst_valSet s) ! i)) s (vst_votes s ! i) = Some s1
    \<and> pending_inv E s1 i k \<and> same_frame s s1 \<and> present (vst_votes s1) = insert i (present (vst_votes s))
    \<and> vst_votesByBlock s1 = vst_votesByBlock s \<and> vst_maj23 s1 = vst_maj23 s
    \<and> vst_peerMaj23s s1 = vst_peerMaj23s s \<and> vst_valSet s1 = vst_valSet s"
proof -
  let ?vs = "vs_Validators (vst_valSet s)"
  have i: "i < length (vst_votes s)" "v_ValidatorIndex v = int i" using good_vote_index [OF inv good] by auto
  have facts: "ba.tracks (vst_votesBitArray s) (vst_votes s)" "length (vst_votes s) = length ?vs"
      "vst_sum s = present_power ?vs (vst_votes s)" "vals_ok (vst_valSet s)"
    using inv by (simp_all add: vst_inv_def)
  obtain b where b: "set_vote v s = Some (s\<lparr>vst_votes := (vst_votes s)[i := Some v], vst_votesBitArray := b\<rparr>)"
      "ba.tracks b ((vst_votes s)[i := Some v])"
    using set_vote_ok [OF facts(1) i(2,1)] by blast
  let ?s1 = "s\<lparr>vst_votes := (vst_votes s)[i := Some v], vst_votesBitArray := b,
      vst_sum := present_power ?vs ((vst_votes s)[i := Some v])\<rparr>"
  note store = pending_store [OF inv good k b(2) refl]
  have pres: "present ((vst_votes s)[i := Some v]) = insert i (present (vst_votes s))" by (rule present_update [OF i(1)])
  show ?thesis
  proof (cases "vst_votes s ! i")
    case None
    have "i64 (vst_sum s + vpower (?vs ! i)) = present_power ?vs ((vst_votes s)[i := Some v])"
      using present_power_add [OF facts(2) _ _ None, of v] facts(3,4) i(1) facts(2) by (auto simp: vals_ok_def)
    then show ?thesis using None b(1) store pres by (intro exI [of _ ?s1]) (simp add: store_vote_def)
  next
    case (Some e)
    have e: "insert i (present (vst_votes s)) = present (vst_votes s)"
      using i(1) Some by (auto simp: present_def)
    show ?thesis
    proof (cases "\<exists>m. vst_maj23 s = Some m \<and> bid_Key m = k")
      case True
      have "present_power ?vs ((vst_votes s)[i := Some v]) = vst_sum s"
        using facts(3) pres e by (simp add: present_power_def)
      then have "?s1 = s\<lparr>vst_votes := (vst_votes s)[i := Some v], vst_votesBitArray := b\<rparr>" by simp
      then show ?thesis using Some True b(1) store pres diff [OF Some] by (intro exI [of _ ?s1]) (auto simp: store_vote_def)
    next
      case False
      then have "pending_inv E s i k" using inv i(1) Some by (intro pending_keep) auto
      then show ?thesis using Some False e diff [OF Some] by (intro exI [of _ s]) (auto simp: store_vote_def)
    qed
  qed
qed

text \<open>
  The effect of a verified vote. It is counted for its block unless it conflicts with an earlier vote
  of the same validator and no peer claims a majority for its block.
\<close>

definition takes :: "vote_set \<Rightarrow> nat \<Rightarrow> bytes \<Rightarrow> bool" where
  "takes s i k \<longleftrightarrow> vst_votes s ! i = None
     \<or> (\<exists>b. vst_votesByBlock s k = Some b \<and> bvs_peerMaj23 b)"

lemma addVerifiedVote_ok:
  assumes inv: "vst_inv E s" and good: "good_vote E s i v" and k: "k = bid_Key (v_BlockID v)"
    and unknown: "vst_getVote (int i) k s = Some None"
  shows "\<exists>s'. vst_addVerifiedVote v k (vpower (vs_Validators (vst_valSet s) ! i)) s
      = Some ((takes s i k, vst_votes s ! i), s')
    \<and> vst_inv E s' \<and> same_frame s s' \<and> (vst_maj23 s \<noteq> None \<longrightarrow> vst_maj23 s' = vst_maj23 s)
    \<and> present (vst_votes s') = insert i (present (vst_votes s)) \<and> vst_peerMaj23s s' = vst_peerMaj23s s
    \<and> (\<forall>k'. counted s' k' = (if takes s i k \<and> k' = k then insert i (counted s k) else counted s k'))
    \<and> dom (vst_votesByBlock s') = (if takes s i k then insert k (dom (vst_votesByBlock s)) else dom (vst_votesByBlock s))"
proof -
  let ?p = "vpower (vs_Validators (vst_valSet s) ! i)"
  have i: "i < length (vst_votes s)" "v_ValidatorIndex v = int i" using good_vote_index [OF inv good] by auto
  have ex: "go_index (vst_votes s) (v_ValidatorIndex v) = Some (vst_votes s ! i)" using i by simp
  have diff: "v_BlockID e \<noteq> v_BlockID v" if "vst_votes s ! i = Some e" for e
    using unknown that i k by (auto simp: vst_getVote_def)
  have notin: "bvs_votes b ! i = None" if "vst_votesByBlock s k = Some b" for b
  proof -
    have "i < length (bvs_votes b)" using inv that i(1) by (auto simp: vst_inv_def block_inv_def)
    then show ?thesis
      using unknown that i(1) by (auto simp: vst_getVote_def bvs_getByIndex_def split: if_splits)
  qed
  obtain s1 where s1: "store_vote v k ?p s (vst_votes s ! i) = Some s1" "pending_inv E s1 i k" "same_frame s s1"
      "present (vst_votes s1) = insert i (present (vst_votes s))" "vst_votesByBlock s1 = vst_votesByBlock s"
      "vst_maj23 s1 = vst_maj23 s" "vst_peerMaj23s s1 = vst_peerMaj23s s" "vst_valSet s1 = vst_valSet s"
    using store_vote_ok [OF inv good k diff] by blast
  have cnt: "counted s1 = counted s" by (intro ext) (simp add: counted_def s1(5))
  have good1: "good_vote E s1 i v" using good good_vote_frame [OF s1(3)] by simp
  have new: "bvs_votes (block_of k s1) ! i = None"
    using notin s1(5,8) good by (auto simp: newBlockVotes_def vals_Size_def good_vote_def Let_def split: option.splits)
  obtain s2 where s2: "add_to_block v k ?p (block_of k s1) s1 = Some s2" "vst_inv E s2" "same_frame s1 s2"
      "vst_maj23 s1 \<noteq> None \<longrightarrow> vst_maj23 s2 = vst_maj23 s1" "present (vst_votes s2) = present (vst_votes s1)"
      "vst_peerMaj23s s2 = vst_peerMaj23s s1"
      "\<forall>k'. counted s2 k' = (if k' = k then insert i (counted s1 k) else counted s1 k')"
      "dom (vst_votesByBlock s2) = insert k (dom (vst_votesByBlock s1))"
    using add_to_block_inv [OF s1(2) good1 k new] s1(8) by auto
  have eq: "vst_addVerifiedVote v k ?p s = (if takes s i k then Some ((True, vst_votes s ! i), s2)
      else Some ((False, vst_votes s ! i), s1))"
    using s1(1) s2(1) s1(5) unfolding vst_addVerifiedVote_def ex store_vote_def takes_def
    by (cases "vst_votesByBlock s k") (auto simp: Let_def)
  show ?thesis
  proof (cases "takes s i k")
    case True
    then show ?thesis
      using eq s2 s1(3-7) same_frame_trans [OF s1(3) s2(3)] cnt by (intro exI [of _ s2]) auto
  next
    case False
    then have nn: "vst_votes s ! i \<noteq> None" by (auto simp: takes_def)
    have "vst_inv E s1"
    proof (cases "vst_votesByBlock s k")
      case (Some b)
      then show ?thesis using pending_tracked [OF s1(2)] s1(5) by simp
    next
      case None
      then have "\<And>m. vst_maj23 s = Some m \<Longrightarrow> bid_Key m \<noteq> k" using inv by (auto simp: vst_inv_def maj_inv_def)
      then have "s1 = s" using s1(1) nn diff by (auto simp: store_vote_def split: option.splits if_splits)
      then show ?thesis using inv by simp
    qed
    then show ?thesis using eq False s1(3-7) cnt by (intro exI [of _ s1]) auto
  qed
qed

end
