(* ===== verification/VoteSetCommit.thy ===== *)
theory VoteSetCommit
  imports VoteSetRuns
begin

text \<open>
  Commits and vote sets: the commit that \<open>MakeCommit\<close> builds from a reachable set of precommits is one that
  \<open>VerifyCommit\<close> accepts, and \<open>CommitToVoteSet\<close> recovers a set with the same majority from it.
\<close>

section \<open>The commit of a vote set\<close>

definition commit_sig_of :: "block_id \<Rightarrow> vote option \<Rightarrow> commit_sig" where
  "commit_sig_of m v =
     (case v of
        None \<Rightarrow> NewCommitSigAbsent
      | Some v \<Rightarrow>
          (if v_BlockID v = zero_block_id \<or> v_BlockID v = m then
             \<lparr>cs_BlockIDFlag = (if v_BlockID v = zero_block_id then BlockIDFlagNil else BlockIDFlagCommit),
              cs_ValidatorAddress = v_ValidatorAddress v, cs_Timestamp = v_Timestamp v, cs_Signature = v_Signature v\<rparr>
           else NewCommitSigAbsent))"

lemma make_commit_sig_eq:
  assumes "\<And>w. v = Some w \<Longrightarrow> bid_ok (v_BlockID w)" "m \<noteq> zero_block_id"
  shows "make_commit_sig m v = Some (commit_sig_of m v)"
proof (cases v)
  case None
  then show ?thesis
    by (simp add: make_commit_sig_def v_CommitSig_def commit_sig_of_def NewCommitSigAbsent_def cs_ForBlock_def)
next
  case (Some w)
  then show ?thesis
    using assms by (auto simp: make_commit_sig_def v_CommitSig_def commit_sig_of_def cs_ForBlock_def bid_ok_def bid_IsZero_iff)
qed

lemma map_all_eq: "(\<And>x. x \<in> set xs \<Longrightarrow> f x = Some (g x)) \<Longrightarrow> map_all f xs = Some (map g xs)"
  by (induction xs) auto

definition commit_of :: "vote_set \<Rightarrow> block_id \<Rightarrow> commit" where
  "commit_of s m = \<lparr>c_Height = vst_height s, c_Round = vst_round s, c_BlockID = m,
     c_Signatures = map (commit_sig_of m) (vst_votes s)\<rparr>"

lemma MakeCommit_eq:
  assumes "vst_inv E s" "vst_signedMsgType s = PrecommitType" "vst_maj23 s = Some m" "m \<noteq> zero_block_id"
  shows "MakeCommit s = Some (commit_of s m)"
proof -
  have "make_commit_sig m x = Some (commit_sig_of m x)" if x: "x \<in> set (vst_votes s)" for x
  proof (rule make_commit_sig_eq [OF _ assms(4)])
    fix w assume w: "x = Some w"
    obtain i where "i < length (vst_votes s)" "vst_votes s ! i = Some w" using x w by (auto simp: in_set_conv_nth)
    then show "bid_ok (v_BlockID w)" using vst_invD(1) [OF assms(1)] good_bid_ok by blast
  qed
  then have "map_all (make_commit_sig m) (vst_votes s) = Some (map (commit_sig_of m) (vst_votes s))"
    by (rule map_all_eq)
  then show ?thesis
    using assms(2,3) by (simp add: MakeCommit_def commit_of_def NewCommit_def vst_GetHeight_def vst_GetRound_def)
qed

text \<open>A signature that is not absent is the vote it came from.\<close>

lemma commit_of_vote:
  assumes "vst_inv E s" "vst_signedMsgType s = PrecommitType" "i < length (vst_votes s)"
    and "\<not> cs_Absent (c_Signatures (commit_of s m) ! i)"
  shows "\<exists>v. vst_votes s ! i = Some v \<and> c_GetVote (commit_of s m) (int i) = Some v \<and> good_vote E s i v"
proof -
  have "\<not> cs_Absent (commit_sig_of m (vst_votes s ! i))" using assms(3,4) by (simp add: commit_of_def)
  then obtain v where v: "vst_votes s ! i = Some v" "v_BlockID v = zero_block_id \<or> v_BlockID v = m"
    by (auto simp: commit_sig_of_def cs_Absent_def NewCommitSigAbsent_def split: option.splits if_splits)
  have good: "good_vote E s i v" by (rule vst_invD(1) [OF assms(1,3) v(1)])
  have "c_GetVote (commit_of s m) (int i) = Some v"
    using v assms(2,3) good
    by (cases v) (auto simp: c_GetVote_def commit_of_def commit_sig_of_def cs_BlockID_def good_vote_def Let_def)
  with v good show ?thesis by blast
qed

lemma commit_of_ok:
  assumes inv: "vst_inv E s" and maj: "vst_maj23 s = Some m" "m \<noteq> zero_block_id"
    and h: "1 \<le> vst_height s" "0 \<le> vst_round s" and n: "int (length (vst_votes s)) \<le> MaxInt32"
  shows "commit_ok (commit_of s m)"
proof -
  have m: "bid_ok m" using inv maj(1) by (simp add: vst_inv_def maj_inv_def)
  have ne: "vst_votes s \<noteq> []" using inv by (auto simp: vst_inv_def vals_ok_def)
  have "cs_ValidateBasic (commit_sig_of m (vst_votes s ! i)) = None" if i: "i < length (vst_votes s)" for i
  proof (cases "vst_votes s ! i")
    case None
    then show ?thesis by (simp add: commit_sig_of_def NewCommitSigAbsent_def cs_ValidateBasic_def)
  next
    case (Some v)
    have "v_ValidateBasic v = None" using vst_invD(1) [OF inv i Some] by (simp add: good_vote_def Let_def)
    then have "length (v_ValidatorAddress v) = AddressSize" "length (v_Signature v) \<noteq> 0"
        "int (length (v_Signature v)) \<le> MaxSignatureSize"
      by (auto simp: v_ValidateBasic_def split: if_splits option.splits)
    then show ?thesis
      using Some by (auto simp: commit_sig_of_def cs_ValidateBasic_def NewCommitSigAbsent_def AddressSize_def)
  qed
  then have "\<forall>cs \<in> set (c_Signatures (commit_of s m)). cs_ValidateBasic cs = None"
    by (auto simp: commit_of_def in_set_conv_nth)
  then show ?thesis
    using m maj(2) ne h n bid_complete_valid [of m]
    by (auto simp: commit_ok_def c_ValidateBasic_def commit_of_def bid_IsZero_iff first_error_None bid_ok_def)
qed

lemma block_power_sum:
  "length (c_Signatures c) = length vs \<Longrightarrow>
     block_power c vs = (\<Sum>i\<in>{i. i < length vs \<and> cs_ForBlock (c_Signatures c ! i)}. vpower (vs ! i))"
proof -
  assume len: "length (c_Signatures c) = length vs"
  have "block_power c vs = (\<Sum>i<length vs. if cs_ForBlock (c_Signatures c ! i) then vpower (vs ! i) else 0)"
    using len by (simp add: block_power_def sum_list_map_nth)
  also have "\<dots> = (\<Sum>i\<in>{i \<in> {..<length vs}. cs_ForBlock (c_Signatures c ! i)}. vpower (vs ! i))"
    by (rule sum.inter_filter [symmetric]) simp
  finally show ?thesis by simp
qed

lemma commit_of_power:
  assumes inv: "vst_inv E s" and maj: "vst_maj23 s = Some m" "m \<noteq> zero_block_id"
  shows "2 * total_power (vs_Validators (vst_valSet s)) < 3 * block_power (commit_of s m) (vs_Validators (vst_valSet s))"
proof -
  let ?vs = "vs_Validators (vst_valSet s)" let ?c = "commit_of s m"
  obtain b where b: "vst_votesByBlock s (bid_Key m) = Some b" "more_than_two_thirds s (bvs_sum b)"
      "\<forall>i < length (bvs_votes b). bvs_votes b ! i \<noteq> None \<longrightarrow> (\<exists>v. vst_votes s ! i = Some v \<and> v_BlockID v = m)"
    using inv maj(1) by (auto simp: vst_inv_def maj_inv_def)
  have bi: "block_inv E s (bid_Key m) b" using inv b(1) by (simp add: vst_inv_def)
  have len: "length (vst_votes s) = length ?vs" "length (bvs_votes b) = length ?vs" "vals_ok (vst_valSet s)"
    using inv bi by (simp_all add: vst_inv_def block_inv_def)
  have "present (bvs_votes b) \<subseteq> {i. i < length ?vs \<and> cs_ForBlock (c_Signatures ?c ! i)}"
  proof
    fix i assume i: "i \<in> present (bvs_votes b)"
    then obtain v where "vst_votes s ! i = Some v" "v_BlockID v = m" using b(3) by (auto simp: present_def)
    then show "i \<in> {i. i < length ?vs \<and> cs_ForBlock (c_Signatures ?c ! i)}"
      using i len maj(2) by (simp add: present_def commit_of_def commit_sig_of_def cs_ForBlock_def)
  qed
  then have "present_power ?vs (bvs_votes b) \<le> block_power ?c ?vs"
    unfolding present_power_def using len
    by (subst block_power_sum) (auto simp: commit_of_def vals_ok_def less_imp_le intro!: sum_mono2)
  then show ?thesis using b(2) bi by (simp add: more_than_two_thirds_def block_inv_def)
qed

lemma commit_of_verifies:
  assumes inv: "vst_inv E s" and ty: "vst_signedMsgType s = PrecommitType"
    and maj: "vst_maj23 s = Some m" "m \<noteq> zero_block_id"
    and h: "1 \<le> vst_height s" "0 \<le> vst_round s" and n: "int (length (vst_votes s)) \<le> MaxInt32"
    and keys: "keys_uniform E B (vst_valSet s)" and lib: "batch_lib_ok E B"
  shows "\<exists>vals'. VerifyCommit E B (vst_chainID s) (Some (vst_valSet s)) m (vst_height s) (Some (commit_of s m))
    = Some (None, Some vals')"
proof -
  let ?c = "commit_of s m" let ?vs = "vs_Validators (vst_valSet s)"
  have vok: "vals_ok (vst_valSet s)" and len: "length (vst_votes s) = length ?vs" using inv by (simp_all add: vst_inv_def)
  have "sig_ok E (vst_chainID s) ?c i (?vs ! i)"
    if i: "i < length (c_Signatures ?c)" "\<not> cs_Absent (c_Signatures ?c ! i)" for i
  proof -
    have i': "i < length (vst_votes s)" using i(1) by (simp add: commit_of_def)
    obtain v where v: "vst_votes s ! i = Some v" "c_GetVote ?c (int i) = Some v" "good_vote E s i v"
      using commit_of_vote [OF inv ty i' i(2)] by blast
    obtain pk where pk: "val_PubKey (?vs ! i) = Some pk" "v_Verify E (vst_chainID s) pk v = Some None"
      using v(3) by (auto simp: good_vote_def Let_def)
    have "cs_Signature (c_Signatures ?c ! i) = v_Signature v"
      using v(2) i(1) by (auto simp: c_GetVote_def split: Option.bind_splits)
    then show ?thesis
      using pk v(2) by (auto simp: sig_ok_def c_VoteSignBytes_def v_Verify_def split: if_splits Option.bind_splits)
  qed
  moreover have "commit_matches (vst_valSet s) m (vst_height s) ?c"
    using len by (simp add: commit_matches_def commit_of_def)
  ultimately show ?thesis
    using VerifyCommit_exact [OF vok keys commit_of_ok [OF inv maj h n] lib, of "vst_chainID s" m "vst_height s"]
      commit_of_power [OF inv maj] by auto
qed

section \<open>Back to a vote set\<close>

definition commit_key :: "commit \<Rightarrow> nat \<Rightarrow> bytes" where
  "commit_key c i = bid_Key (v_BlockID (the (c_GetVote c (int i))))"

text \<open>The validators among the first \<open>n\<close> that the commit has a vote of.\<close>

definition voters :: "commit \<Rightarrow> nat \<Rightarrow> nat set" where
  "voters c n = {i. i < n \<and> \<not> cs_Absent (c_Signatures c ! i)}"

lemma voters_Suc: "voters c (Suc n) = (if cs_Absent (c_Signatures c ! n) then voters c n else insert n (voters c n))"
  by (auto simp: voters_def less_Suc_eq)

lemma add_commit_votes_ok:
  assumes votes: "\<And>i. i < length (c_Signatures c) \<Longrightarrow> \<not> cs_Absent (c_Signatures c ! i) \<Longrightarrow>
      \<exists>v. c_GetVote c (int i) = Some v \<and> good_vote E s i v \<and> v_ValidatorAddress v \<noteq> []"
    and n: "int (length (c_Signatures c)) \<le> MaxInt32"
    and split: "c_Signatures c = pre @ sigs"
    and inv: "vst_inv E s" "present (vst_votes s) = voters c (length pre)" "length (vst_votes s) = length (c_Signatures c)"
      "\<forall>k. counted s k = {i \<in> voters c (length pre). commit_key c i = k}"
  shows "\<exists>s'. add_commit_votes E c (length pre) sigs s = Some s' \<and> vst_inv E s' \<and> same_frame s s'
    \<and> (\<forall>k. counted s' k = {i \<in> voters c (length (c_Signatures c)). commit_key c i = k})"
  using assms
proof (induction sigs arbitrary: pre s)
  case Nil
  then show ?case by simp
next
  case (Cons cs sigs)
  let ?i = "length pre"
  have cs: "c_Signatures c ! ?i = cs" "?i < length (c_Signatures c)" using Cons.prems(3) by simp_all
  have i32: "i32 (int ?i) = int ?i" using Cons.prems(2) cs(2) by (intro i32_id) (auto simp: in_i32_def)
  show ?case
  proof (cases "cs_Absent cs")
    case True
    then show ?thesis
      using Cons.IH [of s "pre @ [cs]"] Cons.prems cs by (simp add: voters_Suc)
  next
    case False
    obtain v where v: "c_GetVote c (int ?i) = Some v" "good_vote E s ?i v" "v_ValidatorAddress v \<noteq> []"
      using Cons.prems(1) [OF cs(2)] False cs(1) by blast
    have key: "commit_key c ?i = bid_Key (v_BlockID v)" by (simp add: commit_key_def v(1))
    have fresh: "vst_votes s ! ?i = None"
    proof -
      have "?i \<notin> present (vst_votes s)" unfolding Cons.prems(5) by (simp add: voters_def)
      then show ?thesis using cs(2) Cons.prems(6) by (simp add: present_def)
    qed
    obtain s1 where s1: "addVote E (Some v) s = Some ((True, None), s1)" "vst_inv E s1" "same_frame s s1"
        "present (vst_votes s1) = insert ?i (present (vst_votes s))"
        "\<forall>k. counted s1 k = (if k = bid_Key (v_BlockID v) then insert ?i (counted s k) else counted s k)"
      using addVote_fresh [OF Cons.prems(4) v(2,3) fresh] by blast
    have vs: "voters c (Suc ?i) = insert ?i (voters c ?i)" using False cs(1) by (simp add: voters_Suc)
    have len: "length (vst_votes s1) = length (c_Signatures c)"
      using s1(2,3) Cons.prems(4,6) by (simp add: vst_inv_def same_frame_def)
    have votes1: "\<exists>v. c_GetVote c (int i) = Some v \<and> good_vote E s1 i v \<and> v_ValidatorAddress v \<noteq> []"
      if "i < length (c_Signatures c)" "\<not> cs_Absent (c_Signatures c ! i)" for i
      using Cons.prems(1) [OF that] good_vote_frame [OF s1(3)] by blast
    have cnt: "counted s1 k = {i \<in> voters c (length (pre @ [cs])). commit_key c i = k}" for k
      using s1(5) Cons.prems(7) key by (auto simp: vs)
    have "\<exists>s'. add_commit_votes E c (length (pre @ [cs])) sigs s1 = Some s' \<and> vst_inv E s' \<and> same_frame s1 s'
        \<and> (\<forall>k. counted s' k = {i \<in> voters c (length (c_Signatures c)). commit_key c i = k})"
      using Cons.prems(3) s1(2,4) vs Cons.prems(5) len cnt
      by (intro Cons.IH [OF votes1 Cons.prems(2)]) auto
    then obtain s' where s': "add_commit_votes E c (Suc ?i) sigs s1 = Some s'" "vst_inv E s'" "same_frame s1 s'"
        "\<forall>k. counted s' k = {i \<in> voters c (length (c_Signatures c)). commit_key c i = k}" by auto
    then show ?thesis
      using False i32 v(1) s1(1) same_frame_trans [OF s1(3) s'(3)] by (simp add: AddVote_def)
  qed
qed

text \<open>The majority of a set is the only block that more than two thirds of the power is counted for alone.\<close>

lemma counted_power_maj:
  assumes inv: "vst_inv E s" and b: "vst_votesByBlock s k = Some b" "more_than_two_thirds s (bvs_sum b)"
  shows "\<exists>m. vst_maj23 s = Some m"
proof -
  have "block_inv E s k b" using inv b(1) by (simp add: vst_inv_def)
  then show ?thesis using b(2) by (auto simp: block_inv_def)
qed

lemma counted_sum: "vst_inv E s \<Longrightarrow> vst_votesByBlock s k = Some b \<Longrightarrow>
    bvs_sum b = (\<Sum>i\<in>counted s k. vpower (vs_Validators (vst_valSet s) ! i))"
  by (auto simp: vst_inv_def block_inv_def present_power_def counted_def)

lemma counted_range: "vst_inv E s \<Longrightarrow> counted s k \<subseteq> {..<length (vs_Validators (vst_valSet s))}"
  by (auto simp: vst_inv_def block_inv_def counted_def present_def split: option.splits)

lemma counted_quorum:
  assumes inv: "vst_inv E s" and b: "vst_votesByBlock s k = Some b"
  shows "more_than_two_thirds s (bvs_sum b) \<longleftrightarrow> val_quorum.quorum (vs_Validators (vst_valSet s)) (counted s k)"
proof -
  have pos: "\<forall>v \<in> set (vs_Validators (vst_valSet s)). 0 < vpower v" using inv by (simp add: vst_inv_def vals_ok_def)
  show ?thesis
    using counted_sum [OF inv b] counted_range [OF inv, of k] val_quorum_sum [OF pos, of "counted s k"] val_quorum_whole [OF pos]
    by (simp add: more_than_two_thirds_def val_quorum.quorum_def)
qed

lemma CommitToVoteSet_ok:
  assumes vals: "vals_ok vals" "\<forall>v \<in> set (vs_Validators vals). val_PubKey v \<noteq> None"
    and h: "c_Height c \<noteq> 0" and len: "length (c_Signatures c) = length (vs_Validators vals)"
    and n: "int (length (c_Signatures c)) \<le> MaxInt32"
    and votes: "\<And>i s. i < length (c_Signatures c) \<Longrightarrow> \<not> cs_Absent (c_Signatures c ! i) \<Longrightarrow>
      vst_chainID s = chainID \<Longrightarrow> vst_height s = c_Height c \<Longrightarrow> vst_round s = c_Round c \<Longrightarrow>
      vst_signedMsgType s = PrecommitType \<Longrightarrow> vst_valSet s = vals \<Longrightarrow>
      \<exists>v. c_GetVote c (int i) = Some v \<and> good_vote E s i v \<and> v_ValidatorAddress v \<noteq> []"
  shows "\<exists>s'. CommitToVoteSet E chainID c vals = Some s' \<and> vst_inv E s' \<and> vst_height s' = c_Height c
    \<and> vst_round s' = c_Round c \<and> vs_Validators (vst_valSet s') = vs_Validators vals
    \<and> (\<forall>k. counted s' k = {i \<in> voters c (length (c_Signatures c)). commit_key c i = k})"
proof -
  obtain s where s: "NewVoteSet chainID (c_Height c) (c_Round c) PrecommitType vals = Some s" "vst_inv E s"
      "present (vst_votes s) = {}" "vst_votesByBlock s = Map.empty" "vst_chainID s = chainID"
      "vst_height s = c_Height c" "vst_round s = c_Round c" "vst_signedMsgType s = PrecommitType" "vst_valSet s = vals"
    using NewVoteSet_inv [OF vals h] by blast
  have "\<exists>s'. add_commit_votes E c (length ([] :: commit_sig list)) (c_Signatures c) s = Some s' \<and> vst_inv E s' \<and> same_frame s s'
    \<and> (\<forall>k. counted s' k = {i \<in> voters c (length (c_Signatures c)). commit_key c i = k})"
  proof (rule add_commit_votes_ok [OF votes n])
    show "length (vst_votes s) = length (c_Signatures c)" using s(2,9) len by (simp add: vst_inv_def)
  qed (use s in \<open>auto simp: voters_def counted_def\<close>)
  then show ?thesis using s by (auto simp: CommitToVoteSet_def same_frame_def)
qed

lemma reach_inv:
  assumes "vals_ok vals" "\<forall>v \<in> set (vs_Validators vals). val_PubKey v \<noteq> None"
    and "NewVoteSet chainID height rnd ty vals = Some s0" "vst_steps E s0 s"
  shows "vst_inv E s" "vst_chainID s = chainID" "vst_height s = height" "vst_round s = rnd" "vst_signedMsgType s = ty"
    "vs_Validators (vst_valSet s) = vs_Validators vals"
proof -
  have h: "height \<noteq> 0" using assms(3) by (auto simp: NewVoteSet_def)
  have s0: "vst_inv E s0" "vst_chainID s0 = chainID" "vst_height s0 = height" "vst_round s0 = rnd"
      "vst_signedMsgType s0 = ty" "vst_valSet s0 = vals"
    using NewVoteSet_inv [OF assms(1,2) h, of chainID rnd ty E] assms(3) by auto
  show "vst_inv E s" "vst_chainID s = chainID" "vst_height s = height" "vst_round s = rnd" "vst_signedMsgType s = ty"
      "vs_Validators (vst_valSet s) = vs_Validators vals"
    using steps_inv [OF assms(4) s0(1)] s0(2-6) by (auto simp: same_frame_def)
qed

lemma maj_of: "TwoThirdsMajority (Some s) = (b, True) \<longleftrightarrow> vst_maj23 s = Some b"
  by (auto simp: TwoThirdsMajority_def split: option.splits)

lemma maj_quorum:
  assumes inv: "vst_inv E s" and m: "vst_maj23 s = Some b"
  shows "val_quorum.quorum (vs_Validators (vst_valSet s)) (counted s (bid_Key b))" "bid_ok b"
    and "\<And>i. i \<in> counted s (bid_Key b) \<Longrightarrow> i < length (vst_votes s) \<and> (\<exists>v. vst_votes s ! i = Some v \<and> v_BlockID v = b)"
proof -
  obtain bv where bv: "vst_votesByBlock s (bid_Key b) = Some bv" "more_than_two_thirds s (bvs_sum bv)" "bid_ok b"
      "\<forall>i < length (bvs_votes bv). bvs_votes bv ! i \<noteq> None \<longrightarrow> (\<exists>v. vst_votes s ! i = Some v \<and> v_BlockID v = b)"
    using inv m by (auto simp: vst_inv_def maj_inv_def)
  show "val_quorum.quorum (vs_Validators (vst_valSet s)) (counted s (bid_Key b))" "bid_ok b"
    using counted_quorum [OF inv bv(1)] bv(2,3) by auto
  have "length (bvs_votes bv) = length (vst_votes s)" using inv bv(1) by (auto simp: vst_inv_def block_inv_def)
  then show "i \<in> counted s (bid_Key b) \<Longrightarrow> i < length (vst_votes s) \<and> (\<exists>v. vst_votes s ! i = Some v \<and> v_BlockID v = b)" for i
    using bv(1,4) by (auto simp: counted_def present_def)
qed

lemma majority_backed:
  assumes "vals_ok vals" "\<forall>v \<in> set (vs_Validators vals). val_PubKey v \<noteq> None"
    and "NewVoteSet chainID height rnd ty vals = Some s0" "vst_steps E s0 s" "vst_maj23 s = Some b"
  shows "\<exists>A \<subseteq> {..<length (vs_Validators vals)}.
    2 * total_power (vs_Validators vals) < 3 * (\<Sum>i\<in>A. vpower (vs_Validators vals ! i))
    \<and> (\<forall>i \<in> A. \<exists>v pk. v_BlockID v = b \<and> v_Height v = height \<and> v_Round v = rnd \<and> v_Type v = ty
         \<and> val_PubKey (vs_Validators vals ! i) = Some pk \<and> v_Verify E chainID pk v = Some None)"
proof (intro exI [of _ "counted s (bid_Key b)"] conjI ballI)
  note r = reach_inv [OF assms(1-4)]
  note mq = maj_quorum [OF r(1) assms(5)]
  let ?vs = "vs_Validators vals"
  have pos: "\<forall>v \<in> set ?vs. 0 < vpower v" using assms(1) by (simp add: vals_ok_def)
  show "counted s (bid_Key b) \<subseteq> {..<length ?vs}"
    "2 * total_power ?vs < 3 * (\<Sum>i\<in>counted s (bid_Key b). vpower (?vs ! i))"
    using mq(1) val_quorum_sum [OF pos, of "counted s (bid_Key b)"] val_quorum_whole [OF pos]
    unfolding r(6) val_quorum.quorum_def by auto
  fix i assume "i \<in> counted s (bid_Key b)"
  then obtain v where "i < length (vst_votes s)" "vst_votes s ! i = Some v" "v_BlockID v = b" using mq(3) by blast
  moreover from this have "good_vote E s i v" using vst_invD(1) [OF r(1)] by blast
  ultimately show "\<exists>v pk. v_BlockID v = b \<and> v_Height v = height \<and> v_Round v = rnd \<and> v_Type v = ty
      \<and> val_PubKey (?vs ! i) = Some pk \<and> v_Verify E chainID pk v = Some None"
    using r by (auto simp: good_vote_def Let_def)
qed

lemma round_trip:
  assumes inv: "vst_inv E s" and ty: "vst_signedMsgType s = PrecommitType"
    and maj: "vst_maj23 s = Some m" "m \<noteq> zero_block_id"
    and h: "vst_height s \<noteq> 0" and n: "int (length (vst_votes s)) \<le> MaxInt32"
  shows "\<exists>s'. CommitToVoteSet E (vst_chainID s) (commit_of s m) (vst_valSet s) = Some s' \<and> vst_maj23 s' = Some m"
proof -
  let ?c = "commit_of s m" let ?vs = "vs_Validators (vst_valSet s)"
  have len: "length (c_Signatures ?c) = length (vst_votes s)" "length (vst_votes s) = length ?vs"
    using inv by (simp_all add: commit_of_def vst_inv_def)
  have fields: "c_Height ?c = vst_height s" "c_Round ?c = vst_round s" by (simp_all add: commit_of_def)
  have votes: "\<exists>v. c_GetVote ?c (int i) = Some v \<and> good_vote E s'' i v \<and> v_ValidatorAddress v \<noteq> []"
    if i: "i < length (c_Signatures ?c)" "\<not> cs_Absent (c_Signatures ?c ! i)"
      and f: "vst_chainID s'' = vst_chainID s" "vst_height s'' = c_Height ?c" "vst_round s'' = c_Round ?c"
        "vst_signedMsgType s'' = PrecommitType" "vst_valSet s'' = vst_valSet s" for i s''
  proof -
    obtain v where v: "c_GetVote ?c (int i) = Some v" "good_vote E s i v"
      using commit_of_vote [OF inv ty _ i(2)] i(1) len(1) by auto
    have "same_frame s s''" using f ty fields by (simp add: same_frame_def)
    moreover have "v_ValidatorAddress v \<noteq> []"
      using v(2) by (auto simp: good_vote_def Let_def v_ValidateBasic_def AddressSize_def split: if_splits option.splits)
    ultimately show ?thesis using v good_vote_frame by blast
  qed
  have pre: "vals_ok (vst_valSet s)" "\<forall>v \<in> set ?vs. val_PubKey v \<noteq> None" "c_Height ?c \<noteq> 0"
      "length (c_Signatures ?c) = length ?vs" "int (length (c_Signatures ?c)) \<le> MaxInt32"
    using inv h n len fields by (simp_all add: vst_inv_def)
  obtain s' where s': "CommitToVoteSet E (vst_chainID s) ?c (vst_valSet s) = Some s'" "vst_inv E s'"
      "vs_Validators (vst_valSet s') = ?vs"
      "\<forall>k. counted s' k = {i \<in> voters ?c (length (c_Signatures ?c)). commit_key ?c i = k}"
    using CommitToVoteSet_ok [OF pre votes] by blast
  have sub: "counted s (bid_Key m) \<subseteq> counted s' (bid_Key m)"
  proof
    fix i assume "i \<in> counted s (bid_Key m)"
    then obtain v where v: "i < length (vst_votes s)" "vst_votes s ! i = Some v" "v_BlockID v = m"
      using maj_quorum(3) [OF inv maj(1)] by blast
    then have na: "\<not> cs_Absent (c_Signatures ?c ! i)"
      using maj(2) by (simp add: commit_of_def commit_sig_of_def cs_Absent_def)
    have "c_GetVote ?c (int i) = Some v" using commit_of_vote [OF inv ty v(1) na] v(2) by auto
    then show "i \<in> counted s' (bid_Key m)" using v na len(1) s'(4) by (simp add: voters_def commit_key_def)
  qed
  have q: "val_quorum.quorum ?vs (counted s' (bid_Key m))"
    using val_quorum.quorum_mono [OF maj_quorum(1) [OF inv maj(1)] sub] counted_range [OF s'(2)] s'(3) by simp
  have whole: "0 \<le> val_quorum.whole ?vs"
    using val_quorum_whole [of ?vs] vals_ok_total [of "vst_valSet s"] inv by (simp add: vst_inv_def vals_ok_def)
  then have "counted s' (bid_Key m) \<noteq> {}" using val_quorum.quorums_meet [OF q q] by auto
  then obtain b where b: "vst_votesByBlock s' (bid_Key m) = Some b" by (auto simp: counted_def split: option.splits)
  then obtain m' where m': "vst_maj23 s' = Some m'"
    using counted_power_maj [OF s'(2) b] counted_quorum [OF s'(2) b] q s'(3) by auto
  have "counted s' (bid_Key m) \<inter> counted s' (bid_Key m') \<noteq> {}"
    using val_quorum.quorums_meet [OF q] maj_quorum(1) [OF s'(2) m'] s'(3) whole by simp
  then have "bid_Key m = bid_Key m'" using s'(4) by auto
  then have "m' = m" using bid_Key_inj maj_quorum(2) [OF inv maj(1)] maj_quorum(2) [OF s'(2) m'] by blast
  then show ?thesis using s'(1) m' by auto
qed

section \<open>Addresses\<close>

text \<open>A commit with the address of one signature replaced.\<close>

definition readdress :: "commit \<Rightarrow> nat \<Rightarrow> bytes \<Rightarrow> commit" where
  "readdress c i a = c\<lparr>c_Signatures := (c_Signatures c)[i := (c_Signatures c ! i)\<lparr>cs_ValidatorAddress := a\<rparr>]\<rparr>"

lemma readdress_nth:
  "j < length (c_Signatures c) \<Longrightarrow> c_Signatures (readdress c i a) ! j
     = (if j = i then (c_Signatures c ! i)\<lparr>cs_ValidatorAddress := a\<rparr> else c_Signatures c ! j)"
  by (auto simp: readdress_def nth_list_update)

lemma readdress_sig:
  assumes "j < length (c_Signatures c)"
  shows "sig_ok E chainID (readdress c i a) j v \<longleftrightarrow> sig_ok E chainID c j v"
proof -
  let ?x = "c_Signatures (readdress c i a) ! j" and ?y = "c_Signatures c ! j"
  have x: "cs_BlockIDFlag ?x = cs_BlockIDFlag ?y" "cs_Timestamp ?x = cs_Timestamp ?y"
    using readdress_nth [OF assms, of i a] by auto
  have bid: "cs_BlockID ?x b = cs_BlockID ?y b" for b by (simp add: cs_BlockID_def x(1))
  have c: "c_Height (readdress c i a) = c_Height c" "c_Round (readdress c i a) = c_Round c"
      "c_BlockID (readdress c i a) = c_BlockID c" "length (c_Signatures (readdress c i a)) = length (c_Signatures c)"
    by (simp_all add: readdress_def)
  have "c_VoteSignBytes E chainID (readdress c i a) (int j) = c_VoteSignBytes E chainID c (int j)"
    using assms x(2) c bid
    by (cases "cs_BlockID ?y (c_BlockID c)")
      (simp_all add: c_VoteSignBytes_def c_GetVote_def VoteSignBytes_def CanonicalizeVote_def v_ToProto_def)
  then show ?thesis using readdress_nth [OF assms, of i a] by (simp add: sig_ok_def)
qed

lemma readdress_ok:
  assumes "commit_ok c" "i < length (c_Signatures c)" "cs_ForBlock (c_Signatures c ! i)" "length a = AddressSize"
  shows "commit_ok (readdress c i a)"
proof -
  have "cs_ValidateBasic cs = None" if cs: "cs \<in> set (c_Signatures (readdress c i a))" for cs
  proof -
    obtain j where j: "j < length (c_Signatures c)" "cs = c_Signatures (readdress c i a) ! j"
      using cs by (auto simp: in_set_conv_nth readdress_def)
    have "cs_ValidateBasic (c_Signatures c ! j) = None" using commit_ok_sig [OF assms(1)] j(1) by simp
    then show ?thesis
      using j readdress_nth [OF j(1), of i a] assms(3,4)
      by (auto simp: cs_ValidateBasic_def cs_ForBlock_def split: if_splits)
  qed
  then show ?thesis
    using assms(1) by (auto simp: commit_ok_def c_ValidateBasic_def first_error_None readdress_def split: if_splits)
qed

lemma add_commit_votes_mismatch:
  assumes "i < length (c_Signatures c)" "\<not> cs_Absent (c_Signatures c ! i)" "int (length (c_Signatures c)) \<le> MaxInt32"
    and "\<And>j v. j < length (c_Signatures c) \<Longrightarrow> \<not> cs_Absent (c_Signatures c ! j) \<Longrightarrow> c_GetVote c (int j) = Some v \<Longrightarrow> v_ValidateBasic v = None"
    and "\<And>v. c_GetVote c (int i) = Some v \<Longrightarrow> v_ValidatorAddress v \<noteq> val_Address (vs_Validators (vst_valSet s) ! i)"
    and "c_Signatures c = pre @ sigs" "length pre \<le> i" "vst_inv E s"
  shows "add_commit_votes E c (length pre) sigs s = None"
  using assms(5-)
proof (induction sigs arbitrary: pre s)
  case Nil
  then show ?case using assms(1) by simp
next
  case (Cons cs sigs)
  let ?p = "length pre"
  have cs: "c_Signatures c ! ?p = cs" "?p < length (c_Signatures c)" using Cons.prems(2) by simp_all
  have i32: "i32 (int ?p) = int ?p" using assms(3) cs(2) by (intro i32_id) (auto simp: in_i32_def)
  have rest: "add_commit_votes E c (Suc ?p) sigs s' = None" if "same_frame s s'" "vst_inv E s'" "?p \<noteq> i" for s'
    using Cons.IH [of s' "pre @ [cs]"] Cons.prems that by (simp add: same_frame_def)
  show ?case
  proof (cases "cs_Absent cs")
    case True
    then have "?p \<noteq> i" using assms(2) cs(1) by auto
    then show ?thesis using True rest [of s] Cons.prems(4) by simp
  next
    case False
    show ?thesis
    proof (cases "c_GetVote c (int ?p)")
      case None
      then show ?thesis using False i32 by simp
    next
      case (Some v)
      have vb: "v_ValidateBasic v = None" using assms(4) [OF cs(2)] False cs(1) Some by blast
      obtain added err s' where a: "addVote E (Some v) s = Some ((added, err), s')" "vst_inv E s'" "same_frame s s'"
        using addVote_ok [OF Cons.prems(4) vb] by blast
      have "?p = i \<Longrightarrow> \<not> added"
      proof
        assume p: "?p = i" and added
        have "v_ValidatorIndex v = int i" using Some p by (auto simp: c_GetVote_def split: Option.bind_splits)
        then have "\<nexists>j. addressed s j v" using Cons.prems(1) Some p by (auto simp: addressed_def Let_def)
        then show False using addVote_misplaced [of s v E] a(1) \<open>added\<close> by auto
      qed
      then show ?thesis using False i32 Some a rest [of s'] by (auto simp: AddVote_def)
    qed
  qed
qed

lemma commit_vote_valid:
  assumes "commit_ok c" "bid_IsComplete (c_BlockID c)" "0 \<le> c_Round c"
    and "j < length (c_Signatures c)" "\<not> cs_Absent (c_Signatures c ! j)" "c_GetVote c (int j) = Some v"
  shows "v_ValidateBasic v = None"
proof -
  let ?cs = "c_Signatures c ! j"
  have cs: "cs_ValidateBasic ?cs = None" "cs_BlockIDFlag ?cs \<noteq> BlockIDFlagAbsent"
    using commit_ok_sig [OF assms(1)] assms(4,5) by (simp_all add: cs_Absent_def)
  have "cs_BlockIDFlag ?cs \<in> {BlockIDFlagCommit, BlockIDFlagNil}" "length (cs_ValidatorAddress ?cs) = AddressSize"
      "length (cs_Signature ?cs) \<noteq> 0" "\<not> int (length (cs_Signature ?cs)) > MaxSignatureSize"
    using cs by (auto simp: cs_ValidateBasic_def split: if_splits)
  moreover have "1 \<le> c_Height c" using assms(1) by (simp add: commit_ok_def)
  ultimately show ?thesis
    using assms(2-4,6) bid_complete_valid [of "c_BlockID c"] bid_zero_valid
    by (auto simp: c_GetVote_def cs_BlockID_def v_ValidateBasic_def IsVoteTypeValid_def bid_IsZero_iff split: if_splits)
qed

section \<open>A sample run\<close>

definition toy_vote :: "nat \<Rightarrow> byte \<Rightarrow> vote" where
  "toy_vote i k = \<lparr>v_Type = PrecommitType, v_Height = 3, v_Round = 0, v_BlockID = toy_block 9, v_Timestamp = 7,
     v_ValidatorAddress = replicate 20 k, v_ValidatorIndex = int i, v_Signature = [k]\<rparr>"

definition toy_run :: "((bool \<times> vote_error option) \<times> vote_set) option" where
  "toy_run = do {
     s0 \<leftarrow> NewVoteSet [97] 3 0 PrecommitType toy_vals;
     (_, s1) \<leftarrow> AddVote toy_env (Some (toy_vote 0 1)) (Some s0);
     AddVote toy_env (Some (toy_vote 1 2)) (Some s1)
   }"

lemma toy_run_eval:
  "map_option (\<lambda>(r, s). (r, vst_maj23 s, vst_valSet s)) toy_run = Some ((True, None), Some (toy_block 9), toy_vals)"
  by code_simp

lemma toy_vote_valid: "v_ValidateBasic (toy_vote 0 1) = None" "v_ValidateBasic (toy_vote 1 2) = None"
  by code_simp+

lemma toy_keyed: "\<forall>v \<in> set (vs_Validators toy_vals). val_PubKey v \<noteq> None"
  by (simp add: toy_vals_def toy_val_def)

lemma toy_steps:
  obtains s0 s where "NewVoteSet [97] 3 0 PrecommitType toy_vals = Some s0" "vst_steps toy_env s0 s"
    "TwoThirdsMajority (Some s) = (toy_block 9, True)" "vst_valSet s = toy_vals" "vst_peerMaj23s s0 = Map.empty"
proof -
  obtain s0 r1 s1 r2 s where *: "NewVoteSet [97] 3 0 PrecommitType toy_vals = Some s0"
      "AddVote toy_env (Some (toy_vote 0 1)) (Some s0) = Some (r1, s1)"
      "AddVote toy_env (Some (toy_vote 1 2)) (Some s1) = Some (r2, s)"
      "vst_maj23 s = Some (toy_block 9)" "vst_valSet s = toy_vals"
    using toy_run_eval by (auto simp: toy_run_def split: Option.bind_splits)
  have "vst_steps toy_env s0 s"
    using vst_steps.add [OF vst_steps.add [OF vst_steps.start toy_vote_valid(1) *(2)] toy_vote_valid(2) *(3)] .
  moreover have "vst_peerMaj23s s0 = Map.empty" using *(1) by (auto simp: NewVoteSet_def)
  ultimately show thesis using that [of s0 s] * by (auto simp: TwoThirdsMajority_def)
qed

lemma toy_block_nonzero: "toy_block 9 \<noteq> zero_block_id"
  by (simp add: toy_block_def zero_block_id_def)

lemma toy_few: "int (length (vs_Validators toy_vals)) \<le> MaxInt32"
  by (simp add: toy_vals_def)

section \<open>Properties\<close>



text \<open>
  The memory a vote set uses is bounded: the blocks it tracks are at most as many as the validators and
  the peers that have made a claim, whatever votes arrive.
\<close>

theorem vote_set_bounded:
  assumes "vals_ok vals" "\<forall>v \<in> set (vs_Validators vals). val_PubKey v \<noteq> None"
    and "NewVoteSet chainID height rnd ty vals = Some s0" "vst_steps E s0 s"
  shows "finite (dom (vst_votesByBlock s))
    \<and> card (dom (vst_votesByBlock s)) \<le> length (vs_Validators vals) + card (dom (vst_peerMaj23s s))"
proof -
  have s0: "vst_inv E s0" "vst_votesByBlock s0 = Map.empty" "vst_peerMaj23s s0 = Map.empty"
    using reach_inv(1) [OF assms(1-3) vst_steps.start] assms(3) by (auto simp: NewVoteSet_def split: if_splits)
  have inv: "vst_inv E s" "vs_Validators (vst_valSet s) = vs_Validators vals" using reach_inv [OF assms] by auto
  have "card (present (vst_votes s)) \<le> card {..<length (vst_votes s)}" by (rule card_mono) (auto simp: present_def)
  then have "card (present (vst_votes s)) \<le> length (vs_Validators vals)" using inv by (simp add: vst_inv_def)
  then show ?thesis using steps_bounded [OF assms(4) s0(1)] s0(2,3) by simp
qed

theorem vote_set_bounded_witness:
  "\<exists>s. TwoThirdsMajority (Some s) = (toy_block 9, True) \<and> finite (dom (vst_votesByBlock s))
     \<and> card (dom (vst_votesByBlock s)) \<le> 2 + card (dom (vst_peerMaj23s s))"
proof -
  obtain s0 s where s: "NewVoteSet [97] 3 0 PrecommitType toy_vals = Some s0" "vst_steps toy_env s0 s"
      "TwoThirdsMajority (Some s) = (toy_block 9, True)" by (rule toy_steps)
  have "length (vs_Validators toy_vals) = 2" by (simp add: toy_vals_def)
  then show ?thesis using vote_set_bounded [OF toy_vals_ok toy_keyed s(1,2)] s(3) by auto
qed

text \<open>
  C3: the majority of a reachable vote set is sound, complete and stable. There is one exactly when some
  block has counted votes of more than two thirds of the power; then validators with more than two thirds
  of the power have valid votes for it; and no later call changes it.
\<close>

theorem majority_exact_and_stable:
  assumes "vals_ok vals" "\<forall>v \<in> set (vs_Validators vals). val_PubKey v \<noteq> None"
    and "NewVoteSet chainID height rnd ty vals = Some s0" "vst_steps E s0 s"
  shows "(HasTwoThirdsMajority (Some s) \<longleftrightarrow> (\<exists>k. 2 * total_power (vs_Validators vals)
        < 3 * (\<Sum>i\<in>counted s k. val_VotingPower (vs_Validators vals ! i))))
    \<and> (TwoThirdsMajority (Some s) = (b, True) \<longrightarrow>
        (\<exists>A \<subseteq> {..<length (vs_Validators vals)}.
          2 * total_power (vs_Validators vals) < 3 * (\<Sum>i\<in>A. val_VotingPower (vs_Validators vals ! i))
          \<and> (\<forall>i \<in> A. \<exists>v pk. v_BlockID v = b \<and> v_Height v = height \<and> v_Round v = rnd \<and> v_Type v = ty
               \<and> val_PubKey (vs_Validators vals ! i) = Some pk \<and> v_Verify E chainID pk v = Some None))
        \<and> (\<forall>s'. vst_steps E s s' \<longrightarrow> TwoThirdsMajority (Some s') = (b, True)))"
proof -
  have inv: "vst_inv E s" and vs: "vs_Validators (vst_valSet s) = vs_Validators vals"
    and fr: "vst_chainID s = chainID" "vst_height s = height" "vst_round s = rnd" "vst_signedMsgType s = ty"
    using reach_inv [OF assms] by auto
  let ?vs = "vs_Validators vals"
  have pos: "\<forall>v \<in> set ?vs. 0 < vpower v" using assms(1) by (simp add: vals_ok_def)
  have q: "val_quorum.quorum ?vs A \<longleftrightarrow> A \<subseteq> {..<length ?vs} \<and> 2 * total_power ?vs < 3 * (\<Sum>i\<in>A. vpower (?vs ! i))" for A
    using val_quorum_sum [OF pos, of A] val_quorum_whole [OF pos] by (auto simp: val_quorum.quorum_def)
  have complete: "vst_maj23 s \<noteq> None" if k: "2 * total_power ?vs < 3 * (\<Sum>i\<in>counted s k. vpower (?vs ! i))" for k
  proof (cases "vst_votesByBlock s k")
    case None
    then show ?thesis using k vals_ok_total [OF assms(1)] by (simp add: counted_def)
  next
    case (Some bv)
    then show ?thesis
      using counted_power_maj [OF inv Some] counted_sum [OF inv Some] k vs by (auto simp: more_than_two_thirds_def)
  qed
  note sound = majority_backed [OF assms]
  have ex: "\<exists>k. 2 * total_power ?vs < 3 * (\<Sum>i\<in>counted s k. vpower (?vs ! i))" if "vst_maj23 s = Some b" for b
    using maj_quorum(1) [OF inv that] q vs by auto
  have "HasTwoThirdsMajority (Some s) \<longleftrightarrow> (\<exists>k. 2 * total_power ?vs < 3 * (\<Sum>i\<in>counted s k. vpower (?vs ! i)))"
    using complete ex by (auto simp: HasTwoThirdsMajority_def)
  then show ?thesis unfolding maj_of using sound steps_inv [OF _ inv] by auto
qed

theorem majority_exact_and_stable_witness:
  "\<exists>s A. A \<subseteq> {..<length (vs_Validators toy_vals)} \<and> TwoThirdsMajority (Some s) = (toy_block 9, True)
     \<and> 2 * total_power (vs_Validators toy_vals) < 3 * (\<Sum>i\<in>A. val_VotingPower (vs_Validators toy_vals ! i))"
proof -
  obtain s0 s where s: "NewVoteSet [97] 3 0 PrecommitType toy_vals = Some s0" "vst_steps toy_env s0 s"
      "TwoThirdsMajority (Some s) = (toy_block 9, True)" by (rule toy_steps)
  show ?thesis using majority_exact_and_stable [OF toy_vals_ok toy_keyed s(1,2), of "toy_block 9"] s(3) by blast
qed



text \<open>
  C26: \<open>CommitToVoteSet\<close> inverts \<open>MakeCommit\<close> on what matters: it does not panic on the commit of a reachable
  set of precommits, and the set it builds has the same majority.
\<close>

theorem commit_round_trip:
  assumes "vals_ok vals" "\<forall>v \<in> set (vs_Validators vals). val_PubKey v \<noteq> None" "int (length (vs_Validators vals)) \<le> MaxInt32"
    and "NewVoteSet chainID height rnd PrecommitType vals = Some s0" "vst_steps E s0 s"
    and "TwoThirdsMajority (Some s) = (b, True)" "b \<noteq> zero_block_id"
  shows "\<exists>c s'. MakeCommit s = Some c \<and> CommitToVoteSet E chainID c (vst_valSet s) = Some s'
    \<and> TwoThirdsMajority (Some s') = (b, True)"
proof -
  note r = reach_inv [OF assms(1,2,4,5)]
  have m: "vst_maj23 s = Some b" using assms(6) by (simp add: maj_of)
  have h: "vst_height s \<noteq> 0" using assms(4) r(3) by (auto simp: NewVoteSet_def)
  have n: "int (length (vst_votes s)) \<le> MaxInt32" using r(1,6) assms(3) by (simp add: vst_inv_def)
  show ?thesis
    using MakeCommit_eq [OF r(1) r(5) m assms(7)] round_trip [OF r(1) r(5) m assms(7) h n] r(2) by (auto simp: maj_of)
qed

theorem commit_round_trip_witness:
  "\<exists>s c s'. MakeCommit s = Some c \<and> CommitToVoteSet toy_env [97] c toy_vals = Some s'
     \<and> TwoThirdsMajority (Some s') = (toy_block 9, True)"
proof -
  obtain s0 s where s: "NewVoteSet [97] 3 0 PrecommitType toy_vals = Some s0" "vst_steps toy_env s0 s"
      "TwoThirdsMajority (Some s) = (toy_block 9, True)" "vst_valSet s = toy_vals" by (rule toy_steps)
  show ?thesis using commit_round_trip [OF toy_vals_ok toy_keyed toy_few s(1,2,3) toy_block_nonzero] s(4) by auto
qed

text \<open>
  C35: \<open>VerifyCommit\<close> does not look at the validator addresses in a commit, and they are not signed: a commit it
  accepts stays accepted when the address of a signature is replaced, while \<open>CommitToVoteSet\<close> panics on the
  result.
\<close>

theorem commit_addresses_unchecked:
  assumes "vals_ok vals" "keys_uniform E B vals" "commit_ok c" "batch_lib_ok E B"
    and "bid_IsComplete (c_BlockID c)" "0 \<le> c_Round c"
    and "VerifyCommit E B chainID (Some vals) blockID height (Some c) = Some (None, vals')"
    and "i < length (c_Signatures c)" "cs_ForBlock (c_Signatures c ! i)"
    and "length a = AddressSize" "a \<noteq> val_Address (vs_Validators vals ! i)"
  shows "(\<exists>vals''. VerifyCommit E B chainID (Some vals) blockID height (Some (readdress c i a)) = Some (None, Some vals''))
    \<and> CommitToVoteSet E chainID (readdress c i a) vals = None"
proof
  let ?c = "readdress c i a"
  have ok: "commit_ok ?c" by (rule readdress_ok [OF assms(3,8,9,10)])
  have fields: "c_Height ?c = c_Height c" "c_Round ?c = c_Round c" "c_BlockID ?c = c_BlockID c"
      "length (c_Signatures ?c) = length (c_Signatures c)" by (simp_all add: readdress_def)
  have flags: "cs_Absent (c_Signatures ?c ! j) = cs_Absent (c_Signatures c ! j)"
      "cs_ForBlock (c_Signatures ?c ! j) = cs_ForBlock (c_Signatures c ! j)" if "j < length (c_Signatures c)" for j
    using readdress_nth [OF that, of i a] by (auto simp: cs_Absent_def cs_ForBlock_def)
  have acc: "commit_matches vals blockID height c"
      "\<forall>j < length (c_Signatures c). cs_Absent (c_Signatures c ! j) \<or> sig_ok E chainID c j (vs_Validators vals ! j)"
      "2 * total_power (vs_Validators vals) < 3 * block_power c (vs_Validators vals)"
    using VerifyCommit_exact [OF assms(1-4), of chainID blockID height] assms(7) by auto
  have len: "length (c_Signatures c) = length (vs_Validators vals)" using acc(1) by (simp add: commit_matches_def)
  have "{j. j < length (vs_Validators vals) \<and> cs_ForBlock (c_Signatures ?c ! j)}
      = {j. j < length (vs_Validators vals) \<and> cs_ForBlock (c_Signatures c ! j)}" using flags(2) len by auto
  then have "block_power ?c (vs_Validators vals) = block_power c (vs_Validators vals)"
    using block_power_sum [of c] block_power_sum [of ?c] len fields(4) by simp
  then show "\<exists>vals''. VerifyCommit E B chainID (Some vals) blockID height (Some ?c) = Some (None, Some vals'')"
    using VerifyCommit_exact [OF assms(1,2) ok assms(4), of chainID blockID height] acc fields flags(1) readdress_sig
    by (auto simp: commit_matches_def)
  have pk: "\<forall>v \<in> set (vs_Validators vals). val_PubKey v \<noteq> None" using keys_total [OF assms(2)] by blast
  have h: "c_Height c \<noteq> 0" and n: "int (length (c_Signatures c)) \<le> MaxInt32" using assms(3) by (auto simp: commit_ok_def)
  obtain s where s: "NewVoteSet chainID (c_Height c) (c_Round c) PrecommitType vals = Some s" "vst_inv E s" "vst_valSet s = vals"
    using NewVoteSet_inv [OF assms(1) pk h] by blast
  have "add_commit_votes E ?c (length ([] :: commit_sig list)) (c_Signatures ?c) s = None"
  proof (rule add_commit_votes_mismatch [where i = i])
    show "\<not> cs_Absent (c_Signatures ?c ! i)" using flags(1) [OF assms(8)] assms(9) by (auto simp: cs_Absent_def cs_ForBlock_def)
    show "v_ValidateBasic v = None"
      if "j < length (c_Signatures ?c)" "\<not> cs_Absent (c_Signatures ?c ! j)" "c_GetVote ?c (int j) = Some v" for j v
      using commit_vote_valid [OF ok _ _ that] assms(5,6) fields by simp
    show "v_ValidatorAddress v \<noteq> val_Address (vs_Validators (vst_valSet s) ! i)" if "c_GetVote ?c (int i) = Some v" for v
      using that readdress_nth [OF assms(8), of i a] assms(8,11) s(3) fields(4)
      by (auto simp: c_GetVote_def split: Option.bind_splits)
  qed (use assms(8) fields n s(2) in auto)
  then show "CommitToVoteSet E chainID ?c vals = None" using s(1) fields by (simp add: CommitToVoteSet_def)
qed

theorem commit_addresses_unchecked_witness:
  "(\<exists>vals''. VerifyCommit toy_env (toy_batch secp) [97] (Some toy_vals) (toy_block 9) 3
       (Some (readdress (toy_commit 9) 0 (replicate 20 5))) = Some (None, Some vals''))
   \<and> CommitToVoteSet toy_env [97] (readdress (toy_commit 9) 0 (replicate 20 5)) toy_vals = None"
proof -
  obtain vals' where v: "VerifyCommit toy_env (toy_batch secp) [97] (Some toy_vals) (toy_block 9) 3 (Some (toy_commit 9)) = Some (None, Some vals')"
    using toy_accepted by blast
  have c: "bid_IsComplete (c_BlockID (toy_commit 9))" "0 \<le> c_Round (toy_commit 9)" "0 < length (c_Signatures (toy_commit 9))"
      "cs_ForBlock (c_Signatures (toy_commit 9) ! 0)" "length (replicate 20 (5::byte)) = AddressSize"
      "replicate 20 (5::byte) \<noteq> val_Address (vs_Validators toy_vals ! 0)"
    by (simp_all add: toy_commit_def toy_block_def bid_IsComplete_def NewCommitSigForBlock_def cs_ForBlock_def AddressSize_def
        toy_vals_def toy_val_def)
  show ?thesis by (rule commit_addresses_unchecked [OF toy_vals_ok toy_keys toy_commit_ok toy_lib c(1,2) v c(3-6)])
qed

end
