(* ===== verification/HeightVoteSet.thy ===== *)
theory HeightVoteSet
  imports VoteSetCommit
begin

text \<open>
  The vote sets of all the rounds of one height, \<open>internal/consensus/types/height_vote_set.go\<close>.

  The map from rounds to vote sets is read and written by key (only the printing iterates over it), so
  it is a partial function, and so is the map from peers to their catch-up rounds, an absent entry
  being the empty slice. \<open>SetRound\<close> counts an int32 up to its argument and would never end at the
  greatest int32; its loop is a partial function whose value None is a panic or no return.
\<close>

record round_vote_set =
  rvs_Prevotes :: vote_set
  rvs_Precommits :: vote_set

record height_vote_set =
  hvs_chainID :: bytes
  hvs_height :: int
  hvs_valSet :: validator_set
  hvs_round :: int
  hvs_roundVoteSets :: "int \<rightharpoonup> round_vote_set"
  hvs_peerCatchupRounds :: "string \<rightharpoonup> int list"

definition addRound :: "int \<Rightarrow> height_vote_set \<Rightarrow> height_vote_set option" where
  "addRound rnd h =
     (if hvs_roundVoteSets h rnd \<noteq> None then None
      else do {
        prevotes \<leftarrow> NewVoteSet (hvs_chainID h) (hvs_height h) rnd PrevoteType (hvs_valSet h);
        precommits \<leftarrow> NewVoteSet (hvs_chainID h) (hvs_height h) rnd PrecommitType (hvs_valSet h);
        Some (h\<lparr>hvs_roundVoteSets :=
          (hvs_roundVoteSets h)(rnd \<mapsto> \<lparr>rvs_Prevotes = prevotes, rvs_Precommits = precommits\<rparr>)\<rparr>)
      })"

definition hvs_Reset :: "int \<Rightarrow> validator_set \<Rightarrow> height_vote_set \<Rightarrow> height_vote_set option" where
  "hvs_Reset height valSet h =
     map_option (\<lambda>h. h\<lparr>hvs_round := 0\<rparr>)
       (addRound 0 (h\<lparr>hvs_height := height, hvs_valSet := valSet, hvs_roundVoteSets := Map.empty,
                      hvs_peerCatchupRounds := Map.empty\<rparr>))"

definition NewHeightVoteSet :: "bytes \<Rightarrow> int \<Rightarrow> validator_set \<Rightarrow> height_vote_set option" where
  "NewHeightVoteSet chainID height valSet =
     hvs_Reset height valSet
       \<lparr>hvs_chainID = chainID, hvs_height = 0, hvs_valSet = valSet, hvs_round = 0,
        hvs_roundVoteSets = Map.empty, hvs_peerCatchupRounds = Map.empty\<rparr>"

text \<open>The loop of \<open>SetRound\<close>.\<close>

partial_function (option) add_rounds :: "int \<Rightarrow> int \<Rightarrow> height_vote_set \<Rightarrow> height_vote_set option" where
  "add_rounds r rnd h =
     (if r \<le> rnd then
        (if hvs_roundVoteSets h r \<noteq> None then add_rounds (i32 (r + 1)) rnd h
         else Option.bind (addRound r h) (\<lambda>h. add_rounds (i32 (r + 1)) rnd h))
      else Some h)"

definition SetRound :: "int \<Rightarrow> height_vote_set \<Rightarrow> height_vote_set option" where
  "SetRound rnd h =
     do {
       newRound \<leftarrow> SafeSubInt32 (hvs_round h) 1;
       if hvs_round h \<noteq> 0 \<and> rnd < newRound then None
       else map_option (\<lambda>h. h\<lparr>hvs_round := rnd\<rparr>) (add_rounds newRound rnd h)
     }"

definition getVoteSet :: "int \<Rightarrow> int \<Rightarrow> height_vote_set \<Rightarrow> vote_set option option" where
  "getVoteSet rnd voteType h =
     (case hvs_roundVoteSets h rnd of
        None \<Rightarrow> Some None
      | Some rvs \<Rightarrow>
          (if voteType = PrevoteType then Some (Some (rvs_Prevotes rvs))
           else if voteType = PrecommitType then Some (Some (rvs_Precommits rvs))
           else None))"

text \<open>The vote sets are reached through pointers; this stores a vote set back where \<open>getVoteSet\<close> found it.\<close>

definition putVoteSet :: "int \<Rightarrow> int \<Rightarrow> vote_set \<Rightarrow> height_vote_set \<Rightarrow> height_vote_set" where
  "putVoteSet rnd voteType s h =
     (case hvs_roundVoteSets h rnd of
        None \<Rightarrow> h
      | Some rvs \<Rightarrow>
          h\<lparr>hvs_roundVoteSets := (hvs_roundVoteSets h)(rnd \<mapsto>
             (if voteType = PrevoteType then rvs\<lparr>rvs_Prevotes := s\<rparr> else rvs\<lparr>rvs_Precommits := s\<rparr>))\<rparr>)"

datatype hvs_error = ErrGotVoteFromUnwantedRound | HvsVoteError vote_error

definition add_at :: "env \<Rightarrow> vote \<Rightarrow> height_vote_set \<Rightarrow> ((bool \<times> hvs_error option) \<times> height_vote_set) option" where
  "add_at E v h =
     do {
       voteSet \<leftarrow> getVoteSet (v_Round v) (v_Type v) h;
       ((added, err), s) \<leftarrow> AddVote E (Some v) voteSet;
       Some ((added, map_option HvsVoteError err), putVoteSet (v_Round v) (v_Type v) s h)
     }"

definition hvs_AddVote ::
  "env \<Rightarrow> vote \<Rightarrow> string \<Rightarrow> height_vote_set \<Rightarrow> ((bool \<times> hvs_error option) \<times> height_vote_set) option" where
  "hvs_AddVote E v peerID h =
     (if \<not> IsVoteTypeValid (v_Type v) then Some ((False, None), h)
      else do {
        voteSet \<leftarrow> getVoteSet (v_Round v) (v_Type v) h;
        if voteSet = None then
          (let rndz = (case hvs_peerCatchupRounds h peerID of None \<Rightarrow> [] | Some r \<Rightarrow> r) in
           if length rndz < 2 then
             do {
               h' \<leftarrow> addRound (v_Round v) h;
               add_at E v (h'\<lparr>hvs_peerCatchupRounds := (hvs_peerCatchupRounds h')(peerID \<mapsto> rndz @ [v_Round v])\<rparr>)
             }
           else Some ((False, Some ErrGotVoteFromUnwantedRound), h))
        else add_at E v h
      })"

definition Prevotes :: "int \<Rightarrow> height_vote_set \<Rightarrow> vote_set option option" where
  "Prevotes rnd h = getVoteSet rnd PrevoteType h"

definition Precommits :: "int \<Rightarrow> height_vote_set \<Rightarrow> vote_set option option" where
  "Precommits rnd h = getVoteSet rnd PrecommitType h"

text \<open>The loop of \<open>POLInfo\<close>, over the rounds below \<open>n\<close> downwards.\<close>

fun pol_loop :: "nat \<Rightarrow> height_vote_set \<Rightarrow> (int \<times> block_id) option" where
  "pol_loop 0 h = Some (-1, zero_block_id)"
| "pol_loop (Suc n) h =
     do {
       rvs \<leftarrow> getVoteSet (int n) PrevoteType h;
       case TwoThirdsMajority rvs of
         (polBlockID, ok) \<Rightarrow> if ok then Some (int n, polBlockID) else pol_loop n h
     }"

definition POLInfo :: "height_vote_set \<Rightarrow> (int \<times> block_id) option" where
  "POLInfo h = pol_loop (nat (hvs_round h + 1)) h"

text \<open>The result is an error: an invalid vote type, or a claim that contradicts an earlier one.\<close>

definition hvs_SetPeerMaj23 ::
  "int \<Rightarrow> int \<Rightarrow> string \<Rightarrow> block_id \<Rightarrow> height_vote_set \<Rightarrow> (bool \<times> height_vote_set) option" where
  "hvs_SetPeerMaj23 rnd voteType peerID blockID h =
     (if \<not> IsVoteTypeValid voteType then Some (True, h)
      else do {
        voteSet \<leftarrow> getVoteSet rnd voteType h;
        case voteSet of
          None \<Rightarrow> Some (False, h)
        | Some s \<Rightarrow>
            do {
              (err, s') \<leftarrow> SetPeerMaj23 peerID blockID (Some s);
              Some (err, putVoteSet rnd voteType s' h)
            }
      })"

end
