(* ===== verification/HeightVoteSetInv.thy ===== *)
theory HeightVoteSetInv
  imports HeightVoteSet
begin

text \<open>
  The invariant of the vote sets of a height: every round up to the current one is present, each vote set
  is one reached from a new one by the operations of \<open>VoteSet\<close>, and a peer adds at most two rounds. Every
  operation keeps it and none of them panics.
\<close>

section \<open>Reachable vote sets\<close>

definition reached :: "env \<Rightarrow> height_vote_set \<Rightarrow> int \<Rightarrow> int \<Rightarrow> vote_set \<Rightarrow> bool" where
  "reached E h rnd ty s \<longleftrightarrow>
     (\<exists>s0. NewVoteSet (hvs_chainID h) (hvs_height h) rnd ty (hvs_valSet h) = Some s0 \<and> vst_steps E s0 s)"

definition same_height :: "height_vote_set \<Rightarrow> height_vote_set \<Rightarrow> bool" where
  "same_height h h' \<longleftrightarrow> hvs_chainID h' = hvs_chainID h \<and> hvs_height h' = hvs_height h \<and> hvs_valSet h' = hvs_valSet h"

lemma same_height_refl [simp]: "same_height h h"
  by (simp add: same_height_def)

lemma same_height_trans: "same_height h h' \<Longrightarrow> same_height h' h'' \<Longrightarrow> same_height h h''"
  by (simp add: same_height_def)

lemma reached_same_height: "same_height h h' \<Longrightarrow> reached E h' r ty s \<longleftrightarrow> reached E h r ty s"
  by (simp add: reached_def same_height_def)

lemma steps_trans: "vst_steps E s s' \<Longrightarrow> vst_steps E s0 s \<Longrightarrow> vst_steps E s0 s'"
  by (induction rule: vst_steps.induct) (blast intro: vst_steps.intros)+

lemma reached_step: "reached E h r ty s \<Longrightarrow> vst_steps E s s' \<Longrightarrow> reached E h r ty s'"
  unfolding reached_def using steps_trans by blast

definition catchup :: "height_vote_set \<Rightarrow> int set" where
  "catchup h = (\<Union>rs \<in> ran (hvs_peerCatchupRounds h). set rs)"

definition hvs_inv :: "env \<Rightarrow> height_vote_set \<Rightarrow> bool" where
  "hvs_inv E h \<longleftrightarrow>
     hvs_height h \<noteq> 0 \<and> vals_ok (hvs_valSet h) \<and> (\<forall>v \<in> set (vs_Validators (hvs_valSet h)). val_PubKey v \<noteq> None)
     \<and> 0 \<le> hvs_round h \<and> hvs_round h < MaxInt32
     \<and> (\<forall>r rvs. hvs_roundVoteSets h r = Some rvs \<longrightarrow>
          reached E h r PrevoteType (rvs_Prevotes rvs) \<and> reached E h r PrecommitType (rvs_Precommits rvs))
     \<and> {0..hvs_round h} \<subseteq> dom (hvs_roundVoteSets h)
     \<and> (\<forall>p rs. hvs_peerCatchupRounds h p = Some rs \<longrightarrow> length rs \<le> 2) \<and> finite (dom (hvs_peerCatchupRounds h))
     \<and> dom (hvs_roundVoteSets h) \<subseteq> {-1..hvs_round h} \<union> catchup h"

lemma hvs_invD:
  assumes "hvs_inv E h"
  shows "hvs_height h \<noteq> 0" "vals_ok (hvs_valSet h)" "\<forall>v \<in> set (vs_Validators (hvs_valSet h)). val_PubKey v \<noteq> None"
    "0 \<le> hvs_round h" "hvs_round h < MaxInt32" "{0..hvs_round h} \<subseteq> dom (hvs_roundVoteSets h)"
    "finite (dom (hvs_peerCatchupRounds h))" "dom (hvs_roundVoteSets h) \<subseteq> {-1..hvs_round h} \<union> catchup h"
  using assms by (auto simp: hvs_inv_def)

lemma hvs_inv_sets:
  assumes "hvs_inv E h" "hvs_roundVoteSets h r = Some rvs"
  shows "reached E h r PrevoteType (rvs_Prevotes rvs)" "reached E h r PrecommitType (rvs_Precommits rvs)"
  using assms by (auto simp: hvs_inv_def)

lemma hvs_inv_peers: "hvs_inv E h \<Longrightarrow> hvs_peerCatchupRounds h p = Some rs \<Longrightarrow> length rs \<le> 2"
  by (auto simp: hvs_inv_def)

section \<open>Adding rounds\<close>

lemma addRound_fresh:
  assumes "hvs_height h \<noteq> 0" "hvs_roundVoteSets h r = None"
  obtains pv pc where "NewVoteSet (hvs_chainID h) (hvs_height h) r PrevoteType (hvs_valSet h) = Some pv"
    "NewVoteSet (hvs_chainID h) (hvs_height h) r PrecommitType (hvs_valSet h) = Some pc"
    "addRound r h = Some (h\<lparr>hvs_roundVoteSets := (hvs_roundVoteSets h)(r \<mapsto> \<lparr>rvs_Prevotes = pv, rvs_Precommits = pc\<rparr>)\<rparr>)"
  using assms by (simp add: addRound_def NewVoteSet_def)

text \<open>A state with more rounds, the new ones empty.\<close>

definition grown :: "env \<Rightarrow> int set \<Rightarrow> height_vote_set \<Rightarrow> height_vote_set \<Rightarrow> bool" where
  "grown E R h h' \<longleftrightarrow> same_height h h' \<and> hvs_round h' = hvs_round h \<and> hvs_peerCatchupRounds h' = hvs_peerCatchupRounds h
     \<and> dom (hvs_roundVoteSets h') = dom (hvs_roundVoteSets h) \<union> R
     \<and> (\<forall>r. r \<in> dom (hvs_roundVoteSets h) \<longrightarrow> hvs_roundVoteSets h' r = hvs_roundVoteSets h r)
     \<and> (\<forall>r rvs. r \<notin> dom (hvs_roundVoteSets h) \<longrightarrow> hvs_roundVoteSets h' r = Some rvs \<longrightarrow>
          reached E h r PrevoteType (rvs_Prevotes rvs) \<and> reached E h r PrecommitType (rvs_Precommits rvs))"

lemma grown_refl: "R \<subseteq> dom (hvs_roundVoteSets h) \<Longrightarrow> grown E R h h"
  by (auto simp: grown_def)

lemma addRound_grown:
  assumes "hvs_height h \<noteq> 0" "hvs_roundVoteSets h r = None"
  obtains h' where "addRound r h = Some h'" "grown E {r} h h'"
proof -
  obtain pv pc where n: "NewVoteSet (hvs_chainID h) (hvs_height h) r PrevoteType (hvs_valSet h) = Some pv"
      "NewVoteSet (hvs_chainID h) (hvs_height h) r PrecommitType (hvs_valSet h) = Some pc"
    and a: "addRound r h = Some (h\<lparr>hvs_roundVoteSets := (hvs_roundVoteSets h)(r \<mapsto> \<lparr>rvs_Prevotes = pv, rvs_Precommits = pc\<rparr>)\<rparr>)"
    by (rule addRound_fresh [OF assms])
  have "reached E h r PrevoteType pv" "reached E h r PrecommitType pc"
    using n vst_steps.start by (auto simp: reached_def)
  then have "grown E {r} h (h\<lparr>hvs_roundVoteSets := (hvs_roundVoteSets h)(r \<mapsto> \<lparr>rvs_Prevotes = pv, rvs_Precommits = pc\<rparr>)\<rparr>)"
    using assms(2) by (auto simp: grown_def same_height_def)
  then show thesis using that a by blast
qed

lemma grown_trans:
  assumes g: "grown E R h h'" "grown E S h' h''"
  shows "grown E (R \<union> S) h h''"
proof -
  have sh: "same_height h h'" "same_height h' h''" using g by (auto simp: grown_def)
  have d: "dom (hvs_roundVoteSets h') = dom (hvs_roundVoteSets h) \<union> R" using g by (simp add: grown_def)
  have old: "hvs_roundVoteSets h'' r = hvs_roundVoteSets h r" if "r \<in> dom (hvs_roundVoteSets h)" for r
    using g d that by (simp add: grown_def)
  have new: "reached E h r PrevoteType (rvs_Prevotes rvs) \<and> reached E h r PrecommitType (rvs_Precommits rvs)"
    if r: "r \<notin> dom (hvs_roundVoteSets h)" "hvs_roundVoteSets h'' r = Some rvs" for r rvs
  proof (cases "r \<in> dom (hvs_roundVoteSets h')")
    case True
    then have "hvs_roundVoteSets h' r = Some rvs" using g(2) r(2) by (simp add: grown_def)
    then show ?thesis using g(1) r(1) by (simp add: grown_def)
  next
    case False
    then show ?thesis using g(2) r(2) reached_same_height [OF sh(1)] by (simp add: grown_def)
  qed
  show ?thesis
    unfolding grown_def using same_height_trans [OF sh] g old new by (simp add: grown_def Un_assoc)
qed

lemma add_rounds_grown:
  assumes "hvs_height h \<noteq> 0" "rnd < MaxInt32" "MinInt32 \<le> r"
  shows "\<exists>h'. add_rounds r rnd h = Some h' \<and> grown E {r..rnd} h h'"
  using assms
proof (induction "nat (rnd + 1 - r)" arbitrary: r h)
  case 0
  then show ?case using grown_refl [of "{r..rnd}" h E] by (subst add_rounds.simps) auto
next
  case (Suc n)
  have r: "r \<le> rnd" "i32 (r + 1) = r + 1" "n = nat (rnd + 1 - (r + 1))"
    using Suc.hyps(2) Suc.prems by (auto intro!: i32_id simp: in_i32_def)
  have un: "{r..rnd} = {r} \<union> {r + 1..rnd}" using r(1) by auto
  have "\<exists>h'. (if hvs_roundVoteSets h r \<noteq> None then Some h else addRound r h) = Some h' \<and> grown E {r} h h'"
  proof (cases "hvs_roundVoteSets h r")
    case None
    then show ?thesis using addRound_grown [OF Suc.prems(1) None, where E = E] by auto
  next
    case (Some x)
    then show ?thesis using grown_refl [of "{r}" h E] by auto
  qed
  then obtain h1 where h1: "(if hvs_roundVoteSets h r \<noteq> None then Some h else addRound r h) = Some h1" "grown E {r} h h1"
    by blast
  then have "hvs_height h1 \<noteq> 0" using Suc.prems(1) by (simp add: grown_def same_height_def)
  from Suc.hyps(1) [OF r(3) this Suc.prems(2)] Suc.prems(3)
  obtain h2 where h2: "add_rounds (r + 1) rnd h1 = Some h2" "grown E {r + 1..rnd} h1 h2" by auto
  have "add_rounds r rnd h = Some h2"
    using h1(1) h2(1) r(1,2) by (subst add_rounds.simps) (auto split: if_splits)
  then show ?case using grown_trans [OF h1(2) h2(2)] un by auto
qed

lemma grown_inv:
  assumes inv: "hvs_inv E h" and g: "grown E R h h'"
    and p: "same_height h' h''" "hvs_roundVoteSets h'' = hvs_roundVoteSets h'" "0 \<le> hvs_round h''" "hvs_round h'' < MaxInt32"
      "{0..hvs_round h''} \<subseteq> dom (hvs_roundVoteSets h')" "finite (dom (hvs_peerCatchupRounds h''))"
      "\<And>p rs. hvs_peerCatchupRounds h'' p = Some rs \<Longrightarrow> length rs \<le> 2"
      "dom (hvs_roundVoteSets h') \<subseteq> {-1..hvs_round h''} \<union> catchup h''"
  shows "hvs_inv E h''"
proof -
  have sh: "same_height h h''" using g p(1) same_height_trans unfolding grown_def by blast
  have "reached E h r PrevoteType (rvs_Prevotes rvs) \<and> reached E h r PrecommitType (rvs_Precommits rvs)"
    if "hvs_roundVoteSets h' r = Some rvs" for r rvs
  proof (cases "hvs_roundVoteSets h r")
    case None
    then have "r \<notin> dom (hvs_roundVoteSets h)" by auto
    then show ?thesis using g that by (simp add: grown_def)
  next
    case (Some x)
    then have "r \<in> dom (hvs_roundVoteSets h)" by auto
    then have "x = rvs" using g that Some by (simp add: grown_def)
    then show ?thesis using hvs_inv_sets [OF inv] Some by blast
  qed
  then show ?thesis
    unfolding hvs_inv_def using hvs_invD(1-3) [OF inv] sh p reached_same_height [OF sh] by (auto simp: same_height_def)
qed

lemma SetRound_ok:
  assumes inv: "hvs_inv E h" and r: "hvs_round h \<le> rnd" "rnd < MaxInt32"
  shows "\<exists>h'. SetRound rnd h = Some h' \<and> hvs_inv E h' \<and> same_height h h' \<and> hvs_round h' = rnd
    \<and> dom (hvs_roundVoteSets h') = dom (hvs_roundVoteSets h) \<union> {hvs_round h - 1..rnd}
    \<and> (\<forall>q. q \<in> dom (hvs_roundVoteSets h) \<longrightarrow> hvs_roundVoteSets h' q = hvs_roundVoteSets h q)"
proof -
  note D = hvs_invD [OF inv]
  have s: "SafeSubInt32 (hvs_round h) 1 = Some (hvs_round h - 1)"
    using SafeSubInt32_spec [of "hvs_round h" 1] D(4,5) by (simp add: in_i32_def)
  have "MinInt32 \<le> hvs_round h - 1" using D(4) by simp
  then obtain h1 where h1: "add_rounds (hvs_round h - 1) rnd h = Some h1" "grown E {hvs_round h - 1..rnd} h h1"
    using add_rounds_grown [OF D(1) r(2)] by blast
  have d: "dom (hvs_roundVoteSets h1) = dom (hvs_roundVoteSets h) \<union> {hvs_round h - 1..rnd}"
    "hvs_peerCatchupRounds h1 = hvs_peerCatchupRounds h" using h1(2) by (auto simp: grown_def)
  have "hvs_inv E (h1\<lparr>hvs_round := rnd\<rparr>)"
  proof (rule grown_inv [OF inv h1(2)])
    show "{0..hvs_round (h1\<lparr>hvs_round := rnd\<rparr>)} \<subseteq> dom (hvs_roundVoteSets h1)" using d(1) D(6) by fastforce
    show "dom (hvs_roundVoteSets h1) \<subseteq> {-1..hvs_round (h1\<lparr>hvs_round := rnd\<rparr>)} \<union> catchup (h1\<lparr>hvs_round := rnd\<rparr>)"
      using d D(4,8) r(1) by (fastforce simp: catchup_def)
    show "length rs \<le> 2" if "hvs_peerCatchupRounds (h1\<lparr>hvs_round := rnd\<rparr>) p = Some rs" for p rs
      using that d(2) hvs_inv_peers [OF inv] by simp
  qed (use d r D in \<open>auto simp: same_height_def\<close>)
  then show ?thesis using s r(1) h1 d(1) D(4) by (auto simp: SetRound_def grown_def same_height_def)
qed

section \<open>Progress\<close>

text \<open>What every operation does to the vote sets of a height: it loses no round and only adds to the vote sets.\<close>

definition progress :: "env \<Rightarrow> height_vote_set \<Rightarrow> height_vote_set \<Rightarrow> bool" where
  "progress E h h' \<longleftrightarrow> same_height h h' \<and> hvs_round h \<le> hvs_round h'
     \<and> (\<forall>r rvs. hvs_roundVoteSets h r = Some rvs \<longrightarrow> (\<exists>rvs'. hvs_roundVoteSets h' r = Some rvs'
          \<and> vst_steps E (rvs_Prevotes rvs) (rvs_Prevotes rvs') \<and> vst_steps E (rvs_Precommits rvs) (rvs_Precommits rvs')))"

lemma progress_refl [simp]: "progress E h h"
  using vst_steps.start by (auto simp: progress_def)

lemma progress_trans:
  assumes p: "progress E h h'" "progress E h' h''"
  shows "progress E h h''"
proof -
  have "\<exists>rvs''. hvs_roundVoteSets h'' r = Some rvs''
      \<and> vst_steps E (rvs_Prevotes rvs) (rvs_Prevotes rvs'') \<and> vst_steps E (rvs_Precommits rvs) (rvs_Precommits rvs'')"
    if r: "hvs_roundVoteSets h r = Some rvs" for r rvs
  proof -
    obtain rvs' where 1: "hvs_roundVoteSets h' r = Some rvs'"
        "vst_steps E (rvs_Prevotes rvs) (rvs_Prevotes rvs')" "vst_steps E (rvs_Precommits rvs) (rvs_Precommits rvs')"
      using p(1) r by (auto simp: progress_def)
    obtain rvs'' where 2: "hvs_roundVoteSets h'' r = Some rvs''"
        "vst_steps E (rvs_Prevotes rvs') (rvs_Prevotes rvs'')" "vst_steps E (rvs_Precommits rvs') (rvs_Precommits rvs'')"
      using p(2) 1(1) by (auto simp: progress_def)
    show ?thesis using 1(2,3) 2 steps_trans by blast
  qed
  moreover have "same_height h h''" "hvs_round h \<le> hvs_round h''"
    using p same_height_trans by (auto simp: progress_def)
  ultimately show ?thesis by (simp add: progress_def)
qed

lemma progress_kept:
  assumes "same_height h h'" "hvs_round h \<le> hvs_round h'"
    and "\<forall>q. q \<in> dom (hvs_roundVoteSets h) \<longrightarrow> hvs_roundVoteSets h' q = hvs_roundVoteSets h q"
  shows "progress E h h'"
  unfolding progress_def using assms vst_steps.start by (metis domI)

definition vote_set_of :: "int \<Rightarrow> round_vote_set \<Rightarrow> vote_set" where
  "vote_set_of ty rvs = (if ty = PrevoteType then rvs_Prevotes rvs else rvs_Precommits rvs)"

lemma getVoteSet_valid:
  "IsVoteTypeValid ty \<Longrightarrow> getVoteSet r ty h = Some (map_option (vote_set_of ty) (hvs_roundVoteSets h r))"
  by (auto simp: getVoteSet_def IsVoteTypeValid_def vote_set_of_def split: option.splits)

lemma putVoteSet_ok:
  assumes inv: "hvs_inv E h" and ty: "IsVoteTypeValid ty" and rvs: "hvs_roundVoteSets h r = Some rvs"
    and st: "vst_steps E (vote_set_of ty rvs) s'"
  shows "hvs_inv E (putVoteSet r ty s' h)" "progress E h (putVoteSet r ty s' h)"
    "getVoteSet r ty (putVoteSet r ty s' h) = Some (Some s')"
proof -
  let ?rvs = "if ty = PrevoteType then rvs\<lparr>rvs_Prevotes := s'\<rparr> else rvs\<lparr>rvs_Precommits := s'\<rparr>"
  let ?h = "putVoteSet r ty s' h"
  have h: "?h = h\<lparr>hvs_roundVoteSets := (hvs_roundVoteSets h)(r \<mapsto> ?rvs)\<rparr>" using rvs by (simp add: putVoteSet_def)
  have steps: "vst_steps E (rvs_Prevotes rvs) (rvs_Prevotes ?rvs)" "vst_steps E (rvs_Precommits rvs) (rvs_Precommits ?rvs)"
    using st vst_steps.start ty by (auto simp: vote_set_of_def IsVoteTypeValid_def)
  have sh: "same_height h ?h" by (simp add: h same_height_def)
  have new: "reached E h r PrevoteType (rvs_Prevotes ?rvs)" "reached E h r PrecommitType (rvs_Precommits ?rvs)"
    using reached_step [OF hvs_inv_sets(1) [OF inv rvs] steps(1)] reached_step [OF hvs_inv_sets(2) [OF inv rvs] steps(2)] by simp_all
  have sets: "reached E ?h q PrevoteType (rvs_Prevotes x) \<and> reached E ?h q PrecommitType (rvs_Precommits x)"
    if "hvs_roundVoteSets ?h q = Some x" for q x
  proof (cases "q = r")
    case True
    then have "x = ?rvs" using that h by simp
    then show ?thesis using new True reached_same_height [OF sh] by simp
  next
    case False
    then show ?thesis using that h hvs_inv_sets [OF inv] reached_same_height [OF sh] by simp
  qed
  have d: "dom (hvs_roundVoteSets ?h) = dom (hvs_roundVoteSets h)" using rvs by (auto simp: h)
  have c: "catchup ?h = catchup h" "hvs_peerCatchupRounds ?h = hvs_peerCatchupRounds h" "hvs_round ?h = hvs_round h"
      "hvs_height ?h = hvs_height h" "hvs_valSet ?h = hvs_valSet h" by (simp_all add: h catchup_def)
  show "hvs_inv E ?h"
    unfolding hvs_inv_def d c using hvs_invD [OF inv] hvs_inv_peers [OF inv] sets by blast
  show "progress E h ?h"
    unfolding progress_def using sh c(3) steps rvs vst_steps.start by (auto simp: h)
  show "getVoteSet r ty ?h = Some (Some s')"
    using ty by (auto simp: h getVoteSet_def IsVoteTypeValid_def)
qed

lemma reached_inv:
  assumes "hvs_inv E h" "hvs_roundVoteSets h r = Some rvs"
  shows "vst_inv E (vote_set_of ty rvs)"
proof -
  note D = hvs_invD [OF assms(1)]
  show ?thesis
    using hvs_inv_sets [OF assms] reach_inv(1) [OF D(2,3)] by (auto simp: reached_def vote_set_of_def)
qed

lemma add_at_ok:
  assumes inv: "hvs_inv E h" and v: "v_ValidateBasic v = None" and r: "v_Round v \<in> dom (hvs_roundVoteSets h)"
  shows "\<exists>res h'. add_at E v h = Some (res, h') \<and> hvs_inv E h' \<and> progress E h h'"
proof -
  obtain rvs where rvs: "hvs_roundVoteSets h (v_Round v) = Some rvs" using r by auto
  have ty: "IsVoteTypeValid (v_Type v)" using v by (auto simp: v_ValidateBasic_def split: if_splits)
  let ?s = "vote_set_of (v_Type v) rvs"
  obtain added err s' where a: "addVote E (Some v) ?s = Some ((added, err), s')"
    using addVote_ok [OF reached_inv [OF inv rvs] v] by blast
  have "vst_steps E ?s s'" using vst_steps.add [OF vst_steps.start v, of E ?s "(added, err)" s'] a by (simp add: AddVote_def)
  from putVoteSet_ok [OF inv ty rvs this] show ?thesis
    using a getVoteSet_valid [OF ty, of "v_Round v" h] rvs by (simp add: add_at_def AddVote_def)
qed

lemma hvs_AddVote_ok:
  assumes inv: "hvs_inv E h" and v: "v_ValidateBasic v = None"
  shows "\<exists>res h'. hvs_AddVote E v p h = Some (res, h') \<and> hvs_inv E h' \<and> progress E h h'"
proof (cases "hvs_roundVoteSets h (v_Round v)")
  case (Some rvs)
  have ty: "IsVoteTypeValid (v_Type v)" using v by (auto simp: v_ValidateBasic_def split: if_splits)
  then show ?thesis
    using add_at_ok [OF inv v] Some getVoteSet_valid [OF ty, of "v_Round v" h] by (auto simp: hvs_AddVote_def)
next
  case None
  have ty: "IsVoteTypeValid (v_Type v)" using v by (auto simp: v_ValidateBasic_def split: if_splits)
  have g: "getVoteSet (v_Round v) (v_Type v) h = Some None" using getVoteSet_valid [OF ty] None by simp
  let ?rs = "case hvs_peerCatchupRounds h p of None \<Rightarrow> [] | Some r \<Rightarrow> r"
  show ?thesis
  proof (cases "length ?rs < 2")
    case False
    then show ?thesis using ty g inv by (auto simp: hvs_AddVote_def Let_def)
  next
    case True
    note D = hvs_invD [OF inv]
    obtain h1 where h1: "addRound (v_Round v) h = Some h1" "grown E {v_Round v} h h1"
      by (rule addRound_grown [OF D(1) None])
    let ?h2 = "h1\<lparr>hvs_peerCatchupRounds := (hvs_peerCatchupRounds h1)(p \<mapsto> ?rs @ [v_Round v])\<rparr>"
    have f: "hvs_peerCatchupRounds h1 = hvs_peerCatchupRounds h" "hvs_round h1 = hvs_round h"
        "dom (hvs_roundVoteSets h1) = insert (v_Round v) (dom (hvs_roundVoteSets h))" "same_height h h1"
        "\<forall>q. q \<in> dom (hvs_roundVoteSets h) \<longrightarrow> hvs_roundVoteSets h1 q = hvs_roundVoteSets h q"
      using h1(2) by (auto simp: grown_def)
    have c: "insert (v_Round v) (catchup h) \<subseteq> catchup ?h2"
    proof
      fix q assume "q \<in> insert (v_Round v) (catchup h)"
      then consider "q = v_Round v" | p' rs where "hvs_peerCatchupRounds h p' = Some rs" "q \<in> set rs"
        by (auto simp: catchup_def ran_def)
      then show "q \<in> catchup ?h2"
      proof cases
        case 1
        then show ?thesis by (force simp: catchup_def ran_def)
      next
        case 2
        have "(hvs_peerCatchupRounds ?h2) p' = Some (if p' = p then rs @ [v_Round v] else rs)" using 2(1) f(1) by auto
        then show ?thesis using 2(2) by (auto simp: catchup_def ran_def split: if_splits intro!: exI [of _ p'])
      qed
    qed
    have inv2: "hvs_inv E ?h2"
    proof (rule grown_inv [OF inv h1(2)])
      show "length rs \<le> 2" if "hvs_peerCatchupRounds ?h2 p' = Some rs" for p' rs
        using that True f(1) hvs_inv_peers [OF inv, of p'] by (auto split: if_splits)
      show "dom (hvs_roundVoteSets h1) \<subseteq> {-1..hvs_round ?h2} \<union> catchup ?h2" using f(2,3) D(8) c by auto
    qed (use f D in \<open>auto simp: same_height_def\<close>)
    have "progress E h ?h2" using f(2,4,5) by (intro progress_kept) (auto simp: same_height_def)
    moreover have "v_Round v \<in> dom (hvs_roundVoteSets ?h2)" using f(3) by simp
    ultimately show ?thesis
      using add_at_ok [OF inv2 v] progress_trans ty g True h1(1) by (auto simp: hvs_AddVote_def Let_def)
  qed
qed

lemma hvs_SetPeerMaj23_ok:
  assumes inv: "hvs_inv E h"
  shows "\<exists>err h'. hvs_SetPeerMaj23 r ty p b h = Some (err, h') \<and> hvs_inv E h' \<and> progress E h h'"
proof (cases "IsVoteTypeValid ty \<and> hvs_roundVoteSets h r \<noteq> None")
  case True
  then obtain rvs where rvs: "IsVoteTypeValid ty" "hvs_roundVoteSets h r = Some rvs" by auto
  let ?s = "vote_set_of ty rvs"
  obtain e s' where a: "SetPeerMaj23 p b (Some ?s) = Some (e, s')"
    using SetPeerMaj23_ok [OF reached_inv [OF inv rvs(2), of ty], of p b] by auto
  have "vst_steps E ?s s'" by (rule vst_steps.peer [OF vst_steps.start a])
  from putVoteSet_ok [OF inv rvs this] show ?thesis
    using a getVoteSet_valid [OF rvs(1), of r h] rvs by (simp add: hvs_SetPeerMaj23_def)
next
  case False
  then show ?thesis
    using inv getVoteSet_valid [of ty r h] by (auto simp: hvs_SetPeerMaj23_def)
qed

lemma NewHeightVoteSet_ok:
  assumes "height \<noteq> 0" "vals_ok vals" "\<forall>v \<in> set (vs_Validators vals). val_PubKey v \<noteq> None"
  shows "\<exists>h. NewHeightVoteSet chainID height vals = Some h \<and> hvs_inv E h \<and> hvs_chainID h = chainID
    \<and> hvs_height h = height \<and> hvs_valSet h = vals \<and> hvs_round h = 0 \<and> hvs_peerCatchupRounds h = Map.empty"
proof -
  obtain s0 s1 where s: "NewVoteSet chainID height 0 PrevoteType vals = Some s0"
      "NewVoteSet chainID height 0 PrecommitType vals = Some s1" using assms(1) by (simp add: NewVoteSet_def)
  let ?h = "\<lparr>hvs_chainID = chainID, hvs_height = height, hvs_valSet = vals, hvs_round = 0,
      hvs_roundVoteSets = [0 \<mapsto> \<lparr>rvs_Prevotes = s0, rvs_Precommits = s1\<rparr>], hvs_peerCatchupRounds = Map.empty\<rparr>"
  have "NewHeightVoteSet chainID height vals = Some ?h"
    using s by (simp add: NewHeightVoteSet_def hvs_Reset_def addRound_def)
  moreover have "hvs_inv E ?h"
    using assms s vst_steps.start by (auto simp: hvs_inv_def reached_def catchup_def)
  ultimately show ?thesis by simp
qed

section \<open>Histories\<close>

text \<open>
  The calls the consensus state makes: votes that pass \<open>ValidateBasic\<close>, claims of peers, and \<open>SetRound\<close>
  to a round that is not smaller.
\<close>

inductive hvs_steps :: "env \<Rightarrow> height_vote_set \<Rightarrow> height_vote_set \<Rightarrow> bool" for E h0 where
  start: "hvs_steps E h0 h0"
| vote: "hvs_steps E h0 h \<Longrightarrow> v_ValidateBasic v = None \<Longrightarrow> hvs_AddVote E v p h = Some (r, h') \<Longrightarrow> hvs_steps E h0 h'"
| claim: "hvs_steps E h0 h \<Longrightarrow> hvs_SetPeerMaj23 rnd ty p b h = Some (r, h') \<Longrightarrow> hvs_steps E h0 h'"
| rounds: "hvs_steps E h0 h \<Longrightarrow> hvs_round h \<le> rnd \<Longrightarrow> rnd < MaxInt32 \<Longrightarrow> SetRound rnd h = Some h' \<Longrightarrow> hvs_steps E h0 h'"

lemma hvs_steps_inv:
  assumes "hvs_steps E h0 h" "hvs_inv E h0"
  shows "hvs_inv E h \<and> progress E h0 h"
  using assms
proof (induction rule: hvs_steps.induct)
  case (vote h v p r h')
  then show ?case using hvs_AddVote_ok [of E h v p] progress_trans by auto
next
  case (claim h rnd ty p b r h')
  then show ?case using hvs_SetPeerMaj23_ok [of E h rnd ty p b] progress_trans by auto
next
  case (rounds h rnd h')
  then have inv: "hvs_inv E h" and pr: "progress E h0 h" by auto
  have "hvs_inv E h'" "progress E h h'"
    using SetRound_ok [OF inv rounds.hyps(2,3)] rounds.hyps(2,4) progress_kept [of h h' E] by auto
  then show ?case using progress_trans [OF pr] by simp
qed simp

lemma catchup_bound:
  assumes "hvs_inv E h"
  shows "finite (dom (hvs_roundVoteSets h))
    \<and> int (card (dom (hvs_roundVoteSets h))) \<le> hvs_round h + 2 + 2 * int (card (dom (hvs_peerCatchupRounds h)))"
proof -
  note D = hvs_invD [OF assms]
  let ?P = "hvs_peerCatchupRounds h"
  have c: "catchup h = (\<Union>p \<in> dom ?P. set (the (?P p)))"
    by (auto simp: catchup_def ran_def dom_def)
  have "card (set (the (?P p))) \<le> 2" if "p \<in> dom ?P" for p
    using that hvs_inv_peers [OF assms, of p] card_length [of "the (?P p)"] by (auto intro: order_trans)
  then have "(\<Sum>p \<in> dom ?P. card (set (the (?P p)))) \<le> (\<Sum>p \<in> dom ?P. 2)" by (rule sum_mono)
  then have k: "card (catchup h) \<le> 2 * card (dom ?P)" "finite (catchup h)"
    using card_UN_le [OF D(7), of "\<lambda>p. set (the (?P p))"] D(7) by (auto simp: c)
  have "card (dom (hvs_roundVoteSets h)) \<le> card ({-1..hvs_round h} \<union> catchup h)"
    using k(2) D(8) by (intro card_mono) auto
  also have "\<dots> \<le> card {-1..hvs_round h} + card (catchup h)" by (rule card_Un_le)
  finally have "card (dom (hvs_roundVoteSets h)) \<le> nat (hvs_round h + 2) + 2 * card (dom ?P)" using k(1) by simp
  moreover have "finite (dom (hvs_roundVoteSets h))" by (rule finite_subset [OF D(8)]) (use k(2) in simp)
  ultimately show ?thesis using D(4) by simp
qed

section \<open>The proof-of-lock round\<close>

definition prevote_majority :: "height_vote_set \<Rightarrow> int \<Rightarrow> block_id \<times> bool" where
  "prevote_majority h r = TwoThirdsMajority (map_option rvs_Prevotes (hvs_roundVoteSets h r))"

lemma pol_loop_exact:
  "\<exists>r b. pol_loop n h = Some (r, b) \<and>
     (r = -1 \<and> b = zero_block_id \<and> (\<forall>q < n. \<not> snd (prevote_majority h (int q)))
      \<or> (\<exists>m < n. r = int m \<and> prevote_majority h r = (b, True) \<and> (\<forall>q < n. m < q \<longrightarrow> \<not> snd (prevote_majority h (int q)))))"
proof (induction n)
  case (Suc n)
  have g: "getVoteSet (int n) PrevoteType h = Some (map_option rvs_Prevotes (hvs_roundVoteSets h (int n)))"
    by (simp add: getVoteSet_def split: option.splits)
  obtain b ok where m: "prevote_majority h (int n) = (b, ok)" by fastforce
  show ?case
  proof (cases ok)
    case True
    then show ?thesis using g m by (intro exI [of _ "int n"] exI [of _ b]) (auto simp: prevote_majority_def)
  next
    case False
    then have "pol_loop (Suc n) h = pol_loop n h" using g m by (simp add: prevote_majority_def)
    then show ?thesis using Suc.IH m False by (auto simp: less_Suc_eq)
  qed
qed simp

lemma POLInfo_exact:
  "\<exists>r b. POLInfo h = Some (r, b) \<and>
     (r = -1 \<and> b = zero_block_id \<and> (\<forall>q \<in> {0..hvs_round h}. \<not> snd (prevote_majority h q))
      \<or> r \<in> {0..hvs_round h} \<and> prevote_majority h r = (b, True) \<and> (\<forall>q \<in> {r<..hvs_round h}. \<not> snd (prevote_majority h q)))"
proof -
  let ?n = "nat (hvs_round h + 1)"
  obtain r b where *: "pol_loop ?n h = Some (r, b)"
      "r = -1 \<and> b = zero_block_id \<and> (\<forall>q < ?n. \<not> snd (prevote_majority h (int q)))
       \<or> (\<exists>m < ?n. r = int m \<and> prevote_majority h r = (b, True) \<and> (\<forall>q < ?n. m < q \<longrightarrow> \<not> snd (prevote_majority h (int q))))"
    using pol_loop_exact [of ?n h] by (elim exE conjE) (rule that)
  have q: "nat q < ?n \<and> int (nat q) = q" if "q \<in> {0..hvs_round h}" for q using that by auto
  from *(2) show ?thesis
  proof
    assume "r = -1 \<and> b = zero_block_id \<and> (\<forall>q < ?n. \<not> snd (prevote_majority h (int q)))"
    then have "\<forall>q \<in> {0..hvs_round h}. \<not> snd (prevote_majority h q)" using q by metis
    then show ?thesis using \<open>r = -1 \<and> _\<close> *(1) by (auto simp: POLInfo_def)
  next
    assume "\<exists>m < ?n. r = int m \<and> prevote_majority h r = (b, True) \<and> (\<forall>q < ?n. m < q \<longrightarrow> \<not> snd (prevote_majority h (int q)))"
    then obtain m where m: "m < ?n" "r = int m" "prevote_majority h r = (b, True)"
        "\<forall>q < ?n. m < q \<longrightarrow> \<not> snd (prevote_majority h (int q))" by blast
    have "\<not> snd (prevote_majority h q)" if "q \<in> {r<..hvs_round h}" for q
    proof -
      have "nat q < ?n" "m < nat q" "int (nat q) = q" using that m(2) by auto
      then show ?thesis using m(4) by metis
    qed
    moreover have "r \<in> {0..hvs_round h}" using m(1,2) by auto
    ultimately show ?thesis using m(3) *(1) by (auto simp: POLInfo_def)
  qed
qed

lemma progress_majority:
  assumes inv: "hvs_inv E h" and pr: "progress E h h'" and m: "prevote_majority h r = (b, True)"
  shows "prevote_majority h' r = (b, True)"
proof -
  obtain rvs where rvs: "hvs_roundVoteSets h r = Some rvs"
    using m by (cases "hvs_roundVoteSets h r") (auto simp: prevote_majority_def TwoThirdsMajority_def)
  obtain rvs' where rvs': "hvs_roundVoteSets h' r = Some rvs'" "vst_steps E (rvs_Prevotes rvs) (rvs_Prevotes rvs')"
    using pr rvs by (auto simp: progress_def)
  have "vst_inv E (rvs_Prevotes rvs)" using reached_inv [OF inv rvs, of PrevoteType] by (simp add: vote_set_of_def)
  then show ?thesis
    using steps_inv [OF rvs'(2)] m rvs rvs'(1) by (auto simp: prevote_majority_def maj_of)
qed

section \<open>A sample run\<close>

definition toy_prevote :: "nat \<Rightarrow> byte \<Rightarrow> vote" where
  "toy_prevote i k = (toy_vote i k)\<lparr>v_Type := PrevoteType\<rparr>"

definition toy_height :: "(hvs_error option \<times> height_vote_set) option" where
  "toy_height = do {
     h0 \<leftarrow> NewHeightVoteSet [97] 3 toy_vals;
     (_, h1) \<leftarrow> hvs_AddVote toy_env (toy_prevote 0 1) ''a'' h0;
     ((_, err), h2) \<leftarrow> hvs_AddVote toy_env (toy_prevote 1 2) ''b'' h1;
     Some (err, h2)
   }"

lemma toy_height_eval: "map_option (\<lambda>(err, h). (err, hvs_round h, POLInfo h)) toy_height = Some (None, 0, Some (0, toy_block 9))"
  by code_simp

lemma toy_prevote_valid: "v_ValidateBasic (toy_prevote 0 1) = None" "v_ValidateBasic (toy_prevote 1 2) = None"
  by code_simp+

lemma toy_height_steps:
  obtains h0 h where "NewHeightVoteSet [97] 3 toy_vals = Some h0" "hvs_steps toy_env h0 h"
    "POLInfo h = Some (0, toy_block 9)" "hvs_round h = 0"
proof -
  obtain h0 r1 h1 r2 h where *: "NewHeightVoteSet [97] 3 toy_vals = Some h0"
      "hvs_AddVote toy_env (toy_prevote 0 1) ''a'' h0 = Some (r1, h1)"
      "hvs_AddVote toy_env (toy_prevote 1 2) ''b'' h1 = Some (r2, h)"
      "POLInfo h = Some (0, toy_block 9)" "hvs_round h = 0"
    using toy_height_eval by (auto simp: toy_height_def split: Option.bind_splits)
  have "hvs_steps toy_env h0 h"
    by (rule hvs_steps.vote [OF hvs_steps.vote [OF hvs_steps.start toy_prevote_valid(1) *(2)] toy_prevote_valid(2) *(3)])
  then show thesis using that * by blast
qed

section \<open>Properties\<close>



text \<open>
  C6: \<open>POLInfo\<close> returns the last round with a two-thirds majority of prevotes and its block, or -1 when there is
  none; a majority it reports is backed by valid prevotes of validators with more than two thirds of the
  power; and along any further history the round never goes back and the block of a round never changes.
\<close>

theorem pol_exact_and_monotone:
  assumes "vals_ok vals" "\<forall>v \<in> set (vs_Validators vals). val_PubKey v \<noteq> None"
    and "NewHeightVoteSet chainID height vals = Some h0" "hvs_steps E h0 h"
  shows "\<exists>r b. POLInfo h = Some (r, b)
    \<and> (r = -1 \<and> (\<forall>q \<in> {0..hvs_round h}. \<not> snd (prevote_majority h q))
       \<or> r \<in> {0..hvs_round h} \<and> prevote_majority h r = (b, True) \<and> (\<forall>q \<in> {r<..hvs_round h}. \<not> snd (prevote_majority h q))
         \<and> (\<exists>A \<subseteq> {..<length (vs_Validators vals)}.
              2 * total_power (vs_Validators vals) < 3 * (\<Sum>i\<in>A. val_VotingPower (vs_Validators vals ! i))
              \<and> (\<forall>i \<in> A. \<exists>v pk. v_BlockID v = b \<and> v_Height v = height \<and> v_Round v = r \<and> v_Type v = PrevoteType
                   \<and> val_PubKey (vs_Validators vals ! i) = Some pk \<and> v_Verify E chainID pk v = Some None)))
    \<and> (\<forall>h'. hvs_steps E h h' \<longrightarrow> (\<exists>r' b'. POLInfo h' = Some (r', b') \<and> r \<le> r' \<and> (r = r' \<longrightarrow> b = b')))"
proof -
  have "height \<noteq> 0" using assms(3) by (auto simp: NewHeightVoteSet_def hvs_Reset_def addRound_def NewVoteSet_def)
  then have h0: "hvs_inv E h0" "hvs_chainID h0 = chainID" "hvs_height h0 = height" "hvs_valSet h0 = vals"
    using NewHeightVoteSet_ok [OF _ assms(1,2), of height chainID E] assms(3) by auto
  have inv: "hvs_inv E h" and "same_height h0 h" using hvs_steps_inv [OF assms(4) h0(1)] by (auto simp: progress_def)
  then have f: "hvs_chainID h = chainID" "hvs_height h = height" "hvs_valSet h = vals"
    using h0 by (auto simp: same_height_def)
  obtain r b where rb: "POLInfo h = Some (r, b)"
      "r = -1 \<and> b = zero_block_id \<and> (\<forall>q \<in> {0..hvs_round h}. \<not> snd (prevote_majority h q))
       \<or> r \<in> {0..hvs_round h} \<and> prevote_majority h r = (b, True) \<and> (\<forall>q \<in> {r<..hvs_round h}. \<not> snd (prevote_majority h q))"
    using POLInfo_exact [of h] by (elim exE conjE) (rule that)
  have later: "\<exists>r' b'. POLInfo h' = Some (r', b') \<and> r \<le> r' \<and> (r = r' \<longrightarrow> b = b')" if st: "hvs_steps E h h'" for h'
  proof -
    have pr: "progress E h h'" using hvs_steps_inv [OF st inv] by simp
    obtain r' b' where r': "POLInfo h' = Some (r', b')"
        "r' = -1 \<and> b' = zero_block_id \<and> (\<forall>q \<in> {0..hvs_round h'}. \<not> snd (prevote_majority h' q))
         \<or> r' \<in> {0..hvs_round h'} \<and> prevote_majority h' r' = (b', True) \<and> (\<forall>q \<in> {r'<..hvs_round h'}. \<not> snd (prevote_majority h' q))"
      using POLInfo_exact [of h'] by (elim exE conjE) (rule that)
    have le: "hvs_round h \<le> hvs_round h'" using pr by (simp add: progress_def)
    have kept: "prevote_majority h' r = (b, True)" if "prevote_majority h r = (b, True)"
      by (rule progress_majority [OF inv pr that])
    have "r \<le> r' \<and> (r = r' \<longrightarrow> b = b')"
    proof (cases "r = -1")
      case True
      then show ?thesis using rb(2) r'(2) by auto
    next
      case False
      then have r: "r \<in> {0..hvs_round h'}" "prevote_majority h' r = (b, True)" using rb(2) kept le by auto
      then have "r' \<in> {0..hvs_round h'}" "prevote_majority h' r' = (b', True)" "\<not> r' < r" using r'(2) by force+
      then show ?thesis using r(2) by auto
    qed
    then show ?thesis using r'(1) by blast
  qed
  have backed: "\<exists>A \<subseteq> {..<length (vs_Validators vals)}.
      2 * total_power (vs_Validators vals) < 3 * (\<Sum>i\<in>A. vpower (vs_Validators vals ! i))
      \<and> (\<forall>i \<in> A. \<exists>v pk. v_BlockID v = b \<and> v_Height v = height \<and> v_Round v = r \<and> v_Type v = PrevoteType
           \<and> val_PubKey (vs_Validators vals ! i) = Some pk \<and> v_Verify E chainID pk v = Some None)"
    if m: "prevote_majority h r = (b, True)"
  proof -
    obtain rvs where rvs: "hvs_roundVoteSets h r = Some rvs"
      using m by (cases "hvs_roundVoteSets h r") (auto simp: prevote_majority_def TwoThirdsMajority_def)
    obtain s0 where s0: "NewVoteSet chainID height r PrevoteType vals = Some s0" "vst_steps E s0 (rvs_Prevotes rvs)"
      using hvs_inv_sets(1) [OF inv rvs] f by (auto simp: reached_def)
    show ?thesis by (rule majority_backed [OF assms(1,2) s0]) (use m rvs in \<open>simp add: prevote_majority_def maj_of\<close>)
  qed
  show ?thesis
    by (rule exI [of _ r], rule exI [of _ b]) (use rb later backed in blast)
qed

theorem pol_exact_and_monotone_witness:
  "\<exists>h. POLInfo h = Some (0, toy_block 9) \<and> (\<exists>A \<subseteq> {..<length (vs_Validators toy_vals)}.
     2 * total_power (vs_Validators toy_vals) < 3 * (\<Sum>i\<in>A. val_VotingPower (vs_Validators toy_vals ! i)))"
proof -
  obtain h0 h where h: "NewHeightVoteSet [97] 3 toy_vals = Some h0" "hvs_steps toy_env h0 h"
      "POLInfo h = Some (0, toy_block 9)" "hvs_round h = 0" by (rule toy_height_steps)
  from pol_exact_and_monotone [OF toy_vals_ok toy_keyed h(1,2)] h(3)
  have "\<exists>A \<subseteq> {..<length (vs_Validators toy_vals)}.
      2 * total_power (vs_Validators toy_vals) < 3 * (\<Sum>i\<in>A. val_VotingPower (vs_Validators toy_vals ! i))"
    by (elim exE conjE disjE) auto
  then show ?thesis using h(3) by blast
qed

end
