(* ===== verification/ProtoDecode.thy ===== *)
theory ProtoDecode
  imports Proto
begin

text \<open>
  Reading the canonical messages back: the generated \<open>Unmarshal\<close> methods and \<open>skipCanonical\<close> of
  \<open>proto/tendermint/types/canonical.pb.go\<close>, and the delimited reader of \<open>internal/libs/protoio/reader.go\<close>.

  The generated code of every message is the same loop: read a tag, switch on its field number, read the
  value with the wire type of the field, skip fields it does not know. The loop is \<open>wire_fields\<close>, which cuts
  the input into fields, and the switch of a message is the function that takes one field. All errors are
  None. A value is read into an unsigned number whose shifted parts do not overlap, so the code's or is a sum.
  The decoding of timestamps is the parameter \<open>timeOf\<close>.
\<close>

section \<open>The wire format\<close>

fun read_varint :: "nat \<Rightarrow> nat \<Rightarrow> bytes \<Rightarrow> (nat \<times> bytes) option" where
  "read_varint shift acc [] = None"
| "read_varint shift acc (b # bs) =
     (if shift \<ge> 64 then None
      else let acc' = (acc + (unat b mod 128) * 2 ^ shift) mod 2 ^ 64 in
        if unat b < 128 then Some (acc', bs) else read_varint (shift + 7) acc' bs)"

lemma read_varint_shorter: "read_varint s a bs = Some (v, r) \<Longrightarrow> length r < length bs"
  by (induction s a bs rule: read_varint.induct) (auto simp: Let_def split: if_splits)

text \<open>\<open>skipCanonical\<close>: the input after one field, groups included.\<close>

definition take_bytes :: "nat \<Rightarrow> bytes \<Rightarrow> (bytes \<times> bytes) option" where
  "take_bytes n bs = (if n \<le> length bs then Some (take n bs, drop n bs) else None)"

lemma take_bytes_shorter: "take_bytes n bs = Some (m, r) \<Longrightarrow> length r \<le> length bs"
  by (auto simp: take_bytes_def split: if_splits)

definition skip_value :: "nat \<Rightarrow> nat \<Rightarrow> bytes \<Rightarrow> (nat \<times> bytes) option" where
  "skip_value wireType depth r =
     (if wireType = 0 then map_option (\<lambda>(_, r). (depth, r)) (read_varint 0 0 r)
      else if wireType = 1 then map_option (\<lambda>(_, r). (depth, r)) (take_bytes 8 r)
      else if wireType = 2 then
        do { (n, r) \<leftarrow> read_varint 0 0 r; map_option (\<lambda>(_, r). (depth, r)) (take_bytes n r) }
      else if wireType = 3 then Some (depth + 1, r)
      else if wireType = 4 then (if depth = 0 then None else Some (depth - 1, r))
      else if wireType = 5 then map_option (\<lambda>(_, r). (depth, r)) (take_bytes 4 r)
      else None)"

lemma skip_value_shorter: "skip_value w d r = Some (d', r') \<Longrightarrow> length r' \<le> length r"
  by (auto simp: skip_value_def dest!: read_varint_shorter take_bytes_shorter split: if_splits Option.bind_splits)

function skipCanonical :: "nat \<Rightarrow> bytes \<Rightarrow> bytes option" where
  "skipCanonical depth dAtA =
     (if dAtA = [] then None
      else do {
        (wire, r) \<leftarrow> read_varint 0 0 dAtA;
        (depth', r') \<leftarrow> skip_value (wire mod 8) depth r;
        if depth' = 0 then Some r' else skipCanonical depth' r'
      })"
  by pat_completeness auto
termination
  by (relation "measure (\<lambda>(_, d). length d)") (auto dest!: read_varint_shorter skip_value_shorter)

declare skipCanonical.simps [simp del]

lemma skipCanonical_shorter: "skipCanonical depth d = Some r \<Longrightarrow> length r < length d"
proof (induction depth d rule: skipCanonical.induct)
  case (1 depth d)
  obtain wire r1 where w: "read_varint 0 0 d = Some (wire, r1)" "d \<noteq> []"
    using "1.prems" by (subst (asm) skipCanonical.simps) (auto split: if_splits Option.bind_splits)
  obtain depth' r2 where v: "skip_value (wire mod 8) depth r1 = Some (depth', r2)"
    using "1.prems" w by (subst (asm) skipCanonical.simps) (auto split: Option.bind_splits)
  have l: "length r1 < length d" "length r2 \<le> length r1" using read_varint_shorter [OF w(1)] skip_value_shorter [OF v] by auto
  show ?case
  proof (cases "depth' = 0")
    case True
    then show ?thesis using "1.prems" w v l by (subst (asm) skipCanonical.simps) simp
  next
    case False
    then have "skipCanonical depth' r2 = Some r" using "1.prems" w v by (subst (asm) skipCanonical.simps) simp
    then show ?thesis using "1.IH" [OF w(2,1) _ v _ False] l by simp
  qed
qed

text \<open>One field of a message: its number, and its value by wire type.\<close>

datatype wire_value = Varint nat | Fixed64 bytes | Delimited bytes | Skipped

definition next_field :: "bytes \<Rightarrow> ((int \<times> wire_value) \<times> bytes) option" where
  "next_field dAtA =
     do {
       (wire, r) \<leftarrow> read_varint 0 0 dAtA;
       let fieldNum = i32 (int (wire div 8)); wireType = wire mod 8 in
       if wireType = 4 \<or> fieldNum \<le> 0 then None
       else if wireType = 0 then map_option (\<lambda>(v, r). ((fieldNum, Varint v), r)) (read_varint 0 0 r)
       else if wireType = 1 then map_option (\<lambda>(v, r). ((fieldNum, Fixed64 v), r)) (take_bytes 8 r)
       else if wireType = 2 then
         do { (n, r) \<leftarrow> read_varint 0 0 r; map_option (\<lambda>(v, r). ((fieldNum, Delimited v), r)) (take_bytes n r) }
       else map_option (\<lambda>r. ((fieldNum, Skipped), r)) (skipCanonical 0 dAtA)
     }"

lemma next_field_shorter: "next_field d = Some (f, r) \<Longrightarrow> length r < length d"
  by (fastforce simp: next_field_def Let_def dest!: read_varint_shorter take_bytes_shorter skipCanonical_shorter
      split: if_splits Option.bind_splits)

function wire_fields :: "bytes \<Rightarrow> (int \<times> wire_value) list option" where
  "wire_fields dAtA =
     (if dAtA = [] then Some []
      else do { (f, r) \<leftarrow> next_field dAtA; fs \<leftarrow> wire_fields r; Some (f # fs) })"
  by pat_completeness auto
termination
  by (relation "measure length") (auto dest!: next_field_shorter)

declare wire_fields.simps [simp del]

fun fold_fields :: "('m \<Rightarrow> int \<times> wire_value \<Rightarrow> 'm option) \<Rightarrow> 'm \<Rightarrow> (int \<times> wire_value) list \<Rightarrow> 'm option" where
  "fold_fields step m [] = Some m"
| "fold_fields step m (f # fs) = do { m' \<leftarrow> step m f; fold_fields step m' fs }"

definition unmarshal :: "('m \<Rightarrow> int \<times> wire_value \<Rightarrow> 'm option) \<Rightarrow> 'm \<Rightarrow> bytes \<Rightarrow> 'm option" where
  "unmarshal step m dAtA = do { fs \<leftarrow> wire_fields dAtA; fold_fields step m fs }"

section \<open>The messages\<close>

definition sfixed64 :: "bytes \<Rightarrow> int" where
  "sfixed64 bs = i64 (\<Sum>i<8. int (unat (bs ! i)) * 2 ^ (8 * i))"

fun psh_field :: "pb_part_set_header \<Rightarrow> int \<times> wire_value \<Rightarrow> pb_part_set_header option" where
  "psh_field m (n, v) =
     (if n = 1 then (case v of Varint x \<Rightarrow> Some (m\<lparr>pbpsh_Total := x mod 2 ^ 32\<rparr>) | _ \<Rightarrow> None)
      else if n = 2 then (case v of Delimited b \<Rightarrow> Some (m\<lparr>pbpsh_Hash := b\<rparr>) | _ \<Rightarrow> None)
      else Some m)"

fun cbid_field :: "pb_canonical_block_id \<Rightarrow> int \<times> wire_value \<Rightarrow> pb_canonical_block_id option" where
  "cbid_field m (n, v) =
     (if n = 1 then (case v of Delimited b \<Rightarrow> Some (m\<lparr>cbid_Hash := b\<rparr>) | _ \<Rightarrow> None)
      else if n = 2 then
        (case v of Delimited b \<Rightarrow>
           map_option (\<lambda>h. m\<lparr>cbid_PartSetHeader := h\<rparr>) (unmarshal psh_field (cbid_PartSetHeader m) b)
         | _ \<Rightarrow> None)
      else Some m)"

definition zero_cbid :: pb_canonical_block_id where
  "zero_cbid = \<lparr>cbid_Hash = [], cbid_PartSetHeader = \<lparr>pbpsh_Total = 0, pbpsh_Hash = []\<rparr>\<rparr>"

definition merge_cbid :: "pb_canonical_block_id option \<Rightarrow> bytes \<Rightarrow> pb_canonical_block_id option" where
  "merge_cbid old b = unmarshal cbid_field (case old of None \<Rightarrow> zero_cbid | Some x \<Rightarrow> x) b"

fun cv_field :: "(bytes \<Rightarrow> int option) \<Rightarrow> canonical_vote \<Rightarrow> int \<times> wire_value \<Rightarrow> canonical_vote option" where
  "cv_field timeOf m (n, v) =
     (if n = 1 then (case v of Varint x \<Rightarrow> Some (m\<lparr>cv_Type := i32 (int x)\<rparr>) | _ \<Rightarrow> None)
      else if n = 2 then (case v of Fixed64 b \<Rightarrow> Some (m\<lparr>cv_Height := sfixed64 b\<rparr>) | _ \<Rightarrow> None)
      else if n = 3 then (case v of Fixed64 b \<Rightarrow> Some (m\<lparr>cv_Round := sfixed64 b\<rparr>) | _ \<Rightarrow> None)
      else if n = 4 then
        (case v of Delimited b \<Rightarrow> map_option (\<lambda>x. m\<lparr>cv_BlockID := Some x\<rparr>) (merge_cbid (cv_BlockID m) b) | _ \<Rightarrow> None)
      else if n = 5 then
        (case v of Delimited b \<Rightarrow> map_option (\<lambda>t. m\<lparr>cv_Timestamp := t\<rparr>) (timeOf b) | _ \<Rightarrow> None)
      else if n = 6 then (case v of Delimited b \<Rightarrow> Some (m\<lparr>cv_ChainID := b\<rparr>) | _ \<Rightarrow> None)
      else Some m)"

fun cp_field :: "(bytes \<Rightarrow> int option) \<Rightarrow> canonical_proposal \<Rightarrow> int \<times> wire_value \<Rightarrow> canonical_proposal option" where
  "cp_field timeOf m (n, v) =
     (if n = 1 then (case v of Varint x \<Rightarrow> Some (m\<lparr>cp_Type := i32 (int x)\<rparr>) | _ \<Rightarrow> None)
      else if n = 2 then (case v of Fixed64 b \<Rightarrow> Some (m\<lparr>cp_Height := sfixed64 b\<rparr>) | _ \<Rightarrow> None)
      else if n = 3 then (case v of Fixed64 b \<Rightarrow> Some (m\<lparr>cp_Round := sfixed64 b\<rparr>) | _ \<Rightarrow> None)
      else if n = 4 then (case v of Varint x \<Rightarrow> Some (m\<lparr>cp_POLRound := i64 (int x)\<rparr>) | _ \<Rightarrow> None)
      else if n = 5 then
        (case v of Delimited b \<Rightarrow> map_option (\<lambda>x. m\<lparr>cp_BlockID := Some x\<rparr>) (merge_cbid (cp_BlockID m) b) | _ \<Rightarrow> None)
      else if n = 6 then
        (case v of Delimited b \<Rightarrow> map_option (\<lambda>t. m\<lparr>cp_Timestamp := t\<rparr>) (timeOf b) | _ \<Rightarrow> None)
      else if n = 7 then (case v of Delimited b \<Rightarrow> Some (m\<lparr>cp_ChainID := b\<rparr>) | _ \<Rightarrow> None)
      else Some m)"

definition cv_Unmarshal :: "(bytes \<Rightarrow> int option) \<Rightarrow> int \<Rightarrow> bytes \<Rightarrow> canonical_vote option" where
  "cv_Unmarshal timeOf zeroTime dAtA =
     unmarshal (cv_field timeOf)
       \<lparr>cv_Type = 0, cv_Height = 0, cv_Round = 0, cv_BlockID = None, cv_Timestamp = zeroTime, cv_ChainID = []\<rparr> dAtA"

definition cp_Unmarshal :: "(bytes \<Rightarrow> int option) \<Rightarrow> int \<Rightarrow> bytes \<Rightarrow> canonical_proposal option" where
  "cp_Unmarshal timeOf zeroTime dAtA =
     unmarshal (cp_field timeOf)
       \<lparr>cp_Type = 0, cp_Height = 0, cp_Round = 0, cp_POLRound = 0, cp_BlockID = None, cp_Timestamp = zeroTime,
        cp_ChainID = []\<rparr> dAtA"

section \<open>Delimited messages\<close>

text \<open>\<open>binary.ReadUvarint\<close> of the standard library: at most ten bytes, the last at most one.\<close>

fun ReadUvarint :: "nat \<Rightarrow> nat \<Rightarrow> bytes \<Rightarrow> (nat \<times> bytes) option" where
  "ReadUvarint i x [] = None"
| "ReadUvarint i x (b # bs) =
     (if i \<ge> 10 then None
      else if unat b < 128 then
        (if i = 9 \<and> unat b > 1 then None else Some (x + unat b * 2 ^ (7 * i), bs))
      else ReadUvarint (Suc i) (x + (unat b mod 128) * 2 ^ (7 * i)) bs)"

definition ReadMsg :: "(bytes \<Rightarrow> 'm option) \<Rightarrow> nat \<Rightarrow> bytes \<Rightarrow> 'm option" where
  "ReadMsg dec maxSize data =
     do {
       (l, r) \<leftarrow> ReadUvarint 0 0 data;
       if l \<ge> 2 ^ 63 - 1 \<or> l > maxSize then None
       else do { (buf, _) \<leftarrow> take_bytes l r; dec buf }
     }"

definition UnmarshalDelimited :: "(bytes \<Rightarrow> 'm option) \<Rightarrow> bytes \<Rightarrow> 'm option" where
  "UnmarshalDelimited dec data = ReadMsg dec (length data) data"

section \<open>Reading what was written\<close>

lemma encode_byte: "v < 128 \<Longrightarrow> unat (of_nat v :: byte) = v" "unat (of_nat (v mod 128 + 128) :: byte) = v mod 128 + 128"
  by (simp_all add: unat_of_nat take_bit_nat_eq_self del: of_nat_add)

lemma varint_parts: "v mod 128 * 2 ^ s + v div 128 * 2 ^ (s + 7) = v * 2 ^ s" for v :: nat
proof -
  have "v * 2 ^ s = (v mod 128 + v div 128 * 128) * 2 ^ s" by simp
  also have "\<dots> = v mod 128 * 2 ^ s + v div 128 * (128 * 2 ^ s)" by (simp only: distrib_right mult.assoc)
  also have "128 * 2 ^ s = (2 :: nat) ^ (s + 7)" by (simp add: power_add)
  finally show ?thesis by simp
qed

lemma map_append_Nil: "map_option ((@) []) x = x"
  by (cases x) auto

lemma append_single [simp]: "(@) [x] = (#) x"
  by (rule ext) simp

lemma read_varint_encode:
  assumes "a < 2 ^ s" "s < 64" "v < 2 ^ (64 - s)"
  shows "read_varint s a (encodeVarint v @ r) = Some (a + v * 2 ^ s, r)"
  using assms
proof (induction v arbitrary: a s rule: encodeVarint.induct)
  case (1 v)
  have p: "2 ^ (64 - s) * 2 ^ s = (2 :: nat) ^ 64" using "1.prems"(2) by (simp flip: power_add)
  have "(v + 1) * 2 ^ s \<le> 2 ^ (64 - s) * 2 ^ s" using "1.prems"(3) by (intro mult_right_mono) auto
  then have bound: "a + v * 2 ^ s < 2 ^ 64" using "1.prems"(1) p by (simp add: algebra_simps)
  show ?case
  proof (cases "128 \<le> v")
    case False
    then show ?thesis
      using bound "1.prems"(2) by (subst encodeVarint.simps) (simp add: encode_byte Let_def del: of_nat_add)
  next
    case True
    have "(2 :: nat) ^ 7 < 2 ^ (64 - s)" using True "1.prems"(3) by simp
    then have s: "s + 7 < 64" by (subst (asm) power_strict_increasing_iff) auto
    have "64 - s = (64 - (s + 7)) + 7" using s by simp
    then have e: "(2 :: nat) ^ (64 - s) = 2 ^ (64 - (s + 7)) * 128" by (simp only: power_add) simp
    let ?a = "a + v mod 128 * 2 ^ s"
    have "v mod 128 * 2 ^ s \<le> 127 * 2 ^ s" by (intro mult_right_mono) (auto simp: less_Suc_eq_le [symmetric])
    then have "?a < 128 * 2 ^ s" using "1.prems"(1) by linarith
    then have a: "?a < 2 ^ (s + 7)" by (simp add: power_add)
    have "v div 128 < 2 ^ (64 - (s + 7))" using "1.prems"(3) e by (simp add: less_mult_imp_div_less)
    from "1.IH" [OF True a s this]
    have ih: "read_varint (s + 7) ?a (encodeVarint (v div 128) @ r) = Some (?a + v div 128 * 2 ^ (s + 7), r)" .
    have "v mod 128 * 2 ^ s \<le> v * 2 ^ s" by (intro mult_right_mono) auto
    then have "?a < 2 ^ 64" using bound by linarith
    then have "read_varint s a (encodeVarint v @ r) = Some (?a + v div 128 * 2 ^ (s + 7), r)"
      using True "1.prems"(2) ih by (subst encodeVarint.simps) (simp add: encode_byte Let_def del: of_nat_add)
    then show ?thesis using varint_parts [of v s] by (simp add: add.assoc)
  qed
qed

lemma read_varint_0: "v < 2 ^ 64 \<Longrightarrow> read_varint 0 0 (encodeVarint v @ r) = Some (v, r)"
  using read_varint_encode [of 0 0 v r] by simp

lemma ReadUvarint_encode:
  assumes "v * 2 ^ (7 * i) < 2 ^ 64" "i \<le> 9"
  shows "ReadUvarint i x (encodeVarint v @ r) = Some (x + v * 2 ^ (7 * i), r)"
  using assms
proof (induction v arbitrary: x i rule: encodeVarint.induct)
  case (1 v)
  show ?case
  proof (cases "128 \<le> v")
    case False
    have "\<not> v > 1" if "i = 9" using "1.prems"(1) that by simp
    then show ?thesis
      using False "1.prems"(2) by (subst encodeVarint.simps) (auto simp: encode_byte)
  next
    case True
    have i: "i \<noteq> 9" using True "1.prems"(1) by auto
    have "v div 128 * 2 ^ (7 * Suc i) = v div 128 * 128 * 2 ^ (7 * i)" by (simp add: power_add)
    also have "\<dots> \<le> v * 2 ^ (7 * i)" by (intro mult_right_mono) auto
    finally have le: "v div 128 * 2 ^ (7 * Suc i) < 2 ^ 64" using "1.prems"(1) by linarith
    have e: "x + v mod 128 * 2 ^ (7 * i) + v div 128 * 2 ^ (7 * Suc i) = x + v * 2 ^ (7 * i)"
      using varint_parts [of v "7 * i"] by (simp add: add.commute)
    have "ReadUvarint i x (encodeVarint v @ r) = ReadUvarint (Suc i) (x + v mod 128 * 2 ^ (7 * i)) (encodeVarint (v div 128) @ r)"
      using True "1.prems"(2) by (subst encodeVarint.simps) (simp add: encode_byte del: of_nat_add)
    then show ?thesis using "1.IH" [OF True le, of "x + v mod 128 * 2 ^ (7 * i)"] i "1.prems"(2) e by simp
  qed
qed

lemma UnmarshalDelimited_MarshalDelimited:
  assumes "length m < 2 ^ 63 - 1"
  shows "UnmarshalDelimited dec (MarshalDelimited m) = dec m"
  using assms ReadUvarint_encode [of "length m" 0 0 m] by (simp add: UnmarshalDelimited_def ReadMsg_def MarshalDelimited_def take_bytes_def)

lemma next_field_tag:
  assumes "unat t < 128" "8 \<le> unat t"
  shows "read_varint 0 0 (t # r) = Some (unat t, r)" "i32 (int (unat t div 8)) = int (unat t div 8)" "0 < int (unat t div 8)"
  using assms by (auto simp: Let_def div_greater_zero_iff in_i32_def intro!: i32_id)

lemma wire_fields_cons: "next_field d = Some (f, r) \<Longrightarrow> wire_fields d = map_option ((#) f) (wire_fields r)"
  by (cases "d = []"; cases "wire_fields r") (simp_all add: next_field_def [of "[]"] wire_fields.simps [of d])

lemma wire_fields_varint:
  assumes "unat t < 128" "8 \<le> unat t" "unat t mod 8 = 0" "v < 2 ^ 64"
  shows "wire_fields (varint_field t v @ r)
    = map_option ((@) (if v = 0 then [] else [(int (unat t div 8), Varint v)])) (wire_fields r)"
proof (cases "v = 0")
  case True
  then show ?thesis by (simp add: varint_field_def map_append_Nil)
next
  case False
  have "next_field (t # encodeVarint v @ r) = Some ((int (unat t div 8), Varint v), r)"
    using next_field_tag [OF assms(1,2)] read_varint_0 [OF assms(4)] assms(3) by (simp add: next_field_def Let_def)
  from wire_fields_cons [OF this] show ?thesis using False by (simp add: varint_field_def)
qed

lemma wire_fields_fixed64:
  assumes "unat t < 128" "8 \<le> unat t" "unat t mod 8 = 1"
  shows "wire_fields (fixed64_field t x @ r)
    = map_option ((@) (if x = 0 then [] else [(int (unat t div 8), Fixed64 (le64 x))])) (wire_fields r)"
proof (cases "x = 0")
  case True
  then show ?thesis by (simp add: fixed64_field_def map_append_Nil)
next
  case False
  have "next_field (t # le64 x @ r) = Some ((int (unat t div 8), Fixed64 (le64 x)), r)"
    using next_field_tag [OF assms(1,2)] assms(3) length_le64 [of x] by (simp add: next_field_def Let_def take_bytes_def)
  from wire_fields_cons [OF this] show ?thesis using False by (simp add: fixed64_field_def)
qed

lemma wire_fields_message:
  assumes "unat t < 128" "8 \<le> unat t" "unat t mod 8 = 2" "length m < 2 ^ 64"
  shows "wire_fields (message_field t m @ r) = map_option ((#) (int (unat t div 8), Delimited m)) (wire_fields r)"
proof -
  have "next_field (t # encodeVarint (length m) @ m @ r) = Some ((int (unat t div 8), Delimited m), r)"
    using next_field_tag [OF assms(1,2)] read_varint_0 [OF assms(4)] assms(3) by (simp add: next_field_def Let_def take_bytes_def)
  from wire_fields_cons [OF this] show ?thesis by (simp add: message_field_def)
qed

lemma wire_fields_bytes:
  assumes "unat t < 128" "8 \<le> unat t" "unat t mod 8 = 2" "length m < 2 ^ 64"
  shows "wire_fields (bytes_field t m @ r)
    = map_option ((@) (if m = [] then [] else [(int (unat t div 8), Delimited m)])) (wire_fields r)"
  using wire_fields_message [OF assms] by (auto simp: bytes_field_def map_append_Nil)

lemma wire_fields_opt:
  assumes "unat t < 128" "8 \<le> unat t" "unat t mod 8 = 2" "pred_option (\<lambda>b. length b < 2 ^ 64) m"
  shows "wire_fields (opt_message_field t m @ r)
    = map_option ((@) (case m of None \<Rightarrow> [] | Some b \<Rightarrow> [(int (unat t div 8), Delimited b)])) (wire_fields r)"
  using wire_fields_message [OF assms(1-3)] assms(4) by (cases m) (auto simp: opt_message_field_def map_append_Nil)

lemma wire_fields_Nil: "wire_fields [] = Some []"
  by (simp add: wire_fields.simps)

lemmas wire_fields_last = wire_fields_message [where r = "[]", unfolded append_Nil2] wire_fields_bytes [where r = "[]", unfolded append_Nil2]

lemmas wire_fields_encoded = wire_fields_varint wire_fields_fixed64 wire_fields_message wire_fields_bytes wire_fields_opt
  wire_fields_last wire_fields_Nil

lemma fold_fields_append: "fold_fields step m (xs @ ys) = do { m' \<leftarrow> fold_fields step m xs; fold_fields step m' ys }"
  by (induction xs arbitrary: m) auto

lemma digits_sum: "(\<Sum>i<n. x div 256 ^ i mod 256 * 256 ^ i) = x mod 256 ^ n" for x :: int
proof (induction n)
  case (Suc n)
  have "x mod 256 ^ Suc n = 256 ^ n * (x div 256 ^ n mod 256) + x mod 256 ^ n"
    using zmod_zmult2_eq [of 256 x "256 ^ n"] by (simp add: mult.commute)
  then show ?case using Suc by simp
qed simp

lemma i64_mod: "i64 (x mod 2 ^ 64) = i64 x"
  by (simp add: wrap_def mod_add_left_eq)

lemma i64_u64: "in_i64 x \<Longrightarrow> i64 (int (u64 x)) = x"
  using i64_mod [of x] by (simp add: u64_def)

lemma i32_u64: "in_i32 x \<Longrightarrow> i32 (int (u64 x)) = x"
proof -
  assume x: "in_i32 x"
  have "(x mod 2 ^ 64 + 2 ^ 31) mod 2 ^ 32 = ((x mod 2 ^ 64) mod 2 ^ 32 + 2 ^ 31) mod (2 ^ 32 :: int)"
    by (simp add: mod_add_left_eq)
  also have "(x mod 2 ^ 64) mod 2 ^ 32 = x mod (2 ^ 32 :: int)" by (simp add: mod_mod_cancel)
  finally have "i32 (x mod 2 ^ 64) = i32 x" by (simp add: wrap_def mod_add_left_eq)
  then show ?thesis using i32_id [OF x] by (simp add: u64_def)
qed

lemma u64_bound: "u64 x < 2 ^ 64"
  by (simp add: u64_def)

lemma sfixed64_le64:
  assumes "in_i64 x"
  shows "sfixed64 (le64 x) = x"
proof -
  have byte: "int (unat (le64 x ! i)) * 2 ^ (8 * i) = (x mod 2 ^ 64) div 256 ^ i mod 256 * 256 ^ i" if "i < 8" for i
  proof -
    have "int (unat (le64 x ! i)) = uint (ucast (drop_bit (8 * i) (word_of_int x :: 64 word)) :: byte)"
      using that by (simp add: le64_def le_bytes_def)
    also have "\<dots> = take_bit 8 (drop_bit (8 * i) (take_bit 64 x))"
      by (simp add: unsigned_ucast_eq unsigned_drop_bit_eq unsigned_of_int)
    finally show ?thesis by (simp add: take_bit_eq_mod drop_bit_eq_div power_mult)
  qed
  have "(\<Sum>i<8. int (unat (le64 x ! i)) * 2 ^ (8 * i)) = (x mod 2 ^ 64) mod 256 ^ 8"
    using byte digits_sum [of "x mod 2 ^ 64" 8] by simp
  also have "\<dots> = x mod 2 ^ 64" by simp
  finally show ?thesis using assms i64_mod [of x] by (simp add: sfixed64_def)
qed

text \<open>The messages the code encodes are small; the bound is only needed for lengths to fit their varint.\<close>

definition psh_fits :: "pb_part_set_header \<Rightarrow> bool" where
  "psh_fits m \<longleftrightarrow> pbpsh_Total m < 2 ^ 32 \<and> length (pbpsh_Hash m) < 2 ^ 16"

definition cbid_fits :: "pb_canonical_block_id \<Rightarrow> bool" where
  "cbid_fits m \<longleftrightarrow> length (cbid_Hash m) < 2 ^ 16 \<and> psh_fits (cbid_PartSetHeader m)"

lemma varint_short: "v < 2 ^ 64 \<Longrightarrow> length (encodeVarint v) \<le> 10"
proof -
  have len: "v < 2 ^ (7 * Suc k) \<Longrightarrow> length (encodeVarint v) \<le> Suc k" for k v
  proof (induction k arbitrary: v)
    case 0
    then show ?case by (subst encodeVarint.simps) simp
  next
    case (Suc k)
    have "v div 128 < 2 ^ (7 * Suc k)" using Suc.prems by (simp add: less_mult_imp_div_less power_add mult.commute)
    then show ?case using Suc.IH [of "v div 128"] by (subst encodeVarint.simps) simp
  qed
  assume "v < 2 ^ 64"
  then have "v < 2 ^ (7 * Suc 9)" by simp
  then show ?thesis using len [of v 9] by simp
qed

lemma message_field_length: "length m < 2 ^ 64 \<Longrightarrow> length (message_field t m) \<le> 11 + length m"
  using varint_short [of "length m"] by (simp add: message_field_def)

lemma bytes_field_length: "length m < 2 ^ 64 \<Longrightarrow> length (bytes_field t m) \<le> 11 + length m"
  using message_field_length [of m t] by (simp add: bytes_field_def)

lemma varint_field_length: "v < 2 ^ 64 \<Longrightarrow> length (varint_field t v) \<le> 11"
  using varint_short [of v] by (simp add: varint_field_def)

lemma psh_length: "psh_fits m \<Longrightarrow> length (psh_Marshal m) < 2 ^ 17"
  using varint_field_length [of "pbpsh_Total m" 8] bytes_field_length [of "pbpsh_Hash m" 18]
  by (simp add: psh_Marshal_def psh_fits_def)

lemma cbid_length: "cbid_fits m \<Longrightarrow> length (cbid_Marshal m) < 2 ^ 18"
  using psh_length [of "cbid_PartSetHeader m"] bytes_field_length [of "cbid_Hash m" 10]
    message_field_length [of "psh_Marshal (cbid_PartSetHeader m)" 18]
  by (simp add: cbid_Marshal_def cbid_fits_def)

lemma psh_round_trip:
  assumes "psh_fits m" "m0 = \<lparr>pbpsh_Total = 0, pbpsh_Hash = []\<rparr>"
  shows "unmarshal psh_field m0 (psh_Marshal m) = Some m"
proof -
  have "wire_fields (psh_Marshal m @ []) = Some ((if pbpsh_Total m = 0 then [] else [(1, Varint (pbpsh_Total m))])
      @ (if pbpsh_Hash m = [] then [] else [(2, Delimited (pbpsh_Hash m))]) @ [])"
    using assms(1) unfolding psh_Marshal_def append_assoc psh_fits_def by (simp add: wire_fields_encoded)
  then show ?thesis using assms by (simp add: unmarshal_def fold_fields_append psh_fits_def)
qed

lemma cbid_round_trip:
  assumes "cbid_fits m"
  shows "merge_cbid None (cbid_Marshal m) = Some m"
proof -
  have "psh_fits (cbid_PartSetHeader m)" using assms by (simp add: cbid_fits_def)
  note p = psh_round_trip [OF this refl] psh_length [OF this]
  have "wire_fields (cbid_Marshal m @ []) = Some ((if cbid_Hash m = [] then [] else [(1, Delimited (cbid_Hash m))])
      @ [(2, Delimited (psh_Marshal (cbid_PartSetHeader m)))] @ [])"
    using assms p(2) unfolding cbid_Marshal_def append_assoc cbid_fits_def by (simp add: wire_fields_encoded)
  then show ?thesis using p(1) by (simp add: merge_cbid_def unmarshal_def fold_fields_append zero_cbid_def)
qed

definition cv_fits :: "canonical_vote \<Rightarrow> bool" where
  "cv_fits m \<longleftrightarrow> in_i32 (cv_Type m) \<and> in_i64 (cv_Height m) \<and> in_i64 (cv_Round m)
     \<and> (\<forall>b. cv_BlockID m = Some b \<longrightarrow> cbid_fits b) \<and> length (cv_ChainID m) < 2 ^ 16"

definition cp_fits :: "canonical_proposal \<Rightarrow> bool" where
  "cp_fits m \<longleftrightarrow> in_i32 (cp_Type m) \<and> in_i64 (cp_Height m) \<and> in_i64 (cp_Round m) \<and> in_i64 (cp_POLRound m)
     \<and> (\<forall>b. cp_BlockID m = Some b \<longrightarrow> cbid_fits b) \<and> length (cp_ChainID m) < 2 ^ 16"

text \<open>What the code relies on of the library's timestamps: they are short and read back.\<close>

definition time_ok :: "(int \<Rightarrow> bytes) \<Rightarrow> (bytes \<Rightarrow> int option) \<Rightarrow> int \<Rightarrow> bool" where
  "time_ok stdTime timeOf t \<longleftrightarrow> timeOf (stdTime t) = Some t \<and> length (stdTime t) < 2 ^ 16"

lemma u64_zero_iff: "in_i64 x \<Longrightarrow> u64 x = 0 \<longleftrightarrow> x = 0"
  using u64_inj [of x 0] by (auto simp: u64_def [of 0])

lemma i32_in_i64: "in_i32 x \<Longrightarrow> in_i64 x"
  by (simp add: in_i32_def in_i64_def)

lemma cv_round_trip:
  assumes "cv_fits m" "time_ok stdTime timeOf (cv_Timestamp m)"
  shows "cv_Unmarshal timeOf z (cv_Marshal stdTime m) = Some m"
proof -
  let ?b = "map_option cbid_Marshal (cv_BlockID m)" and ?t = "stdTime (cv_Timestamp m)"
  have bl: "pred_option (\<lambda>b. length b < 2 ^ 64) ?b"
    using cbid_length [of "the (cv_BlockID m)"] assms(1) by (cases "cv_BlockID m") (simp_all add: cv_fits_def)
  have "wire_fields (cv_Marshal stdTime m @ []) = Some (
      (if u64 (cv_Type m) = 0 then [] else [(1, Varint (u64 (cv_Type m)))])
      @ (if cv_Height m = 0 then [] else [(2, Fixed64 (le64 (cv_Height m)))])
      @ (if cv_Round m = 0 then [] else [(3, Fixed64 (le64 (cv_Round m)))])
      @ (case ?b of None \<Rightarrow> [] | Some b \<Rightarrow> [(4, Delimited b)]) @ [(5, Delimited ?t)]
      @ (if cv_ChainID m = [] then [] else [(6, Delimited (cv_ChainID m))]) @ [])"
    using assms bl u64_bound [of "cv_Type m"] unfolding cv_Marshal_def append_assoc cv_fits_def time_ok_def
    by (cases "cv_BlockID m") (simp_all add: wire_fields_encoded)
  then show ?thesis
    using assms u64_zero_iff [of "cv_Type m"] i32_in_i64 cbid_round_trip
    by (cases "cv_BlockID m") (auto simp: cv_Unmarshal_def unmarshal_def fold_fields_append cv_fits_def time_ok_def
        i32_u64 sfixed64_le64)
qed

lemma cp_round_trip:
  assumes "cp_fits m" "time_ok stdTime timeOf (cp_Timestamp m)"
  shows "cp_Unmarshal timeOf z (cp_Marshal stdTime m) = Some m"
proof -
  let ?b = "map_option cbid_Marshal (cp_BlockID m)" and ?t = "stdTime (cp_Timestamp m)"
  have bl: "pred_option (\<lambda>b. length b < 2 ^ 64) ?b"
    using cbid_length [of "the (cp_BlockID m)"] assms(1) by (cases "cp_BlockID m") (simp_all add: cp_fits_def)
  have "wire_fields (cp_Marshal stdTime m @ []) = Some (
      (if u64 (cp_Type m) = 0 then [] else [(1, Varint (u64 (cp_Type m)))])
      @ (if cp_Height m = 0 then [] else [(2, Fixed64 (le64 (cp_Height m)))])
      @ (if cp_Round m = 0 then [] else [(3, Fixed64 (le64 (cp_Round m)))])
      @ (if u64 (cp_POLRound m) = 0 then [] else [(4, Varint (u64 (cp_POLRound m)))])
      @ (case ?b of None \<Rightarrow> [] | Some b \<Rightarrow> [(5, Delimited b)]) @ [(6, Delimited ?t)]
      @ (if cp_ChainID m = [] then [] else [(7, Delimited (cp_ChainID m))]) @ [])"
    using assms bl u64_bound [of "cp_Type m"] u64_bound [of "cp_POLRound m"]
    unfolding cp_Marshal_def append_assoc cp_fits_def time_ok_def
    by (cases "cp_BlockID m") (simp_all add: wire_fields_encoded)
  then show ?thesis
    using assms u64_zero_iff [of "cp_Type m"] u64_zero_iff [of "cp_POLRound m"] i32_in_i64 cbid_round_trip
    by (cases "cp_BlockID m") (auto simp: cp_Unmarshal_def unmarshal_def fold_fields_append cp_fits_def time_ok_def
        i32_u64 i64_u64 sfixed64_le64)
qed

end
