(* ===== verification/Proposal.thy ===== *)
theory Proposal
  imports BlockTypes ProtoDecode
begin

text \<open>
  Proposals (\<open>types/proposal.go\<close>): their basic validation, their canonical form and sign bytes
  (\<open>types/canonical.go\<close>), and their conversion to and from protobuf.
\<close>

record proposal =
  p_Type :: int
  p_Height :: int
  p_Round :: int
  p_POLRound :: int
  p_BlockID :: block_id
  p_Timestamp :: int
  p_Signature :: bytes

record pb_proposal =
  pbp_Type :: int
  pbp_Height :: int
  pbp_Round :: int
  pbp_PolRound :: int
  pbp_BlockID :: pb_block_id
  pbp_Timestamp :: int
  pbp_Signature :: bytes

definition NewProposal :: "int \<Rightarrow> int \<Rightarrow> int \<Rightarrow> int \<Rightarrow> block_id \<Rightarrow> proposal" where
  "NewProposal now height rnd polRound blockID =
     \<lparr>p_Type = ProposalType, p_Height = height, p_Round = rnd, p_POLRound = polRound, p_BlockID = blockID,
      p_Timestamp = now, p_Signature = []\<rparr>"

datatype proposal_error = PErrType | PErrHeight | PErrRound | PErrPOLRound | PErrBlockID basic_error
  | PErrIncomplete | PErrNoSignature | PErrBigSignature

definition proposal_ValidateBasic :: "proposal \<Rightarrow> proposal_error option" where
  "proposal_ValidateBasic p =
     (if p_Type p \<noteq> ProposalType then Some PErrType
      else if p_Height p < 0 then Some PErrHeight
      else if p_Round p < 0 then Some PErrRound
      else if p_POLRound p < -1 then Some PErrPOLRound
      else case bid_ValidateBasic (p_BlockID p) of
        Some e \<Rightarrow> Some (PErrBlockID e)
      | None \<Rightarrow>
          (if \<not> bid_IsComplete (p_BlockID p) then Some PErrIncomplete
           else if length (p_Signature p) = 0 then Some PErrNoSignature
           else if int (length (p_Signature p)) > MaxSignatureSize then Some PErrBigSignature
           else None))"

definition CanonicalizeProposal :: "bytes \<Rightarrow> pb_proposal \<Rightarrow> canonical_proposal option" where
  "CanonicalizeProposal chainID p =
     map_option (\<lambda>bid. \<lparr>cp_Type = ProposalType, cp_Height = pbp_Height p, cp_Round = pbp_Round p,
                        cp_POLRound = pbp_PolRound p, cp_BlockID = bid, cp_Timestamp = pbp_Timestamp p,
                        cp_ChainID = chainID\<rparr>)
       (CanonicalizeBlockID (pbp_BlockID p))"

definition ProposalSignBytes :: "env \<Rightarrow> bytes \<Rightarrow> pb_proposal \<Rightarrow> bytes option" where
  "ProposalSignBytes E chainID p =
     map_option (\<lambda>pb. MarshalDelimited (cp_Marshal (env_StdTime E) pb)) (CanonicalizeProposal chainID p)"

definition proposal_ToProto :: "proposal option \<Rightarrow> pb_proposal" where
  "proposal_ToProto p =
     (case p of
        None \<Rightarrow> \<lparr>pbp_Type = 0, pbp_Height = 0, pbp_Round = 0, pbp_PolRound = 0, pbp_BlockID = bid_ToProto zero_block_id,
                  pbp_Timestamp = zero_time, pbp_Signature = []\<rparr>
      | Some p \<Rightarrow>
          \<lparr>pbp_Type = p_Type p, pbp_Height = p_Height p, pbp_Round = p_Round p, pbp_PolRound = p_POLRound p,
           pbp_BlockID = bid_ToProto (p_BlockID p), pbp_Timestamp = p_Timestamp p, pbp_Signature = p_Signature p\<rparr>)"

datatype proposal_proto_error = PErrNil | PErrProtoBlockID basic_error | PErrInvalid proposal_error

definition ProposalFromProto :: "pb_proposal option \<Rightarrow> proposal_proto_error + proposal" where
  "ProposalFromProto pp =
     (case pp of
        None \<Rightarrow> Inl PErrNil
      | Some pp \<Rightarrow>
          (case BlockIDFromProto (pbp_BlockID pp) of
             Inl e \<Rightarrow> Inl (PErrProtoBlockID e)
           | Inr blockID \<Rightarrow>
               (let p = \<lparr>p_Type = pbp_Type pp, p_Height = pbp_Height pp, p_Round = pbp_Round pp,
                         p_POLRound = pbp_PolRound pp, p_BlockID = blockID, p_Timestamp = pbp_Timestamp pp,
                         p_Signature = pbp_Signature pp\<rparr> in
                case proposal_ValidateBasic p of Some e \<Rightarrow> Inl (PErrInvalid e) | None \<Rightarrow> Inr p)))"

text \<open>A valid proposal survives the conversion, and nothing invalid comes out of it.\<close>

lemma proposal_eta [simp]:
  "\<lparr>p_Type = p_Type p, p_Height = p_Height p, p_Round = p_Round p, p_POLRound = p_POLRound p, p_BlockID = p_BlockID p,
    p_Timestamp = p_Timestamp p, p_Signature = p_Signature p\<rparr> = p"
  by simp

lemma proposal_from_to:
  "ProposalFromProto (Some (proposal_ToProto (Some p))) = Inr p \<longleftrightarrow> proposal_ValidateBasic p = None"
proof (cases "bid_ValidateBasic (p_BlockID p)")
  case None
  then show ?thesis
    using bid_from_to_valid [OF None]
    by (auto simp: ProposalFromProto_def proposal_ToProto_def Let_def split: option.splits)
next
  case (Some e)
  then show ?thesis
    by (auto simp: ProposalFromProto_def proposal_ToProto_def Let_def proposal_ValidateBasic_def dest: bid_from_to_Inr
        split: option.splits sum.splits if_splits)
qed

lemma proposal_from_proto_valid: "ProposalFromProto pp = Inr p \<Longrightarrow> proposal_ValidateBasic p = None"
  by (auto simp: ProposalFromProto_def Let_def split: option.splits sum.splits)

section \<open>Sign bytes read back\<close>

text \<open>The times that gogo/protobuf encodes: from year 1 to year 9999.\<close>

definition time_in_range :: "int \<Rightarrow> bool" where
  "time_in_range t \<longleftrightarrow> -62135596800 * 10 ^ 9 \<le> t \<and> t < 253402300800 * 10 ^ 9"

definition pbv_in_range :: "pb_vote \<Rightarrow> bool" where
  "pbv_in_range v \<longleftrightarrow> in_i32 (pbv_Type v) \<and> in_i64 (pbv_Height v) \<and> in_i32 (pbv_Round v)
     \<and> pbpsh_Total (pbbid_PartSetHeader (pbv_BlockID v)) < 2 ^ 32 \<and> time_in_range (pbv_Timestamp v)"

definition pbp_in_range :: "pb_proposal \<Rightarrow> bool" where
  "pbp_in_range p \<longleftrightarrow> in_i64 (pbp_Height p) \<and> in_i32 (pbp_Round p) \<and> in_i32 (pbp_PolRound p)
     \<and> pbpsh_Total (pbbid_PartSetHeader (pbp_BlockID p)) < 2 ^ 32 \<and> time_in_range (pbp_Timestamp p)"

definition times_ok :: "env \<Rightarrow> (bytes \<Rightarrow> int option) \<Rightarrow> bool" where
  "times_ok E timeOf \<longleftrightarrow> (\<forall>t. time_in_range t \<longrightarrow> time_ok (env_StdTime E) timeOf t)"

lemma canonical_block_fits:
  assumes "CanonicalizeBlockID b = Some (Some c)" "pbpsh_Total (pbbid_PartSetHeader b) < 2 ^ 32"
  shows "cbid_fits c"
proof -
  have c: "c = \<lparr>cbid_Hash = pbbid_Hash b, cbid_PartSetHeader = pbbid_PartSetHeader b\<rparr>" and "\<exists>r. BlockIDFromProto b = Inr r"
    using assms(1) by (auto simp: CanonicalizeBlockID_def CanonicalizePartSetHeader_def split: sum.splits if_splits)
  then obtain r where "BlockIDFromProto b = Inr r" by blast
  then have "length (pbbid_Hash b) \<le> 32" "length (pbpsh_Hash (pbbid_PartSetHeader b)) \<le> 32"
    by (auto simp: BlockIDFromProto_def PartSetHeaderFromProto_def Let_def bid_ValidateBasic_def psh_ValidateBasic_def
        ValidateHash_def split: sum.splits option.splits if_splits)
  then show ?thesis using assms(2) c by (simp add: cbid_fits_def psh_fits_def)
qed

lemma canonical_vote_fits:
  assumes "CanonicalizeVote chainID v = Some c" "pbv_in_range v" "length chainID < 2 ^ 16"
  shows "cv_fits c" "time_in_range (cv_Timestamp c)"
  using assms canonical_block_fits [of "pbv_BlockID v"]
  by (auto simp: CanonicalizeVote_def pbv_in_range_def cv_fits_def i32_in_i64)

lemma canonical_proposal_fits:
  assumes "CanonicalizeProposal chainID p = Some c" "pbp_in_range p" "length chainID < 2 ^ 16"
  shows "cp_fits c" "time_in_range (cp_Timestamp c)"
  using assms canonical_block_fits [of "pbp_BlockID p"]
  by (auto simp: CanonicalizeProposal_def pbp_in_range_def cp_fits_def i32_in_i64 in_i32_def [of 32])

lemma block_field_length:
  assumes "\<forall>b. ob = Some b \<longrightarrow> cbid_fits b"
  shows "length (opt_message_field t (map_option cbid_Marshal ob)) \<le> 11 + 2 ^ 18"
proof (cases ob)
  case (Some b)
  then have "length (cbid_Marshal b) < 2 ^ 18" using assms cbid_length by blast
  then show ?thesis using message_field_length [of "cbid_Marshal b" t] Some by (simp add: opt_message_field_def)
qed (simp add: opt_message_field_def)

lemma cv_length:
  assumes "cv_fits m" "time_ok stdTime timeOf (cv_Timestamp m)"
  shows "length (cv_Marshal stdTime m) < 2 ^ 63 - 1"
proof -
  have "length (opt_message_field 0x22 (map_option cbid_Marshal (cv_BlockID m))) \<le> 11 + 2 ^ 18"
    using assms(1) block_field_length [of "cv_BlockID m" "0x22"] by (simp add: cv_fits_def)
  then show ?thesis
    using assms varint_field_length [OF u64_bound, of 8 "cv_Type m"]
      message_field_length [of "stdTime (cv_Timestamp m)" 42] bytes_field_length [of "cv_ChainID m" 50]
    by (simp add: cv_Marshal_def cv_fits_def time_ok_def length_fields(2))
qed

lemma cp_length:
  assumes "cp_fits m" "time_ok stdTime timeOf (cp_Timestamp m)"
  shows "length (cp_Marshal stdTime m) < 2 ^ 63 - 1"
proof -
  have "length (opt_message_field 0x2a (map_option cbid_Marshal (cp_BlockID m))) \<le> 11 + 2 ^ 18"
    using assms(1) block_field_length [of "cp_BlockID m" "0x2a"] by (simp add: cp_fits_def)
  then show ?thesis
    using assms varint_field_length [OF u64_bound, of 8 "cp_Type m"] varint_field_length [OF u64_bound, of 32 "cp_POLRound m"]
      message_field_length [of "stdTime (cp_Timestamp m)" 50] bytes_field_length [of "cp_ChainID m" 58]
    by (simp add: cp_Marshal_def cp_fits_def time_ok_def length_fields(2))
qed

lemma cv_delimited:
  assumes "cv_fits c" "time_ok (env_StdTime E) timeOf (cv_Timestamp c)"
  shows "UnmarshalDelimited (cv_Unmarshal timeOf z) (MarshalDelimited (cv_Marshal (env_StdTime E) c)) = Some c"
  by (simp add: UnmarshalDelimited_MarshalDelimited [OF cv_length [OF assms]] cv_round_trip [OF assms])

lemma cp_delimited:
  assumes "cp_fits c" "time_ok (env_StdTime E) timeOf (cp_Timestamp c)"
  shows "UnmarshalDelimited (cp_Unmarshal timeOf z) (MarshalDelimited (cp_Marshal (env_StdTime E) c)) = Some c"
  by (simp add: UnmarshalDelimited_MarshalDelimited [OF cp_length [OF assms]] cp_round_trip [OF assms])

end
