(* ===== verification/PrivVal.thy ===== *)
theory PrivVal
  imports Proposal
begin

text \<open>
  The file-backed private validator, \<open>privval/file.go\<close>: the last signed height, round and step, the check
  that refuses to sign twice, and the files that survive a crash.

  The two files are modelled by the records they hold; the state file drops empty byte slices, as
  the \<open>omitempty\<close> tags say, and \<open>WriteFileAtomic\<close> either replaces a file or leaves it as it was (the argument
  \<open>wrote\<close> tells which; a failed write is a panic). Keys and signatures are the record \<open>pv_env\<close>:
  \<open>PrivKey.Sign\<close>, \<open>PrivKey.PubKey\<close>, and the library's decoding of timestamps.
\<close>

record pv_env =
  pe_Sign :: "bytes \<Rightarrow> bytes \<Rightarrow> bytes option"
  pe_PubKey :: "bytes \<Rightarrow> bytes"
  pe_TimeOf :: "bytes \<Rightarrow> int option"

abbreviation (input) stepNone :: int where "stepNone \<equiv> 0"
abbreviation (input) stepPropose :: int where "stepPropose \<equiv> 1"
abbreviation (input) stepPrevote :: int where "stepPrevote \<equiv> 2"
abbreviation (input) stepPrecommit :: int where "stepPrecommit \<equiv> 3"

definition voteToStep :: "pb_vote \<Rightarrow> int option" where
  "voteToStep v =
     (if pbv_Type v = PrevoteType then Some stepPrevote
      else if pbv_Type v = PrecommitType then Some stepPrecommit
      else None)"

record file_pv_key =
  pvk_Address :: bytes
  pvk_PubKey :: bytes
  pvk_PrivKey :: bytes
  pvk_filePath :: string

record last_sign_state =
  lss_Height :: int
  lss_Round :: int
  lss_Step :: int
  lss_Signature :: "bytes option"
  lss_SignBytes :: "bytes option"
  lss_filePath :: string

record file_pv =
  pv_Key :: file_pv_key
  pv_LastSignState :: last_sign_state

record disk =
  dk_keys :: "string \<rightharpoonup> bytes"
  dk_states :: "string \<rightharpoonup> last_sign_state"

datatype pv_error = HeightRegression | RoundRegression | StepRegression | NoSignBytes | ConflictingData
  | SignError | ReadKeyError | ReadStateError | UnsupportedKeyType

section \<open>The last sign state\<close>

definition CheckHRS :: "int \<Rightarrow> int \<Rightarrow> int \<Rightarrow> last_sign_state \<Rightarrow> (pv_error + bool) option" where
  "CheckHRS height rnd step lss =
     (if lss_Height lss > height then Some (Inl HeightRegression)
      else if lss_Height lss = height then
        (if lss_Round lss > rnd then Some (Inl RoundRegression)
         else if lss_Round lss = rnd then
           (if lss_Step lss > step then Some (Inl StepRegression)
            else if lss_Step lss = step then
              (if lss_SignBytes lss \<noteq> None then
                 (if lss_Signature lss = None then None else Some (Inr True))
               else Some (Inl NoSignBytes))
            else Some (Inr False))
         else Some (Inr False))
      else Some (Inr False))"

definition omitempty :: "bytes option \<Rightarrow> bytes option" where
  "omitempty b = (if b = Some [] then None else b)"

definition stored :: "last_sign_state \<Rightarrow> last_sign_state" where
  "stored lss = lss\<lparr>lss_Signature := omitempty (lss_Signature lss), lss_SignBytes := omitempty (lss_SignBytes lss)\<rparr>"

definition lss_Save :: "bool \<Rightarrow> last_sign_state \<Rightarrow> disk \<Rightarrow> disk option" where
  "lss_Save wrote lss d =
     (if lss_filePath lss = '''' \<or> \<not> wrote then None
      else Some (d\<lparr>dk_states := (dk_states d)(lss_filePath lss \<mapsto> stored lss)\<rparr>))"

definition key_Save :: "bool \<Rightarrow> file_pv_key \<Rightarrow> disk \<Rightarrow> disk option" where
  "key_Save wrote k d =
     (if pvk_filePath k = '''' \<or> \<not> wrote then None
      else Some (d\<lparr>dk_keys := (dk_keys d)(pvk_filePath k \<mapsto> pvk_PrivKey k)\<rparr>))"

section \<open>Creating and loading\<close>

definition empty_lss :: "string \<Rightarrow> last_sign_state" where
  "empty_lss path = \<lparr>lss_Height = 0, lss_Round = 0, lss_Step = stepNone, lss_Signature = None, lss_SignBytes = None,
     lss_filePath = path\<rparr>"

definition NewFilePV :: "env \<Rightarrow> pv_env \<Rightarrow> bytes \<Rightarrow> string \<Rightarrow> string \<Rightarrow> file_pv" where
  "NewFilePV E P privKey keyFilePath stateFilePath =
     \<lparr>pv_Key = \<lparr>pvk_Address = env_Address E (pe_PubKey P privKey), pvk_PubKey = pe_PubKey P privKey,
                pvk_PrivKey = privKey, pvk_filePath = keyFilePath\<rparr>,
      pv_LastSignState = empty_lss stateFilePath\<rparr>"

text \<open>The freshly generated keys are the arguments \<open>secpKey\<close> and \<open>edKey\<close>.\<close>

definition GenFilePV ::
  "env \<Rightarrow> pv_env \<Rightarrow> bytes \<Rightarrow> bytes \<Rightarrow> string \<Rightarrow> string \<Rightarrow> string \<Rightarrow> pv_error + file_pv" where
  "GenFilePV E P secpKey edKey keyFilePath stateFilePath keyType =
     (if keyType = ''secp256k1'' then Inr (NewFilePV E P secpKey keyFilePath stateFilePath)
      else if keyType = '''' \<or> keyType = ''ed25519'' then Inr (NewFilePV E P edKey keyFilePath stateFilePath)
      else Inl UnsupportedKeyType)"

definition loadFilePV :: "env \<Rightarrow> pv_env \<Rightarrow> string \<Rightarrow> string \<Rightarrow> bool \<Rightarrow> disk \<Rightarrow> pv_error + file_pv" where
  "loadFilePV E P keyFilePath stateFilePath loadState d =
     (case dk_keys d keyFilePath of
        None \<Rightarrow> Inl ReadKeyError
      | Some privKey \<Rightarrow>
          (let key = pv_Key (NewFilePV E P privKey keyFilePath stateFilePath) in
           if loadState then
             (case dk_states d stateFilePath of
                None \<Rightarrow> Inl ReadStateError
              | Some lss \<Rightarrow> Inr \<lparr>pv_Key = key, pv_LastSignState = lss\<lparr>lss_filePath := stateFilePath\<rparr>\<rparr>)
           else Inr \<lparr>pv_Key = key, pv_LastSignState = empty_lss stateFilePath\<rparr>))"

definition LoadFilePV :: "env \<Rightarrow> pv_env \<Rightarrow> string \<Rightarrow> string \<Rightarrow> disk \<Rightarrow> pv_error + file_pv" where
  "LoadFilePV E P keyFilePath stateFilePath d = loadFilePV E P keyFilePath stateFilePath True d"

definition LoadFilePVEmptyState :: "env \<Rightarrow> pv_env \<Rightarrow> string \<Rightarrow> string \<Rightarrow> disk \<Rightarrow> pv_error + file_pv" where
  "LoadFilePVEmptyState E P keyFilePath stateFilePath d = loadFilePV E P keyFilePath stateFilePath False d"

definition pv_Save :: "bool \<Rightarrow> file_pv \<Rightarrow> disk \<Rightarrow> disk option" where
  "pv_Save wrote pv d = do { d' \<leftarrow> key_Save wrote (pv_Key pv) d; lss_Save wrote (pv_LastSignState pv) d' }"

definition LoadOrGenFilePV ::
  "env \<Rightarrow> pv_env \<Rightarrow> bytes \<Rightarrow> bytes \<Rightarrow> bool \<Rightarrow> string \<Rightarrow> string \<Rightarrow> disk \<Rightarrow> ((pv_error + file_pv) \<times> disk) option" where
  "LoadOrGenFilePV E P secpKey edKey wrote keyFilePath stateFilePath d =
     (if dk_keys d keyFilePath \<noteq> None then Some (LoadFilePV E P keyFilePath stateFilePath d, d)
      else case GenFilePV E P secpKey edKey keyFilePath stateFilePath '''' of
        Inl e \<Rightarrow> None
      | Inr pv \<Rightarrow> map_option (\<lambda>d'. (Inr pv, d')) (pv_Save wrote pv d))"

definition pv_Reset :: "bool \<Rightarrow> file_pv \<Rightarrow> disk \<Rightarrow> (file_pv \<times> disk) option" where
  "pv_Reset wrote pv d =
     (let pv' = pv\<lparr>pv_LastSignState := empty_lss (lss_filePath (pv_LastSignState pv))\<rparr> in
      map_option (\<lambda>d'. (pv', d')) (pv_Save wrote pv' d))"

section \<open>Signing\<close>

definition saveSigned ::
  "bool \<Rightarrow> int \<Rightarrow> int \<Rightarrow> int \<Rightarrow> bytes \<Rightarrow> bytes \<Rightarrow> file_pv \<Rightarrow> disk \<Rightarrow> (file_pv \<times> disk) option" where
  "saveSigned wrote height rnd step signBytes sig pv d =
     (let lss = (pv_LastSignState pv)\<lparr>lss_Height := height, lss_Round := rnd, lss_Step := step,
                  lss_Signature := Some sig, lss_SignBytes := Some signBytes\<rparr> in
      map_option (\<lambda>d'. (pv\<lparr>pv_LastSignState := lss\<rparr>, d')) (lss_Save wrote lss d))"

text \<open>The result is None when the bytes do not decode, which is a panic.\<close>

definition checkVotesOnlyDifferByTimestamp :: "pv_env \<Rightarrow> int \<Rightarrow> bytes \<Rightarrow> bytes \<Rightarrow> (int \<times> bool) option" where
  "checkVotesOnlyDifferByTimestamp P now lastSignBytes newSignBytes =
     do {
       lastVote \<leftarrow> UnmarshalDelimited (cv_Unmarshal (pe_TimeOf P) zero_time) lastSignBytes;
       newVote \<leftarrow> UnmarshalDelimited (cv_Unmarshal (pe_TimeOf P) zero_time) newSignBytes;
       Some (cv_Timestamp lastVote, newVote\<lparr>cv_Timestamp := now\<rparr> = lastVote\<lparr>cv_Timestamp := now\<rparr>)
     }"

definition checkProposalsOnlyDifferByTimestamp :: "pv_env \<Rightarrow> int \<Rightarrow> bytes \<Rightarrow> bytes \<Rightarrow> (int \<times> bool) option" where
  "checkProposalsOnlyDifferByTimestamp P now lastSignBytes newSignBytes =
     do {
       lastProposal \<leftarrow> UnmarshalDelimited (cp_Unmarshal (pe_TimeOf P) zero_time) lastSignBytes;
       newProposal \<leftarrow> UnmarshalDelimited (cp_Unmarshal (pe_TimeOf P) zero_time) newSignBytes;
       Some (cp_Timestamp lastProposal, newProposal\<lparr>cp_Timestamp := now\<rparr> = lastProposal\<lparr>cp_Timestamp := now\<rparr>)
     }"

definition the_bytes :: "bytes option \<Rightarrow> bytes" where
  "the_bytes b = (case b of None \<Rightarrow> [] | Some bz \<Rightarrow> bz)"

definition signVote ::
  "env \<Rightarrow> pv_env \<Rightarrow> bool \<Rightarrow> int \<Rightarrow> bytes \<Rightarrow> pb_vote \<Rightarrow> file_pv \<Rightarrow> disk
     \<Rightarrow> ((pv_error option \<times> pb_vote) \<times> file_pv \<times> disk) option" where
  "signVote E P wrote now chainID v pv d =
     do {
       step \<leftarrow> voteToStep v;
       let height = pbv_Height v;
       let rnd = pbv_Round v;
       let lss = pv_LastSignState pv;
       check \<leftarrow> CheckHRS height rnd step lss;
       case check of
         Inl err \<Rightarrow> Some ((Some err, v), pv, d)
       | Inr sameHRS \<Rightarrow>
           do {
             signBytes \<leftarrow> VoteSignBytes E chainID v;
             if sameHRS then
               (if signBytes = the_bytes (lss_SignBytes lss) then
                  Some ((None, v\<lparr>pbv_Signature := the_bytes (lss_Signature lss)\<rparr>), pv, d)
                else do {
                  (timestamp, ok) \<leftarrow> checkVotesOnlyDifferByTimestamp P now (the_bytes (lss_SignBytes lss)) signBytes;
                  if ok then
                    Some ((None, v\<lparr>pbv_Timestamp := timestamp, pbv_Signature := the_bytes (lss_Signature lss)\<rparr>), pv, d)
                  else Some ((Some ConflictingData, v), pv, d)
                })
             else
               (case pe_Sign P (pvk_PrivKey (pv_Key pv)) signBytes of
                  None \<Rightarrow> Some ((Some SignError, v), pv, d)
                | Some sig \<Rightarrow>
                    map_option (\<lambda>(pv', d'). ((None, v\<lparr>pbv_Signature := sig\<rparr>), pv', d'))
                      (saveSigned wrote height rnd step signBytes sig pv d))
           }
     }"

definition signProposal ::
  "env \<Rightarrow> pv_env \<Rightarrow> bool \<Rightarrow> int \<Rightarrow> bytes \<Rightarrow> pb_proposal \<Rightarrow> file_pv \<Rightarrow> disk
     \<Rightarrow> ((pv_error option \<times> pb_proposal) \<times> file_pv \<times> disk) option" where
  "signProposal E P wrote now chainID p pv d =
     do {
       let height = pbp_Height p;
       let rnd = pbp_Round p;
       let step = stepPropose;
       let lss = pv_LastSignState pv;
       check \<leftarrow> CheckHRS height rnd step lss;
       case check of
         Inl err \<Rightarrow> Some ((Some err, p), pv, d)
       | Inr sameHRS \<Rightarrow>
           do {
             signBytes \<leftarrow> ProposalSignBytes E chainID p;
             if sameHRS then
               (if signBytes = the_bytes (lss_SignBytes lss) then
                  Some ((None, p\<lparr>pbp_Signature := the_bytes (lss_Signature lss)\<rparr>), pv, d)
                else do {
                  (timestamp, ok) \<leftarrow> checkProposalsOnlyDifferByTimestamp P now (the_bytes (lss_SignBytes lss)) signBytes;
                  if ok then
                    Some ((None, p\<lparr>pbp_Timestamp := timestamp, pbp_Signature := the_bytes (lss_Signature lss)\<rparr>), pv, d)
                  else Some ((Some ConflictingData, p), pv, d)
                })
             else
               (case pe_Sign P (pvk_PrivKey (pv_Key pv)) signBytes of
                  None \<Rightarrow> Some ((Some SignError, p), pv, d)
                | Some sig \<Rightarrow>
                    map_option (\<lambda>(pv', d'). ((None, p\<lparr>pbp_Signature := sig\<rparr>), pv', d'))
                      (saveSigned wrote height rnd step signBytes sig pv d))
           }
     }"

text \<open>The exported methods only add text to an error.\<close>

definition SignVote ::
  "env \<Rightarrow> pv_env \<Rightarrow> bool \<Rightarrow> int \<Rightarrow> bytes \<Rightarrow> pb_vote \<Rightarrow> file_pv \<Rightarrow> disk
     \<Rightarrow> ((pv_error option \<times> pb_vote) \<times> file_pv \<times> disk) option" where
  "SignVote E P wrote now chainID v pv d = signVote E P wrote now chainID v pv d"

definition SignProposal ::
  "env \<Rightarrow> pv_env \<Rightarrow> bool \<Rightarrow> int \<Rightarrow> bytes \<Rightarrow> pb_proposal \<Rightarrow> file_pv \<Rightarrow> disk
     \<Rightarrow> ((pv_error option \<times> pb_proposal) \<times> file_pv \<times> disk) option" where
  "SignProposal E P wrote now chainID p pv d = signProposal E P wrote now chainID p pv d"

definition GetAddress :: "file_pv \<Rightarrow> bytes" where
  "GetAddress pv = pvk_Address (pv_Key pv)"

definition GetPubKey :: "file_pv \<Rightarrow> bytes" where
  "GetPubKey pv = pvk_PubKey (pv_Key pv)"

end
