(* ===== verification/PrivValSafety.thy ===== *)
theory PrivValSafety
  imports PrivVal "HOL-Library.Product_Lexorder"
begin

text \<open>
  No double signing: whatever is asked of the private validator, and whenever it crashes and is started
  again, it releases at most one signed message for a height, round and step.

  Votes and proposals are signed by two functions with one contract, the locale \<open>signer\<close>; the steps
  of a validator are the signing calls, crashes (also between the write of the state file and the return)
  and restarts. Heights, rounds and steps are compared in the lexicographic order of triples.
\<close>

section \<open>Released messages\<close>

datatype released = RelVote bytes pb_vote | RelProposal bytes pb_proposal

fun rel_hrs :: "released \<Rightarrow> int \<times> int \<times> int" where
  "rel_hrs (RelVote c v) = (pbv_Height v, pbv_Round v, case voteToStep v of Some s \<Rightarrow> s | None \<Rightarrow> 0)"
| "rel_hrs (RelProposal c p) = (pbp_Height p, pbp_Round p, stepPropose)"

fun rel_bytes :: "env \<Rightarrow> released \<Rightarrow> bytes option" where
  "rel_bytes E (RelVote c v) = VoteSignBytes E c v"
| "rel_bytes E (RelProposal c p) = ProposalSignBytes E c p"

fun rel_sig :: "released \<Rightarrow> bytes" where
  "rel_sig (RelVote c v) = pbv_Signature v"
| "rel_sig (RelProposal c p) = pbp_Signature p"

fun rel_in_range :: "released \<Rightarrow> bool" where
  "rel_in_range (RelVote c v) = (length c < 2 ^ 16 \<and> pbv_in_range v)"
| "rel_in_range (RelProposal c p) = (length c < 2 ^ 16 \<and> pbp_in_range p)"

definition hrs_of :: "last_sign_state \<Rightarrow> int \<times> int \<times> int" where
  "hrs_of lss = (lss_Height lss, lss_Round lss, lss_Step lss)"

lemma CheckHRS_cases:
  "CheckHRS h r s lss =
     (if hrs_of lss < (h, r, s) then Some (Inr False)
      else if hrs_of lss = (h, r, s) then
        (if lss_SignBytes lss = None then Some (Inl NoSignBytes)
         else if lss_Signature lss = None then None else Some (Inr True))
      else Some (Inl (if lss_Height lss > h then HeightRegression
                      else if lss_Round lss > r then RoundRegression else StepRegression)))"
  by (auto simp: CheckHRS_def hrs_of_def)

section \<open>What the state file remembers\<close>

text \<open>The remembered bytes are those of a message of the remembered kind.\<close>

definition encodes :: "env \<Rightarrow> int \<Rightarrow> bytes \<Rightarrow> bool" where
  "encodes E step bz \<longleftrightarrow>
     (if step = stepPropose
      then \<exists>c. cp_fits c \<and> time_in_range (cp_Timestamp c) \<and> bz = MarshalDelimited (cp_Marshal (env_StdTime E) c)
      else \<exists>c. cv_fits c \<and> time_in_range (cv_Timestamp c) \<and> bz = MarshalDelimited (cv_Marshal (env_StdTime E) c))"

definition well :: "env \<Rightarrow> pv_env \<Rightarrow> bytes \<Rightarrow> last_sign_state \<Rightarrow> bool" where
  "well E P key lss \<longleftrightarrow>
     (\<forall>bz. lss_SignBytes lss = Some bz \<longrightarrow> encodes E (lss_Step lss) bz
        \<and> (\<forall>sg. lss_Signature lss = Some sg \<longrightarrow> pe_Sign P key bz = Some sg))"

lemma encodes_nonempty: "encodes E s bz \<Longrightarrow> bz \<noteq> []"
  by (auto simp: encodes_def MarshalDelimited_def encodeVarint.simps split: if_splits)

lemma stored_fields [simp]:
  "lss_Height (stored l) = lss_Height l" "lss_Round (stored l) = lss_Round l" "lss_Step (stored l) = lss_Step l"
  "lss_filePath (stored l) = lss_filePath l" "hrs_of (stored l) = hrs_of l"
  by (simp_all add: stored_def hrs_of_def)

lemma stored_idem: "stored (stored l) = stored l"
  by (simp add: stored_def omitempty_def)

lemma stored_bytes: "well E P k l \<Longrightarrow> lss_SignBytes (stored l) = lss_SignBytes l"
  using encodes_nonempty [of E "lss_Step l" "[]"] by (auto simp: stored_def omitempty_def well_def)

lemma stored_sig: "lss_Signature (stored l) = Some sg \<Longrightarrow> lss_Signature l = Some sg"
  by (auto simp: stored_def omitempty_def split: if_splits)

lemma well_stored: "well E P k l \<Longrightarrow> well E P k (stored l)"
  using stored_bytes [of E P k l] stored_sig [of l] by (auto simp: well_def)

text \<open>The log of released messages is covered: all are before the remembered one, or are it.\<close>

definition covers :: "env \<Rightarrow> last_sign_state \<Rightarrow> released set \<Rightarrow> bool" where
  "covers E lss log \<longleftrightarrow> (\<forall>x \<in> log. rel_hrs x < hrs_of lss \<or>
     rel_hrs x = hrs_of lss \<and> rel_bytes E x = lss_SignBytes lss
       \<and> (\<forall>sg. lss_Signature lss = Some sg \<longrightarrow> sg = rel_sig x))"

lemma covers_stored: "well E P k l \<Longrightarrow> covers E l log \<Longrightarrow> covers E (stored l) log"
  using stored_bytes [of E P k l] stored_sig [of l] by (fastforce simp: covers_def)

definition consistent :: "env \<Rightarrow> pv_env \<Rightarrow> bytes \<Rightarrow> released set \<Rightarrow> bool" where
  "consistent E P key log \<longleftrightarrow>
     (\<forall>x \<in> log. rel_in_range x \<and> (\<exists>bz. rel_bytes E x = Some bz \<and> pe_Sign P key bz = Some (rel_sig x)))
     \<and> (\<forall>x \<in> log. \<forall>y \<in> log. rel_hrs x = rel_hrs y \<longrightarrow> rel_bytes E x = rel_bytes E y \<and> rel_sig x = rel_sig y)"

lemma consistentD:
  assumes "consistent E P key log"
  shows "x \<in> log \<Longrightarrow> rel_in_range x \<and> (\<exists>bz. rel_bytes E x = Some bz \<and> pe_Sign P key bz = Some (rel_sig x))"
    and "x \<in> log \<Longrightarrow> y \<in> log \<Longrightarrow> rel_hrs x = rel_hrs y \<Longrightarrow> rel_bytes E x = rel_bytes E y \<and> rel_sig x = rel_sig y"
  using assms unfolding consistent_def by blast+

lemma consistent_insert:
  assumes "consistent E P key log" "rel_bytes E x = Some bz" "pe_Sign P key bz = Some (rel_sig x)" "rel_in_range x"
    and "\<And>y. y \<in> log \<Longrightarrow> rel_hrs y = rel_hrs x \<Longrightarrow> rel_bytes E y = rel_bytes E x \<and> rel_sig y = rel_sig x"
  shows "consistent E P key (insert x log)"
  unfolding consistent_def
proof (intro conjI ballI impI)
  fix y assume "y \<in> insert x log"
  then show "rel_in_range y" "\<exists>bz. rel_bytes E y = Some bz \<and> pe_Sign P key bz = Some (rel_sig y)"
    using assms(2-4) consistentD(1) [OF assms(1), of y] by blast+
  fix z assume z: "z \<in> insert x log" "rel_hrs y = rel_hrs z"
  consider "y = x" "z = x" | "y = x" "z \<in> log" | "y \<in> log" "z = x" | "y \<in> log" "z \<in> log"
    using z(1) \<open>y \<in> _\<close> by blast
  then have "rel_bytes E y = rel_bytes E z \<and> rel_sig y = rel_sig z"
  proof cases
    case 2
    then show ?thesis using assms(5) [of z] z(2) by simp
  next
    case 3
    then show ?thesis using assms(5) [of y] z(2) by simp
  next
    case 4
    then show ?thesis using consistentD(2) [OF assms(1) _ _ z(2)] by simp
  qed simp
  then show "rel_bytes E y = rel_bytes E z" "rel_sig y = rel_sig z" by auto
qed

section \<open>The contract of signing\<close>

definition outcome ::
  "env \<Rightarrow> pv_env \<Rightarrow> bool \<Rightarrow> file_pv \<Rightarrow> disk \<Rightarrow> pv_error option \<Rightarrow> released \<Rightarrow> file_pv \<Rightarrow> disk \<Rightarrow> bool" where
  "outcome E P wrote pv d err x pv' d' \<longleftrightarrow>
     (let lss = pv_LastSignState pv in
      (err = None \<longrightarrow> rel_in_range x)
      \<and> ((err \<noteq> None \<and> pv' = pv \<and> d' = d)
      \<or> (err = None \<and> pv' = pv \<and> d' = d \<and> rel_hrs x = hrs_of lss \<and> lss_SignBytes lss \<noteq> None
           \<and> rel_bytes E x = lss_SignBytes lss \<and> lss_Signature lss = Some (rel_sig x))
      \<or> (err = None \<and> hrs_of lss < rel_hrs x
           \<and> (\<exists>h r s bz. rel_hrs x = (h, r, s) \<and> rel_bytes E x = Some bz \<and> encodes E s bz
                \<and> pe_Sign P (pvk_PrivKey (pv_Key pv)) bz = Some (rel_sig x)
                \<and> saveSigned wrote h r s bz (rel_sig x) pv d = Some (pv', d')))))"

text \<open>The state in memory is the one in the file, as the file keeps it.\<close>

definition synced :: "env \<Rightarrow> pv_env \<Rightarrow> bytes \<Rightarrow> string \<Rightarrow> string \<Rightarrow> file_pv \<Rightarrow> disk \<Rightarrow> released set \<Rightarrow> bool" where
  "synced E P key kp sp pv d log \<longleftrightarrow>
     pvk_PrivKey (pv_Key pv) = key \<and> lss_filePath (pv_LastSignState pv) = sp \<and> well E P key (pv_LastSignState pv)
     \<and> covers E (pv_LastSignState pv) log \<and> dk_keys d kp = Some key \<and> dk_states d sp = Some (stored (pv_LastSignState pv))"

definition on_disk :: "env \<Rightarrow> pv_env \<Rightarrow> bytes \<Rightarrow> string \<Rightarrow> string \<Rightarrow> disk \<Rightarrow> released set \<Rightarrow> bool" where
  "on_disk E P key kp sp d log \<longleftrightarrow>
     dk_keys d kp = Some key \<and> (\<exists>lss. dk_states d sp = Some lss \<and> stored lss = lss \<and> lss_filePath lss = sp
       \<and> well E P key lss \<and> covers E lss log)"

lemma synced_on_disk: "synced E P key kp sp pv d log \<Longrightarrow> on_disk E P key kp sp d log"
  using well_stored covers_stored by (fastforce simp: synced_def on_disk_def stored_idem)

locale signer =
  fixes sign :: "bool \<Rightarrow> 'm \<Rightarrow> file_pv \<Rightarrow> disk \<Rightarrow> ((pv_error option \<times> 'm) \<times> file_pv \<times> disk) option"
    and rel :: "'m \<Rightarrow> released" and acceptable :: "'m \<Rightarrow> bool"
    and E :: env and P :: pv_env
  assumes sign_outcome: "acceptable m \<Longrightarrow> well E P (pvk_PrivKey (pv_Key pv)) (pv_LastSignState pv) \<Longrightarrow>
      sign wrote m pv d = Some ((err, m'), pv', d') \<Longrightarrow> outcome E P wrote pv d err (rel m') pv' d'"
begin

lemma sign_keeps:
  assumes ok: "acceptable m" and s: "synced E P key kp sp pv d log" "consistent E P key log"
    and sign: "sign wrote m pv d = Some ((err, m'), pv', d')"
  shows "synced E P key kp sp pv' d' (if err = None then insert (rel m') log else log)"
    "consistent E P key (if err = None then insert (rel m') log else log)"
    "synced E P key kp sp pv' d' log"
proof -
  let ?x = "rel m'" and ?l = "pv_LastSignState pv"
  have w: "well E P key ?l" and k: "pvk_PrivKey (pv_Key pv) = key" and path: "lss_filePath ?l = sp"
    and c: "covers E ?l log" using s(1) by (auto simp: synced_def)
  have out: "outcome E P wrote pv d err ?x pv' d'" using sign_outcome [OF ok _ sign] w k by simp
  then have ir: "err = None \<Longrightarrow> rel_in_range ?x" by (simp add: outcome_def Let_def)
  consider (err) "err \<noteq> None" "pv' = pv" "d' = d"
    | (again) "err = None" "pv' = pv" "d' = d" "rel_hrs ?x = hrs_of ?l" "lss_SignBytes ?l \<noteq> None"
        "rel_bytes E ?x = lss_SignBytes ?l" "lss_Signature ?l = Some (rel_sig ?x)"
    | (fresh) h r st bz where "err = None" "hrs_of ?l < (h, r, st)" "rel_hrs ?x = (h, r, st)" "rel_bytes E ?x = Some bz"
        "encodes E st bz" "pe_Sign P key bz = Some (rel_sig ?x)" "saveSigned wrote h r st bz (rel_sig ?x) pv d = Some (pv', d')"
    using out k unfolding outcome_def Let_def by metis
  then have "synced E P key kp sp pv' d' (if err = None then insert ?x log else log)
    \<and> consistent E P key (if err = None then insert ?x log else log) \<and> synced E P key kp sp pv' d' log"
  proof cases
    case err
    then show ?thesis using s by auto
  next
    case again
    have "covers E ?l (insert ?x log)" using c again by (simp add: covers_def)
    moreover obtain bz where bz: "lss_SignBytes ?l = Some bz" "pe_Sign P key bz = Some (rel_sig ?x)"
      using again(5,7) w by (auto simp: well_def)
    then have "consistent E P key (insert ?x log)"
      using again(1,4,6,7) c ir by (intro consistent_insert [OF s(2)]) (auto simp: covers_def)
    ultimately show ?thesis using s again by (simp add: synced_def)
  next
    case fresh
    let ?l' = "?l\<lparr>lss_Height := h, lss_Round := r, lss_Step := st, lss_Signature := Some (rel_sig ?x), lss_SignBytes := Some bz\<rparr>"
    have sv: "pv' = pv\<lparr>pv_LastSignState := ?l'\<rparr>" "dk_states d' sp = Some (stored ?l')" "dk_keys d' = dk_keys d"
      using fresh(7) path by (auto simp: saveSigned_def lss_Save_def Let_def split: if_splits)
    have hl: "hrs_of ?l' = (h, r, st)" by (simp add: hrs_of_def)
    have old: "rel_hrs y < (h, r, st)" if "y \<in> log" for y using c that fresh(2) unfolding covers_def by (metis less_trans)
    have "covers E ?l' (insert ?x log)" using old fresh(3,4) hl by (auto simp: covers_def)
    moreover have "well E P key ?l'" using fresh(5,6) by (simp add: well_def)
    moreover have "consistent E P key (insert ?x log)"
      using fresh(3) ir [OF fresh(1)] by (intro consistent_insert [OF s(2) fresh(4,6)]) (auto dest!: old)
    ultimately show ?thesis using s(1) sv fresh(1) path by (auto simp: synced_def covers_def)
  qed
  then show "synced E P key kp sp pv' d' (if err = None then insert (rel m') log else log)"
    "consistent E P key (if err = None then insert (rel m') log else log)"
    "synced E P key kp sp pv' d' log" by auto
qed

end

section \<open>Votes and proposals satisfy the contract\<close>

definition vote_acceptable :: "env \<Rightarrow> pv_env \<Rightarrow> bytes \<Rightarrow> pb_vote \<Rightarrow> bool" where
  "vote_acceptable E P chainID v \<longleftrightarrow> times_ok E (pe_TimeOf P) \<and> length chainID < 2 ^ 16 \<and> pbv_in_range v"

definition proposal_acceptable :: "env \<Rightarrow> pv_env \<Rightarrow> bytes \<Rightarrow> pb_proposal \<Rightarrow> bool" where
  "proposal_acceptable E P chainID p \<longleftrightarrow> times_ok E (pe_TimeOf P) \<and> length chainID < 2 ^ 16 \<and> pbp_in_range p"

lemma VoteSignBytes_canonical:
  assumes "vote_acceptable E P chainID v" "VoteSignBytes E chainID v = Some bz"
  obtains c where "CanonicalizeVote chainID v = Some c" "bz = MarshalDelimited (cv_Marshal (env_StdTime E) c)"
    "cv_fits c" "time_in_range (cv_Timestamp c)" "UnmarshalDelimited (cv_Unmarshal (pe_TimeOf P) zero_time) bz = Some c"
proof -
  obtain c where c: "CanonicalizeVote chainID v = Some c" "bz = MarshalDelimited (cv_Marshal (env_StdTime E) c)"
    using assms(2) by (auto simp: VoteSignBytes_def)
  have f: "cv_fits c" "time_in_range (cv_Timestamp c)"
    using canonical_vote_fits [OF c(1)] assms(1) by (auto simp: vote_acceptable_def)
  then have "time_ok (env_StdTime E) (pe_TimeOf P) (cv_Timestamp c)"
    using assms(1) by (simp add: vote_acceptable_def times_ok_def)
  then have "UnmarshalDelimited (cv_Unmarshal (pe_TimeOf P) zero_time) bz = Some c"
    unfolding c(2) by (rule cv_delimited [OF f(1)])
  then show thesis by (rule that [OF c f])
qed

lemma ProposalSignBytes_canonical:
  assumes "proposal_acceptable E P chainID p" "ProposalSignBytes E chainID p = Some bz"
  obtains c where "CanonicalizeProposal chainID p = Some c" "bz = MarshalDelimited (cp_Marshal (env_StdTime E) c)"
    "cp_fits c" "time_in_range (cp_Timestamp c)" "UnmarshalDelimited (cp_Unmarshal (pe_TimeOf P) zero_time) bz = Some c"
proof -
  obtain c where c: "CanonicalizeProposal chainID p = Some c" "bz = MarshalDelimited (cp_Marshal (env_StdTime E) c)"
    using assms(2) by (auto simp: ProposalSignBytes_def)
  have f: "cp_fits c" "time_in_range (cp_Timestamp c)"
    using canonical_proposal_fits [OF c(1)] assms(1) by (auto simp: proposal_acceptable_def)
  then have "time_ok (env_StdTime E) (pe_TimeOf P) (cp_Timestamp c)"
    using assms(1) by (simp add: proposal_acceptable_def times_ok_def)
  then have "UnmarshalDelimited (cp_Unmarshal (pe_TimeOf P) zero_time) bz = Some c"
    unfolding c(2) by (rule cp_delimited [OF f(1)])
  then show thesis by (rule that [OF c f])
qed

text \<open>Taking over the remembered timestamp gives the remembered bytes.\<close>

lemma vote_retimed:
  assumes ok: "vote_acceptable E P chainID v" and bz: "VoteSignBytes E chainID v = Some bz"
    and old: "encodes E s old" "s \<noteq> stepPropose" and chk: "checkVotesOnlyDifferByTimestamp P now old bz = Some (t, True)"
  shows "VoteSignBytes E chainID (v\<lparr>pbv_Timestamp := t, pbv_Signature := sg\<rparr>) = Some old \<and> time_in_range t"
proof -
  obtain l where l: "cv_fits l" "time_in_range (cv_Timestamp l)" "old = MarshalDelimited (cv_Marshal (env_StdTime E) l)"
    using old by (auto simp: encodes_def)
  have "time_ok (env_StdTime E) (pe_TimeOf P) (cv_Timestamp l)"
    using ok l(2) by (simp add: vote_acceptable_def times_ok_def)
  then have dl: "UnmarshalDelimited (cv_Unmarshal (pe_TimeOf P) zero_time) old = Some l"
    unfolding l(3) by (rule cv_delimited [OF l(1)])
  obtain c where c: "CanonicalizeVote chainID v = Some c" "UnmarshalDelimited (cv_Unmarshal (pe_TimeOf P) zero_time) bz = Some c"
    by (rule VoteSignBytes_canonical [OF ok bz])
  have t: "t = cv_Timestamp l" "c\<lparr>cv_Timestamp := now\<rparr> = l\<lparr>cv_Timestamp := now\<rparr>"
    using chk dl c(2) by (auto simp: checkVotesOnlyDifferByTimestamp_def)
  have "l = c\<lparr>cv_Timestamp := t\<rparr>" using t by (cases c, cases l) simp
  then have "CanonicalizeVote chainID (v\<lparr>pbv_Timestamp := t, pbv_Signature := sg\<rparr>) = Some l"
    using c(1) by (auto simp: CanonicalizeVote_def)
  then show ?thesis using l(2,3) t(1) by (simp add: VoteSignBytes_def)
qed

lemma proposal_retimed:
  assumes ok: "proposal_acceptable E P chainID p" and bz: "ProposalSignBytes E chainID p = Some bz"
    and old: "encodes E stepPropose old" and chk: "checkProposalsOnlyDifferByTimestamp P now old bz = Some (t, True)"
  shows "ProposalSignBytes E chainID (p\<lparr>pbp_Timestamp := t, pbp_Signature := sg\<rparr>) = Some old \<and> time_in_range t"
proof -
  obtain l where l: "cp_fits l" "time_in_range (cp_Timestamp l)" "old = MarshalDelimited (cp_Marshal (env_StdTime E) l)"
    using old by (auto simp: encodes_def)
  have "time_ok (env_StdTime E) (pe_TimeOf P) (cp_Timestamp l)"
    using ok l(2) by (simp add: proposal_acceptable_def times_ok_def)
  then have dl: "UnmarshalDelimited (cp_Unmarshal (pe_TimeOf P) zero_time) old = Some l"
    unfolding l(3) by (rule cp_delimited [OF l(1)])
  obtain c where c: "CanonicalizeProposal chainID p = Some c" "UnmarshalDelimited (cp_Unmarshal (pe_TimeOf P) zero_time) bz = Some c"
    by (rule ProposalSignBytes_canonical [OF ok bz])
  have t: "t = cp_Timestamp l" "c\<lparr>cp_Timestamp := now\<rparr> = l\<lparr>cp_Timestamp := now\<rparr>"
    using chk dl c(2) by (auto simp: checkProposalsOnlyDifferByTimestamp_def)
  have "l = c\<lparr>cp_Timestamp := t\<rparr>" using t by (cases c, cases l) simp
  then have "CanonicalizeProposal chainID (p\<lparr>pbp_Timestamp := t, pbp_Signature := sg\<rparr>) = Some l"
    using c(1) by (auto simp: CanonicalizeProposal_def)
  then show ?thesis using l(2,3) t(1) by (simp add: ProposalSignBytes_def)
qed

lemma voteToStep_update [simp]:
  "voteToStep (v\<lparr>pbv_Timestamp := t\<rparr>) = voteToStep v" "voteToStep (v\<lparr>pbv_Signature := a\<rparr>) = voteToStep v"
  by (simp_all add: voteToStep_def)

lemma VoteSignBytes_signature [simp]: "VoteSignBytes E c (v\<lparr>pbv_Signature := sg\<rparr>) = VoteSignBytes E c v"
  by (simp add: VoteSignBytes_def CanonicalizeVote_def)

lemma ProposalSignBytes_signature [simp]: "ProposalSignBytes E c (p\<lparr>pbp_Signature := sg\<rparr>) = ProposalSignBytes E c p"
  by (simp add: ProposalSignBytes_def CanonicalizeProposal_def)

lemma signVote_outcome:
  assumes ok: "vote_acceptable E P chainID v" and w: "well E P (pvk_PrivKey (pv_Key pv)) (pv_LastSignState pv)"
    and sign: "SignVote E P wrote now chainID v pv d = Some ((err, v'), pv', d')"
  shows "outcome E P wrote pv d err (RelVote chainID v') pv' d'"
proof -
  let ?l = "pv_LastSignState pv" and ?key = "pvk_PrivKey (pv_Key pv)"
  obtain s where s: "voteToStep v = Some s" using sign by (cases "voteToStep v") (auto simp: SignVote_def signVote_def)
  then have s1: "s \<noteq> stepPropose" by (auto simp: voteToStep_def split: if_splits)
  obtain check where chk: "CheckHRS (pbv_Height v) (pbv_Round v) s ?l = Some check"
    using sign s by (cases "CheckHRS (pbv_Height v) (pbv_Round v) s ?l") (auto simp: SignVote_def signVote_def)
  note S = sign [unfolded SignVote_def signVote_def s Let_def bind.bind_lunit chk]
  have step: "voteToStep (v\<lparr>pbv_Signature := a\<rparr>) = Some s" "voteToStep (v\<lparr>pbv_Timestamp := t, pbv_Signature := a\<rparr>) = Some s" for a t
    using s by simp_all
  have rng: "rel_in_range (RelVote chainID (v\<lparr>pbv_Signature := a\<rparr>))"
      "time_in_range t \<Longrightarrow> rel_in_range (RelVote chainID (v\<lparr>pbv_Timestamp := t, pbv_Signature := a\<rparr>))" for a t
    using ok by (simp_all add: vote_acceptable_def pbv_in_range_def)
  show ?thesis
  proof (cases check)
    case (Inl e)
    then show ?thesis using S by (auto simp: outcome_def Let_def)
  next
    case (Inr same)
    obtain bz where bz: "VoteSignBytes E chainID v = Some bz" using S Inr by (cases "VoteSignBytes E chainID v") auto
    show ?thesis
    proof (cases same)
      case True
      then obtain lb sg where l: "hrs_of ?l = (pbv_Height v, pbv_Round v, s)" "lss_SignBytes ?l = Some lb" "lss_Signature ?l = Some sg"
        using chk Inr by (auto simp: CheckHRS_cases split: if_splits)
      then have enc: "encodes E s lb" using w by (auto simp: well_def hrs_of_def)
      show ?thesis
      proof (cases "bz = lb")
        case eq: True
        then show ?thesis using S Inr True bz l step rng by (auto simp: outcome_def Let_def the_bytes_def)
      next
        case False
        obtain t b where c: "checkVotesOnlyDifferByTimestamp P now lb bz = Some (t, b)"
          using S Inr True bz l False by (cases "checkVotesOnlyDifferByTimestamp P now lb bz") (auto simp: the_bytes_def)
        have "VoteSignBytes E chainID (v\<lparr>pbv_Timestamp := t, pbv_Signature := sg\<rparr>) = Some lb \<and> time_in_range t" if b
          using vote_retimed [OF ok bz enc s1, of now t sg] c that by simp
        then show ?thesis
          using S Inr True bz l False c step rng by (cases b) (auto simp: outcome_def Let_def the_bytes_def)
      qed
    next
      case False
      then have lt: "hrs_of ?l < (pbv_Height v, pbv_Round v, s)"
        using chk Inr by (auto simp: CheckHRS_cases split: if_splits)
      obtain c where "bz = MarshalDelimited (cv_Marshal (env_StdTime E) c)" "cv_fits c" "time_in_range (cv_Timestamp c)"
        by (rule VoteSignBytes_canonical [OF ok bz])
      then have enc: "encodes E s bz" using s1 by (auto simp: encodes_def)
      show ?thesis
        using S Inr False bz lt enc step rng by (cases "pe_Sign P ?key bz") (auto simp: outcome_def Let_def)
    qed
  qed
qed

lemma signProposal_outcome:
  assumes ok: "proposal_acceptable E P chainID p" and w: "well E P (pvk_PrivKey (pv_Key pv)) (pv_LastSignState pv)"
    and sign: "SignProposal E P wrote now chainID p pv d = Some ((err, p'), pv', d')"
  shows "outcome E P wrote pv d err (RelProposal chainID p') pv' d'"
proof -
  let ?l = "pv_LastSignState pv" and ?key = "pvk_PrivKey (pv_Key pv)"
  obtain check where chk: "CheckHRS (pbp_Height p) (pbp_Round p) stepPropose ?l = Some check"
    using sign by (cases "CheckHRS (pbp_Height p) (pbp_Round p) stepPropose ?l") (auto simp: SignProposal_def signProposal_def)
  note S = sign [unfolded SignProposal_def signProposal_def Let_def bind.bind_lunit chk]
  have rng: "rel_in_range (RelProposal chainID (p\<lparr>pbp_Signature := a\<rparr>))"
      "time_in_range t \<Longrightarrow> rel_in_range (RelProposal chainID (p\<lparr>pbp_Timestamp := t, pbp_Signature := a\<rparr>))" for a t
    using ok by (simp_all add: proposal_acceptable_def pbp_in_range_def)
  show ?thesis
  proof (cases check)
    case (Inl e)
    then show ?thesis using S by (auto simp: outcome_def Let_def)
  next
    case (Inr same)
    obtain bz where bz: "ProposalSignBytes E chainID p = Some bz" using S Inr by (cases "ProposalSignBytes E chainID p") auto
    show ?thesis
    proof (cases same)
      case True
      then obtain lb sg where l: "hrs_of ?l = (pbp_Height p, pbp_Round p, stepPropose)" "lss_SignBytes ?l = Some lb" "lss_Signature ?l = Some sg"
        using chk Inr by (auto simp: CheckHRS_cases split: if_splits)
      then have enc: "encodes E stepPropose lb" using w by (auto simp: well_def hrs_of_def)
      show ?thesis
      proof (cases "bz = lb")
        case eq: True
        then show ?thesis using S Inr True bz l rng by (auto simp: outcome_def Let_def the_bytes_def)
      next
        case False
        obtain t b where c: "checkProposalsOnlyDifferByTimestamp P now lb bz = Some (t, b)"
          using S Inr True bz l False by (cases "checkProposalsOnlyDifferByTimestamp P now lb bz") (auto simp: the_bytes_def)
        have "ProposalSignBytes E chainID (p\<lparr>pbp_Timestamp := t, pbp_Signature := sg\<rparr>) = Some lb \<and> time_in_range t" if b
          using proposal_retimed [OF ok bz enc, of now t sg] c that by simp
        then show ?thesis
          using S Inr True bz l False c rng by (cases b) (auto simp: outcome_def Let_def the_bytes_def)
      qed
    next
      case False
      then have lt: "hrs_of ?l < (pbp_Height p, pbp_Round p, stepPropose)"
        using chk Inr by (auto simp: CheckHRS_cases split: if_splits)
      obtain c where "bz = MarshalDelimited (cp_Marshal (env_StdTime E) c)" "cp_fits c" "time_in_range (cp_Timestamp c)"
        by (rule ProposalSignBytes_canonical [OF ok bz])
      then have enc: "encodes E stepPropose bz" by (auto simp: encodes_def)
      show ?thesis
        using S Inr False bz lt enc rng by (cases "pe_Sign P ?key bz") (auto simp: outcome_def Let_def)
    qed
  qed
qed

interpretation votes: signer "\<lambda>wrote v pv d. SignVote E P wrote now chainID v pv d" "RelVote chainID"
  "vote_acceptable E P chainID" E P for E P now chainID
  by unfold_locales (rule signVote_outcome)

interpretation proposals: signer "\<lambda>wrote p pv d. SignProposal E P wrote now chainID p pv d" "RelProposal chainID"
  "proposal_acceptable E P chainID" E P for E P now chainID
  by unfold_locales (rule signProposal_outcome)

section \<open>Histories with crashes\<close>

record world =
  w_mem :: "file_pv option"
  w_disk :: disk
  w_log :: "released set"

definition release :: "pv_error option \<Rightarrow> released \<Rightarrow> released set \<Rightarrow> released set" where
  "release err x log = (if err = None then insert x log else log)"

text \<open>
  A running validator signs votes and proposals; it may crash at any time, also after a signing call has
  written the state file and before its result is used; a restart loads the files.
\<close>

inductive pv_steps :: "env \<Rightarrow> pv_env \<Rightarrow> string \<Rightarrow> string \<Rightarrow> world \<Rightarrow> world \<Rightarrow> bool" for E P kp sp w0 where
  start: "pv_steps E P kp sp w0 w0"
| vote: "pv_steps E P kp sp w0 w \<Longrightarrow> w_mem w = Some pv \<Longrightarrow> pbv_in_range v \<Longrightarrow> length chainID < 2 ^ 16 \<Longrightarrow>
    SignVote E P wrote now chainID v pv (w_disk w) = Some ((err, v'), pv', d') \<Longrightarrow>
    pv_steps E P kp sp w0 \<lparr>w_mem = Some pv', w_disk = d', w_log = release err (RelVote chainID v') (w_log w)\<rparr>"
| proposal: "pv_steps E P kp sp w0 w \<Longrightarrow> w_mem w = Some pv \<Longrightarrow> pbp_in_range p \<Longrightarrow> length chainID < 2 ^ 16 \<Longrightarrow>
    SignProposal E P wrote now chainID p pv (w_disk w) = Some ((err, p'), pv', d') \<Longrightarrow>
    pv_steps E P kp sp w0 \<lparr>w_mem = Some pv', w_disk = d', w_log = release err (RelProposal chainID p') (w_log w)\<rparr>"
| crash: "pv_steps E P kp sp w0 w \<Longrightarrow> pv_steps E P kp sp w0 (w\<lparr>w_mem := None\<rparr>)"
| vote_crash: "pv_steps E P kp sp w0 w \<Longrightarrow> w_mem w = Some pv \<Longrightarrow> pbv_in_range v \<Longrightarrow> length chainID < 2 ^ 16 \<Longrightarrow>
    SignVote E P wrote now chainID v pv (w_disk w) = Some ((err, v'), pv', d') \<Longrightarrow>
    pv_steps E P kp sp w0 \<lparr>w_mem = None, w_disk = d', w_log = w_log w\<rparr>"
| proposal_crash: "pv_steps E P kp sp w0 w \<Longrightarrow> w_mem w = Some pv \<Longrightarrow> pbp_in_range p \<Longrightarrow> length chainID < 2 ^ 16 \<Longrightarrow>
    SignProposal E P wrote now chainID p pv (w_disk w) = Some ((err, p'), pv', d') \<Longrightarrow>
    pv_steps E P kp sp w0 \<lparr>w_mem = None, w_disk = d', w_log = w_log w\<rparr>"
| restart: "pv_steps E P kp sp w0 w \<Longrightarrow> LoadFilePV E P kp sp (w_disk w) = Inr pv \<Longrightarrow>
    pv_steps E P kp sp w0 (w\<lparr>w_mem := Some pv\<rparr>)"

definition w_inv :: "env \<Rightarrow> pv_env \<Rightarrow> bytes \<Rightarrow> string \<Rightarrow> string \<Rightarrow> world \<Rightarrow> bool" where
  "w_inv E P key kp sp w \<longleftrightarrow> consistent E P key (w_log w) \<and> on_disk E P key kp sp (w_disk w) (w_log w)
     \<and> (\<forall>pv. w_mem w = Some pv \<longrightarrow> synced E P key kp sp pv (w_disk w) (w_log w))"

lemma load_synced:
  assumes "on_disk E P key kp sp d log" "LoadFilePV E P kp sp d = Inr pv"
  shows "synced E P key kp sp pv d log"
proof -
  obtain lss where l: "dk_keys d kp = Some key" "dk_states d sp = Some lss" "stored lss = lss" "lss_filePath lss = sp"
      "well E P key lss" "covers E lss log"
    using assms(1) by (auto simp: on_disk_def)
  have "lss\<lparr>lss_filePath := sp\<rparr> = lss" using l(4) by (cases lss) simp
  then have "pv_LastSignState pv = lss" "pvk_PrivKey (pv_Key pv) = key"
    using assms(2) l by (auto simp: LoadFilePV_def loadFilePV_def NewFilePV_def Let_def)
  then show ?thesis using l by (simp add: synced_def)
qed

lemma steps_w_inv:
  assumes "pv_steps E P kp sp w0 w" "w_inv E P key kp sp w0" "times_ok E (pe_TimeOf P)"
  shows "w_inv E P key kp sp w"
  using assms
proof (induction rule: pv_steps.induct)
  case (vote w pv v chainID wrote now err v' pv' d')
  then have s: "synced E P key kp sp pv (w_disk w) (w_log w)" "consistent E P key (w_log w)" by (auto simp: w_inv_def)
  have "vote_acceptable E P chainID v" using vote by (simp add: vote_acceptable_def)
  from votes.sign_keeps [OF this s vote.hyps(5)] show ?case
    using synced_on_disk by (auto simp: w_inv_def release_def)
next
  case (proposal w pv p chainID wrote now err p' pv' d')
  then have s: "synced E P key kp sp pv (w_disk w) (w_log w)" "consistent E P key (w_log w)" by (auto simp: w_inv_def)
  have "proposal_acceptable E P chainID p" using proposal by (simp add: proposal_acceptable_def)
  from proposals.sign_keeps [OF this s proposal.hyps(5)] show ?case
    using synced_on_disk by (auto simp: w_inv_def release_def)
next
  case (vote_crash w pv v chainID wrote now err v' pv' d')
  then have s: "synced E P key kp sp pv (w_disk w) (w_log w)" "consistent E P key (w_log w)" by (auto simp: w_inv_def)
  have "vote_acceptable E P chainID v" using vote_crash by (simp add: vote_acceptable_def)
  from votes.sign_keeps(3) [OF this s vote_crash.hyps(5)] show ?case
    using synced_on_disk s(2) by (auto simp: w_inv_def)
next
  case (proposal_crash w pv p chainID wrote now err p' pv' d')
  then have s: "synced E P key kp sp pv (w_disk w) (w_log w)" "consistent E P key (w_log w)" by (auto simp: w_inv_def)
  have "proposal_acceptable E P chainID p" using proposal_crash by (simp add: proposal_acceptable_def)
  from proposals.sign_keeps(3) [OF this s proposal_crash.hyps(5)] show ?case
    using synced_on_disk s(2) by (auto simp: w_inv_def)
next
  case (restart w pv)
  then show ?case using load_synced by (auto simp: w_inv_def)
qed (auto simp: w_inv_def)

definition fresh_world :: "env \<Rightarrow> pv_env \<Rightarrow> bytes \<Rightarrow> string \<Rightarrow> string \<Rightarrow> disk \<Rightarrow> world" where
  "fresh_world E P key kp sp d0 = \<lparr>w_mem = Some (NewFilePV E P key kp sp), w_disk = d0, w_log = {}\<rparr>"

lemma fresh_inv:
  assumes "pv_Save True (NewFilePV E P key kp sp) d = Some d0"
  shows "w_inv E P key kp sp (fresh_world E P key kp sp d0)"
proof -
  have "synced E P key kp sp (NewFilePV E P key kp sp) d0 {}"
    using assms by (auto simp: synced_def pv_Save_def key_Save_def lss_Save_def NewFilePV_def empty_lss_def well_def
        covers_def split: if_splits)
  then show ?thesis using synced_on_disk by (auto simp: w_inv_def fresh_world_def consistent_def)
qed

lemma released_vote_canonical:
  fixes P :: pv_env
  assumes "times_ok E (pe_TimeOf P)" "rel_in_range (RelVote c v)" "rel_in_range (RelVote c' v')"
    and "VoteSignBytes E c v = Some bz" "VoteSignBytes E c' v' = Some bz"
  shows "CanonicalizeVote c v = CanonicalizeVote c' v'"
proof -
  have a: "vote_acceptable E P c v" "vote_acceptable E P c' v'" using assms(1-3) by (simp_all add: vote_acceptable_def)
  obtain x where x: "CanonicalizeVote c v = Some x"
      "UnmarshalDelimited (cv_Unmarshal (pe_TimeOf P) zero_time) bz = Some x" by (rule VoteSignBytes_canonical [OF a(1) assms(4)])
  obtain y where y: "CanonicalizeVote c' v' = Some y"
      "UnmarshalDelimited (cv_Unmarshal (pe_TimeOf P) zero_time) bz = Some y" by (rule VoteSignBytes_canonical [OF a(2) assms(5)])
  show ?thesis using x y by simp
qed

lemma released_proposal_canonical:
  fixes P :: pv_env
  assumes "times_ok E (pe_TimeOf P)" "rel_in_range (RelProposal c p)" "rel_in_range (RelProposal c' p')"
    and "ProposalSignBytes E c p = Some bz" "ProposalSignBytes E c' p' = Some bz"
  shows "CanonicalizeProposal c p = CanonicalizeProposal c' p'"
proof -
  have a: "proposal_acceptable E P c p" "proposal_acceptable E P c' p'" using assms(1-3) by (simp_all add: proposal_acceptable_def)
  obtain x where x: "CanonicalizeProposal c p = Some x"
      "UnmarshalDelimited (cp_Unmarshal (pe_TimeOf P) zero_time) bz = Some x" by (rule ProposalSignBytes_canonical [OF a(1) assms(4)])
  obtain y where y: "CanonicalizeProposal c' p' = Some y"
      "UnmarshalDelimited (cp_Unmarshal (pe_TimeOf P) zero_time) bz = Some y" by (rule ProposalSignBytes_canonical [OF a(2) assms(5)])
  show ?thesis using x y by simp
qed

section \<open>Signing again\<close>

lemma SignVote_shape:
  assumes "SignVote E P wrote now c v pv d = Some ((None, v'), pv', d')"
  shows "v' = v\<lparr>pbv_Timestamp := pbv_Timestamp v', pbv_Signature := pbv_Signature v'\<rparr>"
  using assms
  by (auto simp: SignVote_def signVote_def Let_def split: Option.bind_splits sum.splits if_splits option.splits)

text \<open>What is remembered after a signing call that succeeded.\<close>

lemma outcome_remembered:
  assumes "outcome E P wrote pv d None x pv' d'" "well E P (pvk_PrivKey (pv_Key pv)) (pv_LastSignState pv)"
  obtains bz s where "rel_bytes E x = Some bz" "hrs_of (pv_LastSignState pv') = rel_hrs x" "snd (snd (rel_hrs x)) = s"
    "lss_SignBytes (pv_LastSignState pv') = Some bz" "lss_Signature (pv_LastSignState pv') = Some (rel_sig x)" "encodes E s bz"
proof -
  have "\<exists>bz. rel_bytes E x = Some bz \<and> hrs_of (pv_LastSignState pv') = rel_hrs x \<and> lss_SignBytes (pv_LastSignState pv') = Some bz
      \<and> lss_Signature (pv_LastSignState pv') = Some (rel_sig x) \<and> encodes E (snd (snd (rel_hrs x))) bz"
    using assms by (auto simp: outcome_def Let_def well_def hrs_of_def saveSigned_def)
  then show thesis using that by blast
qed

text \<open>The same vote with another time is answered with the remembered time and signature.\<close>

lemma resign:
  assumes ok: "vote_acceptable E P c v" "vote_acceptable E P c v1" and step: "voteToStep v = Some s"
    and v1: "v1 = v\<lparr>pbv_Timestamp := pbv_Timestamp v1, pbv_Signature := sg\<rparr>" and bz: "VoteSignBytes E c v1 = Some lb"
    and l: "hrs_of (pv_LastSignState pv) = (pbv_Height v, pbv_Round v, s)" "lss_SignBytes (pv_LastSignState pv) = Some lb"
      "lss_Signature (pv_LastSignState pv) = Some sg"
    and t: "time_in_range t"
  shows "SignVote E P wrote now c (v\<lparr>pbv_Timestamp := t\<rparr>) pv d = Some ((None, v1), pv, d)"
proof -
  let ?v = "v\<lparr>pbv_Timestamp := t\<rparr>"
  have chk: "CheckHRS (pbv_Height ?v) (pbv_Round ?v) s (pv_LastSignState pv) = Some (Inr True)"
    using l by (simp add: CheckHRS_cases)
  have st: "voteToStep ?v = Some s" using step by simp
  obtain x where x: "CanonicalizeVote c v1 = Some x" "UnmarshalDelimited (cv_Unmarshal (pe_TimeOf P) zero_time) lb = Some x"
    by (rule VoteSignBytes_canonical [OF ok(2) bz])
  have id: "CanonicalizeVote c ?v = Some (x\<lparr>cv_Timestamp := t\<rparr>)" "cv_Timestamp x = pbv_Timestamp v1"
    using x(1) by (subst (asm) v1, auto simp: CanonicalizeVote_def)+
  then obtain nb where nb: "VoteSignBytes E c ?v = Some nb" by (simp add: VoteSignBytes_def)
  have "vote_acceptable E P c ?v" using ok(1) t by (simp add: vote_acceptable_def pbv_in_range_def)
  from VoteSignBytes_canonical [OF this nb] id(1)
  have dn: "UnmarshalDelimited (cv_Unmarshal (pe_TimeOf P) zero_time) nb = Some (x\<lparr>cv_Timestamp := t\<rparr>)" by auto
  have v1': "v1 = ?v\<lparr>pbv_Timestamp := pbv_Timestamp v1, pbv_Signature := sg\<rparr>" by (subst v1) simp
  show ?thesis
  proof (cases "nb = lb")
    case True
    then have "x\<lparr>cv_Timestamp := t\<rparr> = x" using dn x(2) by simp
    then have "t = pbv_Timestamp v1" using id(2) by (metis canonical_vote.select_convs(5) canonical_vote.surjective canonical_vote.update_convs(5))
    then have "v1 = ?v\<lparr>pbv_Signature := sg\<rparr>" by (subst v1) simp
    then show ?thesis using True st chk nb l by (simp add: SignVote_def signVote_def the_bytes_def)
  next
    case False
    have "checkVotesOnlyDifferByTimestamp P now lb nb = Some (pbv_Timestamp v1, True)"
      using x(2) dn id(2) by (simp add: checkVotesOnlyDifferByTimestamp_def)
    then show ?thesis using False st chk nb l v1' by (simp add: SignVote_def signVote_def the_bytes_def)
  qed
qed

section \<open>A sample run\<close>

definition toy_time :: "int \<Rightarrow> bytes" where
  "toy_time t = le64 (t div 2 ^ 62) @ le64 (t mod 2 ^ 62)"

definition toy_time_of :: "bytes \<Rightarrow> int option" where
  "toy_time_of bs = Some (sfixed64 (take 8 bs) * 2 ^ 62 + sfixed64 (drop 8 bs))"

definition pv_sample_env :: env where
  "pv_sample_env = sample_env\<lparr>env_StdTime := toy_time\<rparr>"

definition pv_sample :: pv_env where
  "pv_sample = \<lparr>pe_Sign = (\<lambda>k bz. Some (k @ rev bz)), pe_PubKey = (\<lambda>k. k), pe_TimeOf = toy_time_of\<rparr>"

lemma toy_times_ok: "times_ok pv_sample_env (pe_TimeOf pv_sample)"
proof -
  have "toy_time_of (toy_time t) = Some t" if t: "time_in_range t" for t
  proof -
    have "in_i64 (t div 2 ^ 62)" "in_i64 (t mod 2 ^ 62)"
      using t pos_mod_bound [of "2 ^ 62" t] pos_mod_sign [of "2 ^ 62" t] by (auto simp: time_in_range_def in_i64_def)
    then show ?thesis by (simp add: toy_time_def toy_time_of_def length_le64 sfixed64_le64)
  qed
  then show ?thesis
    by (simp add: times_ok_def time_ok_def pv_sample_env_def pv_sample_def toy_time_def length_le64)
qed

definition pv_vote :: pb_vote where
  "pv_vote = \<lparr>pbv_Type = PrevoteType, pbv_Height = 5, pbv_Round = 1, pbv_BlockID = bid_ToProto zero_block_id,
     pbv_Timestamp = 7, pbv_ValidatorAddress = [], pbv_ValidatorIndex = 0, pbv_Signature = []\<rparr>"

definition pv_start :: "disk option" where
  "pv_start = pv_Save True (NewFilePV pv_sample_env pv_sample [9] ''k'' ''s'') \<lparr>dk_keys = Map.empty, dk_states = Map.empty\<rparr>"

lemma pv_vote_in_range: "pbv_in_range pv_vote" "length [97::byte] < 2 ^ 16"
  by (simp_all add: pbv_in_range_def pv_vote_def in_i32_def in_i64_def time_in_range_def bid_ToProto_def psh_ToProto_def
      zero_block_id_def)

lemma pv_sample_run:
  obtains d0 pv1 v1 d1 pv2 where "pv_Save True (NewFilePV pv_sample_env pv_sample [9] ''k'' ''s'') \<lparr>dk_keys = Map.empty, dk_states = Map.empty\<rparr> = Some d0"
    "SignVote pv_sample_env pv_sample True 0 [97] pv_vote (NewFilePV pv_sample_env pv_sample [9] ''k'' ''s'') d0 = Some ((None, v1), pv1, d1)"
    "LoadFilePV pv_sample_env pv_sample ''k'' ''s'' d1 = Inr pv2" "pbv_Signature v1 \<noteq> []"
proof -
  have "\<exists>bz. VoteSignBytes pv_sample_env [97] pv_vote = Some bz"
    by (simp add: VoteSignBytes_def CanonicalizeVote_def pv_vote_def CanonicalizeBlockID_def bid_from_to_valid [OF bid_zero_valid] bid_IsZero_iff)
  then obtain bz where bz: "VoteSignBytes pv_sample_env [97] pv_vote = Some bz" ..
  have f: "pbv_Type pv_vote = 1" "pbv_Height pv_vote = 5" "pbv_Round pv_vote = 1" by (simp_all add: pv_vote_def)
  show thesis
    by (rule that) (auto simp: pv_Save_def key_Save_def lss_Save_def NewFilePV_def empty_lss_def SignVote_def signVote_def
        voteToStep_def f bz CheckHRS_def saveSigned_def pv_sample_def LoadFilePV_def loadFilePV_def Let_def)
qed

section \<open>Properties\<close>

text \<open>
  C7: a private validator never signs twice. In every history of signing requests, crashes (also
  between the write of the state file and the use of the result) and restarts from its files, two votes it
  released for one height, round and type are the same canonical vote, timestamp included, with
  the same signature; so are two proposals for one height and round; and every signature released is a
  signature of the message it was released with.
\<close>

theorem no_double_signing:
  assumes times: "times_ok E (pe_TimeOf P)"
    and init: "pv_Save True (NewFilePV E P key kp sp) d = Some d0"
    and steps: "pv_steps E P kp sp (fresh_world E P key kp sp d0) w"
  shows "(\<forall>c v c' v'. RelVote c v \<in> w_log w \<longrightarrow> RelVote c' v' \<in> w_log w \<longrightarrow>
      pbv_Height v = pbv_Height v' \<and> pbv_Round v = pbv_Round v' \<and> pbv_Type v = pbv_Type v' \<longrightarrow>
      CanonicalizeVote c v = CanonicalizeVote c' v' \<and> pbv_Signature v = pbv_Signature v')
    \<and> (\<forall>c p c' p'. RelProposal c p \<in> w_log w \<longrightarrow> RelProposal c' p' \<in> w_log w \<longrightarrow>
      pbp_Height p = pbp_Height p' \<and> pbp_Round p = pbp_Round p' \<longrightarrow>
      CanonicalizeProposal c p = CanonicalizeProposal c' p' \<and> pbp_Signature p = pbp_Signature p')
    \<and> (\<forall>x \<in> w_log w. \<exists>bz. rel_bytes E x = Some bz \<and> pe_Sign P key bz = Some (rel_sig x))"
proof (intro conjI allI impI ballI)
  have "w_inv E P key kp sp w" by (rule steps_w_inv [OF steps fresh_inv [OF init] times])
  then have con: "consistent E P key (w_log w)" by (simp add: w_inv_def)
  show "\<exists>bz. rel_bytes E x = Some bz \<and> pe_Sign P key bz = Some (rel_sig x)" if "x \<in> w_log w" for x
    using consistentD(1) [OF con that] by blast
  fix c c'
  show "CanonicalizeVote c v = CanonicalizeVote c' v'" "pbv_Signature v = pbv_Signature v'"
    if x: "RelVote c v \<in> w_log w" "RelVote c' v' \<in> w_log w"
      and "pbv_Height v = pbv_Height v' \<and> pbv_Round v = pbv_Round v' \<and> pbv_Type v = pbv_Type v'" for v v'
  proof -
    have "rel_hrs (RelVote c v) = rel_hrs (RelVote c' v')" using that(3) by (simp add: voteToStep_def)
    note e = consistentD(2) [OF con x this]
    obtain bz where bz: "VoteSignBytes E c v = Some bz" using consistentD(1) [OF con x(1)] by auto
    with e have bz': "VoteSignBytes E c' v' = Some bz" by simp
    show "CanonicalizeVote c v = CanonicalizeVote c' v'"
      by (rule released_vote_canonical [OF times consistentD(1) [OF con x(1), THEN conjunct1]
            consistentD(1) [OF con x(2), THEN conjunct1] bz bz'])
    show "pbv_Signature v = pbv_Signature v'" using e by simp
  qed
  show "CanonicalizeProposal c p = CanonicalizeProposal c' p'" "pbp_Signature p = pbp_Signature p'"
    if x: "RelProposal c p \<in> w_log w" "RelProposal c' p' \<in> w_log w"
      and "pbp_Height p = pbp_Height p' \<and> pbp_Round p = pbp_Round p'" for p p'
  proof -
    have "rel_hrs (RelProposal c p) = rel_hrs (RelProposal c' p')" using that(3) by simp
    note e = consistentD(2) [OF con x this]
    obtain bz where bz: "ProposalSignBytes E c p = Some bz" using consistentD(1) [OF con x(1)] by auto
    with e have bz': "ProposalSignBytes E c' p' = Some bz" by simp
    show "CanonicalizeProposal c p = CanonicalizeProposal c' p'"
      by (rule released_proposal_canonical [OF times consistentD(1) [OF con x(1), THEN conjunct1]
            consistentD(1) [OF con x(2), THEN conjunct1] bz bz'])
    show "pbp_Signature p = pbp_Signature p'" using e by simp
  qed
qed

theorem no_double_signing_witness:
  "\<exists>w v1. w_log w = {RelVote [97] v1} \<and> pv_steps pv_sample_env pv_sample ''k'' ''s'' (w\<lparr>w_mem := None\<rparr>) w
     \<and> (\<exists>bz. rel_bytes pv_sample_env (RelVote [97] v1) = Some bz \<and> pe_Sign pv_sample [9] bz = Some (pbv_Signature v1))"
proof -
  obtain d0 pv1 v1 d1 pv2 where r: "pv_Save True (NewFilePV pv_sample_env pv_sample [9] ''k'' ''s'')
        \<lparr>dk_keys = Map.empty, dk_states = Map.empty\<rparr> = Some d0"
      "SignVote pv_sample_env pv_sample True 0 [97] pv_vote (NewFilePV pv_sample_env pv_sample [9] ''k'' ''s'') d0 = Some ((None, v1), pv1, d1)"
      "LoadFilePV pv_sample_env pv_sample ''k'' ''s'' d1 = Inr pv2"
    by (rule pv_sample_run)
  let ?w1 = "\<lparr>w_mem = Some pv1, w_disk = d1, w_log = {RelVote [97] v1}\<rparr>" and ?w = "\<lparr>w_mem = Some pv2, w_disk = d1, w_log = {RelVote [97] v1}\<rparr>"
  have "pv_steps pv_sample_env pv_sample ''k'' ''s'' (fresh_world pv_sample_env pv_sample [9] ''k'' ''s'' d0) ?w1"
    using pv_steps.vote [OF pv_steps.start _ pv_vote_in_range, of "fresh_world pv_sample_env pv_sample [9] ''k'' ''s'' d0"
        "NewFilePV pv_sample_env pv_sample [9] ''k'' ''s''" _ _ True 0 None v1 pv1 d1 "''k''" "''s''"] r(2)
    by (simp add: fresh_world_def release_def)
  from pv_steps.restart [OF pv_steps.crash [OF this]] r(3)
  have "pv_steps pv_sample_env pv_sample ''k'' ''s'' (fresh_world pv_sample_env pv_sample [9] ''k'' ''s'' d0) ?w" by simp
  note n = no_double_signing [OF toy_times_ok r(1) this]
  have "pv_steps pv_sample_env pv_sample ''k'' ''s'' (?w\<lparr>w_mem := None\<rparr>) ?w"
    using pv_steps.restart [OF pv_steps.start, of pv_sample_env pv_sample "''k''" "''s''" "?w\<lparr>w_mem := None\<rparr>"] r(3) by simp
  with n show ?thesis by (intro exI [of _ ?w] exI [of _ v1] conjI) auto
qed

text \<open>
  C27: a signature is not lost in a crash: when a vote was signed in a reachable state and the process dies, the
  validator loaded from the files answers a request for the same vote, with whatever new timestamp, with
  exactly the vote signed before: the old timestamp and the old signature.
\<close>

theorem resign_after_crash:
  assumes times: "times_ok E (pe_TimeOf P)"
    and init: "pv_Save True (NewFilePV E P key kp sp) d = Some d0"
    and steps: "pv_steps E P kp sp (fresh_world E P key kp sp d0) w" "w_mem w = Some pv"
    and sign: "SignVote E P wrote now c v pv (w_disk w) = Some ((None, v1), pv1, d1)" "pbv_Signature v1 \<noteq> []"
    and v: "pbv_in_range v" "length c < 2 ^ 16"
    and load: "LoadFilePV E P kp sp d1 = Inr pv2" and t: "time_in_range t"
  shows "SignVote E P wrote' now' c (v\<lparr>pbv_Timestamp := t\<rparr>) pv2 d1 = Some ((None, v1), pv2, d1)"
proof -
  have "w_inv E P key kp sp w" by (rule steps_w_inv [OF steps(1) fresh_inv [OF init] times])
  then have s: "synced E P key kp sp pv (w_disk w) (w_log w)" "consistent E P key (w_log w)"
    using steps(2) by (auto simp: w_inv_def)
  have ok: "vote_acceptable E P c v" using times v by (simp add: vote_acceptable_def)
  have wl: "well E P (pvk_PrivKey (pv_Key pv)) (pv_LastSignState pv)" using s(1) by (auto simp: synced_def)
  have out: "outcome E P wrote pv (w_disk w) None (RelVote c v1) pv1 d1" by (rule signVote_outcome [OF ok wl sign(1)])
  obtain bz st where r: "rel_bytes E (RelVote c v1) = Some bz" "hrs_of (pv_LastSignState pv1) = rel_hrs (RelVote c v1)"
      "lss_SignBytes (pv_LastSignState pv1) = Some bz" "lss_Signature (pv_LastSignState pv1) = Some (rel_sig (RelVote c v1))"
      "encodes E st bz" by (rule outcome_remembered [OF out wl])
  have s1: "synced E P key kp sp pv1 d1 (w_log w)" by (rule votes.sign_keeps(3) [OF ok s sign(1)])
  then have pv2: "pv_LastSignState pv2 = stored (pv_LastSignState pv1)\<lparr>lss_filePath := sp\<rparr>"
    using load by (auto simp: LoadFilePV_def loadFilePV_def NewFilePV_def Let_def synced_def)
  have shape: "v1 = v\<lparr>pbv_Timestamp := pbv_Timestamp v1, pbv_Signature := pbv_Signature v1\<rparr>" by (rule SignVote_shape [OF sign(1)])
  obtain stp where stp: "voteToStep v = Some stp" using sign(1) by (cases "voteToStep v") (auto simp: SignVote_def signVote_def)
  have f: "pbv_Height v1 = pbv_Height v" "pbv_Round v1 = pbv_Round v" "voteToStep v1 = Some stp"
    using stp by (subst shape, simp)+
  have ok1: "vote_acceptable E P c v1" using out times by (simp add: outcome_def Let_def vote_acceptable_def)
  have "bz \<noteq> []" using r(5) encodes_nonempty by blast
  then have "lss_SignBytes (pv_LastSignState pv2) = Some bz" "lss_Signature (pv_LastSignState pv2) = Some (pbv_Signature v1)"
      "hrs_of (pv_LastSignState pv2) = (pbv_Height v, pbv_Round v, stp)"
    using r(2-4) f sign(2) pv2 by (simp_all add: stored_def omitempty_def hrs_of_def)
  then show ?thesis using resign [OF ok ok1 stp shape _ _ _ _ t] r(1) by simp
qed

theorem resign_after_crash_witness:
  "\<exists>v1 pv2 d1. pbv_Signature v1 \<noteq> []
     \<and> SignVote pv_sample_env pv_sample True 0 [97] (pv_vote\<lparr>pbv_Timestamp := 8\<rparr>) pv2 d1 = Some ((None, v1), pv2, d1)"
proof -
  obtain d0 pv1 v1 d1 pv2 where r: "pv_Save True (NewFilePV pv_sample_env pv_sample [9] ''k'' ''s'')
        \<lparr>dk_keys = Map.empty, dk_states = Map.empty\<rparr> = Some d0"
      "SignVote pv_sample_env pv_sample True 0 [97] pv_vote (NewFilePV pv_sample_env pv_sample [9] ''k'' ''s'') d0 = Some ((None, v1), pv1, d1)"
      "LoadFilePV pv_sample_env pv_sample ''k'' ''s'' d1 = Inr pv2" "pbv_Signature v1 \<noteq> []"
    by (rule pv_sample_run)
  let ?w = "fresh_world pv_sample_env pv_sample [9] ''k'' ''s'' d0"
  have m: "w_mem ?w = Some (NewFilePV pv_sample_env pv_sample [9] ''k'' ''s'')" "w_disk ?w = d0" by (simp_all add: fresh_world_def)
  have "SignVote pv_sample_env pv_sample True 0 [97] pv_vote (NewFilePV pv_sample_env pv_sample [9] ''k'' ''s'') (w_disk ?w)
      = Some ((None, v1), pv1, d1)" using r(2) m(2) by simp
  from resign_after_crash [OF toy_times_ok r(1) pv_steps.start m(1) this r(4) pv_vote_in_range r(3), of 8 True 0]
  show ?thesis using r(4) by (auto simp: time_in_range_def)
qed

text \<open>
  C28: sign bytes decode to what was signed: for a vote or a proposal in range, the delimited reader and the generated
  decoder give back the canonical message that was encoded.
\<close>

theorem sign_bytes_round_trip:
  fixes P :: pv_env
  assumes times: "times_ok E (pe_TimeOf P)" and chain: "length chainID < 2 ^ 16"
    and v: "pbv_in_range v" "VoteSignBytes E chainID v = Some bv"
    and p: "pbp_in_range p" "ProposalSignBytes E chainID p = Some bp"
  shows "UnmarshalDelimited (cv_Unmarshal (pe_TimeOf P) zero_time) bv = CanonicalizeVote chainID v
    \<and> UnmarshalDelimited (cp_Unmarshal (pe_TimeOf P) zero_time) bp = CanonicalizeProposal chainID p"
proof
  have a: "vote_acceptable E P chainID v" "proposal_acceptable E P chainID p"
    using times chain v p by (simp_all add: vote_acceptable_def proposal_acceptable_def)
  show "UnmarshalDelimited (cv_Unmarshal (pe_TimeOf P) zero_time) bv = CanonicalizeVote chainID v"
    by (rule VoteSignBytes_canonical [OF a(1) v(2)]) simp
  show "UnmarshalDelimited (cp_Unmarshal (pe_TimeOf P) zero_time) bp = CanonicalizeProposal chainID p"
    by (rule ProposalSignBytes_canonical [OF a(2) p(2)]) simp
qed

theorem sign_bytes_round_trip_witness:
  "\<exists>bv c. VoteSignBytes pv_sample_env [97] pv_vote = Some bv
     \<and> UnmarshalDelimited (cv_Unmarshal (pe_TimeOf pv_sample) zero_time) bv = Some c \<and> cv_Height c = 5"
proof -
  let ?p = "\<lparr>pbp_Type = 32, pbp_Height = 5, pbp_Round = 1, pbp_PolRound = -1, pbp_BlockID = bid_ToProto zero_block_id,
     pbp_Timestamp = 7, pbp_Signature = []\<rparr>"
  have z: "CanonicalizeBlockID (bid_ToProto zero_block_id) = Some None"
    by (simp add: CanonicalizeBlockID_def bid_from_to_valid [OF bid_zero_valid] bid_IsZero_iff)
  have p: "pbp_in_range ?p"
    by (simp add: pbp_in_range_def in_i32_def in_i64_def time_in_range_def bid_ToProto_def psh_ToProto_def zero_block_id_def)
  obtain c where c: "CanonicalizeVote [97] pv_vote = Some c" "cv_Height c = 5"
    using z by (simp add: CanonicalizeVote_def pv_vote_def)
  then obtain bv where bv: "VoteSignBytes pv_sample_env [97] pv_vote = Some bv" by (simp add: VoteSignBytes_def)
  obtain bp where bp: "ProposalSignBytes pv_sample_env [97] ?p = Some bp"
    using z by (simp add: ProposalSignBytes_def CanonicalizeProposal_def)
  show ?thesis
    using sign_bytes_round_trip [OF toy_times_ok pv_vote_in_range(2,1) bv p bp] bv c by simp
qed

end
