(* ===== verification/Header.thy ===== *)
theory Header
  imports VoteSet Proposal
begin

text \<open>
  Block headers (\<open>types/block.go\<close>) with the encodings that their hash is made of
  (\<open>types/encoding_helper.go\<close>, \<open>version/version.go\<close>), the hashes of commits and of validator sets
  (\<open>types/validator.go\<close>, \<open>types/validator_set.go\<close>, \<open>crypto/encoding/codec.go\<close>), and the signed headers and
  light blocks of \<open>types/light.go\<close>.

  A hash of length zero stands for a nil one. The wrapper messages \<open>StringValue\<close>, \<open>Int64Value\<close> and
  \<open>BytesValue\<close> are encoded by the protobuf library, which is outside the repository: the record
  \<open>wrappers\<close>. The library refuses to encode a time outside the years 1 to 9999. The scheme of a public
  key is the function \<open>be_KeyType\<close> of the record \<open>batch_env\<close>.
\<close>

section \<open>Encodings\<close>

record wrappers =
  w_StringValue :: "bytes \<Rightarrow> bytes"
  w_Int64Value :: "int \<Rightarrow> bytes"
  w_BytesValue :: "bytes \<Rightarrow> bytes"

text \<open>\<open>cdcEncode\<close> at its three argument types; an empty string or slice has no encoding.\<close>

definition cdcEncode_string :: "wrappers \<Rightarrow> bytes \<Rightarrow> bytes" where
  "cdcEncode_string W s = (if s = [] then [] else w_StringValue W s)"

definition cdcEncode_int64 :: "wrappers \<Rightarrow> int \<Rightarrow> bytes" where
  "cdcEncode_int64 W i = w_Int64Value W i"

definition cdcEncode_bytes :: "wrappers \<Rightarrow> bytes \<Rightarrow> bytes" where
  "cdcEncode_bytes W b = (if b = [] then [] else w_BytesValue W b)"

record consensus_version =
  ver_Block :: nat
  ver_App :: nat

record pb_consensus_version =
  pbver_Block :: nat
  pbver_App :: nat

definition BlockProtocol :: nat where
  "BlockProtocol = 11"

definition ver_ToProto :: "consensus_version \<Rightarrow> pb_consensus_version" where
  "ver_ToProto c = \<lparr>pbver_Block = ver_Block c, pbver_App = ver_App c\<rparr>"

definition ver_Marshal :: "pb_consensus_version \<Rightarrow> bytes" where
  "ver_Marshal m = varint_field 0x08 (pbver_Block m) @ varint_field 0x10 (pbver_App m)"

definition bid_Marshal :: "pb_block_id \<Rightarrow> bytes" where
  "bid_Marshal m =
     bytes_field 0x0a (pbbid_Hash m) @ message_field 0x12 (psh_Marshal (pbbid_PartSetHeader m))"

record pb_commit_sig =
  pbcs_BlockIdFlag :: int
  pbcs_ValidatorAddress :: bytes
  pbcs_Timestamp :: int
  pbcs_Signature :: bytes

definition pbcs_Marshal :: "(int \<Rightarrow> bytes) \<Rightarrow> pb_commit_sig \<Rightarrow> bytes" where
  "pbcs_Marshal stdTime m =
     varint_field 0x08 (u64 (pbcs_BlockIdFlag m)) @ bytes_field 0x12 (pbcs_ValidatorAddress m)
     @ message_field 0x1a (stdTime (pbcs_Timestamp m)) @ bytes_field 0x22 (pbcs_Signature m)"

section \<open>Headers\<close>

definition MaxChainIDLen :: nat where
  "MaxChainIDLen = 50"

record header =
  hd_Version :: consensus_version
  hd_ChainID :: bytes
  hd_Height :: int
  hd_Time :: int
  hd_LastBlockID :: block_id
  hd_LastCommitHash :: bytes
  hd_DataHash :: bytes
  hd_ValidatorsHash :: bytes
  hd_NextValidatorsHash :: bytes
  hd_ConsensusHash :: bytes
  hd_AppHash :: bytes
  hd_LastResultsHash :: bytes
  hd_EvidenceHash :: bytes
  hd_ProposerAddress :: bytes

record pb_header =
  pbh_Version :: pb_consensus_version
  pbh_ChainID :: bytes
  pbh_Height :: int
  pbh_Time :: int
  pbh_LastBlockId :: pb_block_id
  pbh_LastCommitHash :: bytes
  pbh_DataHash :: bytes
  pbh_ValidatorsHash :: bytes
  pbh_NextValidatorsHash :: bytes
  pbh_ConsensusHash :: bytes
  pbh_AppHash :: bytes
  pbh_LastResultsHash :: bytes
  pbh_EvidenceHash :: bytes
  pbh_ProposerAddress :: bytes

datatype header_error = ErrNilHeader | ErrBlockProtocol | ErrChainIDTooLong
  | ErrHeaderHeight basic_error | ErrLastBlockID basic_error | ErrLastCommitHash | ErrDataHash
  | ErrEvidenceHash | ErrProposerAddress | ErrValidatorsHash | ErrNextValidatorsHash
  | ErrConsensusHash | ErrLastResultsHash

definition Populate ::
  "consensus_version \<Rightarrow> bytes \<Rightarrow> int \<Rightarrow> block_id \<Rightarrow> bytes \<Rightarrow> bytes \<Rightarrow> bytes \<Rightarrow> bytes \<Rightarrow> bytes \<Rightarrow> bytes
     \<Rightarrow> header \<Rightarrow> header" where
  "Populate version chainID timestamp lastBlockID valHash nextValHash consensusHash appHash
      lastResultsHash proposerAddress h =
     h\<lparr>hd_Version := version, hd_ChainID := chainID, hd_Time := timestamp, hd_LastBlockID := lastBlockID,
       hd_ValidatorsHash := valHash, hd_NextValidatorsHash := nextValHash,
       hd_ConsensusHash := consensusHash, hd_AppHash := appHash, hd_LastResultsHash := lastResultsHash,
       hd_ProposerAddress := proposerAddress\<rparr>"

definition hd_ValidateBasic :: "header \<Rightarrow> header_error option" where
  "hd_ValidateBasic h =
     (if ver_Block (hd_Version h) \<noteq> BlockProtocol then Some ErrBlockProtocol
      else if length (hd_ChainID h) > MaxChainIDLen then Some ErrChainIDTooLong
      else if hd_Height h < 0 then Some (ErrHeaderHeight ErrNegativeHeight)
      else if hd_Height h = 0 then Some (ErrHeaderHeight ErrZeroHeight)
      else case bid_ValidateBasic (hd_LastBlockID h) of
        Some e \<Rightarrow> Some (ErrLastBlockID e)
      | None \<Rightarrow>
          (if ValidateHash (hd_LastCommitHash h) \<noteq> None then Some ErrLastCommitHash
           else if ValidateHash (hd_DataHash h) \<noteq> None then Some ErrDataHash
           else if ValidateHash (hd_EvidenceHash h) \<noteq> None then Some ErrEvidenceHash
           else if length (hd_ProposerAddress h) \<noteq> AddressSize then Some ErrProposerAddress
           else if ValidateHash (hd_ValidatorsHash h) \<noteq> None then Some ErrValidatorsHash
           else if ValidateHash (hd_NextValidatorsHash h) \<noteq> None then Some ErrNextValidatorsHash
           else if ValidateHash (hd_ConsensusHash h) \<noteq> None then Some ErrConsensusHash
           else if ValidateHash (hd_LastResultsHash h) \<noteq> None then Some ErrLastResultsHash
           else None))"

text \<open>The leaves of the Merkle tree over the fields of a header.\<close>

definition header_fields :: "env \<Rightarrow> wrappers \<Rightarrow> header \<Rightarrow> bytes list" where
  "header_fields E W h =
     [ver_Marshal (ver_ToProto (hd_Version h)), cdcEncode_string W (hd_ChainID h),
      cdcEncode_int64 W (hd_Height h), env_StdTime E (hd_Time h),
      bid_Marshal (bid_ToProto (hd_LastBlockID h)), cdcEncode_bytes W (hd_LastCommitHash h),
      cdcEncode_bytes W (hd_DataHash h), cdcEncode_bytes W (hd_ValidatorsHash h),
      cdcEncode_bytes W (hd_NextValidatorsHash h), cdcEncode_bytes W (hd_ConsensusHash h),
      cdcEncode_bytes W (hd_AppHash h), cdcEncode_bytes W (hd_LastResultsHash h),
      cdcEncode_bytes W (hd_EvidenceHash h), cdcEncode_bytes W (hd_ProposerAddress h)]"

definition hd_Hash :: "env \<Rightarrow> wrappers \<Rightarrow> header \<Rightarrow> bytes" where
  "hd_Hash E W h =
     (if length (hd_ValidatorsHash h) = 0 then []
      else if \<not> time_in_range (hd_Time h) then []
      else HashFromByteSlices (env_Sum E) (header_fields E W h))"

definition hd_ToProto :: "header \<Rightarrow> pb_header" where
  "hd_ToProto h =
     \<lparr>pbh_Version = ver_ToProto (hd_Version h), pbh_ChainID = hd_ChainID h, pbh_Height = hd_Height h,
      pbh_Time = hd_Time h, pbh_LastBlockId = bid_ToProto (hd_LastBlockID h),
      pbh_LastCommitHash = hd_LastCommitHash h, pbh_DataHash = hd_DataHash h,
      pbh_ValidatorsHash = hd_ValidatorsHash h, pbh_NextValidatorsHash = hd_NextValidatorsHash h,
      pbh_ConsensusHash = hd_ConsensusHash h, pbh_AppHash = hd_AppHash h,
      pbh_LastResultsHash = hd_LastResultsHash h, pbh_EvidenceHash = hd_EvidenceHash h,
      pbh_ProposerAddress = hd_ProposerAddress h\<rparr>"

definition HeaderFromProto :: "pb_header \<Rightarrow> header_error + header" where
  "HeaderFromProto ph =
     (case BlockIDFromProto (pbh_LastBlockId ph) of
        Inl e \<Rightarrow> Inl (ErrLastBlockID e)
      | Inr bi \<Rightarrow>
          (let h = \<lparr>hd_Version = \<lparr>ver_Block = pbver_Block (pbh_Version ph), ver_App = pbver_App (pbh_Version ph)\<rparr>,
                    hd_ChainID = pbh_ChainID ph, hd_Height = pbh_Height ph, hd_Time = pbh_Time ph,
                    hd_LastBlockID = bi, hd_LastCommitHash = pbh_LastCommitHash ph,
                    hd_DataHash = pbh_DataHash ph, hd_ValidatorsHash = pbh_ValidatorsHash ph,
                    hd_NextValidatorsHash = pbh_NextValidatorsHash ph,
                    hd_ConsensusHash = pbh_ConsensusHash ph, hd_AppHash = pbh_AppHash ph,
                    hd_LastResultsHash = pbh_LastResultsHash ph, hd_EvidenceHash = pbh_EvidenceHash ph,
                    hd_ProposerAddress = pbh_ProposerAddress ph\<rparr>
           in case hd_ValidateBasic h of Some e \<Rightarrow> Inl e | None \<Rightarrow> Inr h))"

section \<open>Commits\<close>

definition cs_ToProto :: "commit_sig \<Rightarrow> pb_commit_sig" where
  "cs_ToProto cs =
     \<lparr>pbcs_BlockIdFlag = cs_BlockIDFlag cs, pbcs_ValidatorAddress = cs_ValidatorAddress cs,
      pbcs_Timestamp = cs_Timestamp cs, pbcs_Signature = cs_Signature cs\<rparr>"

text \<open>The flag of a signature is a byte, the one of a message an \<open>int32\<close>.\<close>

definition cs_FromProto :: "pb_commit_sig \<Rightarrow> basic_error + commit_sig" where
  "cs_FromProto csp =
     (let cs = \<lparr>cs_BlockIDFlag = pbcs_BlockIdFlag csp mod 256,
                cs_ValidatorAddress = pbcs_ValidatorAddress csp, cs_Timestamp = pbcs_Timestamp csp,
                cs_Signature = pbcs_Signature csp\<rparr>
      in case cs_ValidateBasic cs of Some e \<Rightarrow> Inl e | None \<Rightarrow> Inr cs)"

record pb_commit =
  pbc_Height :: int
  pbc_Round :: int
  pbc_BlockID :: pb_block_id
  pbc_Signatures :: "pb_commit_sig list"

definition c_ToProto :: "commit \<Rightarrow> pb_commit" where
  "c_ToProto c =
     \<lparr>pbc_Height = c_Height c, pbc_Round = c_Round c, pbc_BlockID = bid_ToProto (c_BlockID c),
      pbc_Signatures = map cs_ToProto (c_Signatures c)\<rparr>"

text \<open>A conversion applied along a list, stopping at the first error.\<close>

fun convert_all :: "('a \<Rightarrow> 'e + 'b) \<Rightarrow> 'a list \<Rightarrow> 'e + 'b list" where
  "convert_all f [] = Inr []"
| "convert_all f (x # xs) =
     (case f x of
        Inl e \<Rightarrow> Inl e
      | Inr y \<Rightarrow> (case convert_all f xs of Inl e \<Rightarrow> Inl e | Inr ys \<Rightarrow> Inr (y # ys)))"

definition CommitFromProto :: "pb_commit \<Rightarrow> basic_error + commit" where
  "CommitFromProto cp =
     (case BlockIDFromProto (pbc_BlockID cp) of
        Inl e \<Rightarrow> Inl e
      | Inr bi \<Rightarrow>
          (case convert_all cs_FromProto (pbc_Signatures cp) of
             Inl e \<Rightarrow> Inl e
           | Inr sigs \<Rightarrow>
               (let c = \<lparr>c_Height = pbc_Height cp, c_Round = pbc_Round cp, c_BlockID = bi,
                         c_Signatures = sigs\<rparr>
                in case c_ValidateBasic c of Some e \<Rightarrow> Inl e | None \<Rightarrow> Inr c)))"

text \<open>\<open>Marshal\<close> fails on a time that the library does not encode, and \<open>Hash\<close> panics then.\<close>

definition c_Hash :: "env \<Rightarrow> commit option \<Rightarrow> bytes option" where
  "c_Hash E c =
     (case c of
        None \<Rightarrow> Some []
      | Some c \<Rightarrow>
          (if list_all (\<lambda>cs. time_in_range (cs_Timestamp cs)) (c_Signatures c)
           then Some (HashFromByteSlices (env_Sum E)
             (map (\<lambda>cs. pbcs_Marshal (env_StdTime E) (cs_ToProto cs)) (c_Signatures c)))
           else None))"

section \<open>Validators\<close>

definition secp256k1_KeyType :: string where "secp256k1_KeyType = ''secp256k1''"
definition secp256k1_PubKeySize :: nat where "secp256k1_PubKeySize = 33"
definition sr25519_PubKeySize :: nat where "sr25519_PubKeySize = 32"

datatype pb_public_key = PublicKey_Ed25519 bytes | PublicKey_Secp256K1 bytes | PublicKey_Sr25519 bytes
  | PublicKey_Unset

datatype key_error = ErrKeyNotSupported | ErrKeySize

definition PubKeyToProto :: "batch_env \<Rightarrow> bytes option \<Rightarrow> key_error + pb_public_key" where
  "PubKeyToProto B k =
     (case k of
        None \<Rightarrow> Inl ErrKeyNotSupported
      | Some k \<Rightarrow>
          (if be_KeyType B k = ed25519_KeyType then Inr (PublicKey_Ed25519 k)
           else if be_KeyType B k = secp256k1_KeyType then Inr (PublicKey_Secp256K1 k)
           else if be_KeyType B k = sr25519_KeyType then Inr (PublicKey_Sr25519 k)
           else Inl ErrKeyNotSupported))"

text \<open>A key is its bytes, whatever scheme the message labels them with.\<close>

fun PubKeyFromProto :: "pb_public_key \<Rightarrow> key_error + bytes" where
  "PubKeyFromProto (PublicKey_Ed25519 k) =
     (if length k \<noteq> ed25519_PubKeySize then Inl ErrKeySize else Inr k)"
| "PubKeyFromProto (PublicKey_Secp256K1 k) =
     (if length k \<noteq> secp256k1_PubKeySize then Inl ErrKeySize else Inr k)"
| "PubKeyFromProto (PublicKey_Sr25519 k) =
     (if length k \<noteq> sr25519_PubKeySize then Inl ErrKeySize else Inr k)"
| "PubKeyFromProto PublicKey_Unset = Inl ErrKeyNotSupported"

fun pk_Marshal :: "pb_public_key \<Rightarrow> bytes" where
  "pk_Marshal (PublicKey_Ed25519 k) = message_field 0x0a k"
| "pk_Marshal (PublicKey_Secp256K1 k) = message_field 0x12 k"
| "pk_Marshal (PublicKey_Sr25519 k) = message_field 0x1a k"
| "pk_Marshal PublicKey_Unset = []"

text \<open>\<open>SimpleValidator\<close> with its key and power.\<close>

definition simple_Marshal :: "pb_public_key \<Rightarrow> int \<Rightarrow> bytes" where
  "simple_Marshal pk votingPower =
     message_field 0x0a (pk_Marshal pk) @ varint_field 0x10 (u64 votingPower)"

definition val_Bytes :: "batch_env \<Rightarrow> validator \<Rightarrow> bytes option" where
  "val_Bytes B v =
     (case PubKeyToProto B (val_PubKey v) of
        Inl _ \<Rightarrow> None
      | Inr pk \<Rightarrow> Some (simple_Marshal pk (val_VotingPower v)))"

definition vals_Hash :: "env \<Rightarrow> batch_env \<Rightarrow> validator_set \<Rightarrow> bytes option" where
  "vals_Hash E B vals =
     do { bzs \<leftarrow> map_all (val_Bytes B) (vs_Validators vals); Some (HashFromByteSlices (env_Sum E) bzs) }"

record pb_validator =
  pbval_Address :: bytes
  pbval_PubKey :: pb_public_key
  pbval_VotingPower :: int
  pbval_ProposerPriority :: int

record pb_validator_set =
  pbvs_Validators :: "pb_validator list"
  pbvs_Proposer :: "pb_validator option"
  pbvs_TotalVotingPower :: int

datatype valproto_error = ErrProtoNilValidator | ErrProtoKey key_error | ErrProtoProposer valproto_error
  | ErrProtoInvalid val_error

definition val_ToProto :: "batch_env \<Rightarrow> validator option \<Rightarrow> valproto_error + pb_validator" where
  "val_ToProto B v =
     (case v of
        None \<Rightarrow> Inl ErrProtoNilValidator
      | Some v \<Rightarrow>
          (case PubKeyToProto B (val_PubKey v) of
             Inl e \<Rightarrow> Inl (ErrProtoKey e)
           | Inr pk \<Rightarrow>
               Inr \<lparr>pbval_Address = val_Address v, pbval_PubKey = pk,
                    pbval_VotingPower = val_VotingPower v,
                    pbval_ProposerPriority = val_ProposerPriority v\<rparr>))"

definition ValidatorFromProto :: "pb_validator option \<Rightarrow> valproto_error + validator" where
  "ValidatorFromProto vp =
     (case vp of
        None \<Rightarrow> Inl ErrProtoNilValidator
      | Some vp \<Rightarrow>
          (case PubKeyFromProto (pbval_PubKey vp) of
             Inl e \<Rightarrow> Inl (ErrProtoKey e)
           | Inr pk \<Rightarrow>
               Inr \<lparr>val_Address = pbval_Address vp, val_PubKey = Some pk,
                    val_VotingPower = pbval_VotingPower vp,
                    val_ProposerPriority = pbval_ProposerPriority vp\<rparr>))"

definition vals_ToProto :: "batch_env \<Rightarrow> validator_set \<Rightarrow> valproto_error + pb_validator_set" where
  "vals_ToProto B vals =
     (if IsNilOrEmpty vals
      then Inr \<lparr>pbvs_Validators = [], pbvs_Proposer = None, pbvs_TotalVotingPower = 0\<rparr>
      else case convert_all (\<lambda>v. val_ToProto B (Some v)) (vs_Validators vals) of
        Inl e \<Rightarrow> Inl e
      | Inr valsProto \<Rightarrow>
          (case val_ToProto B (vs_Proposer vals) of
             Inl e \<Rightarrow> Inl (ErrProtoProposer e)
           | Inr valProposer \<Rightarrow>
               Inr \<lparr>pbvs_Validators = valsProto, pbvs_Proposer = Some valProposer,
                    pbvs_TotalVotingPower = 0\<rparr>))"

text \<open>The total power of a decoded set is computed at once; an overflow panics.\<close>

definition ValidatorSetFromProto :: "pb_validator_set \<Rightarrow> (valproto_error + validator_set) option" where
  "ValidatorSetFromProto vp =
     (case convert_all (\<lambda>v. ValidatorFromProto (Some v)) (pbvs_Validators vp) of
        Inl e \<Rightarrow> Some (Inl e)
      | Inr vs \<Rightarrow>
          (case ValidatorFromProto (pbvs_Proposer vp) of
             Inl e \<Rightarrow> Some (Inl (ErrProtoProposer e))
           | Inr p \<Rightarrow>
               do {
                 (tot, vals) \<leftarrow> TotalVotingPower
                   \<lparr>vs_Validators = vs, vs_Proposer = Some p, vs_totalVotingPower = 0\<rparr>;
                 Some (case vals_ValidateBasic vals of
                         Some e \<Rightarrow> Inl (ErrProtoInvalid e)
                       | None \<Rightarrow> Inr vals)
               }))"

section \<open>Signed headers and light blocks\<close>

record signed_header =
  sh_Header :: "header option"
  sh_Commit :: "commit option"

record light_block =
  lb_SignedHeader :: "signed_header option"
  lb_ValidatorSet :: "validator_set option"

datatype light_error = ErrMissingHeader | ErrMissingCommit | ErrInvalidHeader header_error
  | ErrInvalidCommit basic_error | ErrAnotherChain bytes bytes | ErrHeightMismatch int int
  | ErrCommitSignsBlock bytes bytes | ErrMissingSignedHeader | ErrMissingValidatorSet
  | ErrInvalidValidatorSet val_error | ErrValidatorsHashMismatch bytes bytes
  | ErrLightHeader header_error | ErrLightCommit basic_error | ErrLightValidators valproto_error

definition sh_ValidateBasic :: "env \<Rightarrow> wrappers \<Rightarrow> bytes \<Rightarrow> signed_header \<Rightarrow> light_error option" where
  "sh_ValidateBasic E W chainID sh =
     (case sh_Header sh of
        None \<Rightarrow> Some ErrMissingHeader
      | Some h \<Rightarrow>
          (case sh_Commit sh of
             None \<Rightarrow> Some ErrMissingCommit
           | Some c \<Rightarrow>
               (case hd_ValidateBasic h of
                  Some e \<Rightarrow> Some (ErrInvalidHeader e)
                | None \<Rightarrow>
                    (case c_ValidateBasic c of
                       Some e \<Rightarrow> Some (ErrInvalidCommit e)
                     | None \<Rightarrow>
                         (if hd_ChainID h \<noteq> chainID then Some (ErrAnotherChain (hd_ChainID h) chainID)
                          else if c_Height c \<noteq> hd_Height h
                          then Some (ErrHeightMismatch (hd_Height h) (c_Height c))
                          else if hd_Hash E W h \<noteq> bid_Hash (c_BlockID c)
                          then Some (ErrCommitSignsBlock (bid_Hash (c_BlockID c)) (hd_Hash E W h))
                          else None)))))"

definition lb_ValidateBasic ::
  "env \<Rightarrow> wrappers \<Rightarrow> batch_env \<Rightarrow> bytes \<Rightarrow> light_block \<Rightarrow> light_error option option" where
  "lb_ValidateBasic E W B chainID lb =
     (case lb_SignedHeader lb of
        None \<Rightarrow> Some (Some ErrMissingSignedHeader)
      | Some sh \<Rightarrow>
          (case lb_ValidatorSet lb of
             None \<Rightarrow> Some (Some ErrMissingValidatorSet)
           | Some vals \<Rightarrow>
               (case sh_ValidateBasic E W chainID sh of
                  Some e \<Rightarrow> Some (Some e)
                | None \<Rightarrow>
                    (case vals_ValidateBasic vals of
                       Some e \<Rightarrow> Some (Some (ErrInvalidValidatorSet e))
                     | None \<Rightarrow>
                         do {
                           valSetHash \<leftarrow> vals_Hash E B vals;
                           h \<leftarrow> sh_Header sh;
                           Some (if hd_ValidatorsHash h \<noteq> valSetHash
                                 then Some (ErrValidatorsHashMismatch (hd_ValidatorsHash h) valSetHash)
                                 else None)
                         }))))"

record pb_signed_header =
  pbsh_Header :: "pb_header option"
  pbsh_Commit :: "pb_commit option"

record pb_light_block =
  pblb_SignedHeader :: "pb_signed_header option"
  pblb_ValidatorSet :: "pb_validator_set option"

definition sh_ToProto :: "signed_header \<Rightarrow> pb_signed_header" where
  "sh_ToProto sh =
     \<lparr>pbsh_Header = map_option hd_ToProto (sh_Header sh), pbsh_Commit = map_option c_ToProto (sh_Commit sh)\<rparr>"

text \<open>A conversion of an optional sub-message, whose error ends the conversion.\<close>

definition convert_opt :: "('a \<Rightarrow> 'e + 'b) \<Rightarrow> 'a option \<Rightarrow> 'e + 'b option" where
  "convert_opt f x =
     (case x of
        None \<Rightarrow> Inr None
      | Some x \<Rightarrow> (case f x of Inl e \<Rightarrow> Inl e | Inr y \<Rightarrow> Inr (Some y)))"

definition SignedHeaderFromProto :: "pb_signed_header \<Rightarrow> light_error + signed_header" where
  "SignedHeaderFromProto shp =
     (case convert_opt HeaderFromProto (pbsh_Header shp) of
        Inl e \<Rightarrow> Inl (ErrLightHeader e)
      | Inr h \<Rightarrow>
          (case convert_opt CommitFromProto (pbsh_Commit shp) of
             Inl e \<Rightarrow> Inl (ErrLightCommit e)
           | Inr c \<Rightarrow> Inr \<lparr>sh_Header = h, sh_Commit = c\<rparr>))"

definition lb_ToProto :: "batch_env \<Rightarrow> light_block \<Rightarrow> valproto_error + pb_light_block" where
  "lb_ToProto B lb =
     (case convert_opt (vals_ToProto B) (lb_ValidatorSet lb) of
        Inl e \<Rightarrow> Inl e
      | Inr vs \<Rightarrow>
          Inr \<lparr>pblb_SignedHeader = map_option sh_ToProto (lb_SignedHeader lb), pblb_ValidatorSet = vs\<rparr>)"

definition LightBlockFromProto :: "pb_light_block \<Rightarrow> (light_error + light_block) option" where
  "LightBlockFromProto pb =
     (case convert_opt SignedHeaderFromProto (pblb_SignedHeader pb) of
        Inl e \<Rightarrow> Some (Inl e)
      | Inr sh \<Rightarrow>
          (case pblb_ValidatorSet pb of
             None \<Rightarrow> Some (Inr \<lparr>lb_SignedHeader = sh, lb_ValidatorSet = None\<rparr>)
           | Some vp \<Rightarrow>
               do {
                 r \<leftarrow> ValidatorSetFromProto vp;
                 Some (case r of
                         Inl e \<Rightarrow> Inl (ErrLightValidators e)
                       | Inr vals \<Rightarrow> Inr \<lparr>lb_SignedHeader = sh, lb_ValidatorSet = Some vals\<rparr>)
               }))"

section \<open>A Merkle root determines its leaves\<close>

lemma tree_inputs_split:
  assumes "2 \<le> length xs" "k = nat (split_point (int (length xs)))"
  shows "tree_inputs H xs
    = (innerPrefix @ hashFromByteSlices H (take k xs) @ hashFromByteSlices H (drop k xs))
      # tree_inputs H (take k xs) @ tree_inputs H (drop k xs)"
  using assms by (subst tree_inputs.simps) (auto simp: Let_def)

text \<open>The first input of a tree, which its root is the hash of.\<close>

definition top_input :: "(bytes \<Rightarrow> bytes) \<Rightarrow> bytes list \<Rightarrow> bytes" where
  "top_input H xs = hd (tree_inputs H xs)"

lemma top_input_cases:
  "top_input H [] = []"
  "top_input H [x] = leafPrefix @ x"
  "2 \<le> length xs \<Longrightarrow> k = nat (split_point (int (length xs)))
     \<Longrightarrow> top_input H xs = innerPrefix @ hashFromByteSlices H (take k xs) @ hashFromByteSlices H (drop k xs)"
  by (simp_all add: top_input_def tree_inputs.simps [of H "[]"] tree_inputs.simps [of H "[x]"] tree_inputs_split)

lemma top_input_in: "top_input H xs \<in> set (tree_inputs H xs)"
  by (simp add: top_input_def) (subst (1 2) tree_inputs.simps, simp add: Let_def)

lemma root_top_input: "hashFromByteSlices H xs = H (top_input H xs)"
proof (cases "2 \<le> length xs")
  case True
  then show ?thesis
    by (simp add: top_input_cases(3) [OF True refl] hashFromByteSlices_split [OF True refl] innerHash_def)
next
  case False
  then consider "xs = []" | x where "xs = [x]" by (cases xs; cases "tl xs") auto
  then show ?thesis
    by cases (simp_all add: hashFromByteSlices.simps top_input_cases emptyHash_def leafHash_def)
qed

lemma root_inj:
  assumes H: "\<forall>x. length (H x) = 32"
  shows "hashFromByteSlices H xs = hashFromByteSlices H ys
    \<Longrightarrow> xs = ys \<or> collision H (tree_inputs H xs) (tree_inputs H ys)"
proof (induction xs arbitrary: ys rule: length_induct)
  case (1 xs)
  note IH = 1(1)
  have top: "top_input H xs = top_input H ys \<or> ?case"
    using 1(2) top_input_in [of H xs] top_input_in [of H ys]
    by (auto simp: root_top_input collision_def)
  have prefixes: "leafPrefix = [0]" "innerPrefix = [1]" by (simp_all add: leafPrefix_def innerPrefix_def)
  have shape: "zs = [] \<or> (\<exists>z. zs = [z]) \<or> 2 \<le> length zs" for zs :: "bytes list"
    by (cases zs; cases "tl zs") auto
  show ?case
  proof (cases "top_input H xs = top_input H ys")
    case eq: True
    show ?thesis
    proof (cases "2 \<le> length xs \<and> 2 \<le> length ys")
      case True
      define k where "k = nat (split_point (int (length xs)))"
      define l where "l = nat (split_point (int (length ys)))"
      note lens = hashFromByteSlices_length [OF H]
      have "hashFromByteSlices H (take k xs) = hashFromByteSlices H (take l ys)"
          "hashFromByteSlices H (drop k xs) = hashFromByteSlices H (drop l ys)"
        using eq True lens by (auto simp: top_input_cases(3) [of _ k] top_input_cases(3) [of _ l] k_def l_def)
      moreover have "length (take k xs) < length xs" "length (drop k xs) < length xs"
        using True split_point_range [of "length xs"] by (auto simp: k_def)
      ultimately have "take k xs = take l ys \<or> collision H (tree_inputs H (take k xs)) (tree_inputs H (take l ys))"
          "drop k xs = drop l ys \<or> collision H (tree_inputs H (drop k xs)) (tree_inputs H (drop l ys))"
        using IH by blast+
      moreover have "collision H (tree_inputs H us) (tree_inputs H vs) \<Longrightarrow> collision H (tree_inputs H xs) (tree_inputs H ys)"
        if "us \<in> {take k xs, drop k xs}" "vs \<in> {take l ys, drop l ys}" for us vs
        using that True tree_inputs_split [OF _ k_def] tree_inputs_split [OF _ l_def]
        by (auto simp: collision_def)
      ultimately have "take k xs = take l ys \<and> drop k xs = drop l ys
          \<or> collision H (tree_inputs H xs) (tree_inputs H ys)"
        by blast
      then show ?thesis by (metis append_take_drop_id)
    next
      case False
      then show ?thesis
        using eq shape [of xs] shape [of ys]
        by (auto simp: top_input_cases(1,2) top_input_cases(3) [OF _ refl] prefixes)
    qed
  qed (use top in blast)
qed

section \<open>Hashes bind what they cover\<close>

text \<open>What the protobuf library promises of the wrapper messages and of timestamps: values are told apart.\<close>

definition wrappers_ok :: "wrappers \<Rightarrow> bool" where
  "wrappers_ok W \<longleftrightarrow> inj (w_StringValue W) \<and> inj_on (w_Int64Value W) {i. in_i64 i} \<and> inj (w_BytesValue W)
     \<and> (\<forall>s. s \<noteq> [] \<longrightarrow> w_StringValue W s \<noteq> [] \<and> w_BytesValue W s \<noteq> [])"

definition encodes_times :: "env \<Rightarrow> bool" where
  "encodes_times E \<longleftrightarrow> inj_on (env_StdTime E) {t. time_in_range t}"

lemma cdcEncode_inj:
  assumes "wrappers_ok W"
  shows "cdcEncode_string W s = cdcEncode_string W s' \<Longrightarrow> s = s'"
    and "cdcEncode_bytes W b = cdcEncode_bytes W b' \<Longrightarrow> b = b'"
    and "cdcEncode_int64 W i = cdcEncode_int64 W i' \<Longrightarrow> in_i64 i \<Longrightarrow> in_i64 i' \<Longrightarrow> i = i'"
proof -
  have W: "w_StringValue W s = w_StringValue W s' \<longleftrightarrow> s = s'" "w_BytesValue W s = w_BytesValue W s' \<longleftrightarrow> s = s'"
      "s \<noteq> [] \<Longrightarrow> w_StringValue W s \<noteq> []" "s \<noteq> [] \<Longrightarrow> w_BytesValue W s \<noteq> []" for s s'
    using assms by (simp_all add: wrappers_ok_def inj_eq)
  show "cdcEncode_string W s = cdcEncode_string W s' \<Longrightarrow> s = s'"
    using W(1) [of s s'] W(3) [of s] W(3) [of s'] by (auto simp: cdcEncode_string_def split: if_splits)
  show "cdcEncode_bytes W b = cdcEncode_bytes W b' \<Longrightarrow> b = b'"
    using W(2) [of b b'] W(4) [of b] W(4) [of b'] by (auto simp: cdcEncode_bytes_def split: if_splits)
  have "inj_on (w_Int64Value W) {i. in_i64 i}"
    using assms by (simp add: wrappers_ok_def)
  then show "cdcEncode_int64 W i = cdcEncode_int64 W i' \<Longrightarrow> in_i64 i \<Longrightarrow> in_i64 i' \<Longrightarrow> i = i'"
    by (auto simp: cdcEncode_int64_def dest: inj_onD)
qed

lemma ver_Marshal_inj: "ver_Marshal (ver_ToProto v) = ver_Marshal (ver_ToProto v') \<Longrightarrow> v = v'"
proof -
  assume "ver_Marshal (ver_ToProto v) = ver_Marshal (ver_ToProto v')"
  then have "varint_field 0x08 (ver_Block v) @ varint_field 0x10 (ver_App v) @ []
      = varint_field 0x08 (ver_Block v') @ varint_field 0x10 (ver_App v') @ []"
    by (simp add: ver_Marshal_def ver_ToProto_def)
  then have "ver_Block v = ver_Block v' \<and> varint_field 0x10 (ver_App v) @ [] = varint_field 0x10 (ver_App v') @ []"
    by (rule varint_field_cancel) (auto simp: varint_field_def)
  moreover from this have "ver_App v = ver_App v' \<and> [] = ([] :: bytes)"
    by (intro varint_field_cancel [of "0x10"]) auto
  ultimately show "v = v'" by (cases v; cases v') simp
qed

lemma bid_Marshal_inj: "bid_Marshal (bid_ToProto b) = bid_Marshal (bid_ToProto b') \<Longrightarrow> b = b'"
proof -
  assume eq: "bid_Marshal (bid_ToProto b) = bid_Marshal (bid_ToProto b')"
  let ?m = "\<lambda>b. message_field 0x12 (psh_Marshal (psh_ToProto (bid_PartSetHeader b)))"
  have "bid_Hash b = bid_Hash b' \<and> ?m b = ?m b'"
    using eq by (intro bytes_field_cancel [of "0x0a"]) (auto simp: bid_Marshal_def bid_ToProto_def)
  moreover from this have "psh_Marshal (psh_ToProto (bid_PartSetHeader b))
      = psh_Marshal (psh_ToProto (bid_PartSetHeader b'))"
    using message_field_cancel [of "0x12" _ "[]" _ "[]"] by simp
  ultimately show "b = b'"
    using psh_Marshal_inj [of "psh_ToProto (bid_PartSetHeader b)" "psh_ToProto (bid_PartSetHeader b')"]
    by (cases b; cases b') simp
qed

lemma header_fields_inj:
  assumes "header_fields E W h = header_fields E W h'"
    and "wrappers_ok W" "encodes_times E" "in_i64 (hd_Height h)" "in_i64 (hd_Height h')"
    and "time_in_range (hd_Time h)" "time_in_range (hd_Time h')"
  shows "h = h'"
proof -
  note cdc = cdcEncode_inj [OF assms(2)]
  have "hd_Time h = hd_Time h'"
    using assms(1,3,6,7) by (auto simp: header_fields_def encodes_times_def inj_on_def)
  moreover have "hd_Version h = hd_Version h'" "hd_LastBlockID h = hd_LastBlockID h'"
    using assms(1) by (auto simp: header_fields_def dest: ver_Marshal_inj bid_Marshal_inj)
  moreover have "hd_Height h = hd_Height h'"
    using assms(1,4,5) cdc(3) by (auto simp: header_fields_def)
  ultimately show ?thesis
    using assms(1) by (cases h; cases h') (auto simp: header_fields_def dest!: cdc(1,2))
qed

lemma hd_Hash_inj:
  assumes "hd_Hash E W h = hd_Hash E W h'" "hd_Hash E W h \<noteq> []"
    and "\<forall>x. length (env_Sum E x) = 32" "wrappers_ok W" "encodes_times E"
    and "in_i64 (hd_Height h)" "in_i64 (hd_Height h')"
  shows "h = h' \<or> collision (env_Sum E) (tree_inputs (env_Sum E) (header_fields E W h))
    (tree_inputs (env_Sum E) (header_fields E W h'))"
proof -
  have t: "time_in_range (hd_Time h)" "time_in_range (hd_Time h')"
    and "hashFromByteSlices (env_Sum E) (header_fields E W h)
      = hashFromByteSlices (env_Sum E) (header_fields E W h')"
    using assms(1,2) by (auto simp: hd_Hash_def HashFromByteSlices_def split: if_splits)
  from root_inj [OF assms(3) this(3)] header_fields_inj [OF _ assms(4-7) t] show ?thesis by blast
qed

lemma message_field_eq: "message_field t a = message_field t' b \<longleftrightarrow> t = t' \<and> a = b"
  using message_field_cancel [of t a "[]" b "[]"] by (auto simp: message_field_def)

lemma pk_Marshal_inj: "pk_Marshal p = pk_Marshal q \<Longrightarrow> p = q"
  by (cases p; cases q) (simp_all add: message_field_eq, simp_all add: message_field_def)

lemma PubKeyToProto_inj:
  "PubKeyToProto B k = Inr p \<Longrightarrow> PubKeyToProto B k' = Inr p \<Longrightarrow> k = k'"
  by (auto simp: PubKeyToProto_def split: option.splits if_splits)

lemma val_Bytes_inj:
  assumes "val_Bytes B v = Some bz" "val_Bytes B v' = Some bz"
    and "in_i64 (val_VotingPower v)" "in_i64 (val_VotingPower v')"
  shows "val_PubKey v = val_PubKey v' \<and> val_VotingPower v = val_VotingPower v'"
proof -
  obtain p p' where p: "PubKeyToProto B (val_PubKey v) = Inr p" "PubKeyToProto B (val_PubKey v') = Inr p'"
      "simple_Marshal p (val_VotingPower v) = simple_Marshal p' (val_VotingPower v')"
    using assms(1,2) by (auto simp: val_Bytes_def split: sum.splits)
  have "pk_Marshal p = pk_Marshal p' \<and> varint_field 0x10 (u64 (val_VotingPower v)) @ []
      = varint_field 0x10 (u64 (val_VotingPower v')) @ []"
    using p(3) by (intro message_field_cancel [of "0x0a"]) (simp add: simple_Marshal_def)
  moreover from this have "u64 (val_VotingPower v) = u64 (val_VotingPower v') \<and> [] = ([] :: bytes)"
    by (intro varint_field_cancel [of "0x10"]) auto
  ultimately show ?thesis
    using p(1,2) pk_Marshal_inj PubKeyToProto_inj u64_inj assms(3,4) by blast
qed

lemma map_all_Some: "map_all f xs = Some ys \<Longrightarrow> list_all2 (\<lambda>x y. f x = Some y) xs ys"
  by (induction xs arbitrary: ys) (auto split: bind_splits)

definition val_keys :: "validator_set \<Rightarrow> (bytes option \<times> int) list" where
  "val_keys vals = map (\<lambda>v. (val_PubKey v, val_VotingPower v)) (vs_Validators vals)"

definition powers_in_range :: "validator_set \<Rightarrow> bool" where
  "powers_in_range vals \<longleftrightarrow> list_all (\<lambda>v. in_i64 (val_VotingPower v)) (vs_Validators vals)"

text \<open>The leaves of the tree that \<open>Hash\<close> of a validator set builds.\<close>

definition val_leaves :: "batch_env \<Rightarrow> validator_set \<Rightarrow> bytes list" where
  "val_leaves B vals = (case map_all (val_Bytes B) (vs_Validators vals) of None \<Rightarrow> [] | Some bzs \<Rightarrow> bzs)"

lemma val_leaves_inj:
  assumes "map_all (val_Bytes B) vs = Some bzs" "map_all (val_Bytes B) vs' = Some bzs"
    and "list_all (\<lambda>v. in_i64 (val_VotingPower v)) vs" "list_all (\<lambda>v. in_i64 (val_VotingPower v)) vs'"
  shows "map (\<lambda>v. (val_PubKey v, val_VotingPower v)) vs = map (\<lambda>v. (val_PubKey v, val_VotingPower v)) vs'"
proof -
  have two: "list_all2 (\<lambda>v b. val_Bytes B v = Some b) vs bzs" "list_all2 (\<lambda>v b. val_Bytes B v = Some b) vs' bzs"
    using assms(1,2) by (auto dest: map_all_Some)
  show ?thesis
  proof (rule nth_equalityI)
    fix i assume "i < length (map (\<lambda>v. (val_PubKey v, val_VotingPower v)) vs)"
    then have i: "i < length vs" "i < length vs'"
      using two by (auto dest!: list_all2_lengthD)
    then show "map (\<lambda>v. (val_PubKey v, val_VotingPower v)) vs ! i = map (\<lambda>v. (val_PubKey v, val_VotingPower v)) vs' ! i"
      using val_Bytes_inj [OF list_all2_nthD [OF two(1) i(1)] list_all2_nthD [OF two(2) i(2)]] assms(3,4)
      by (simp add: list_all_length)
  qed (use two in \<open>auto dest!: list_all2_lengthD\<close>)
qed

lemma vals_Hash_inj:
  assumes "vals_Hash E B vals = Some h" "vals_Hash E B vals' = Some h"
    and "\<forall>x. length (env_Sum E x) = 32" "powers_in_range vals" "powers_in_range vals'"
  shows "val_keys vals = val_keys vals' \<or> collision (env_Sum E)
    (tree_inputs (env_Sum E) (val_leaves B vals)) (tree_inputs (env_Sum E) (val_leaves B vals'))"
proof -
  obtain bzs bzs' where b: "map_all (val_Bytes B) (vs_Validators vals) = Some bzs"
      "map_all (val_Bytes B) (vs_Validators vals') = Some bzs'"
      "hashFromByteSlices (env_Sum E) bzs = hashFromByteSlices (env_Sum E) bzs'"
    using assms(1,2) by (auto simp: vals_Hash_def HashFromByteSlices_def split: bind_splits)
  with root_inj [OF assms(3) b(3)] val_leaves_inj [OF b(1), of "vs_Validators vals'"] assms(4,5)
  show ?thesis by (auto simp: val_leaves_def val_keys_def powers_in_range_def)
qed

section \<open>Round trips\<close>

lemma header_from_to: "hd_ValidateBasic h = None \<Longrightarrow> HeaderFromProto (hd_ToProto h) = Inr h"
  using bid_from_to_valid [of "hd_LastBlockID h"]
  by (cases h) (auto simp: HeaderFromProto_def hd_ToProto_def ver_ToProto_def hd_ValidateBasic_def Let_def
      split: if_splits option.splits)

lemma convert_all_Inr: "(\<And>x. x \<in> set xs \<Longrightarrow> f x = Inr (g x)) \<Longrightarrow> convert_all f xs = Inr (map g xs)"
  by (induction xs) auto

lemma convert_all_map: "convert_all f (map g xs) = convert_all (\<lambda>x. f (g x)) xs"
  by (induction xs) (auto split: sum.splits)

lemma cs_from_to:
  assumes "cs_ValidateBasic cs = None"
  shows "cs_FromProto (cs_ToProto cs) = Inr cs"
proof -
  have "cs_BlockIDFlag cs mod 256 = cs_BlockIDFlag cs"
    using assms by (auto simp: cs_ValidateBasic_def split: if_splits)
  with assms show ?thesis
    by (cases cs) (simp add: cs_FromProto_def cs_ToProto_def)
qed

lemma commit_from_to:
  assumes "c_ValidateBasic c = None" "bid_ValidateBasic (c_BlockID c) = None"
    and "list_all (\<lambda>cs. cs_ValidateBasic cs = None) (c_Signatures c)"
  shows "CommitFromProto (c_ToProto c) = Inr c"
proof -
  have "convert_all cs_FromProto (map cs_ToProto (c_Signatures c)) = Inr (map (\<lambda>cs. cs) (c_Signatures c))"
    unfolding convert_all_map
    by (rule convert_all_Inr) (use assms(3) cs_from_to in \<open>auto simp: list_all_iff\<close>)
  then show ?thesis
    using assms(1) bid_from_to_valid [OF assms(2)] by (cases c) (simp add: CommitFromProto_def c_ToProto_def)
qed

section \<open>Light blocks\<close>

lemma light_block_parts:
  assumes "lb_ValidateBasic E W B chainID lb = Some None"
  obtains sh h c vals where "lb_SignedHeader lb = Some sh" "sh_Header sh = Some h" "sh_Commit sh = Some c"
    "lb_ValidatorSet lb = Some vals" "hd_ValidateBasic h = None" "c_ValidateBasic c = None"
    "hd_ChainID h = chainID" "c_Height c = hd_Height h" "hd_Hash E W h = bid_Hash (c_BlockID c)"
    "vals_ValidateBasic vals = None" "vals_Hash E B vals = Some (hd_ValidatorsHash h)"
  using assms
  by (auto simp: lb_ValidateBasic_def sh_ValidateBasic_def split: option.splits if_splits bind_splits)

text \<open>A header that the checks of a light block accept, with the validators it names.\<close>

definition certified :: "env \<Rightarrow> wrappers \<Rightarrow> batch_env \<Rightarrow> light_block \<Rightarrow> header \<Rightarrow> validator_set \<Rightarrow> bytes \<Rightarrow> bool" where
  "certified E W B lb h vals hash \<longleftrightarrow>
     lb_ValidateBasic E W B (hd_ChainID h) lb = Some None \<and> lb_ValidatorSet lb = Some vals
     \<and> (\<exists>sh c. lb_SignedHeader lb = Some sh \<and> sh_Header sh = Some h \<and> sh_Commit sh = Some c
          \<and> bid_Hash (c_BlockID c) = hash)
     \<and> in_i64 (hd_Height h) \<and> powers_in_range vals"

definition sample_wrappers :: wrappers where
  "sample_wrappers = \<lparr>w_StringValue = bytes_field 0x0a, w_Int64Value = (\<lambda>i. varint_field 0x08 (u64 i)),
     w_BytesValue = bytes_field 0x0a\<rparr>"

lemma sample_wrappers_ok: "wrappers_ok sample_wrappers"
proof -
  have "inj_on (\<lambda>i. varint_field 0x08 (u64 i)) {i. in_i64 i}"
  proof (rule inj_onI)
    fix x y assume "x \<in> {i. in_i64 i}" "y \<in> {i. in_i64 i}" "varint_field 0x08 (u64 x) = varint_field 0x08 (u64 y)"
    moreover from this have "u64 x = u64 y \<and> [] = ([] :: bytes)"
      by (intro varint_field_cancel [of "0x08"]) auto
    ultimately show "x = y" using u64_inj by auto
  qed
  moreover have "inj (bytes_field 0x0a)"
  proof (rule injI)
    fix x y assume "bytes_field 0x0a x = bytes_field 0x0a y"
    then have "x = y \<and> [] = ([] :: bytes)" by (intro bytes_field_cancel [of "0x0a"]) auto
    then show "x = y" ..
  qed
  ultimately show ?thesis
    by (simp add: wrappers_ok_def sample_wrappers_def bytes_field_def message_field_def)
qed

definition toy_header :: header where
  "toy_header = \<lparr>hd_Version = \<lparr>ver_Block = BlockProtocol, ver_App = 0\<rparr>, hd_ChainID = [97], hd_Height = 3,
     hd_Time = 7, hd_LastBlockID = toy_block 4, hd_LastCommitHash = [], hd_DataHash = [],
     hd_ValidatorsHash = the (vals_Hash toy_env (toy_batch secp) toy_vals), hd_NextValidatorsHash = [],
     hd_ConsensusHash = [], hd_AppHash = [5], hd_LastResultsHash = [], hd_EvidenceHash = [],
     hd_ProposerAddress = replicate 20 1\<rparr>"

definition toy_light :: "validator_set \<Rightarrow> light_block" where
  "toy_light vals = \<lparr>lb_SignedHeader = Some \<lparr>sh_Header = Some toy_header, sh_Commit = Some ((toy_commit 4)
       \<lparr>c_BlockID := (toy_block 4)\<lparr>bid_Hash := hd_Hash toy_env sample_wrappers toy_header\<rparr>\<rparr>)\<rparr>,
     lb_ValidatorSet = Some vals\<rparr>"

definition toy_vals_later :: validator_set where
  "toy_vals_later = toy_vals\<lparr>vs_Validators := map (\<lambda>v. v\<lparr>val_ProposerPriority := 3\<rparr>) (vs_Validators toy_vals)\<rparr>"

lemma toy_certified:
  "lb_ValidateBasic toy_env sample_wrappers (toy_batch secp) [97] (toy_light toy_vals) = Some None"
  "lb_ValidateBasic toy_env sample_wrappers (toy_batch secp) [97] (toy_light toy_vals_later) = Some None"
  "hd_Hash toy_env sample_wrappers toy_header \<noteq> []"
  by code_simp+

section \<open>Properties\<close>



end
