(* ===== verification/Evidence.thy ===== *)
theory Evidence
  imports Header
begin

text \<open>
  Evidence of misbehaviour, \<open>types/evidence.go\<close>: duplicate votes and light client attacks with their
  validation, hashes, the information for the application and the protobuf forms, and the encodings
  of the messages they contain (\<open>proto/tendermint/types/types.pb.go\<close>, \<open>validator.pb.go\<close>).

  Pointers that the code tests for nil are options. The encoding of a message fails on a time
  that the protobuf library does not encode; the functions that panic then return None. The total power
  that the functions here read is cached in the validator set they are given; the cache is not returned.
\<close>

section \<open>Encodings\<close>

definition rep_message_field :: "byte \<Rightarrow> bytes list \<Rightarrow> bytes" where
  "rep_message_field tag ms = concat (map (message_field tag) ms)"

definition pbv_Marshal :: "(int \<Rightarrow> bytes) \<Rightarrow> pb_vote \<Rightarrow> bytes" where
  "pbv_Marshal stdTime m =
     varint_field 0x08 (u64 (pbv_Type m)) @ varint_field 0x10 (u64 (pbv_Height m))
     @ varint_field 0x18 (u64 (pbv_Round m)) @ message_field 0x22 (bid_Marshal (pbv_BlockID m))
     @ message_field 0x2a (stdTime (pbv_Timestamp m)) @ bytes_field 0x32 (pbv_ValidatorAddress m)
     @ varint_field 0x38 (u64 (pbv_ValidatorIndex m)) @ bytes_field 0x42 (pbv_Signature m)"

definition pbh_Marshal :: "(int \<Rightarrow> bytes) \<Rightarrow> pb_header \<Rightarrow> bytes" where
  "pbh_Marshal stdTime m =
     message_field 0x0a (ver_Marshal (pbh_Version m)) @ bytes_field 0x12 (pbh_ChainID m)
     @ varint_field 0x18 (u64 (pbh_Height m)) @ message_field 0x22 (stdTime (pbh_Time m))
     @ message_field 0x2a (bid_Marshal (pbh_LastBlockId m)) @ bytes_field 0x32 (pbh_LastCommitHash m)
     @ bytes_field 0x3a (pbh_DataHash m) @ bytes_field 0x42 (pbh_ValidatorsHash m)
     @ bytes_field 0x4a (pbh_NextValidatorsHash m) @ bytes_field 0x52 (pbh_ConsensusHash m)
     @ bytes_field 0x5a (pbh_AppHash m) @ bytes_field 0x62 (pbh_LastResultsHash m)
     @ bytes_field 0x6a (pbh_EvidenceHash m) @ bytes_field 0x72 (pbh_ProposerAddress m)"

definition pbc_Marshal :: "(int \<Rightarrow> bytes) \<Rightarrow> pb_commit \<Rightarrow> bytes" where
  "pbc_Marshal stdTime m =
     varint_field 0x08 (u64 (pbc_Height m)) @ varint_field 0x10 (u64 (pbc_Round m))
     @ message_field 0x1a (bid_Marshal (pbc_BlockID m))
     @ rep_message_field 0x22 (map (pbcs_Marshal stdTime) (pbc_Signatures m))"

definition pbsh_Marshal :: "(int \<Rightarrow> bytes) \<Rightarrow> pb_signed_header \<Rightarrow> bytes" where
  "pbsh_Marshal stdTime m =
     opt_message_field 0x0a (map_option (pbh_Marshal stdTime) (pbsh_Header m))
     @ opt_message_field 0x12 (map_option (pbc_Marshal stdTime) (pbsh_Commit m))"

definition pbval_Marshal :: "pb_validator \<Rightarrow> bytes" where
  "pbval_Marshal m =
     bytes_field 0x0a (pbval_Address m) @ message_field 0x12 (pk_Marshal (pbval_PubKey m))
     @ varint_field 0x18 (u64 (pbval_VotingPower m)) @ varint_field 0x20 (u64 (pbval_ProposerPriority m))"

definition pbvs_Marshal :: "pb_validator_set \<Rightarrow> bytes" where
  "pbvs_Marshal m =
     rep_message_field 0x0a (map pbval_Marshal (pbvs_Validators m))
     @ opt_message_field 0x12 (map_option pbval_Marshal (pbvs_Proposer m))
     @ varint_field 0x18 (u64 (pbvs_TotalVotingPower m))"

definition pblb_Marshal :: "(int \<Rightarrow> bytes) \<Rightarrow> pb_light_block \<Rightarrow> bytes" where
  "pblb_Marshal stdTime m =
     opt_message_field 0x0a (map_option (pbsh_Marshal stdTime) (pblb_SignedHeader m))
     @ opt_message_field 0x12 (map_option pbvs_Marshal (pblb_ValidatorSet m))"

record pb_duplicate_vote =
  pbdv_VoteA :: "pb_vote option"
  pbdv_VoteB :: "pb_vote option"
  pbdv_TotalVotingPower :: int
  pbdv_ValidatorPower :: int
  pbdv_Timestamp :: int

record pb_light_attack =
  pbla_ConflictingBlock :: "pb_light_block option"
  pbla_CommonHeight :: int
  pbla_ByzantineValidators :: "pb_validator list"
  pbla_TotalVotingPower :: int
  pbla_Timestamp :: int

datatype pb_evidence = PbDuplicateVote pb_duplicate_vote | PbLightAttack pb_light_attack | PbNoEvidence

definition pbdv_Marshal :: "(int \<Rightarrow> bytes) \<Rightarrow> pb_duplicate_vote \<Rightarrow> bytes" where
  "pbdv_Marshal stdTime m =
     opt_message_field 0x0a (map_option (pbv_Marshal stdTime) (pbdv_VoteA m))
     @ opt_message_field 0x12 (map_option (pbv_Marshal stdTime) (pbdv_VoteB m))
     @ varint_field 0x18 (u64 (pbdv_TotalVotingPower m)) @ varint_field 0x20 (u64 (pbdv_ValidatorPower m))
     @ message_field 0x2a (stdTime (pbdv_Timestamp m))"

definition pbla_Marshal :: "(int \<Rightarrow> bytes) \<Rightarrow> pb_light_attack \<Rightarrow> bytes" where
  "pbla_Marshal stdTime m =
     opt_message_field 0x0a (map_option (pblb_Marshal stdTime) (pbla_ConflictingBlock m))
     @ varint_field 0x10 (u64 (pbla_CommonHeight m))
     @ rep_message_field 0x1a (map pbval_Marshal (pbla_ByzantineValidators m))
     @ varint_field 0x20 (u64 (pbla_TotalVotingPower m)) @ message_field 0x2a (stdTime (pbla_Timestamp m))"

fun pbev_Marshal :: "(int \<Rightarrow> bytes) \<Rightarrow> pb_evidence \<Rightarrow> bytes" where
  "pbev_Marshal stdTime (PbDuplicateVote m) = message_field 0x0a (pbdv_Marshal stdTime m)"
| "pbev_Marshal stdTime (PbLightAttack m) = message_field 0x12 (pbla_Marshal stdTime m)"
| "pbev_Marshal stdTime PbNoEvidence = []"

text \<open>The times of a message, all of which the library must be able to encode.\<close>

definition light_block_times :: "pb_light_block \<Rightarrow> int list" where
  "light_block_times m =
     (case pblb_SignedHeader m of
        None \<Rightarrow> []
      | Some sh \<Rightarrow>
          (case pbsh_Header sh of None \<Rightarrow> [] | Some h \<Rightarrow> [pbh_Time h])
          @ (case pbsh_Commit sh of None \<Rightarrow> [] | Some c \<Rightarrow> map pbcs_Timestamp (pbc_Signatures c)))"

fun evidence_times :: "pb_evidence \<Rightarrow> int list" where
  "evidence_times (PbDuplicateVote m) =
     (case pbdv_VoteA m of None \<Rightarrow> [] | Some v \<Rightarrow> [pbv_Timestamp v])
     @ (case pbdv_VoteB m of None \<Rightarrow> [] | Some v \<Rightarrow> [pbv_Timestamp v]) @ [pbdv_Timestamp m]"
| "evidence_times (PbLightAttack m) =
     (case pbla_ConflictingBlock m of None \<Rightarrow> [] | Some b \<Rightarrow> light_block_times b) @ [pbla_Timestamp m]"
| "evidence_times PbNoEvidence = []"

section \<open>Duplicate votes\<close>

record duplicate_vote =
  dve_VoteA :: "vote option"
  dve_VoteB :: "vote option"
  dve_TotalVotingPower :: int
  dve_ValidatorPower :: int
  dve_Timestamp :: int

datatype evidence_error = ErrMissingVote | ErrNoValidatorSet | ErrValidatorNotInSet
  | ErrEvidenceVote basic_error | ErrVotesOrder | ErrEvidenceTime | ErrValidatorPower | ErrTotalPower
  | ErrConflictingBlockNil | ErrConflictingHeaderNil | ErrTotalPowerNotPositive
  | ErrCommonHeightNotPositive | ErrCommonHeightAhead | ErrConflictingBlock light_error
  | ErrExpectedNoByzantine | ErrByzantineCount | ErrByzantineAddress | ErrByzantinePower
  | ErrEvidenceProto valproto_error | ErrEvidenceLight light_error | ErrEvidenceUnknown

definition NewDuplicateVoteEvidence ::
  "vote option \<Rightarrow> vote option \<Rightarrow> int \<Rightarrow> validator_set option \<Rightarrow> (evidence_error + duplicate_vote) option" where
  "NewDuplicateVoteEvidence vote1 vote2 blockTime valSet =
     (case (vote1, vote2) of
        (Some v1, Some v2) \<Rightarrow>
          (case valSet of
             None \<Rightarrow> Some (Inl ErrNoValidatorSet)
           | Some vals \<Rightarrow>
               (case GetByAddress vals (v_ValidatorAddress v1) of
                  (idx, None) \<Rightarrow> (if idx = -1 then Some (Inl ErrValidatorNotInSet) else None)
                | (idx, Some val) \<Rightarrow>
                    (if idx = -1 then Some (Inl ErrValidatorNotInSet)
                     else
                       (let (voteA, voteB) =
                          (if bytes_compare (bid_Key (v_BlockID v1)) (bid_Key (v_BlockID v2)) = -1
                           then (v1, v2) else (v2, v1))
                        in do {
                          (tot, _) \<leftarrow> TotalVotingPower vals;
                          Some (Inr \<lparr>dve_VoteA = Some voteA, dve_VoteB = Some voteB,
                                     dve_TotalVotingPower = tot, dve_ValidatorPower = val_VotingPower val,
                                     dve_Timestamp = blockTime\<rparr>)
                        }))))
      | _ \<Rightarrow> Some (Inl ErrMissingVote))"

definition dve_ValidateBasic :: "duplicate_vote \<Rightarrow> evidence_error option" where
  "dve_ValidateBasic dve =
     (case (dve_VoteA dve, dve_VoteB dve) of
        (Some a, Some b) \<Rightarrow>
          (case v_ValidateBasic a of
             Some e \<Rightarrow> Some (ErrEvidenceVote e)
           | None \<Rightarrow>
               (case v_ValidateBasic b of
                  Some e \<Rightarrow> Some (ErrEvidenceVote e)
                | None \<Rightarrow>
                    (if bytes_compare (bid_Key (v_BlockID a)) (bid_Key (v_BlockID b)) \<ge> 0 then Some ErrVotesOrder
                     else None)))
      | _ \<Rightarrow> Some ErrMissingVote)"

definition dve_ValidateABCI ::
  "duplicate_vote \<Rightarrow> validator \<Rightarrow> validator_set \<Rightarrow> int \<Rightarrow> evidence_error option option" where
  "dve_ValidateABCI dve val valSet evidenceTime =
     (if dve_Timestamp dve \<noteq> evidenceTime then Some (Some ErrEvidenceTime)
      else if val_VotingPower val \<noteq> dve_ValidatorPower dve then Some (Some ErrValidatorPower)
      else do {
        (tot, _) \<leftarrow> TotalVotingPower valSet;
        Some (if tot \<noteq> dve_TotalVotingPower dve then Some ErrTotalPower else None)
      })"

definition dve_GenerateABCI ::
  "duplicate_vote \<Rightarrow> validator \<Rightarrow> validator_set \<Rightarrow> int \<Rightarrow> duplicate_vote option" where
  "dve_GenerateABCI dve val valSet evidenceTime =
     do {
       (tot, _) \<leftarrow> TotalVotingPower valSet;
       Some (dve\<lparr>dve_ValidatorPower := val_VotingPower val, dve_TotalVotingPower := tot,
                 dve_Timestamp := evidenceTime\<rparr>)
     }"

definition dve_ToProto :: "duplicate_vote \<Rightarrow> pb_duplicate_vote" where
  "dve_ToProto dve =
     \<lparr>pbdv_VoteA = map_option v_ToProto (dve_VoteA dve), pbdv_VoteB = map_option v_ToProto (dve_VoteB dve),
      pbdv_TotalVotingPower = dve_TotalVotingPower dve, pbdv_ValidatorPower = dve_ValidatorPower dve,
      pbdv_Timestamp = dve_Timestamp dve\<rparr>"

definition DuplicateVoteEvidenceFromProto :: "pb_duplicate_vote \<Rightarrow> evidence_error + duplicate_vote" where
  "DuplicateVoteEvidenceFromProto pb =
     (case (pbdv_VoteA pb, pbdv_VoteB pb) of
        (Some a, Some b) \<Rightarrow>
          (case VoteFromProto a of
             Inl e \<Rightarrow> Inl (ErrEvidenceVote e)
           | Inr vA \<Rightarrow>
               (case VoteFromProto b of
                  Inl e \<Rightarrow> Inl (ErrEvidenceVote e)
                | Inr vB \<Rightarrow>
                    (let dve = \<lparr>dve_VoteA = Some vA, dve_VoteB = Some vB,
                                dve_TotalVotingPower = pbdv_TotalVotingPower pb,
                                dve_ValidatorPower = pbdv_ValidatorPower pb,
                                dve_Timestamp = pbdv_Timestamp pb\<rparr>
                     in case dve_ValidateBasic dve of Some e \<Rightarrow> Inl e | None \<Rightarrow> Inr dve)))
      | (Some a, None) \<Rightarrow>
          (case VoteFromProto a of Inl e \<Rightarrow> Inl (ErrEvidenceVote e) | Inr _ \<Rightarrow> Inl (ErrEvidenceVote ErrNilMessage))
      | (None, _) \<Rightarrow> Inl (ErrEvidenceVote ErrNilMessage))"

section \<open>Light client attacks\<close>

text \<open>The code tells a nil list of byzantine validators from an empty one: None is nil.\<close>

record light_attack =
  lca_ConflictingBlock :: "light_block option"
  lca_CommonHeight :: int
  lca_ByzantineValidators :: "validator option list option"
  lca_TotalVotingPower :: int
  lca_Timestamp :: int

definition lca_Header :: "light_attack \<Rightarrow> header option" where
  "lca_Header l = do { b \<leftarrow> lca_ConflictingBlock l; sh \<leftarrow> lb_SignedHeader b; sh_Header sh }"

definition lca_Commit :: "light_attack \<Rightarrow> commit option" where
  "lca_Commit l = do { b \<leftarrow> lca_ConflictingBlock l; sh \<leftarrow> lb_SignedHeader b; sh_Commit sh }"

definition ConflictingHeaderIsInvalid :: "light_attack \<Rightarrow> header \<Rightarrow> bool option" where
  "ConflictingHeaderIsInvalid l trustedHeader =
     map_option (\<lambda>h. hd_ValidatorsHash trustedHeader \<noteq> hd_ValidatorsHash h
         \<or> hd_NextValidatorsHash trustedHeader \<noteq> hd_NextValidatorsHash h
         \<or> hd_ConsensusHash trustedHeader \<noteq> hd_ConsensusHash h
         \<or> hd_AppHash trustedHeader \<noteq> hd_AppHash h
         \<or> hd_LastResultsHash trustedHeader \<noteq> hd_LastResultsHash h)
       (lca_Header l)"

text \<open>The common validators that signed the conflicting block.\<close>

definition lunatic_validators :: "validator_set \<Rightarrow> commit_sig list \<Rightarrow> validator list" where
  "lunatic_validators commonVals sigs =
     List.map_filter (\<lambda>cs. if cs_ForBlock cs then snd (GetByAddress commonVals (cs_ValidatorAddress cs)) else None) sigs"

text \<open>
  The validators of the conflicting block that signed both commits, by index. A missing signature of the
  trusted commit panics; a signer outside the validator set is a nil pointer in the result.
\<close>

fun equivocators ::
  "validator_set option \<Rightarrow> commit_sig list \<Rightarrow> commit_sig list \<Rightarrow> validator option list option" where
  "equivocators vals [] sigsB = Some []"
| "equivocators vals (a # sigsA) [] = (if cs_ForBlock a then None else equivocators vals sigsA [])"
| "equivocators vals (a # sigsA) (b # sigsB) =
     (if cs_ForBlock a \<and> cs_ForBlock b
      then do {
        vs \<leftarrow> vals;
        rest \<leftarrow> equivocators vals sigsA sigsB;
        Some (snd (GetByAddress vs (cs_ValidatorAddress a)) # rest)
      }
      else equivocators vals sigsA sigsB)"

text \<open>Sorting reads the validators as soon as there are two of them, and then panics on a nil pointer.\<close>

definition sort_validators :: "validator option list \<Rightarrow> validator option list option" where
  "sort_validators vs =
     (if length vs < 2 then Some vs
      else map_option (\<lambda>ws. map Some (ValidatorsByVotingPower ws)) (those vs))"

text \<open>The result is a nil list when it is empty.\<close>

definition GetByzantineValidators ::
  "light_attack \<Rightarrow> validator_set \<Rightarrow> signed_header \<Rightarrow> validator option list option" where
  "GetByzantineValidators l commonVals trusted =
     do {
       th \<leftarrow> sh_Header trusted;
       invalid \<leftarrow> ConflictingHeaderIsInvalid l th;
       if invalid then do {
         c \<leftarrow> lca_Commit l;
         sort_validators (map Some (lunatic_validators commonVals (c_Signatures c)))
       }
       else do {
         tc \<leftarrow> sh_Commit trusted;
         c \<leftarrow> lca_Commit l;
         if c_Round tc = c_Round c then do {
           b \<leftarrow> lca_ConflictingBlock l;
           vs \<leftarrow> equivocators (lb_ValidatorSet b) (c_Signatures c) (c_Signatures tc);
           sort_validators vs
         }
         else Some []
       }
     }"

text \<open>\<open>binary.PutVarint\<close>: the zigzag encoding.\<close>

definition put_varint :: "int \<Rightarrow> bytes" where
  "put_varint x = encodeVarint (nat (if x < 0 then - 2 * x - 1 else 2 * x))"

text \<open>The last of the bytes reserved for the block hash is never written.\<close>

definition lca_Hash :: "env \<Rightarrow> wrappers \<Rightarrow> light_attack \<Rightarrow> bytes option" where
  "lca_Hash E W l =
     do {
       b \<leftarrow> lca_ConflictingBlock l;
       sh \<leftarrow> lb_SignedHeader b;
       let hash = (case sh_Header sh of None \<Rightarrow> [] | Some h \<Rightarrow> hd_Hash E W h);
       Some (env_Sum E (take (tmhash_Size - 1) (hash @ replicate tmhash_Size 0) @ [0] @ put_varint (lca_CommonHeight l)))
     }"

definition lca_ValidateBasic :: "env \<Rightarrow> wrappers \<Rightarrow> batch_env \<Rightarrow> light_attack \<Rightarrow> evidence_error option option" where
  "lca_ValidateBasic E W B l =
     (case lca_ConflictingBlock l of
        None \<Rightarrow> Some (Some ErrConflictingBlockNil)
      | Some b \<Rightarrow>
          do {
            sh \<leftarrow> lb_SignedHeader b;
            (case sh_Header sh of
               None \<Rightarrow> Some (Some ErrConflictingHeaderNil)
             | Some h \<Rightarrow>
                 (if lca_TotalVotingPower l \<le> 0 then Some (Some ErrTotalPowerNotPositive)
                  else if lca_CommonHeight l \<le> 0 then Some (Some ErrCommonHeightNotPositive)
                  else if lca_CommonHeight l > hd_Height h then Some (Some ErrCommonHeightAhead)
                  else map_option (map_option ErrConflictingBlock) (lb_ValidateBasic E W B (hd_ChainID h) b)))
          })"

fun match_byzantine :: "validator option list \<Rightarrow> validator option list \<Rightarrow> evidence_error option option" where
  "match_byzantine (v # vs) (g # gs) =
     do {
       got \<leftarrow> g;
       val \<leftarrow> v;
       if val_Address got \<noteq> val_Address val then Some (Some ErrByzantineAddress)
       else if val_VotingPower got \<noteq> val_VotingPower val then Some (Some ErrByzantinePower)
       else match_byzantine vs gs
     }"
| "match_byzantine _ _ = Some None"

definition lca_ValidateABCI ::
  "light_attack \<Rightarrow> validator_set \<Rightarrow> signed_header \<Rightarrow> int \<Rightarrow> evidence_error option option" where
  "lca_ValidateABCI l commonVals trustedHeader evidenceTime =
     do {
       (valsTotal, _) \<leftarrow> TotalVotingPower commonVals;
       if lca_TotalVotingPower l \<noteq> valsTotal then Some (Some ErrTotalPower)
       else if lca_Timestamp l \<noteq> evidenceTime then Some (Some ErrEvidenceTime)
       else do {
         vs \<leftarrow> GetByzantineValidators l commonVals trustedHeader;
         let got = (case lca_ByzantineValidators l of None \<Rightarrow> [] | Some gs \<Rightarrow> gs);
         if vs = [] \<and> lca_ByzantineValidators l \<noteq> None then Some (Some ErrExpectedNoByzantine)
         else if length vs \<noteq> length got then Some (Some ErrByzantineCount)
         else match_byzantine vs got
       }
     }"

definition lca_GenerateABCI ::
  "light_attack \<Rightarrow> validator_set \<Rightarrow> signed_header \<Rightarrow> int \<Rightarrow> light_attack option" where
  "lca_GenerateABCI l commonVals trustedHeader evidenceTime =
     do {
       (tot, _) \<leftarrow> TotalVotingPower commonVals;
       vs \<leftarrow> GetByzantineValidators l commonVals trustedHeader;
       Some (l\<lparr>lca_Timestamp := evidenceTime, lca_TotalVotingPower := tot,
               lca_ByzantineValidators := (if vs = [] then None else Some vs)\<rparr>)
     }"

definition lca_ToProto :: "batch_env \<Rightarrow> light_attack \<Rightarrow> valproto_error + pb_light_attack" where
  "lca_ToProto B l =
     (case convert_opt (lb_ToProto B) (lca_ConflictingBlock l) of
        Inl e \<Rightarrow> Inl e
      | Inr b \<Rightarrow>
          (case convert_all (val_ToProto B) (case lca_ByzantineValidators l of None \<Rightarrow> [] | Some gs \<Rightarrow> gs) of
             Inl e \<Rightarrow> Inl e
           | Inr vs \<Rightarrow>
               Inr \<lparr>pbla_ConflictingBlock = b, pbla_CommonHeight = lca_CommonHeight l,
                    pbla_ByzantineValidators = vs, pbla_TotalVotingPower = lca_TotalVotingPower l,
                    pbla_Timestamp = lca_Timestamp l\<rparr>))"

definition LightClientAttackEvidenceFromProto ::
  "env \<Rightarrow> wrappers \<Rightarrow> batch_env \<Rightarrow> pb_light_attack \<Rightarrow> (evidence_error + light_attack) option" where
  "LightClientAttackEvidenceFromProto E W B lpb =
     (case pbla_ConflictingBlock lpb of
        None \<Rightarrow> Some (Inl ErrConflictingBlockNil)
      | Some pb \<Rightarrow>
          do {
            r \<leftarrow> LightBlockFromProto pb;
            (case r of
               Inl e \<Rightarrow> Some (Inl (ErrEvidenceLight e))
             | Inr b \<Rightarrow>
                 (case convert_all (\<lambda>v. ValidatorFromProto (Some v)) (pbla_ByzantineValidators lpb) of
                    Inl e \<Rightarrow> Some (Inl (ErrEvidenceProto e))
                  | Inr vs \<Rightarrow>
                      (let l = \<lparr>lca_ConflictingBlock = Some b, lca_CommonHeight = pbla_CommonHeight lpb,
                                lca_ByzantineValidators = Some (map Some vs), lca_TotalVotingPower = pbla_TotalVotingPower lpb,
                                lca_Timestamp = pbla_Timestamp lpb\<rparr>
                       in map_option (\<lambda>err. case err of Some e \<Rightarrow> Inl e | None \<Rightarrow> Inr l)
                            (lca_ValidateBasic E W B l))))
          })"

section \<open>Evidence\<close>

datatype evidence = DuplicateVoteEvidence duplicate_vote | LightClientAttackEvidence light_attack

fun EvidenceToProto :: "batch_env \<Rightarrow> evidence \<Rightarrow> valproto_error + pb_evidence" where
  "EvidenceToProto B (DuplicateVoteEvidence dve) = Inr (PbDuplicateVote (dve_ToProto dve))"
| "EvidenceToProto B (LightClientAttackEvidence l) =
     (case lca_ToProto B l of Inl e \<Rightarrow> Inl e | Inr pb \<Rightarrow> Inr (PbLightAttack pb))"

fun EvidenceFromProto ::
  "env \<Rightarrow> wrappers \<Rightarrow> batch_env \<Rightarrow> pb_evidence \<Rightarrow> (evidence_error + evidence) option" where
  "EvidenceFromProto E W B (PbDuplicateVote pb) =
     Some (case DuplicateVoteEvidenceFromProto pb of Inl e \<Rightarrow> Inl e | Inr d \<Rightarrow> Inr (DuplicateVoteEvidence d))"
| "EvidenceFromProto E W B (PbLightAttack pb) =
     map_option (\<lambda>r. case r of Inl e \<Rightarrow> Inl e | Inr l \<Rightarrow> Inr (LightClientAttackEvidence l))
       (LightClientAttackEvidenceFromProto E W B pb)"
| "EvidenceFromProto E W B PbNoEvidence = Some (Inl ErrEvidenceUnknown)"

text \<open>\<open>Bytes\<close> encodes the inner message, without the tag of the union.\<close>

fun ev_Bytes :: "env \<Rightarrow> batch_env \<Rightarrow> evidence \<Rightarrow> bytes option" where
  "ev_Bytes E B (DuplicateVoteEvidence dve) =
     (if list_all time_in_range (evidence_times (PbDuplicateVote (dve_ToProto dve)))
      then Some (pbdv_Marshal (env_StdTime E) (dve_ToProto dve)) else None)"
| "ev_Bytes E B (LightClientAttackEvidence l) =
     (case lca_ToProto B l of
        Inl _ \<Rightarrow> None
      | Inr pb \<Rightarrow>
          (if list_all time_in_range (evidence_times (PbLightAttack pb))
           then Some (pbla_Marshal (env_StdTime E) pb) else None))"

fun ev_Hash :: "env \<Rightarrow> wrappers \<Rightarrow> batch_env \<Rightarrow> evidence \<Rightarrow> bytes option" where
  "ev_Hash E W B (DuplicateVoteEvidence dve) = map_option (env_Sum E) (ev_Bytes E B (DuplicateVoteEvidence dve))"
| "ev_Hash E W B (LightClientAttackEvidence l) = lca_Hash E W l"

fun ev_Height :: "evidence \<Rightarrow> int option" where
  "ev_Height (DuplicateVoteEvidence dve) = map_option v_Height (dve_VoteA dve)"
| "ev_Height (LightClientAttackEvidence l) = Some (lca_CommonHeight l)"

fun ev_Time :: "evidence \<Rightarrow> int" where
  "ev_Time (DuplicateVoteEvidence dve) = dve_Timestamp dve"
| "ev_Time (LightClientAttackEvidence l) = lca_Timestamp l"

fun ev_ValidateBasic :: "env \<Rightarrow> wrappers \<Rightarrow> batch_env \<Rightarrow> evidence \<Rightarrow> evidence_error option option" where
  "ev_ValidateBasic E W B (DuplicateVoteEvidence dve) = Some (dve_ValidateBasic dve)"
| "ev_ValidateBasic E W B (LightClientAttackEvidence l) = lca_ValidateBasic E W B l"

definition EvidenceList_Hash :: "env \<Rightarrow> batch_env \<Rightarrow> evidence list \<Rightarrow> bytes option" where
  "EvidenceList_Hash E B evl =
     do { bzs \<leftarrow> map_all (ev_Bytes E B) evl; Some (HashFromByteSlices (env_Sum E) bzs) }"

fun EvidenceList_Has :: "env \<Rightarrow> wrappers \<Rightarrow> batch_env \<Rightarrow> evidence list \<Rightarrow> evidence \<Rightarrow> bool option" where
  "EvidenceList_Has E W B [] ev = Some False"
| "EvidenceList_Has E W B (e # evl) ev =
     do {
       h \<leftarrow> ev_Hash E W B ev;
       h' \<leftarrow> ev_Hash E W B e;
       if h = h' then Some True else EvidenceList_Has E W B evl ev
     }"

end
