(* ===== verification/Shares.thy ===== *)
theory Shares
  imports BlockTypes ProtoDecode
begin

text \<open>
  The layout of block data in shares: \<open>types/shares.go\<close>, \<open>types/share_splitting.go\<close>,
  \<open>types/share_merging.go\<close>, the sizes of the square in \<open>types/block.go\<close> and the constants of
  \<open>pkg/consts/consts.go\<close>, and the data availability header of \<open>pkg/da/data_availability_header.go\<close>.

  The erasure coding of a square and the namespaced Merkle roots of its rows and columns are computed by
  libraries outside the repository: the parameter \<open>eds\<close>, which gives the row and the column roots. The
  square roots that the code takes in floating point are exact on the numbers of shares that occur
  (at most 16384), so they are modelled by integer roots.
\<close>

section \<open>Constants\<close>

abbreviation (input) ShareSize :: nat where "ShareSize \<equiv> 256"
abbreviation (input) NamespaceSize :: nat where "NamespaceSize \<equiv> 8"
abbreviation (input) ShareReservedBytes :: nat where "ShareReservedBytes \<equiv> 1"
abbreviation (input) TxShareSize :: nat where "TxShareSize \<equiv> 247"
abbreviation (input) MsgShareSize :: nat where "MsgShareSize \<equiv> 248"
abbreviation (input) MaxSquareSize :: nat where "MaxSquareSize \<equiv> 128"
abbreviation (input) MaxShareCount :: nat where "MaxShareCount \<equiv> 16384"
abbreviation (input) MinSquareSize :: nat where "MinSquareSize \<equiv> 1"
abbreviation (input) MinSharecount :: nat where "MinSharecount \<equiv> 1"

definition TxNamespaceID :: bytes where
  "TxNamespaceID = [0, 0, 0, 0, 0, 0, 0, 1]"

definition IntermediateStateRootsNamespaceID :: bytes where
  "IntermediateStateRootsNamespaceID = [0, 0, 0, 0, 0, 0, 0, 2]"

definition EvidenceNamespaceID :: bytes where
  "EvidenceNamespaceID = [0, 0, 0, 0, 0, 0, 0, 3]"

definition MaxReservedNamespace :: bytes where
  "MaxReservedNamespace = [0, 0, 0, 0, 0, 0, 0, 255]"

definition TailPaddingNamespaceID :: bytes where
  "TailPaddingNamespaceID = [255, 255, 255, 255, 255, 255, 255, 254]"

section \<open>Splitting\<close>

record namespaced_share =
  ns_Share :: bytes
  ns_ID :: bytes

definition RawShares :: "namespaced_share list \<Rightarrow> bytes list" where
  "RawShares ns = map ns_Share ns"

definition zeroPadIfNecessary :: "bytes \<Rightarrow> nat \<Rightarrow> bytes" where
  "zeroPadIfNecessary share width =
     (let oldLen = length share in
      if oldLen < width then share @ replicate (width - oldLen) 0 else share)"

text \<open>The loop of \<open>splitMessage\<close> over what is left of the message.\<close>

function split_rest :: "bytes \<Rightarrow> bytes \<Rightarrow> namespaced_share list" where
  "split_rest rawData nid =
     (if length rawData > 0 then
        (let shareSizeOrLen = min MsgShareSize (length rawData) in
         \<lparr>ns_Share = zeroPadIfNecessary (nid @ take shareSizeOrLen rawData) ShareSize, ns_ID = nid\<rparr>
         # split_rest (drop shareSizeOrLen rawData) nid)
      else [])"
  by pat_completeness auto
termination
  by (relation "measure (\<lambda>(d, _). length d)") auto

declare split_rest.simps [simp del]

definition splitMessage :: "bytes \<Rightarrow> bytes \<Rightarrow> namespaced_share list option" where
  "splitMessage rawData nid =
     (if length rawData < MsgShareSize then None
      else Some (\<lparr>ns_Share = nid @ take MsgShareSize rawData, ns_ID = nid\<rparr>
                 # split_rest (drop MsgShareSize rawData) nid))"

definition appendToShares :: "namespaced_share list \<Rightarrow> bytes \<Rightarrow> bytes \<Rightarrow> namespaced_share list option" where
  "appendToShares shares nid rawData =
     (if length rawData \<le> MsgShareSize
      then Some (shares @ [\<lparr>ns_Share = zeroPadIfNecessary (nid @ rawData) ShareSize, ns_ID = nid\<rparr>])
      else map_option (\<lambda>s. shares @ s) (splitMessage rawData nid))"

text \<open>
  The loop of \<open>getNextChunk\<close>: it fills a chunk of \<open>width\<close> bytes from the data at \<open>outerIndex\<close> and the
  ones that follow, and panics at an empty piece.
\<close>

function chunk_loop ::
  "bytes list \<Rightarrow> nat \<Rightarrow> bytes \<Rightarrow> nat \<Rightarrow> nat \<Rightarrow> nat \<Rightarrow> nat \<Rightarrow> nat \<Rightarrow> (bytes \<times> nat \<times> nat \<times> nat) option" where
  "chunk_loop rawDatas width rawData outerIndex innerIndex curIndex firstBytes startIndex =
     (if curIndex < width \<and> outerIndex < length rawDatas then
        (let bytesToFetch = min (length (rawDatas ! outerIndex) - innerIndex) (width - curIndex) in
         if bytesToFetch = 0 then None
         else
           (let firstBytes = (if curIndex = 0 then bytesToFetch else firstBytes);
                startIndex = (if curIndex \<noteq> 0 then firstBytes + NamespaceSize + ShareReservedBytes else startIndex);
                rawData = rawData @ take bytesToFetch (drop innerIndex (rawDatas ! outerIndex));
                innerIndex = innerIndex + bytesToFetch
            in if innerIndex \<ge> length (rawDatas ! outerIndex)
               then chunk_loop rawDatas width rawData (outerIndex + 1) 0 (curIndex + bytesToFetch) firstBytes startIndex
               else chunk_loop rawDatas width rawData outerIndex innerIndex (curIndex + bytesToFetch) firstBytes startIndex))
      else Some (rawData, outerIndex, innerIndex, startIndex))"
  by pat_completeness auto
termination
  by (relation "measure (\<lambda>(_, width, _, _, _, curIndex, _, _). width - curIndex)") auto

declare chunk_loop.simps [simp del]

definition getNextChunk :: "bytes list \<Rightarrow> nat \<Rightarrow> nat \<Rightarrow> nat \<Rightarrow> (bytes \<times> nat \<times> nat \<times> nat) option" where
  "getNextChunk rawDatas outerIndex innerIndex width =
     chunk_loop rawDatas width [] outerIndex innerIndex 0 0 0"

text \<open>A chunk moves on: either to a later piece, or further inside the piece it started in.\<close>

lemma chunk_loop_progress:
  "chunk_loop rawDatas width rawData k i cur first start = Some (d, k', i', s)
     \<Longrightarrow> k < k' \<or> k' = k \<and> i \<le> i' \<and> (cur < width \<longrightarrow> k < length rawDatas \<longrightarrow> i < i' \<and> i' < length (rawDatas ! k))"
proof (induction rawDatas width rawData k i cur first start rule: chunk_loop.induct)
  case (1 rawDatas width rawData k i cur first start)
  show ?case
  proof (cases "cur < width \<and> k < length rawDatas")
    case False
    then show ?thesis using "1.prems" by (auto simp: chunk_loop.simps [of _ _ _ k])
  next
    case True
    define n where "n = min (length (rawDatas ! k) - i) (width - cur)"
    have n: "n \<noteq> 0"
      using "1.prems" True by (auto simp: chunk_loop.simps [of _ _ _ k] n_def Let_def split: if_splits)
    show ?thesis
    proof (cases "length (rawDatas ! k) \<le> i + n")
      case finished: True
      with "1.IH"(1) [OF True n_def n refl refl refl refl] "1.prems" True n show ?thesis
        by (auto simp: chunk_loop.simps [of _ _ _ k] n_def [symmetric] Let_def)
    next
      case inside: False
      then have c: "cur + n = width" using n by (auto simp: n_def)
      have "chunk_loop rawDatas width rawData k i cur first start
          = Some (rawData @ take n (drop i (rawDatas ! k)), k, i + n, if cur \<noteq> 0 then first + 9 else start)"
        using True n inside c
        by (simp add: chunk_loop.simps [of _ _ rawData k i cur] n_def [symmetric] Let_def) (simp add: chunk_loop.simps)
      with "1.prems" n inside show ?thesis by auto
    qed
  qed
qed

text \<open>The loop of \<open>splitContiguous\<close>.\<close>

function split_from :: "bytes \<Rightarrow> bytes list \<Rightarrow> nat \<Rightarrow> nat \<Rightarrow> namespaced_share list option" where
  "split_from nid rawDatas outerIndex innerIndex =
     (if outerIndex < length rawDatas then
        (case getNextChunk rawDatas outerIndex innerIndex TxShareSize of
           None \<Rightarrow> None
         | Some (rawData, outerIndex', innerIndex', startIndex) \<Rightarrow>
             map_option (\<lambda>shares.
                 \<lparr>ns_Share = zeroPadIfNecessary (nid @ [of_nat startIndex] @ rawData) ShareSize, ns_ID = nid\<rparr> # shares)
               (split_from nid rawDatas outerIndex' innerIndex'))
      else Some [])"
  by pat_completeness auto
termination
proof (relation "measures [\<lambda>(_, ds, k, i). length ds - k, \<lambda>(_, ds, k, i). length (ds ! k) - i]", goal_cases)
  case (2 nid ds k i y d z k' z' i' s)
  then have "chunk_loop ds TxShareSize [] k i 0 0 0 = Some (d, k', i', s)" "k < length ds"
    by (auto simp: getNextChunk_def)
  with chunk_loop_progress [OF this(1)] show ?case by auto
qed simp

declare split_from.simps [simp del]

definition splitContiguous :: "bytes \<Rightarrow> bytes list \<Rightarrow> namespaced_share list option" where
  "splitContiguous nid rawDatas = split_from nid rawDatas 0 0"

definition tailPaddingShare :: bytes where
  "tailPaddingShare = TailPaddingNamespaceID @ replicate (ShareSize - NamespaceSize) 0"

definition TailPaddingShares :: "nat \<Rightarrow> namespaced_share list" where
  "TailPaddingShares n = replicate n \<lparr>ns_Share = tailPaddingShare, ns_ID = TailPaddingNamespaceID\<rparr>"

text \<open>\<open>binary.PutUvarint\<close> writes the same bytes as the generated \<open>encodeVarint\<close>.\<close>

definition tx_MarshalDelimited :: "bytes \<Rightarrow> bytes" where
  "tx_MarshalDelimited tx = encodeVarint (length tx) @ tx"

definition Txs_SplitIntoShares :: "bytes list \<Rightarrow> namespaced_share list option" where
  "Txs_SplitIntoShares txs = splitContiguous TxNamespaceID (map tx_MarshalDelimited txs)"

definition Roots_SplitIntoShares :: "bytes list \<Rightarrow> namespaced_share list option" where
  "Roots_SplitIntoShares roots =
     splitContiguous IntermediateStateRootsNamespaceID (map tx_MarshalDelimited roots)"

record message =
  msg_NamespaceID :: bytes
  msg_Data :: bytes

definition msg_MarshalDelimited :: "message \<Rightarrow> bytes" where
  "msg_MarshalDelimited msg = encodeVarint (length (msg_Data msg)) @ msg_Data msg"

text \<open>
  \<open>sort.Slice\<close> may leave messages of one namespace in any order; the sort is the
  parameter \<open>sortMsgs\<close>, which gives some list of the same messages ordered by namespace.
\<close>

fun append_messages :: "namespaced_share list \<Rightarrow> message list \<Rightarrow> namespaced_share list option" where
  "append_messages shares [] = Some shares"
| "append_messages shares (m # ms) =
     (case appendToShares shares (msg_NamespaceID m) (msg_MarshalDelimited m) of
        None \<Rightarrow> None
      | Some shares' \<Rightarrow> append_messages shares' ms)"

definition Msgs_SplitIntoShares ::
  "(message list \<Rightarrow> message list) \<Rightarrow> message list \<Rightarrow> namespaced_share list option" where
  "Msgs_SplitIntoShares sortMsgs msgs = append_messages [] (sortMsgs msgs)"

section \<open>The square\<close>

definition nextHighestPowerOf2 :: "32 word \<Rightarrow> 32 word" where
  "nextHighestPowerOf2 v =
     (if v = 0 then 0
      else
        (let v = v - 1;
             v = v OR drop_bit 1 v;
             v = v OR drop_bit 2 v;
             v = v OR drop_bit 4 v;
             v = v OR drop_bit 8 v;
             v = v OR drop_bit 16 v
         in v + 1))"

text \<open>The least number whose square reaches \<open>n\<close>, and the greatest whose square does not exceed it.\<close>

definition ceil_sqrt :: "nat \<Rightarrow> nat" where
  "ceil_sqrt n = length (takeWhile (\<lambda>w. w * w < n) [0..<n + 1])"

definition floor_sqrt :: "nat \<Rightarrow> nat" where
  "floor_sqrt n = length (takeWhile (\<lambda>w. w * w \<le> n) [1..<n + 1])"

definition paddedLen :: "nat \<Rightarrow> nat" where
  "paddedLen len =
     (let width = nextHighestPowerOf2 (of_nat (ceil_sqrt len)) in unat (width * width))"

definition pad_square ::
  "namespaced_share list \<Rightarrow> (namespaced_share list \<times> nat) option" where
  "pad_square shares =
     (let curLen = length shares in
      if curLen > MaxShareCount then None
      else
        (let wantLen = max (paddedLen curLen) MinSharecount in
         if wantLen < curLen then None
         else Some (shares @ TailPaddingShares (wantLen - curLen), curLen)))"

text \<open>The row and the column roots of the extended square.\<close>

record da_header =
  dah_RowsRoots :: "bytes list"
  dah_ColumnRoots :: "bytes list"

definition ExtendShares ::
  "(nat \<Rightarrow> bytes list \<Rightarrow> da_header option) \<Rightarrow> nat \<Rightarrow> bytes list \<Rightarrow> da_header option" where
  "ExtendShares eds squareSize shares =
     (if squareSize < MinSquareSize \<or> squareSize > MaxSquareSize then None
      else if squareSize * squareSize \<noteq> length shares then None
      else eds squareSize shares)"

text \<open>
  The roots are copied into a slice of the size of both lists, the column roots at the offset of
  the number of columns; a write outside the slice panics.
\<close>

definition dah_Hash :: "(bytes \<Rightarrow> bytes) \<Rightarrow> da_header \<Rightarrow> bytes option" where
  "dah_Hash H dah =
     (let colsCount = length (dah_ColumnRoots dah); rowsCount = length (dah_RowsRoots dah) in
      if colsCount > rowsCount then None
      else Some (HashFromByteSlices H
        (foldl (\<lambda>slices (i, root). slices[i := root]) (replicate (colsCount + rowsCount) [])
           (List.enumerate 0 (dah_RowsRoots dah) @ List.enumerate colsCount (dah_ColumnRoots dah)))))"

datatype dah_error = ErrDahTooSmall | ErrDahTooBig | ErrDahUnequal | ErrDahHash

definition dah_ValidateBasic :: "da_header \<Rightarrow> bytes \<Rightarrow> dah_error option" where
  "dah_ValidateBasic dah hash =
     (let cols = length (dah_ColumnRoots dah); rows = length (dah_RowsRoots dah) in
      if cols < 2 * MinSquareSize \<or> rows < 2 * MinSquareSize then Some ErrDahTooSmall
      else if cols > 2 * MaxSquareSize \<or> rows > 2 * MaxSquareSize then Some ErrDahTooBig
      else if cols \<noteq> rows then Some ErrDahUnequal
      else if length hash > 0 \<and> length hash \<noteq> tmhash_Size then Some ErrDahHash
      else None)"

section \<open>Merging\<close>

datatype share_error = ErrVarint | ErrTxLength

definition parseDelimiter :: "bytes \<Rightarrow> share_error + bytes \<times> nat" where
  "parseDelimiter input =
     (if length input = 0 then Inr (input, 0)
      else
        (let l = (if length input < 10 then length input else 10);
             delimiter = zeroPadIfNecessary (take l input) 10
         in case ReadUvarint 0 0 delimiter of
              None \<Rightarrow> Inl ErrVarint
            | Some (msgLen, _) \<Rightarrow> Inr (drop (length (encodeVarint msgLen)) input, msgLen)))"

text \<open>The data of a share after the namespace and the reserved byte; a shorter share panics.\<close>

definition tx_data :: "bytes \<Rightarrow> bytes option" where
  "tx_data share =
     (if length share < NamespaceSize + ShareReservedBytes then None
      else Some (drop (NamespaceSize + ShareReservedBytes) share))"

lemma encodeVarint_pos [simp]: "0 < length (encodeVarint v)"
  by (subst encodeVarint.simps) simp

lemma parseDelimiter_shorter:
  assumes "parseDelimiter input = Inr (rest, n)" "n \<noteq> 0"
  shows "length rest < length input"
proof -
  have "input \<noteq> []" "rest = drop (length (encodeVarint n)) input"
    using assms by (auto simp: parseDelimiter_def Let_def split: if_splits option.splits)
  then show ?thesis using encodeVarint_pos [of n] by (cases input) (auto simp del: encodeVarint_pos)
qed

text \<open>
  \<open>peel\<close> with the fields of the share stack as arguments: the length of the transaction that is being
  read, the transactions so far and the cursor. A delimited share starts with the length of the next
  transaction; zero ends the data.
\<close>

function peel ::
  "bytes list \<Rightarrow> nat \<Rightarrow> bytes list \<Rightarrow> nat \<Rightarrow> bytes \<Rightarrow> bool \<Rightarrow> (share_error + bytes list) option" where
  "peel shares txLen txs cursor share delimited =
     (if delimited then
        (case parseDelimiter share of
           Inl e \<Rightarrow> Some (Inl e)
         | Inr (rest, len) \<Rightarrow>
             (if len = 0 then Some (Inr txs) else peel shares len txs cursor rest False))
      else if txLen \<le> length share - 10
      then peel shares txLen (txs @ [take txLen share]) cursor (drop txLen share) True
      else if length shares > cursor + 1
      then (case tx_data (shares ! (cursor + 1)) of
              None \<Rightarrow> None
            | Some nxt \<Rightarrow> peel shares txLen txs (cursor + 1) (share @ nxt) False)
      else if txLen \<le> length share
      then peel shares txLen (txs @ [take txLen share]) cursor (drop txLen share) True
      else Some (Inl ErrTxLength))"
  by pat_completeness auto
termination
proof (relation "measures [\<lambda>(shares, _, _, cursor, _, _). length shares - cursor,
    \<lambda>(_, _, _, _, share, _). length share, \<lambda>(_, _, _, _, _, delimited). if delimited then 0 else 1]", goal_cases)
  case (2 shares txLen txs cursor share delimited a rest len)
  then show ?case using parseDelimiter_shorter [of share rest len] by auto
qed auto

declare peel.simps [simp del]

definition processContiguousShares :: "bytes list \<Rightarrow> (share_error + bytes list) option" where
  "processContiguousShares shares =
     (if length shares = 0 then Some (Inr [])
      else do { share \<leftarrow> tx_data (shares ! 0); peel shares 0 [] 0 share True })"

definition parseTxs :: "bytes list \<Rightarrow> (share_error + bytes list) option" where
  "parseTxs shares = processContiguousShares shares"

definition parseISRs :: "bytes list \<Rightarrow> (share_error + bytes list) option" where
  "parseISRs shares = processContiguousShares shares"

text \<open>
  \<open>nextMsg\<close> gives the rest of the current share, the next namespace, the cursor, the next length and
  the message; reading past the last share panics.
\<close>

function nextMsg ::
  "bytes list \<Rightarrow> bytes \<Rightarrow> bytes \<Rightarrow> nat \<Rightarrow> nat
     \<Rightarrow> (share_error + bytes \<times> bytes \<times> nat \<times> nat \<times> message) option" where
  "nextMsg shares current nid cursor msgLen =
     (if msgLen > length current then
        (if cursor + 1 < length shares \<and> NamespaceSize \<le> length (shares ! (cursor + 1))
         then nextMsg shares (current @ drop NamespaceSize (shares ! (cursor + 1))) nid (cursor + 1) msgLen
         else None)
      else
        (let msg = \<lparr>msg_NamespaceID = nid, msg_Data = take msgLen current\<rparr>; cursor = cursor + 1 in
         if cursor \<ge> length shares then Some (Inr ([], [], cursor, 0, msg))
         else if length (shares ! cursor) < NamespaceSize then None
         else Some (case parseDelimiter (drop NamespaceSize (shares ! cursor)) of
                      Inl e \<Rightarrow> Inl e
                    | Inr (next, msgLen) \<Rightarrow> Inr (next, take NamespaceSize (shares ! cursor), cursor, msgLen, msg))))"
  by pat_completeness auto
termination
  by (relation "measure (\<lambda>(shares, _, _, cursor, _). length shares - cursor)") auto

declare nextMsg.simps [simp del]

lemma nextMsg_progress:
  "nextMsg shares current nid cursor msgLen = Some (Inr (a, b, cursor', c, m)) \<Longrightarrow> cursor < cursor'"
proof (induction shares current nid cursor msgLen rule: nextMsg.induct)
  case (1 shares current nid cursor msgLen)
  then show ?case
    by (subst (asm) (2) nextMsg.simps) (auto simp: Let_def split: if_splits sum.splits)
qed

text \<open>The loop of \<open>parseMsgShares\<close>.\<close>

function msg_loop ::
  "bytes list \<Rightarrow> bytes \<Rightarrow> bytes \<Rightarrow> nat \<Rightarrow> nat \<Rightarrow> message list \<Rightarrow> (share_error + message list) option" where
  "msg_loop shares current nid cursor msgLen msgs =
     (if cursor < length shares then
        (case nextMsg shares current nid cursor msgLen of
           None \<Rightarrow> None
         | Some (Inl e) \<Rightarrow> Some (Inl e)
         | Some (Inr (current', nid', cursor', msgLen', msg)) \<Rightarrow>
             msg_loop shares current' nid' cursor' msgLen' (msgs @ [msg]))
      else Some (Inr msgs))"
  by pat_completeness auto
termination
  by (relation "measure (\<lambda>(shares, _, _, cursor, _, _). length shares - cursor)")
    (auto dest: nextMsg_progress)

declare msg_loop.simps [simp del]

text \<open>The slice expressions on the first share panic when it is shorter than a namespace.\<close>

definition parseMsgShares :: "bytes list \<Rightarrow> (share_error + message list) option" where
  "parseMsgShares shares =
     (if length shares = 0 then Some (Inr [])
      else if length (shares ! 0) < NamespaceSize then None
      else case parseDelimiter (drop NamespaceSize (shares ! 0)) of
        Inl e \<Rightarrow> Some (Inl e)
      | Inr (currentShare, msgLen) \<Rightarrow>
          msg_loop shares currentShare (take NamespaceSize (shares ! 0)) 0 msgLen [])"

section \<open>Contiguous data is cut into equal chunks\<close>

text \<open>What is left of the data from position \<open>i\<close> of the piece \<open>k\<close>.\<close>

definition rest_of :: "bytes list \<Rightarrow> nat \<Rightarrow> nat \<Rightarrow> bytes" where
  "rest_of ds k i = drop i (concat (drop k ds))"

definition at_piece :: "bytes list \<Rightarrow> nat \<Rightarrow> nat \<Rightarrow> bool" where
  "at_piece ds k i \<longleftrightarrow> (k < length ds \<longrightarrow> i < length (ds ! k)) \<and> (k \<ge> length ds \<longrightarrow> i = 0)"

lemma rest_of_piece:
  "k < length ds \<Longrightarrow> i \<le> length (ds ! k) \<Longrightarrow> rest_of ds k i = drop i (ds ! k) @ rest_of ds (Suc k) 0"
  by (simp add: rest_of_def Cons_nth_drop_Suc [symmetric])

lemma rest_of_end: "k \<ge> length ds \<Longrightarrow> rest_of ds k i = []"
  by (simp add: rest_of_def)

lemma chunk_loop_takes:
  assumes "\<forall>d\<in>set ds. d \<noteq> []" "at_piece ds k i" "cur \<le> width"
    and "cur > 0 \<Longrightarrow> first \<le> cur" "start < width + 9"
  shows "\<exists>k' i' s. chunk_loop ds width acc k i cur first start
      = Some (acc @ take (width - cur) (rest_of ds k i), k', i', s)
    \<and> at_piece ds k' i' \<and> rest_of ds k' i' = drop (width - cur) (rest_of ds k i) \<and> s < width + 9"
  using assms
proof (induction ds width acc k i cur first start rule: chunk_loop.induct)
  case (1 ds width acc k i cur first start)
  let ?R = "rest_of ds k i"
  show ?case
  proof (cases "cur < width \<and> k < length ds")
    case False
    then show ?thesis
      using "1.prems" by (auto simp: chunk_loop.simps [of ds width acc k] rest_of_end)
  next
    case True
    define n where "n = min (length (ds ! k) - i) (width - cur)"
    define first' where "first' = (if cur = 0 then n else first)"
    define start' where "start' = (if cur \<noteq> 0 then first' + 8 + 1 else start)"
    have i: "i < length (ds ! k)" using "1.prems"(2) True by (simp add: at_piece_def)
    have n: "n \<noteq> 0" "n \<le> width - cur" "i + n \<le> length (ds ! k)" using i True by (auto simp: n_def)
    have R: "?R = drop i (ds ! k) @ rest_of ds (Suc k) 0"
      using rest_of_piece i True by simp
    then have piece: "take n (drop i (ds ! k)) = take n ?R" using n(3) by simp
    have w: "n + (width - (cur + n)) = width - cur" using n(2) True by simp
    have acc: "(acc @ take n ?R) @ take (width - (cur + n)) (drop n ?R) = acc @ take (width - cur) ?R"
      using take_add [of n "width - (cur + n)" ?R] unfolding w by simp
    have drops: "drop (width - (cur + n)) (drop n ?R) = drop (width - cur) ?R"
      using w by (simp add: add.commute)
    have side: "0 < cur + n \<Longrightarrow> first' \<le> cur + n" "start' < width + 9" "cur + n \<le> width"
      using "1.prems"(4,5) True n by (auto simp: first'_def start'_def)
    have step: "chunk_loop ds width acc k i cur first start
        = (if length (ds ! k) \<le> i + n
           then chunk_loop ds width (acc @ take n ?R) (Suc k) 0 (cur + n) first' start'
           else chunk_loop ds width (acc @ take n ?R) k (i + n) (cur + n) first' start')"
      using True n(1) by (subst chunk_loop.simps)
        (simp only: Let_def n_def [symmetric] first'_def [symmetric] start'_def [symmetric] piece if_True if_False simp_thms Suc_eq_plus1)
    show ?thesis
    proof (cases "length (ds ! k) \<le> i + n")
      case finished: True
      have "at_piece ds (Suc k) 0" using "1.prems"(1) by (simp add: at_piece_def)
      moreover have "rest_of ds (Suc k) 0 = drop n ?R" using R n(3) finished by simp
      ultimately show ?thesis
        using "1.IH"(1) [OF True n_def n(1) first'_def start'_def refl refl, of] finished "1.prems"(1) side
          acc drops step piece by simp
    next
      case False
      then have "at_piece ds k (i + n)" using True by (simp add: at_piece_def)
      moreover have "rest_of ds k (i + n) = drop n ?R" by (simp add: rest_of_def add.commute)
      ultimately show ?thesis
        using "1.IH"(2) [OF True n_def n(1) first'_def start'_def refl refl] False "1.prems"(1) side
          acc drops step piece by simp
    qed
  qed
qed

text \<open>The stream cut into chunks, the last one padded with zeros.\<close>

function cut :: "bytes \<Rightarrow> bytes list" where
  "cut r = (if r = [] then [] else zeroPadIfNecessary (take TxShareSize r) TxShareSize # cut (drop TxShareSize r))"
  by pat_completeness auto
termination
  by (relation "measure length") auto

declare cut.simps [simp del]

definition share_in :: "bytes \<Rightarrow> namespaced_share \<Rightarrow> bool" where
  "share_in nid sh \<longleftrightarrow> length (ns_Share sh) = ShareSize \<and> take NamespaceSize (ns_Share sh) = nid \<and> ns_ID sh = nid"

lemma contiguous_share:
  assumes "length nid = NamespaceSize" "length d \<le> TxShareSize"
  shows "share_in nid \<lparr>ns_Share = zeroPadIfNecessary (nid @ [b] @ d) ShareSize, ns_ID = nid\<rparr>
    \<and> drop 9 (zeroPadIfNecessary (nid @ [b] @ d) ShareSize) = zeroPadIfNecessary d TxShareSize"
  using assms by (auto simp: share_in_def zeroPadIfNecessary_def Let_def)

lemma split_from_cuts:
  assumes "\<forall>d\<in>set ds. d \<noteq> []" "at_piece ds k i" "length nid = NamespaceSize"
  shows "\<exists>shares. split_from nid ds k i = Some shares
    \<and> map (\<lambda>s. drop 9 (ns_Share s)) shares = cut (rest_of ds k i) \<and> list_all (share_in nid) shares"
  using assms
proof (induction nid ds k i rule: split_from.induct)
  case (1 nid ds k i)
  show ?case
  proof (cases "k < length ds")
    case False
    then show ?thesis by (simp add: split_from.simps [of nid ds k] rest_of_end cut.simps)
  next
    case True
    let ?R = "rest_of ds k i"
    obtain k' i' s where c: "getNextChunk ds k i TxShareSize = Some (take TxShareSize ?R, k', i', s)"
        "at_piece ds k' i'" "rest_of ds k' i' = drop TxShareSize ?R"
      using chunk_loop_takes [of ds k i 0 TxShareSize 0 0 "[]"] "1.prems" by (auto simp: getNextChunk_def)
    have R: "?R \<noteq> []"
      using rest_of_piece [of k ds i] "1.prems"(2) True by (simp add: at_piece_def)
    obtain shares where sh: "split_from nid ds k' i' = Some shares"
        "map (\<lambda>s. drop 9 (ns_Share s)) shares = cut (drop TxShareSize ?R)" "list_all (share_in nid) shares"
      using "1.IH" [OF True c(1) refl refl refl] "1.prems" c(2,3) by auto
    have "length (take TxShareSize ?R) \<le> TxShareSize" by simp
    note share = contiguous_share [OF "1.prems"(3) this, of "of_nat s"]
    show ?thesis
      using True c(1) sh share R by (simp add: split_from.simps [of nid ds k] cut.simps [of ?R])
  qed
qed

lemma splitContiguous_cuts:
  assumes "\<forall>d\<in>set ds. d \<noteq> []" "length nid = NamespaceSize"
  obtains shares where "splitContiguous nid ds = Some shares"
    "map (\<lambda>s. drop 9 (ns_Share s)) shares = cut (concat ds)" "list_all (share_in nid) shares"
proof -
  have "at_piece ds 0 0" using assms(1) by (auto simp: at_piece_def)
  from split_from_cuts [OF assms(1) this assms(2)] that show ?thesis
    by (auto simp: splitContiguous_def rest_of_def)
qed

lemma concat_cut: "\<exists>z. concat (cut r) = r @ replicate z 0"
proof (induction r rule: cut.induct)
  case (1 r)
  show ?case
  proof (cases "r = []")
    case False
    with 1 obtain z where z: "concat (cut (drop TxShareSize r)) = drop TxShareSize r @ replicate z 0" by auto
    show ?thesis
    proof (cases "length r < TxShareSize")
      case True
      then have "cut r = [zeroPadIfNecessary r TxShareSize]" using False by (simp add: cut.simps)
      then show ?thesis using True by (auto simp: zeroPadIfNecessary_def)
    next
      case l: False
      then have "cut r = take TxShareSize r # cut (drop TxShareSize r)"
        using False by (subst cut.simps) (simp add: zeroPadIfNecessary_def Let_def)
      then show ?thesis using z by (auto simp: append_assoc [symmetric] simp del: append_assoc)
    qed
  qed (simp add: cut.simps)
qed

section \<open>Merging undoes splitting\<close>

lemma zeroPad_append: "\<exists>p. zeroPadIfNecessary s w = s @ p"
  by (simp add: zeroPadIfNecessary_def Let_def)

lemma parseDelimiter_read:
  assumes "input \<noteq> []"
    and "ReadUvarint 0 0 (zeroPadIfNecessary (take (if length input < 10 then length input else 10) input) 10)
      = Some (v, p)"
  shows "parseDelimiter input = Inr (drop (length (encodeVarint v)) input, v)"
  using assms by (cases "length input < 10") (simp_all add: parseDelimiter_def)

lemma parse_encoded:
  assumes "share @ r = encodeVarint v @ x" "10 \<le> length share \<or> r = []" "v < 2 ^ 64"
  obtains rest where "parseDelimiter share = Inr (rest, v)" "rest @ r = x"
proof -
  let ?e = "encodeVarint v"
  have "length ?e \<le> length share"
    using assms varint_short [of v] by auto
  then have "take (length ?e) share = ?e" and x: "drop (length ?e) share @ r = x"
    using arg_cong [OF assms(1), of "take (length ?e)"] arg_cong [OF assms(1), of "drop (length ?e)"] by simp_all
  then have y: "share = ?e @ drop (length ?e) share" "drop (length ?e) share @ r = x"
    by (metis append_take_drop_id)+
  define y where "y = drop (length ?e) share"
  note y = y [folded y_def]
  let ?l = "if length share < 10 then length share else 10"
  have "length ?e \<le> ?l" using y varint_short [OF assms(3)] by auto
  then have "take ?l share = ?e @ take (?l - length ?e) y" using y(1) by simp
  then obtain p where p: "zeroPadIfNecessary (take ?l share) 10 = ?e @ p"
    using zeroPad_append [of "take ?l share" 10] by auto
  have "share \<noteq> []" using y encodeVarint_pos [of v] by (metis append_is_Nil_conv length_0_conv less_irrefl)
  then have "parseDelimiter share = Inr (drop (length ?e) share, v)"
    using parseDelimiter_read [of share v p] p ReadUvarint_encode [of v 0 0 p] assms(3) by simp
  then have "parseDelimiter share = Inr (y, v)" by (simp only: y_def)
  with that y(2) show ?thesis by blast
qed

lemma parse_zeros: "\<exists>rest. parseDelimiter (replicate n 0) = Inr (rest, 0)"
proof (cases n)
  case (Suc m)
  let ?l = "if n < 10 then n else 10"
  have l: "take ?l (replicate n 0) = (0::byte) # replicate (?l - 1) 0"
    using Suc by (cases "n < 10") (simp_all add: numeral_eq_Suc)
  obtain p where "zeroPadIfNecessary (take ?l (replicate n (0::byte))) 10 = 0 # p"
    using zeroPad_append [of "take ?l (replicate n 0)" 10] unfolding l by auto
  then have "ReadUvarint 0 0 (zeroPadIfNecessary (take ?l (replicate n 0)) 10) = Some (0, p)" by simp
  moreover have "replicate n (0::byte) \<noteq> []" using Suc by simp
  ultimately have "parseDelimiter (replicate n 0) = Inr (drop (length (encodeVarint 0)) (replicate n 0), 0)"
    using parseDelimiter_read [of "replicate n 0" 0 p] unfolding length_replicate by blast
  then show ?thesis by blast
qed (simp add: parseDelimiter_def)

definition tx_stream :: "bytes list \<Rightarrow> bytes" where
  "tx_stream txs = concat (map tx_MarshalDelimited txs)"

lemma tx_stream_simps [simp]:
  "tx_stream [] = []" "tx_stream (t # ts) = encodeVarint (length t) @ t @ tx_stream ts"
  by (simp_all add: tx_stream_def tx_MarshalDelimited_def)

definition txs_ok :: "bytes list \<Rightarrow> bool" where
  "txs_ok txs \<longleftrightarrow> list_all (\<lambda>t. t \<noteq> [] \<and> length t < 2 ^ 64) txs"

text \<open>The data of the shares after the cursor.\<close>

definition ahead :: "bytes list \<Rightarrow> nat \<Rightarrow> bytes" where
  "ahead shares cursor = concat (map (drop 9) (drop (cursor + 1) shares))"

lemma ahead_step: "cursor + 1 < length shares \<Longrightarrow>
    ahead shares cursor = drop 9 (shares ! (cursor + 1)) @ ahead shares (cursor + 1)"
  by (simp add: ahead_def Cons_nth_drop_Suc [symmetric])

lemma ahead_last: "\<not> cursor + 1 < length shares \<Longrightarrow> ahead shares cursor = []"
  by (simp add: ahead_def)

text \<open>
  \<open>peel\<close> returns the transactions of the stream in front of it: with a length just read, the next
  one is the stream's first; otherwise the delimiter is within reach.
\<close>

lemma peel_parses:
  assumes "list_all (\<lambda>s. 9 \<le> length s) shares"
  shows "(\<forall>t ts z. \<not> delimited \<longrightarrow> share @ ahead shares cursor = t @ tx_stream ts @ replicate z 0
       \<longrightarrow> txLen = length t \<longrightarrow> txs_ok (t # ts) \<longrightarrow> peel shares txLen txs cursor share delimited = Some (Inr (txs @ t # ts)))
   \<and> (\<forall>ts z. delimited \<longrightarrow> share @ ahead shares cursor = tx_stream ts @ replicate z 0
       \<longrightarrow> 10 \<le> length share \<or> ahead shares cursor = [] \<longrightarrow> txs_ok ts
       \<longrightarrow> peel shares txLen txs cursor share delimited = Some (Inr (txs @ ts)))"
  using assms
proof (induction shares txLen txs cursor share delimited rule: peel.induct)
  case (1 shares txLen txs cursor share delimited)
  show ?case
  proof (intro conjI allI impI)
    fix ts z
    assume d: delimited and st: "share @ ahead shares cursor = tx_stream ts @ replicate z 0"
      and reach: "10 \<le> length share \<or> ahead shares cursor = []" and ok: "txs_ok ts"
    show "peel shares txLen txs cursor share delimited = Some (Inr (txs @ ts))"
    proof (cases ts)
      case Nil
      then have "set share \<subseteq> {0}" using arg_cong [OF st, of set] by auto
      then have "share = replicate (length share) 0" by (intro replicate_eqI) auto
      then obtain rest where "parseDelimiter share = Inr (rest, 0)" using parse_zeros by metis
      with d Nil show ?thesis by (simp add: peel.simps [of shares txLen])
    next
      case (Cons t ts')
      have t: "t \<noteq> []" "length t < 2 ^ 64" using ok Cons by (auto simp: txs_ok_def)
      obtain rest where r: "parseDelimiter share = Inr (rest, length t)"
          "rest @ ahead shares cursor = t @ tx_stream ts' @ replicate z 0"
        using parse_encoded [of share "ahead shares cursor" "length t" "t @ tx_stream ts' @ replicate z 0"]
          st reach t Cons by auto
      have "peel shares (length t) txs cursor rest False = Some (Inr (txs @ t # ts'))"
        using "1.IH"(1) [OF d r(1) refl] "1.prems" r(2) ok Cons t by simp
      with d r t Cons show ?thesis by (simp add: peel.simps [of shares txLen])
    qed
  next
    fix t ts z
    assume d: "\<not> delimited" and st: "share @ ahead shares cursor = t @ tx_stream ts @ replicate z 0"
      and len: "txLen = length t" and ok: "txs_ok (t # ts)"
    have t: "t \<noteq> []" "txs_ok ts" using ok by (auto simp: txs_ok_def)
    consider "txLen \<le> length share - 10" | "\<not> txLen \<le> length share - 10" "cursor + 1 < length shares"
      | "\<not> txLen \<le> length share - 10" "\<not> cursor + 1 < length shares" by blast
    then show "peel shares txLen txs cursor share delimited = Some (Inr (txs @ t # ts))"
    proof cases
      case a: 1
      moreover have "0 < length t" using t by simp
      ultimately have l: "length t \<le> length share" "10 \<le> length (drop txLen share)"
        using len by (simp_all, linarith)
      then have s: "take txLen share = t" "drop txLen share @ ahead shares cursor = tx_stream ts @ replicate z 0"
        using st len by (auto simp: append_eq_append_conv_if)
      have "peel shares txLen (txs @ [t]) cursor (drop txLen share) True = Some (Inr ((txs @ [t]) @ ts))"
        using "1.IH"(2) [OF d a] "1.prems" s l(2) t(2) by simp
      with d a s show ?thesis by (simp add: peel.simps [of shares txLen txs cursor share])
    next
      case a: 2
      then have nx: "tx_data (shares ! (cursor + 1)) = Some (drop 9 (shares ! (cursor + 1)))"
        using "1.prems" by (auto simp: tx_data_def list_all_length)
      have "peel shares txLen txs (cursor + 1) (share @ drop 9 (shares ! (cursor + 1))) False
          = Some (Inr (txs @ t # ts))"
        using "1.IH"(3) [OF d a nx] "1.prems" st len ok ahead_step [OF a(2)] by simp
      with d a nx show ?thesis by (simp add: peel.simps [of shares txLen txs cursor share])
    next
      case a: 3
      then have s: "share = t @ tx_stream ts @ replicate z 0" "txLen \<le> length share"
        using st len by (auto simp: ahead_last)
      have "peel shares txLen (txs @ [t]) cursor (drop txLen share) True = Some (Inr ((txs @ [t]) @ ts))"
        using "1.IH"(4) [OF d a s(2)] "1.prems" s len t(2) ahead_last [OF a(2)] by simp
      moreover have "peel shares txLen txs cursor share delimited
          = peel shares txLen (txs @ [take txLen share]) cursor (drop txLen share) True"
        using d a s(2) by (simp add: peel.simps [of shares txLen txs cursor share])
      ultimately show ?thesis using s(1) len by simp
    qed
  qed
qed

lemma contiguous_round_trip:
  assumes "txs_ok txs" "length nid = NamespaceSize"
  obtains shares where "splitContiguous nid (map tx_MarshalDelimited txs) = Some shares"
    "processContiguousShares (RawShares shares) = Some (Inr txs)" "list_all (share_in nid) shares"
proof -
  have "\<forall>d\<in>set (map tx_MarshalDelimited txs). d \<noteq> []"
    using encodeVarint_pos by (auto simp: tx_MarshalDelimited_def)
  from splitContiguous_cuts [OF this assms(2)] obtain shares where
    sh: "splitContiguous nid (map tx_MarshalDelimited txs) = Some shares"
      "map (\<lambda>s. drop 9 (ns_Share s)) shares = cut (tx_stream txs)" "list_all (share_in nid) shares"
    by (auto simp: tx_stream_def)
  let ?rs = "RawShares shares"
  have cuts: "map (drop 9) ?rs = cut (tx_stream txs)" using sh(2) by (simp add: RawShares_def comp_def)
  have len: "list_all (\<lambda>s. length s = 256) ?rs" using sh(3) by (auto simp: RawShares_def share_in_def list_all_iff)
  have "processContiguousShares ?rs = Some (Inr txs)"
  proof (cases ?rs)
    case Nil
    then have "tx_stream txs = []" using cuts by (metis list.simps(8) cut.simps list.distinct(1))
    then have "txs = []" using encodeVarint_pos by (cases txs) auto
    with Nil show ?thesis by (simp add: processContiguousShares_def)
  next
    case (Cons r rs)
    obtain z where "concat (map (drop 9) ?rs) = tx_stream txs @ replicate z 0"
      using concat_cut [of "tx_stream txs"] cuts by auto
    then have st: "drop 9 r @ ahead ?rs 0 = tx_stream txs @ replicate z 0" using Cons by (simp add: ahead_def)
    have l: "length r = 256" "list_all (\<lambda>s. 9 \<le> length s) ?rs" using len Cons by (auto simp: list_all_iff)
    then have "peel ?rs 0 [] 0 (drop 9 r) True = Some (Inr txs)"
      using peel_parses [OF l(2), of True "drop 9 r" 0 0 "[]"] st assms(1) by simp
    with Cons l(1) show ?thesis by (simp add: processContiguousShares_def tx_data_def)
  qed
  with sh that show ?thesis by blast
qed

subsection \<open>Messages\<close>

text \<open>
  The shares of one message: they carry its namespace and its delimited data, padded with zeros, and
  there are no more of them than the data needs.
\<close>

definition msg_group :: "bytes \<Rightarrow> bytes \<Rightarrow> bytes list \<Rightarrow> bool" where
  "msg_group nid raw g \<longleftrightarrow> g \<noteq> [] \<and> list_all (\<lambda>s. length s = ShareSize \<and> take NamespaceSize s = nid) g
     \<and> (\<exists>z. concat (map (drop 8) g) = raw @ replicate z 0) \<and> MsgShareSize * (length g - 1) < length raw"

lemma padded_msg_share:
  assumes "length nid = NamespaceSize" "length d \<le> MsgShareSize"
  shows "length (zeroPadIfNecessary (nid @ d) ShareSize) = ShareSize
    \<and> take NamespaceSize (zeroPadIfNecessary (nid @ d) ShareSize) = nid
    \<and> drop 8 (zeroPadIfNecessary (nid @ d) ShareSize) = d @ replicate (MsgShareSize - length d) 0"
  using assms by (auto simp: zeroPadIfNecessary_def Let_def)

lemma split_rest_group:
  assumes "length nid = NamespaceSize" "raw \<noteq> []"
  shows "msg_group nid raw (map ns_Share (split_rest raw nid))"
  using assms
proof (induction raw nid rule: split_rest.induct)
  case (1 raw nid)
  let ?n = "min MsgShareSize (length raw)" and ?d = "drop (min MsgShareSize (length raw)) raw"
  have step: "map ns_Share (split_rest raw nid)
      = zeroPadIfNecessary (nid @ take ?n raw) ShareSize # map ns_Share (split_rest ?d nid)"
    using "1.prems"(2) by (subst split_rest.simps) (simp add: Let_def)
  note sh = padded_msg_share [OF "1.prems"(1), of "take ?n raw"]
  show ?case
  proof (cases "?d = []")
    case True
    then have "split_rest ?d nid = []" by (subst split_rest.simps) simp
    with step sh "1.prems"(2) True show ?thesis by (auto simp: msg_group_def)
  next
    case False
    then have n: "?n = MsgShareSize" "MsgShareSize < length raw" by auto
    have "msg_group nid ?d (map ns_Share (split_rest ?d nid))"
      using "1.IH" [OF _ refl] "1.prems" False by simp
    with step sh n show ?thesis
      by (auto simp: msg_group_def append_assoc [symmetric] simp del: append_assoc)
  qed
qed

lemma appendToShares_group:
  assumes "length nid = NamespaceSize" "raw \<noteq> []"
  shows "\<exists>ss. appendToShares shares nid raw = Some (shares @ ss) \<and> msg_group nid raw (map ns_Share ss)"
proof (cases "length raw \<le> MsgShareSize")
  case True
  then show ?thesis
    using padded_msg_share [OF assms(1) True] assms(2) by (auto simp: appendToShares_def msg_group_def)
next
  case False
  then have "split_rest raw nid = \<lparr>ns_Share = zeroPadIfNecessary (nid @ take MsgShareSize raw) ShareSize, ns_ID = nid\<rparr>
      # split_rest (drop MsgShareSize raw) nid"
    using assms(2) by (subst split_rest.simps) (simp add: Let_def min_def)
  moreover have "zeroPadIfNecessary (nid @ take MsgShareSize raw) ShareSize = nid @ take MsgShareSize raw"
    using False assms(1) by (simp add: zeroPadIfNecessary_def)
  ultimately have "appendToShares shares nid raw = Some (shares @ split_rest raw nid)"
    using False by (simp add: appendToShares_def splitMessage_def)
  with split_rest_group [OF assms] show ?thesis by blast
qed

definition msgs_ok :: "message list \<Rightarrow> bool" where
  "msgs_ok ms \<longleftrightarrow> list_all (\<lambda>m. length (msg_NamespaceID m) = NamespaceSize \<and> length (msg_Data m) < 2 ^ 64) ms"

definition group_of :: "message \<Rightarrow> bytes list \<Rightarrow> bool" where
  "group_of m g = msg_group (msg_NamespaceID m) (msg_MarshalDelimited m) g"

lemma append_messages_groups:
  assumes "msgs_ok ms"
  shows "\<exists>gs ss. append_messages shares ms = Some (shares @ ss) \<and> map ns_Share ss = concat gs \<and> list_all2 group_of ms gs"
  using assms
proof (induction ms arbitrary: shares)
  case (Cons m ms)
  have "msg_MarshalDelimited m \<noteq> []" using encodeVarint_pos by (simp add: msg_MarshalDelimited_def)
  with appendToShares_group [of "msg_NamespaceID m" "msg_MarshalDelimited m" shares] Cons.prems
  obtain ss where ss: "appendToShares shares (msg_NamespaceID m) (msg_MarshalDelimited m) = Some (shares @ ss)"
      "group_of m (map ns_Share ss)"
    by (auto simp: msgs_ok_def group_of_def)
  obtain gs ss' where "append_messages (shares @ ss) ms = Some ((shares @ ss) @ ss')"
      "map ns_Share ss' = concat gs" "list_all2 group_of ms gs"
    using Cons.IH [of "shares @ ss"] Cons.prems by (auto simp: msgs_ok_def)
  with ss show ?case by (intro exI [of _ "map ns_Share ss # gs"] exI [of _ "ss @ ss'"]) simp
qed simp

text \<open>What \<open>nextMsg\<close> returns when the message ends with the share before \<open>cursor\<close>.\<close>

definition after_msg ::
  "bytes list \<Rightarrow> nat \<Rightarrow> message \<Rightarrow> (share_error + bytes \<times> bytes \<times> nat \<times> nat \<times> message) option" where
  "after_msg shares cursor m =
     (if cursor \<ge> length shares then Some (Inr ([], [], cursor, 0, m))
      else if length (shares ! cursor) < NamespaceSize then None
      else Some (case parseDelimiter (drop NamespaceSize (shares ! cursor)) of
                   Inl e \<Rightarrow> Inl e
                 | Inr (next, len) \<Rightarrow> Inr (next, take NamespaceSize (shares ! cursor), cursor, len, m)))"

lemma nextMsg_reads:
  assumes "current @ concat (map (drop 8) (take n (drop (cursor + 1) shares))) = d @ replicate z 0"
    and "cursor + n < length shares" "list_all (\<lambda>s. length s = ShareSize) shares"
    and "n > 0 \<Longrightarrow> length current + MsgShareSize * (n - 1) < length d"
  shows "nextMsg shares current nid cursor (length d)
    = after_msg shares (cursor + n + 1) \<lparr>msg_NamespaceID = nid, msg_Data = d\<rparr>"
  using assms
proof (induction n arbitrary: current cursor)
  case 0
  then have c: "current = d @ replicate z 0" by simp
  show ?case unfolding c
    by (subst nextMsg.simps) (simp add: after_msg_def)
next
  case (Suc n)
  let ?s = "shares ! (cursor + 1)"
  have l: "length ?s = ShareSize" using Suc.prems(2,3) by (simp add: list_all_length)
  have "current @ concat (map (drop 8) (take (Suc n) (drop (cursor + 1) shares)))
      = (current @ drop 8 ?s) @ concat (map (drop 8) (take n (drop (cursor + 1 + 1) shares)))"
    using Suc.prems(2) Cons_nth_drop_Suc [of "cursor + 1" shares] by (simp add: Cons_nth_drop_Suc [symmetric])
  then have "nextMsg shares (current @ drop 8 ?s) nid (cursor + 1) (length d)
      = after_msg shares (cursor + 1 + n + 1) \<lparr>msg_NamespaceID = nid, msg_Data = d\<rparr>"
    using Suc.prems l by (intro Suc.IH) auto
  moreover have "length current < length d" using Suc.prems(4) by simp
  ultimately show ?case
    using Suc.prems(2) l by (subst nextMsg.simps) simp
qed

lemma group_parses:
  assumes "group_of m (g # gs)" "length (msg_Data m) < 2 ^ 64"
  obtains rest z where "parseDelimiter (drop NamespaceSize g) = Inr (rest, length (msg_Data m))"
    "rest @ concat (map (drop 8) gs) = msg_Data m @ replicate z 0"
    "gs \<noteq> [] \<Longrightarrow> length rest + MsgShareSize * (length gs - 1) < length (msg_Data m)"
proof -
  let ?e = "encodeVarint (length (msg_Data m))"
  obtain z where z: "drop 8 g @ concat (map (drop 8) gs) = ?e @ msg_Data m @ replicate z 0"
      "length g = ShareSize" "MsgShareSize * length gs < length ?e + length (msg_Data m)"
    using assms(1) by (auto simp: group_of_def msg_group_def msg_MarshalDelimited_def)
  obtain rest where r: "parseDelimiter (drop 8 g) = Inr (rest, length (msg_Data m))"
      "rest @ concat (map (drop 8) gs) = msg_Data m @ replicate z 0"
    using parse_encoded [OF z(1) _ assms(2)] z(2) by auto
  let ?more = "concat (map (drop 8) gs)"
  have "length (drop 8 g @ ?more) = length (?e @ msg_Data m @ replicate z 0)"
      "length (rest @ ?more) = length (msg_Data m @ replicate z 0)"
    by (simp_all only: z(1) r(2))
  then have "length rest + length ?e = MsgShareSize" using z(2) by simp
  then have "length rest + MsgShareSize * (length gs - 1) < length (msg_Data m)" if "gs \<noteq> []"
    using z(3) that by (cases gs) auto
  with r that show ?thesis by simp
qed

lemma msg_loop_reads:
  assumes "list_all2 group_of (m # ms) (g # gs)" "msgs_ok (m # ms)"
    and "list_all (\<lambda>s. length s = ShareSize) shares"
    and "drop cursor shares = concat (g # gs)"
    and "parseDelimiter (drop NamespaceSize (hd g)) = Inr (current, len)"
  shows "msg_loop shares current (msg_NamespaceID m) cursor len acc = Some (Inr (acc @ m # ms))"
  using assms
proof (induction ms arbitrary: m g gs cursor current len acc)
  case (Nil m g gs)
  obtain g0 g' where g: "g = g0 # g'" "gs = []" using Nil.prems(1) by (cases g) (auto simp: group_of_def msg_group_def)
  obtain z where r: "len = length (msg_Data m)" "current @ concat (map (drop 8) g') = msg_Data m @ replicate z 0"
      "g' \<noteq> [] \<Longrightarrow> length current + MsgShareSize * (length g' - 1) < length (msg_Data m)"
    using group_parses [of m g0 g'] Nil.prems g by (auto simp: msgs_ok_def)
  have d: "drop (cursor + 1) shares = g'" "cursor + length g' + 1 = length shares"
  proof -
    have "drop 1 (drop cursor shares) = g'" "length (drop cursor shares) = length g' + 1"
      using Nil.prems(4) g by simp_all
    then show "drop (cursor + 1) shares = g'" "cursor + length g' + 1 = length shares"
      by (simp_all add: add.commute)
  qed
  have "nextMsg shares current (msg_NamespaceID m) cursor (length (msg_Data m))
      = after_msg shares (cursor + length g' + 1) \<lparr>msg_NamespaceID = msg_NamespaceID m, msg_Data = msg_Data m\<rparr>"
    using r(2,3) d Nil.prems(3) by (intro nextMsg_reads) auto
  then show ?case
    using d(2) r(1) by (subst msg_loop.simps) (simp add: after_msg_def, simp add: msg_loop.simps)
next
  case (Cons m' ms m g gs)
  obtain g0 g' where g: "g = g0 # g'" using Cons.prems(1) by (cases g) (auto simp: group_of_def msg_group_def)
  obtain h hs where gs: "gs = h # hs" "h \<noteq> []" using Cons.prems(1) by (cases gs) (auto simp: group_of_def msg_group_def)
  obtain z where r: "len = length (msg_Data m)" "current @ concat (map (drop 8) g') = msg_Data m @ replicate z 0"
      "g' \<noteq> [] \<Longrightarrow> length current + MsgShareSize * (length g' - 1) < length (msg_Data m)"
    using group_parses [of m g0 g'] Cons.prems g by (auto simp: msgs_ok_def)
  let ?c = "cursor + length g' + 1"
  have d: "take (length g') (drop (cursor + 1) shares) = g'" "drop ?c shares = concat gs"
  proof -
    have "take (length g') (drop 1 (drop cursor shares)) = g'"
        "drop (length g' + 1) (drop cursor shares) = concat gs"
      using Cons.prems(4) g by simp_all
    then show "take (length g') (drop (cursor + 1) shares) = g'" "drop ?c shares = concat gs"
      by (simp_all add: add.commute add.left_commute)
  qed
  then have "drop ?c shares \<noteq> []" "hd (drop ?c shares) = hd h" using gs by auto
  then have c: "?c < length shares" "shares ! ?c = hd h"
    by (simp_all add: hd_drop_conv_nth)
  have "nextMsg shares current (msg_NamespaceID m) cursor (length (msg_Data m))
      = after_msg shares ?c \<lparr>msg_NamespaceID = msg_NamespaceID m, msg_Data = msg_Data m\<rparr>"
    using r(2,3) d(1) c(1) Cons.prems(3) by (intro nextMsg_reads) auto
  moreover obtain cur' where p: "parseDelimiter (drop NamespaceSize (hd h)) = Inr (cur', length (msg_Data m'))"
    using group_parses [of m' "hd h" "tl h"] Cons.prems(1,2) gs by (auto simp: msgs_ok_def)
  moreover have "take NamespaceSize (hd h) = msg_NamespaceID m'" "length (hd h) = ShareSize"
    using Cons.prems(1) gs by (auto simp: group_of_def msg_group_def list_all_iff neq_Nil_conv)
  ultimately have "nextMsg shares current (msg_NamespaceID m) cursor (length (msg_Data m))
      = Some (Inr (cur', msg_NamespaceID m', ?c, length (msg_Data m'), m))"
    using c by (simp add: after_msg_def)
  moreover have "msg_loop shares cur' (msg_NamespaceID m') ?c (length (msg_Data m')) (acc @ [m])
      = Some (Inr ((acc @ [m]) @ m' # ms))"
    using Cons.prems gs d(2) p by (intro Cons.IH [of m' h hs]) (auto simp: msgs_ok_def)
  ultimately show ?case using c(1) r(1) by (subst msg_loop.simps) simp
qed

lemma messages_round_trip:
  assumes "msgs_ok ms"
  obtains shares where "append_messages [] ms = Some shares" "parseMsgShares (RawShares shares) = Some (Inr ms)"
    "list_all (\<lambda>s. \<exists>m\<in>set ms. length s = ShareSize \<and> take NamespaceSize s = msg_NamespaceID m) (RawShares shares)"
proof -
  obtain gs ss where a: "append_messages [] ms = Some ss" "map ns_Share ss = concat gs" "list_all2 group_of ms gs"
    using append_messages_groups [OF assms, of "[]"] by auto
  have all: "list_all (\<lambda>s. \<exists>m\<in>set ms. length s = ShareSize \<and> take NamespaceSize s = msg_NamespaceID m) (concat gs)"
    using a(3) by (induction ms gs rule: list_all2_induct) (auto simp: group_of_def msg_group_def list_all_iff)
  then have len: "list_all (\<lambda>s. length s = ShareSize) (concat gs)" by (auto simp: list_all_iff)
  have "parseMsgShares (concat gs) = Some (Inr ms)"
  proof (cases ms)
    case Nil
    then show ?thesis using a(3) by (simp add: parseMsgShares_def)
  next
    case (Cons m ms')
    then obtain g gs' where g: "gs = g # gs'" "g \<noteq> []" using a(3) by (cases gs) (auto simp: group_of_def msg_group_def)
    then obtain cur where p: "parseDelimiter (drop NamespaceSize (hd g)) = Inr (cur, length (msg_Data m))"
      using group_parses [of m "hd g" "tl g"] a(3) assms Cons by (auto simp: msgs_ok_def)
    have first: "concat gs ! 0 = hd g" "take NamespaceSize (hd g) = msg_NamespaceID m" "length (hd g) = ShareSize"
      using g a(3) Cons by (auto simp: group_of_def msg_group_def list_all_iff neq_Nil_conv)
    have "msg_loop (concat gs) cur (msg_NamespaceID m) 0 (length (msg_Data m)) [] = Some (Inr ([] @ m # ms'))"
      using a(3) assms Cons g len p by (intro msg_loop_reads [of m ms' g gs']) auto
    with p first g Cons show ?thesis by (simp add: parseMsgShares_def)
  qed
  with a all that show ?thesis by (auto simp: RawShares_def)
qed

section \<open>The size of the square\<close>

definition smeared :: "32 word \<Rightarrow> nat \<Rightarrow> 32 word \<Rightarrow> bool" where
  "smeared v k x \<longleftrightarrow> (\<forall>n. bit x n \<longleftrightarrow> (\<exists>j<k. bit v (n + j)))"

lemma smear_step:
  assumes "smeared v k x" "l = k + k"
  shows "smeared v l (x OR drop_bit k x)"
proof -
  have "(\<exists>j<k. bit v (n + j)) \<or> (\<exists>j<k. bit v (k + n + j)) \<longleftrightarrow> (\<exists>j<k + k. bit v (n + j))" for n
  proof
    assume "\<exists>j<k + k. bit v (n + j)"
    then obtain j where j: "j < k + k" "bit v (n + j)" by blast
    show "(\<exists>j<k. bit v (n + j)) \<or> (\<exists>j<k. bit v (k + n + j))"
    proof (cases "j < k")
      case False
      with j have "j - k < k" "bit v (k + n + (j - k))" by (simp_all add: add.commute add.left_commute)
      then show ?thesis by blast
    qed (use j in blast)
  next
    assume "(\<exists>j<k. bit v (n + j)) \<or> (\<exists>j<k. bit v (k + n + j))"
    then consider j where "j < k" "bit v (n + j)" | j where "j < k" "bit v (n + (k + j))"
      by (auto simp: add.commute add.left_commute)
    then show "\<exists>j<k + k. bit v (n + j)"
      by cases (meson trans_less_add1, meson add_strict_left_mono)
  qed
  with assms show ?thesis by (simp add: smeared_def bit_or_iff bit_drop_bit_eq comp_def)
qed

lemma smear_all:
  fixes v :: "32 word"
  assumes "v \<noteq> 0"
  obtains t where "t < 32" "2 ^ t \<le> unat v" "unat v < 2 ^ Suc t"
    "\<And>x. smeared v 32 x \<Longrightarrow> x = mask (Suc t)"
proof -
  define t where "t = (GREATEST n. bit v n)"
  have ex: "\<exists>n. bit v n" using assms by (auto simp: bit_eq_iff)
  have bound: "bit v n \<Longrightarrow> n \<le> 32" for n using bit_imp_le_length [of v n] by simp
  have top: "bit v t" unfolding t_def using ex bound by (rule GreatestI_ex_nat) auto
  have le: "n \<le> t" if "bit v n" for n unfolding t_def using that bound by (rule Greatest_le_nat) auto
  have t: "t < 32" using bit_imp_le_length [OF top] by simp
  have "v = take_bit (Suc t) v"
    using le by (intro bit_word_eqI) (auto simp: bit_take_bit_iff less_Suc_eq_le)
  then have "unat v < 2 ^ Suc t"
    by (metis unsigned_take_bit_eq take_bit_nat_less_exp)
  moreover have "2 ^ t \<le> unat v"
  proof (rule ccontr)
    assume "\<not> 2 ^ t \<le> unat v"
    then have "unat v div 2 ^ t = 0" by simp
    then have "\<not> bit (unat v) t" by (simp add: bit_iff_odd)
    with top show False by (simp add: bit_unsigned_iff)
  qed
  moreover have "x = mask (Suc t)" if "smeared v 32 x" for x
  proof (rule bit_word_eqI)
    fix n assume "n < LENGTH(32)"
    then have n: "n < 32" by simp
    have "(\<exists>j<32. bit v (n + j)) \<longleftrightarrow> n \<le> t"
    proof
      assume "n \<le> t"
      then have "t - n < 32" "bit v (n + (t - n))" using t top by auto
      then show "\<exists>j<32. bit v (n + j)" by blast
    qed (use le in fastforce)
    with that n show "bit x n = bit (mask (Suc t) :: 32 word) n"
      by (simp add: smeared_def bit_mask_iff less_Suc_eq_le)
  qed
  ultimately show ?thesis using that t by blast
qed

definition smear :: "32 word \<Rightarrow> 32 word" where
  "smear v = (let v = v OR drop_bit 1 v; v = v OR drop_bit 2 v; v = v OR drop_bit 4 v;
                  v = v OR drop_bit 8 v in v OR drop_bit 16 v)"

lemma nextHighestPowerOf2_smear: "v \<noteq> 0 \<Longrightarrow> nextHighestPowerOf2 v = smear (v - 1) + 1"
  unfolding nextHighestPowerOf2_def smear_def Let_def by (simp only: if_False)

lemma smeared_smear: "smeared v 32 (smear v)"
proof -
  have "smeared v 1 v" by (simp add: smeared_def)
  then show ?thesis unfolding smear_def Let_def
    by (intro smear_step [of v 16] smear_step [of v 8] smear_step [of v 4] smear_step [of v 2]
        smear_step [of v 1]) simp_all
qed

lemma nextHighestPowerOf2_ok:
  assumes "0 < unat v" "unat v \<le> 2 ^ 31"
  obtains k where "k \<le> 31" "unat (nextHighestPowerOf2 v) = 2 ^ k" "unat v \<le> 2 ^ k" "k = 0 \<or> 2 ^ (k - 1) < unat v"
proof -
  have v: "v \<noteq> 0" "unat (v - 1) = unat v - 1"
    using assms(1) unat_minus_one [of v] by (auto simp: unat_gt_0)
  note res = nextHighestPowerOf2_smear [OF v(1)]
  show ?thesis
  proof (cases "v = 1")
    case True
    then have "nextHighestPowerOf2 v = 1" unfolding res by (simp add: smear_def)
    then show ?thesis using that [of 0] True by simp
  next
    case False
    then have "v - 1 \<noteq> 0" by (metis right_minus_eq)
    then obtain t where t: "t < 32" "2 ^ t \<le> unat (v - 1)" "unat (v - 1) < 2 ^ Suc t" "smear (v - 1) = mask (Suc t)"
      using smear_all [of "v - 1"] smeared_smear [of "v - 1"] by metis
    have t31: "t < 31"
    proof (rule ccontr)
      assume "\<not> t < 31"
      then have "t = 31" using t(1) by simp
      with t(2) v(2) assms show False by simp
    qed
    moreover have "nextHighestPowerOf2 v = 2 ^ Suc t" unfolding res t(4) by (simp add: mask_eq_exp_minus_1)
    moreover have "unat (2 ^ Suc t :: 32 word) = 2 ^ Suc t"
    proof -
      have "(2 :: nat) ^ Suc t < 2 ^ 32" using t31 by (intro power_strict_increasing) auto
      then have "unat (of_nat (2 ^ Suc t) :: 32 word) = 2 ^ Suc t"
        by (simp only: unat_of_nat take_bit_nat_eq_self len_num0 len_num1 len_bit0) simp
      then show ?thesis by simp
    qed
    ultimately show ?thesis
      using that [of "Suc t"] t(2,3) v(2) assms by simp
  qed
qed

lemma length_takeWhile_upt:
  assumes "\<And>i j. i \<le> j \<Longrightarrow> P j \<Longrightarrow> P i" "\<not> P n"
  shows "\<not> P (length (takeWhile P [0..<n + 1])) \<and> (\<forall>i < length (takeWhile P [0..<n + 1]). P i)"
proof -
  let ?l = "length (takeWhile P [0..<n + 1])"
  have "?l < length [0..<n + 1]"
  proof (rule ccontr)
    assume "\<not> ?l < length [0..<n + 1]"
    then have "takeWhile P [0..<n + 1] = [0..<n + 1]"
      using length_takeWhile_le [of P "[0..<n + 1]"] by (metis le_neq_implies_less takeWhile_eq_take take_all order_refl)
    then have "\<forall>x\<in>set [0..<n + 1]. P x" by (simp only: takeWhile_eq_all_conv)
    with assms(2) show False by simp
  qed
  from nth_length_takeWhile [OF this] this have "\<not> P ?l" by (simp del: upt_Suc)
  moreover have "P i" if "i < ?l" for i
    using set_takeWhileD [of "takeWhile P [0..<n + 1] ! i" P] nth_mem [OF that] takeWhile_nth [OF that] that
      \<open>?l < length [0..<n + 1]\<close> by (simp del: upt_Suc)
  ultimately show ?thesis by blast
qed

lemma ceil_sqrt_ok: "n \<le> ceil_sqrt n * ceil_sqrt n" "i < ceil_sqrt n \<Longrightarrow> i * i < n"
proof -
  have "i \<le> j \<Longrightarrow> j * j < n \<Longrightarrow> i * i < n" for i j
    using mult_le_mono [of i j i j] by linarith
  moreover have "\<not> n * n < n" by (cases n) auto
  ultimately have "\<not> ceil_sqrt n * ceil_sqrt n < n \<and> (\<forall>i<ceil_sqrt n. i * i < n)"
    unfolding ceil_sqrt_def by (rule length_takeWhile_upt)
  then show "n \<le> ceil_sqrt n * ceil_sqrt n" "i < ceil_sqrt n \<Longrightarrow> i * i < n" by auto
qed

lemma paddedLen_ok:
  assumes "0 < n" "n \<le> MaxShareCount"
  obtains k where "k \<le> 7" "paddedLen n = 2 ^ k * 2 ^ k" "n \<le> 2 ^ k * 2 ^ k"
    "k = 0 \<or> 2 ^ (k - 1) * 2 ^ (k - 1) < n"
proof -
  let ?c = "ceil_sqrt n"
  have c: "0 < ?c" using ceil_sqrt_ok(1) [of n] assms(1) by (cases ?c) auto
  have c128: "?c \<le> 128"
  proof (rule ccontr)
    assume "\<not> ?c \<le> 128"
    then have "128 * 128 < n" by (intro ceil_sqrt_ok(2)) simp
    with assms(2) show False by simp
  qed
  then have u: "unat (of_nat ?c :: 32 word) = ?c" by (simp add: unat_of_nat take_bit_nat_eq_self)
  obtain k where k: "k \<le> 31" "unat (nextHighestPowerOf2 (of_nat ?c)) = 2 ^ k" "?c \<le> 2 ^ k" "k = 0 \<or> 2 ^ (k - 1) < ?c"
    using nextHighestPowerOf2_ok [of "of_nat ?c"] c c128 unfolding u by auto
  have k7: "k \<le> 7"
  proof (rule ccontr)
    assume "\<not> k \<le> 7"
    then have "(2 :: nat) ^ 7 \<le> 2 ^ (k - 1)" by (intro power_increasing) auto
    with k(4) c128 \<open>\<not> k \<le> 7\<close> show False by simp
  qed
  have "(2 :: nat) ^ k \<le> 2 ^ 7" using k7 by (intro power_increasing) auto
  then have "2 ^ k * 2 ^ k \<le> (16384 :: nat)" using mult_le_mono [of "2 ^ k" 128 "2 ^ k" 128] by simp
  then have "paddedLen n = 2 ^ k * 2 ^ k"
    unfolding paddedLen_def Let_def unat_word_ariths k(2) by simp
  moreover have "n \<le> 2 ^ k * 2 ^ k"
    using ceil_sqrt_ok(1) [of n] mult_le_mono [OF k(3) k(3)] by linarith
  moreover have "k = 0 \<or> 2 ^ (k - 1) * 2 ^ (k - 1) < n" using k(4) ceil_sqrt_ok(2) [of "2 ^ (k - 1)" n] by auto
  ultimately show ?thesis using that k7 by blast
qed

lemma pad_square_ok:
  assumes "length shares \<le> MaxShareCount"
  obtains k where "k \<le> 7" "pad_square shares = Some (shares @ TailPaddingShares (2 ^ k * 2 ^ k - length shares), length shares)"
    "length shares \<le> 2 ^ k * 2 ^ k" "k = 0 \<or> 2 ^ (k - 1) * 2 ^ (k - 1) < length shares"
proof (cases "shares = []")
  case True
  have "paddedLen 0 = 0" by (simp add: paddedLen_def ceil_sqrt_def nextHighestPowerOf2_def)
  then show ?thesis using True that [of 0] by (simp add: pad_square_def)
next
  case False
  then obtain k where k: "k \<le> 7" "paddedLen (length shares) = 2 ^ k * 2 ^ k" "length shares \<le> 2 ^ k * 2 ^ k"
      "k = 0 \<or> 2 ^ (k - 1) * 2 ^ (k - 1) < length shares"
    using paddedLen_ok [of "length shares"] assms by (metis length_greater_0_conv)
  have "(1 :: nat) \<le> 2 ^ k * 2 ^ k" by simp
  then have "max (2 ^ k * 2 ^ k) 1 = (2 :: nat) ^ k * 2 ^ k" by linarith
  then show ?thesis using that [OF k(1) _ k(3,4)] assms k(2,3) by (simp add: pad_square_def Let_def)
qed

end
