(* ===== verification/PartSet.thy ===== *)
theory PartSet
  imports BlockTypes
begin

text \<open>
  \<open>types/part_set.go\<close>: a block as a set of parts, each with a Merkle proof of its place. A part set is
  either made from the serialised block or starts empty from a header and is filled by \<open>AddPart\<close>.
  The \<open>uint32\<close> arithmetic of the split is written out; the slice expression panics as Go's does.
\<close>

section \<open>Parts\<close>

record part =
  p_Index :: nat
  p_Bytes :: bytes
  p_Proof :: merkle_proof

definition BlockPartSizeBytes :: nat where
  "BlockPartSizeBytes = 65536"

definition p_ValidateBasic :: "part \<Rightarrow> basic_error option" where
  "p_ValidateBasic p =
     (if length (p_Bytes p) > BlockPartSizeBytes then Some ErrTooBig
      else map_option ErrBadProof (mp_ValidateBasic (p_Proof p)))"

record pb_part =
  pbpt_Index :: nat
  pbpt_Bytes :: bytes
  pbpt_Proof :: pb_proof

definition p_ToProto :: "part option \<Rightarrow> basic_error + pb_part" where
  "p_ToProto pt =
     (case pt of
        None \<Rightarrow> Inl ErrNilMessage
      | Some p \<Rightarrow>
          (case mp_ToProto (Some (p_Proof p)) of
             None \<Rightarrow> Inl ErrNilMessage
           | Some proof \<Rightarrow>
               Inr \<lparr>pbpt_Index = p_Index p, pbpt_Bytes = p_Bytes p, pbpt_Proof = proof\<rparr>))"

definition PartFromProto :: "pb_part option \<Rightarrow> basic_error + part" where
  "PartFromProto pb =
     (case pb of
        None \<Rightarrow> Inl ErrNilMessage
      | Some b \<Rightarrow>
          (case ProofFromProto (Some (pbpt_Proof b)) of
             (_, Some e) \<Rightarrow> Inl (ErrBadProof e)
           | (None, None) \<Rightarrow> Inl ErrNilMessage
           | (Some proof, None) \<Rightarrow>
               (let p = \<lparr>p_Index = pbpt_Index b, p_Bytes = pbpt_Bytes b, p_Proof = proof\<rparr> in
                case p_ValidateBasic p of Some e \<Rightarrow> Inl e | None \<Rightarrow> Inr p)))"

section \<open>Part sets\<close>

record part_set =
  ps_total :: nat
  ps_hash :: bytes
  ps_parts :: "part option list"
  ps_partsBitArray :: "bit_array option"
  ps_count :: nat
  ps_byteSize :: int

datatype part_set_error = ErrPartSetUnexpectedIndex | ErrPartSetInvalidProof

definition go_slice :: "'a list \<Rightarrow> nat \<Rightarrow> nat \<Rightarrow> 'a list option" where
  "go_slice xs lo hi = (if lo \<le> hi \<and> hi \<le> length xs then Some (take (hi - lo) (drop lo xs)) else None)"

text \<open>The bytes of the parts \<open>i\<close> to \<open>i + n - 1\<close>; \<open>i*partSize\<close> and \<open>(i+1)*partSize\<close> are \<open>uint32\<close>.\<close>

fun split_data :: "bytes \<Rightarrow> nat \<Rightarrow> nat \<Rightarrow> nat \<Rightarrow> bytes list option" where
  "split_data data partSize i 0 = Some []"
| "split_data data partSize i (Suc n) =
     do {
       b \<leftarrow> go_slice data (i * partSize mod 2 ^ 32) (min (length data) ((i + 1) * partSize mod 2 ^ 32));
       bs \<leftarrow> split_data data partSize (Suc i) n;
       Some (b # bs)
     }"

fun set_all_bits :: "nat \<Rightarrow> nat \<Rightarrow> bit_array option \<Rightarrow> bit_array option option" where
  "set_all_bits i 0 b = Some b"
| "set_all_bits i (Suc n) b =
     do { (b', ok) \<leftarrow> ba_SetIndex b (int i) True; set_all_bits (Suc i) n b' }"

definition NewPartSetFromData :: "(bytes \<Rightarrow> bytes) \<Rightarrow> bytes \<Rightarrow> nat \<Rightarrow> part_set option" where
  "NewPartSetFromData H data partSize =
     (if partSize = 0 then None
      else
        (let total' = ((length data + partSize + (2 ^ 32 - 1)) mod 2 ^ 32) div partSize in
         do {
           partsBytes \<leftarrow> split_data data partSize 0 total';
           partsBitArray \<leftarrow> set_all_bits 0 total' (NewBitArray (int total'));
           (root, proofs) \<leftarrow> ProofsFromByteSlices H partsBytes;
           Some \<lparr>ps_total = total', ps_hash = root,
                 ps_parts = map (\<lambda>i. Some \<lparr>p_Index = i, p_Bytes = partsBytes ! i, p_Proof = proofs ! i\<rparr>)
                              [0..<total'],
                 ps_partsBitArray = partsBitArray, ps_count = total',
                 ps_byteSize = int (length data)\<rparr>
         }))"

definition NewPartSetFromHeader :: "part_set_header \<Rightarrow> part_set" where
  "NewPartSetFromHeader header =
     \<lparr>ps_total = psh_Total header, ps_hash = psh_Hash header,
      ps_parts = replicate (psh_Total header) None,
      ps_partsBitArray = NewBitArray (int (psh_Total header)), ps_count = 0, ps_byteSize = 0\<rparr>"

definition ps_Header :: "part_set option \<Rightarrow> part_set_header" where
  "ps_Header ps =
     (case ps of None \<Rightarrow> \<lparr>psh_Total = 0, psh_Hash = []\<rparr>
      | Some s \<Rightarrow> \<lparr>psh_Total = ps_total s, psh_Hash = ps_hash s\<rparr>)"

definition ps_HasHeader :: "part_set option \<Rightarrow> part_set_header \<Rightarrow> bool" where
  "ps_HasHeader ps header = (case ps of None \<Rightarrow> False | Some s \<Rightarrow> psh_Equals (ps_Header ps) header)"

definition ps_BitArray :: "part_set \<Rightarrow> bit_array option" where
  "ps_BitArray s = ba_Copy (ps_partsBitArray s)"

definition ps_Hash :: "(bytes \<Rightarrow> bytes) \<Rightarrow> part_set option \<Rightarrow> bytes" where
  "ps_Hash H ps = (case ps of None \<Rightarrow> HashFromByteSlices H [] | Some s \<Rightarrow> ps_hash s)"

definition ps_HashesTo :: "part_set option \<Rightarrow> bytes \<Rightarrow> bool" where
  "ps_HashesTo ps h = (case ps of None \<Rightarrow> False | Some s \<Rightarrow> ps_hash s = h)"

definition ps_Count :: "part_set option \<Rightarrow> nat" where
  "ps_Count ps = (case ps of None \<Rightarrow> 0 | Some s \<Rightarrow> ps_count s)"

definition ps_ByteSize :: "part_set option \<Rightarrow> int" where
  "ps_ByteSize ps = (case ps of None \<Rightarrow> 0 | Some s \<Rightarrow> ps_byteSize s)"

definition ps_Total :: "part_set option \<Rightarrow> nat" where
  "ps_Total ps = (case ps of None \<Rightarrow> 0 | Some s \<Rightarrow> ps_total s)"

definition AddPart ::
  "(bytes \<Rightarrow> bytes) \<Rightarrow> part_set option \<Rightarrow> part
     \<Rightarrow> (part_set option \<times> bool \<times> part_set_error option) option" where
  "AddPart H ps p =
     (case ps of
        None \<Rightarrow> Some (None, False, None)
      | Some s \<Rightarrow>
          (if p_Index p \<ge> ps_total s then Some (Some s, False, Some ErrPartSetUnexpectedIndex)
           else do {
             old \<leftarrow> go_index (ps_parts s) (int (p_Index p));
             if old \<noteq> None then Some (Some s, False, None)
             else if mp_Verify H (p_Proof p) (ps_Hash H (Some s)) (p_Bytes p) \<noteq> None
             then Some (Some s, False, Some ErrPartSetInvalidProof)
             else do {
               (ba, ok) \<leftarrow> ba_SetIndex (ps_partsBitArray s) (int (p_Index p)) True;
               Some (Some (s\<lparr>ps_parts := (ps_parts s)[p_Index p := Some p],
                            ps_partsBitArray := ba,
                            ps_count := (ps_count s + 1) mod 2 ^ 32,
                            ps_byteSize := i64 (ps_byteSize s + int (length (p_Bytes p)))\<rparr>),
                     True, None)
             }
           }))"

definition GetPart :: "part_set \<Rightarrow> int \<Rightarrow> part option option" where
  "GetPart s index = go_index (ps_parts s) index"

definition ps_IsComplete :: "part_set \<Rightarrow> bool" where
  "ps_IsComplete s \<longleftrightarrow> ps_count s = ps_total s"

subsection \<open>Reading a complete set\<close>

record part_set_reader =
  psr_i :: nat
  psr_parts :: "part option list"
  psr_rest :: bytes

definition part_bytes :: "part option list \<Rightarrow> nat \<Rightarrow> bytes option" where
  "part_bytes parts i = do { op \<leftarrow> go_index parts (int i); p \<leftarrow> op; Some (p_Bytes p) }"

definition NewPartSetReader :: "part option list \<Rightarrow> part_set_reader option" where
  "NewPartSetReader parts =
     map_option (\<lambda>b. \<lparr>psr_i = 0, psr_parts = parts, psr_rest = b\<rparr>) (part_bytes parts 0)"

definition GetReader :: "part_set \<Rightarrow> part_set_reader option" where
  "GetReader s = (if \<not> ps_IsComplete s then None else NewPartSetReader (ps_parts s))"

text \<open>
  \<open>Read\<close> into a buffer of \<open>n\<close> bytes: the bytes read, whether the error is \<open>io.EOF\<close>, and the reader
  after. \<open>bytes.Reader.Read\<close> returns \<open>io.EOF\<close> only when nothing is left. The inner call of the second
  branch reads exactly what is left of the current part, so it takes the first branch.
\<close>

definition bytes_Reader_Read :: "bytes \<Rightarrow> nat \<Rightarrow> bytes \<times> bool \<times> bytes" where
  "bytes_Reader_Read rest n = (if rest = [] then ([], True, []) else (take n rest, False, drop n rest))"

function psr_Read :: "part_set_reader \<Rightarrow> nat \<Rightarrow> (bytes \<times> bool \<times> part_set_reader) option" where
  "psr_Read r n =
     (let readerLen = length (psr_rest r) in
      if readerLen \<ge> n then
        (let (out, eof, rest) = bytes_Reader_Read (psr_rest r) n in Some (out, eof, r\<lparr>psr_rest := rest\<rparr>))
      else if readerLen > 0 then
        (let (out1, eof1, rest) = bytes_Reader_Read (psr_rest r) readerLen in
         do {
           (out2, eof2, r') \<leftarrow> psr_Read (r\<lparr>psr_rest := rest\<rparr>) (n - readerLen);
           Some (out1 @ out2, eof2, r')
         })
      else
        (let i' = psr_i r + 1 in
         if i' \<ge> length (psr_parts r) then Some ([], True, r\<lparr>psr_i := i'\<rparr>)
         else do {
           b \<leftarrow> part_bytes (psr_parts r) i';
           psr_Read (r\<lparr>psr_i := i', psr_rest := b\<rparr>) n
         }))"
  by pat_completeness auto
termination
  by (relation "measures [\<lambda>(r, n). length (psr_parts r) - psr_i r, \<lambda>(r, n). n]")
    (auto simp: bytes_Reader_Read_def split: if_splits)

declare psr_Read.simps [simp del]

section \<open>The invariant of a part set\<close>

definition part_ok :: "(bytes \<Rightarrow> bytes) \<Rightarrow> part_set \<Rightarrow> nat \<Rightarrow> bool" where
  "part_ok H s i \<longleftrightarrow>
     (case ps_parts s ! i of
        None \<Rightarrow> True
      | Some p \<Rightarrow> p_Index p = i \<and> mp_Verify H (p_Proof p) (ps_hash s) (p_Bytes p) = None)"

definition ps_bits_ok :: "part_set \<Rightarrow> bool" where
  "ps_bits_ok s \<longleftrightarrow> ba_inv (ps_partsBitArray s) \<and> ba_Size (ps_partsBitArray s) = int (ps_total s)
     \<and> (\<forall>i < ps_total s. ba_GetIndex (ps_partsBitArray s) (int i) = Some (ps_parts s ! i \<noteq> None))"

definition ps_wf :: "(bytes \<Rightarrow> bytes) \<Rightarrow> part_set \<Rightarrow> bool" where
  "ps_wf H s \<longleftrightarrow> length (ps_parts s) = ps_total s \<and> ps_total s < 2 ^ 32 \<and> ps_bits_ok s
     \<and> ps_count s = length (filter (\<lambda>p. p \<noteq> None) (ps_parts s))
     \<and> (\<forall>i < ps_total s. part_ok H s i)"

lemma ps_bits_tracks:
  "length (ps_parts s) = ps_total s \<Longrightarrow> ps_bits_ok s \<longleftrightarrow> ba.tracks (ps_partsBitArray s) (ps_parts s)"
  by (simp add: ps_bits_ok_def ba.tracks_def)

lemma count_update:
  assumes "i < length xs" "xs ! i = None"
  shows "length (filter (\<lambda>p. p \<noteq> None) (xs[i := Some v])) = Suc (length (filter (\<lambda>p. p \<noteq> None) xs))"
proof -
  have split: "xs = take i xs @ None # drop (Suc i) xs"
    using assms by (metis id_take_nth_drop)
  then have "xs[i := Some v] = take i xs @ Some v # drop (Suc i) xs"
    using assms by (metis upd_conv_take_nth_drop)
  moreover have "filter (\<lambda>p. p \<noteq> None) xs
      = filter (\<lambda>p. p \<noteq> None) (take i xs) @ filter (\<lambda>p. p \<noteq> None) (drop (Suc i) xs)"
    by (subst split) simp
  ultimately show ?thesis by simp
qed

lemma count_lt: "i < length xs \<Longrightarrow> xs ! i = None \<Longrightarrow> length (filter (\<lambda>p. p \<noteq> None) xs) < length xs"
  by (rule length_filter_less [of None]) (auto dest: nth_mem)

lemma AddPart_cases:
  assumes wf: "ps_wf H s"
  obtains
    (index) "ps_total s \<le> p_Index p" "AddPart H (Some s) p = Some (Some s, False, Some ErrPartSetUnexpectedIndex)"
  | (present) "p_Index p < ps_total s" "ps_parts s ! p_Index p \<noteq> None"
      "AddPart H (Some s) p = Some (Some s, False, None)"
  | (bad_proof) "p_Index p < ps_total s" "ps_parts s ! p_Index p = None"
      "mp_Verify H (p_Proof p) (ps_hash s) (p_Bytes p) \<noteq> None"
      "AddPart H (Some s) p = Some (Some s, False, Some ErrPartSetInvalidProof)"
  | (added) s' where "p_Index p < ps_total s" "ps_parts s ! p_Index p = None"
      "mp_Verify H (p_Proof p) (ps_hash s) (p_Bytes p) = None"
      "AddPart H (Some s) p = Some (Some s', True, None)" "ps_wf H s'"
      "ps_parts s' = (ps_parts s)[p_Index p := Some p]" "ps_total s' = ps_total s" "ps_hash s' = ps_hash s"
      "ps_count s' = ps_count s + 1"
proof -
  have len: "length (ps_parts s) = ps_total s" and bits: "ps_bits_ok s"
    using wf by (auto simp: ps_wf_def)
  show thesis
  proof (cases "ps_total s \<le> p_Index p")
    case True
    then show thesis by (rule index) (simp add: AddPart_def True)
  next
    case i: False
    then have old: "go_index (ps_parts s) (int (p_Index p)) = Some (ps_parts s ! p_Index p)"
      using len by (simp add: go_index_Some_iff)
    consider "ps_parts s ! p_Index p \<noteq> None"
      | "ps_parts s ! p_Index p = None" "mp_Verify H (p_Proof p) (ps_hash s) (p_Bytes p) \<noteq> None"
      | "ps_parts s ! p_Index p = None" "mp_Verify H (p_Proof p) (ps_hash s) (p_Bytes p) = None"
      by blast
    then show thesis
    proof cases
      case 1
      with i old show thesis by (intro present) (auto simp: AddPart_def)
    next
      case 2
      with i old show thesis by (intro bad_proof) (auto simp: AddPart_def ps_Hash_def)
    next
      case 3
      obtain b where b: "ba_SetIndex (ps_partsBitArray s) (int (p_Index p)) True = Some (b, True)"
          "ba.tracks b ((ps_parts s)[p_Index p := Some p])"
        using ba.tracks_set [of "ps_partsBitArray s" "ps_parts s" "p_Index p" p] bits len i
        by (auto simp: ps_bits_tracks)
      have cnt: "(ps_count s + 1) mod 2 ^ 32 = ps_count s + 1"
        using wf count_lt [of "p_Index p" "ps_parts s"] 3(1) i len by (auto simp: ps_wf_def)
      let ?s' = "s\<lparr>ps_parts := (ps_parts s)[p_Index p := Some p], ps_partsBitArray := b,
        ps_count := ps_count s + 1, ps_byteSize := i64 (ps_byteSize s + int (length (p_Bytes p)))\<rparr>"
      have "ps_bits_ok ?s'"
        using b(2) len by (subst ps_bits_tracks) auto
      moreover have "part_ok H ?s' j" if "j < ps_total s" for j
        using wf that 3(2) i len
        by (auto simp: ps_wf_def part_ok_def nth_list_update split: option.splits)
      ultimately have "ps_wf H ?s'"
        using wf 3(1) i len count_update [of "p_Index p" "ps_parts s" p] by (simp add: ps_wf_def)
      with 3 i old b(1) cnt show thesis
        by (intro added [of ?s']) (auto simp: AddPart_def ps_Hash_def)
    qed
  qed
qed

lemma ps_wf_from_header: "psh_Total h < 2 ^ 32 \<Longrightarrow> ps_wf H (NewPartSetFromHeader h)"
proof -
  have "ps_bits_ok (NewPartSetFromHeader h)"
    by (subst ps_bits_tracks) (simp_all add: NewPartSetFromHeader_def ba.tracks_new)
  then show "psh_Total h < 2 ^ 32 \<Longrightarrow> ?thesis"
    by (simp add: ps_wf_def NewPartSetFromHeader_def part_ok_def)
qed

lemma complete_all_parts:
  assumes "ps_wf H s"
  shows "ps_IsComplete s \<longleftrightarrow> (\<forall>i < ps_total s. ps_parts s ! i \<noteq> None)"
proof
  assume "ps_IsComplete s"
  then show "\<forall>i < ps_total s. ps_parts s ! i \<noteq> None"
    using assms count_lt [of _ "ps_parts s"] by (fastforce simp: ps_wf_def ps_IsComplete_def)
next
  assume "\<forall>i < ps_total s. ps_parts s ! i \<noteq> None"
  then have "filter (\<lambda>p. p \<noteq> None) (ps_parts s) = ps_parts s"
    using assms by (auto simp: ps_wf_def filter_id_conv in_set_conv_nth)
  then show "ps_IsComplete s" using assms by (simp add: ps_wf_def ps_IsComplete_def)
qed

section \<open>Splitting and reading back\<close>

lemma split_data_ok:
  assumes "0 < k" "length data + k \<le> 2 ^ 32" "i * k \<le> length data"
    and "n = (length data - i * k + k - 1) div k"
  shows "\<exists>bs. split_data data k i n = Some bs \<and> concat bs = drop (i * k) data \<and> length bs = n"
  using assms(3,4)
proof (induction n arbitrary: i)
  case 0
  then have "length data - i * k = 0"
    using assms(1) by (cases "length data - i * k") (auto simp: div_eq_0_iff)
  then show ?case by simp
next
  case (Suc n)
  then have lt: "i * k < length data"
    using assms(1) by (cases "length data - i * k") auto
  have b: "i * k mod 2 ^ 32 = i * k" "(i + 1) * k mod 2 ^ 32 = (i + 1) * k"
    using lt assms(1,2) by auto
  let ?hi = "min (length data) ((i + 1) * k)"
  have slice: "go_slice data (i * k) ?hi = Some (take (?hi - i * k) (drop (i * k) data))"
    using lt by (auto simp: go_slice_def)
  show ?case
  proof (cases "(i + 1) * k \<le> length data")
    case True
    define x where "x = length data - Suc i * k + k - 1"
    have "length data - i * k + k - 1 = x + k"
      using True assms(1) by (simp add: x_def algebra_simps)
    then have "Suc n = (x + k) div k"
      using Suc.prems(2) by (simp only:)
    then have "Suc n = Suc (x div k)"
      using assms(1) by (simp only: div_add_self2)
    then have "n = (length data - Suc i * k + k - 1) div k"
      by (simp add: x_def)
    with Suc.IH [of "Suc i"] True obtain bs where bs: "split_data data k (Suc i) n = Some bs"
        "concat bs = drop (Suc i * k) data" "length bs = n"
      by auto
    have "take k (drop (i * k) data) @ drop (Suc i * k) data = drop (i * k) data"
      by (metis add.commute append_take_drop_id drop_drop mult_Suc)
    with bs b slice True show ?thesis by (simp add: min_def)
  next
    case False
    have "n = 0"
    proof -
      have "length data - i * k + k - 1 < 2 * k" using False lt by auto
      then have "(length data - i * k + k - 1) div k < 2"
        using assms(1) by (simp add: div_less_iff_less_mult)
      with Suc.prems(2) show ?thesis by simp
    qed
    with b slice False lt show ?thesis by (simp add: min_def)
  qed
qed

lemma set_all_bits_ok:
  assumes "ba.tracks b (map Some [0..<i] @ replicate n None)"
  shows "\<exists>b'. set_all_bits i n b = Some b' \<and> ba.tracks b' (map Some [0..<i + n])"
  using assms
proof (induction n arbitrary: i b)
  case (Suc n)
  have upd: "(map Some [0..<i] @ replicate (Suc n) None)[i := Some i]
      = map Some [0..<Suc i] @ replicate n None"
    by (simp add: list_update_append)
  obtain b1 where b1: "ba_SetIndex b (int i) True = Some (b1, True)"
      "ba.tracks b1 (map Some [0..<Suc i] @ replicate n None)"
    using ba.tracks_set [OF Suc.prems, of i i] unfolding upd by auto
  with Suc.IH [OF b1(2)] show ?case by auto
qed auto

text \<open>A set made from data: its parts are the slices of the data, and the set is full.\<close>

lemma NewPartSetFromData_ok:
  assumes k: "0 < k" "length data + k \<le> 2 ^ 32"
  shows "\<exists>s bs proofs. NewPartSetFromData H data k = Some s \<and> ps_wf H s \<and> ps_IsComplete s
    \<and> concat bs = data \<and> ps_total s = length bs \<and> ps_hash s = HashFromByteSlices H bs
    \<and> ProofsFromByteSlices H bs = Some (ps_hash s, proofs)
    \<and> ps_parts s = map (\<lambda>i. Some \<lparr>p_Index = i, p_Bytes = bs ! i, p_Proof = proofs ! i\<rparr>) [0..<length bs]"
proof -
  let ?n = "(length data + k - 1) div k"
  have n: "((length data + k + (2 ^ 32 - 1)) mod 2 ^ 32) div k = ?n"
  proof -
    have "length data + k + (2 ^ 32 - 1) = (length data + k - 1) + 2 ^ 32" using k(1) by simp
    also have "\<dots> mod 2 ^ 32 = length data + k - 1"
      using k unfolding mod_add_self2 by (intro mod_less) linarith
    finally show ?thesis by (simp only:)
  qed
  have small: "?n < 2 ^ 32"
    using k div_le_dividend [of "length data + k - 1" k] by linarith
  obtain bs where bs: "split_data data k 0 ?n = Some bs" "concat bs = data" "length bs = ?n"
    using split_data_ok [OF k, of 0 ?n] by auto
  obtain ba where ba: "set_all_bits 0 ?n (NewBitArray (int ?n)) = Some ba"
      "ba.tracks ba (map Some [0..<?n])"
    using set_all_bits_ok [of "NewBitArray (int ?n)" 0 ?n] ba.tracks_new [where n = ?n and 'a = nat] by auto
  obtain proofs where pf: "ProofsFromByteSlices H bs = Some (HashFromByteSlices H bs, proofs)"
      "\<forall>i < length bs. mp_Total (proofs ! i) = int (length bs) \<and> mp_Index (proofs ! i) = int i
          \<and> mp_LeafHash (proofs ! i) = Some (leafHash H (bs ! i))
          \<and> ComputeRootHash H (proofs ! i) = Some (HashFromByteSlices H bs)"
    using ProofsFromByteSlices_ok by blast
  let ?s = "\<lparr>ps_total = ?n, ps_hash = HashFromByteSlices H bs,
     ps_parts = map (\<lambda>i. Some \<lparr>p_Index = i, p_Bytes = bs ! i, p_Proof = proofs ! i\<rparr>) [0..<?n],
     ps_partsBitArray = ba, ps_count = ?n, ps_byteSize = int (length data)\<rparr>"
  have "NewPartSetFromData H data k = Some ?s"
    unfolding NewPartSetFromData_def n using k(1) bs(1) ba(1) pf(1) by (simp add: Let_def)
  moreover have "ps_bits_ok ?s"
    using ba(2) by (auto simp: ps_bits_ok_def ba.tracks_def)
  moreover have "filter (\<lambda>p. p \<noteq> None) (ps_parts ?s) = ps_parts ?s"
    by (auto simp: filter_id_conv)
  moreover have "part_ok H ?s i" if "i < ?n" for i
    using that pf(2) bs(3) by (simp add: part_ok_def mp_Verify_def)
  ultimately show ?thesis
    using bs(2,3) pf(1) small
    by (intro exI [of _ ?s] exI [of _ bs] exI [of _ proofs]) (simp add: ps_wf_def ps_IsComplete_def)
qed

subsection \<open>The reader\<close>

definition psr_contents :: "part_set_reader \<Rightarrow> bytes" where
  "psr_contents r = psr_rest r @ concat (map (\<lambda>p. p_Bytes (the p)) (drop (psr_i r + 1) (psr_parts r)))"

lemma psr_Read_eq:
  assumes "\<forall>p \<in> set (psr_parts r). p \<noteq> None" "0 < n"
  shows "\<exists>eof r'. psr_Read r n = Some (take n (psr_contents r), eof, r')
    \<and> psr_contents r' = drop n (psr_contents r) \<and> psr_parts r' = psr_parts r"
  using assms
proof (induction r n rule: psr_Read.induct)
  case (1 r n)
  let ?rest = "psr_rest r" and ?i = "psr_i r + 1"
  consider "n \<le> length ?rest" | "0 < length ?rest" "length ?rest < n"
    | "?rest = []" "length (psr_parts r) \<le> ?i" | "?rest = []" "?i < length (psr_parts r)"
    by fastforce
  then show ?case
  proof cases
    case 1
    then show ?thesis
      using "1.prems" by (auto simp: psr_Read.simps [of r n] bytes_Reader_Read_def psr_contents_def)
  next
    case 2
    then have rd: "bytes_Reader_Read ?rest (length ?rest) = (?rest, False, [])"
      by (auto simp: bytes_Reader_Read_def)
    obtain eof r' where "psr_Read (r\<lparr>psr_rest := []\<rparr>) (n - length ?rest)
        = Some (take (n - length ?rest) (psr_contents (r\<lparr>psr_rest := []\<rparr>)), eof, r')"
        "psr_contents r' = drop (n - length ?rest) (psr_contents (r\<lparr>psr_rest := []\<rparr>))"
        "psr_parts r' = psr_parts r"
      using "1.IH"(1) [OF refl _ 2(1) refl rd [symmetric] refl] 2 "1.prems" by auto
    with rd show ?thesis
      using 2 by (auto simp: psr_Read.simps [of r n] psr_contents_def)
  next
    case 3
    then show ?thesis
      using "1.prems" by (auto simp: psr_Read.simps [of r n] psr_contents_def)
  next
    case 4
    have nn: "psr_parts r ! ?i \<noteq> None" using "1.prems"(1) 4(2) nth_mem by blast
    then obtain p where p: "psr_parts r ! ?i = Some p" by auto
    let ?r = "r\<lparr>psr_i := ?i, psr_rest := p_Bytes p\<rparr>"
    have b: "part_bytes (psr_parts r) ?i = Some (p_Bytes p)"
      using p 4(2) unfolding part_bytes_def go_index_def by (simp del: of_nat_add of_nat_Suc)
    have "psr_contents ?r = psr_contents r"
      using p 4 by (simp add: psr_contents_def Cons_nth_drop_Suc [symmetric, of "Suc (psr_i r)"])
    moreover obtain eof r' where "psr_Read ?r n = Some (take n (psr_contents ?r), eof, r')"
        "psr_contents r' = drop n (psr_contents ?r)" "psr_parts r' = psr_parts r"
      using "1.IH"(2) [OF refl _ _ refl, of "p_Bytes p"] 4 b "1.prems" by auto
    ultimately show ?thesis
      using 4 b "1.prems" by (auto simp: psr_Read.simps [of r n])
  qed
qed

lemma GetReader_contents:
  assumes "ps_wf H s" "ps_IsComplete s" "0 < ps_total s"
  shows "\<exists>r. GetReader s = Some r \<and> psr_parts r = ps_parts s
    \<and> psr_contents r = concat (map (\<lambda>p. p_Bytes (the p)) (ps_parts s))"
proof -
  have len: "length (ps_parts s) = ps_total s" using assms(1) by (simp add: ps_wf_def)
  obtain p where p: "ps_parts s ! 0 = Some p"
    using complete_all_parts [OF assms(1)] assms(2,3) by auto
  then have "part_bytes (ps_parts s) 0 = Some (p_Bytes p)"
    using len assms(3) by (simp add: part_bytes_def go_index_def)
  moreover have "ps_parts s = Some p # drop 1 (ps_parts s)"
    using p len assms(3) by (cases "ps_parts s") auto
  ultimately show ?thesis
    using assms(2) by (auto simp: GetReader_def NewPartSetReader_def psr_contents_def)
      (metis concat.simps(2) list.simps(9) option.sel)
qed

text \<open>
  Splitting a block into parts and reading the parts back returns the block, for every part size
  and every length for which \<open>uint32\<close> does not wrap, and one \<open>Read\<close> with a large enough buffer returns
  everything.
\<close>

lemma part_set_reads:
  assumes "0 < partSize" "length data + partSize \<le> 2 ^ 32" "data \<noteq> []" "length data \<le> n"
  shows "\<exists>s r eof r'. NewPartSetFromData H data partSize = Some s \<and> ps_IsComplete s
    \<and> GetReader s = Some r \<and> psr_Read r n = Some (data, eof, r')"
proof -
  obtain s bs proofs where s: "NewPartSetFromData H data partSize = Some s" "ps_wf H s" "ps_IsComplete s"
      "concat bs = data" "ps_total s = length bs"
      "ps_parts s = map (\<lambda>i. Some \<lparr>p_Index = i, p_Bytes = bs ! i, p_Proof = proofs ! i\<rparr>) [0..<length bs]"
    using NewPartSetFromData_ok [OF assms(1,2)] by blast
  have "map (\<lambda>p. p_Bytes (the p)) (ps_parts s) = bs"
    unfolding s(6) by (rule nth_equalityI) auto
  moreover have "0 < ps_total s" using s(4,5) assms(3) by (cases bs) auto
  ultimately obtain r where r: "GetReader s = Some r" "psr_parts r = ps_parts s" "psr_contents r = data"
    using GetReader_contents [OF s(2,3)] s(4) by auto
  have "0 < n" using assms(3,4) by (cases data) auto
  then obtain eof r' where "psr_Read r n = Some (data, eof, r')"
    using psr_Read_eq [of r n] r(2,3) s(6) assms(4) by auto
  with s(1,3) r(1) show ?thesis by blast
qed

section \<open>Properties\<close>




definition sample_set :: part_set where
  "sample_set =
     \<lparr>ps_total = 2, ps_hash = HashFromByteSlices pad_hash [[5], [6]],
      ps_parts = [Some \<lparr>p_Index = 0, p_Bytes = [5], p_Proof = sample_proof\<rparr>,
                  Some \<lparr>p_Index = 1, p_Bytes = [6],
                        p_Proof = \<lparr>mp_Total = 2, mp_Index = 1, mp_LeafHash = Some (leafHash pad_hash [6]),
                                   mp_Aunts = [leafHash pad_hash [5]]\<rparr>\<rparr>],
      ps_partsBitArray = Some \<lparr>ba_bits = 2, ba_elems = [3]\<rparr>, ps_count = 2, ps_byteSize = 2\<rparr>"


text \<open>
  The acceptance of a part depends on its index only through the slot being free: a part with a valid
  proof for another position is accepted at whatever free index it claims.
\<close>

lemma add_part_ignores_proof_index:
  assumes "ps_wf H s" "mp_Verify H (p_Proof p) (ps_hash s) (p_Bytes p) = None"
    and "j < ps_total s" "ps_parts s ! j = None"
  shows "\<exists>s'. AddPart H (Some s) (p\<lparr>p_Index := j\<rparr>) = Some (Some s', True, None)
    \<and> ps_parts s' ! j = Some (p\<lparr>p_Index := j\<rparr>)"
  using assms(1) by (rule AddPart_cases [where p = "p\<lparr>p_Index := j\<rparr>"])
    (use assms in \<open>auto simp: ps_wf_def\<close>)

end
