(* ===== verification/Block.thy ===== *)
theory Block
  imports Evidence Shares PartSet
begin

text \<open>
  Blocks: \<open>types/block.go\<close> (block data, blocks, their hashes, sizes, validation and protobuf forms),
  \<open>types/block_meta.go\<close>, \<open>types/tx.go\<close> and the reconstruction of data from a square in
  \<open>types/share_merging.go\<close>, with the encodings of \<open>proto/tendermint/types/block.pb.go\<close> and \<open>types.pb.go\<close>.

  The record \<open>libs\<close> collects the code outside the model: hashes, keys and signatures (\<open>env\<close>,
  \<open>batch_env\<close>), the wrapper messages of the protobuf library, the sort of the messages (\<open>sort.Slice\<close>
  is not stable), the extended data square and the generated decoders.

  The hashes that data, evidence and commits cache are recomputed here. \<open>Messages.SplitIntoShares\<close> sorts
  the messages of the block in place; the model leaves the block as it was.
\<close>

section \<open>Results that may panic or fail\<close>

text \<open>A call whose error is returned at once, as in \<open>if err != nil { return err }\<close>.\<close>

definition attempt :: "('e + 'a) option \<Rightarrow> ('a \<Rightarrow> ('e + 'b) option) \<Rightarrow> ('e + 'b) option" where
  "attempt r f = (case r of None \<Rightarrow> None | Some (Inl e) \<Rightarrow> Some (Inl e) | Some (Inr x) \<Rightarrow> f x)"

definition wrap_error :: "('e \<Rightarrow> 'f) \<Rightarrow> 'e + 'a \<Rightarrow> 'f + 'a" where
  "wrap_error g r = (case r of Inl e \<Rightarrow> Inl (g e) | Inr x \<Rightarrow> Inr x)"

lemma attempt_simps [simp]:
  "attempt None f = None" "attempt (Some (Inl e)) f = Some (Inl e)" "attempt (Some (Inr x)) f = f x"
  by (simp_all add: attempt_def)

lemma attempt_InrE:
  assumes "attempt r f = Some (Inr y)"
  obtains x where "r = Some (Inr x)" "f x = Some (Inr y)"
  using assms by (auto simp: attempt_def split: option.splits sum.splits)

lemma wrap_error_simps [simp]: "wrap_error g (Inl e) = Inl (g e)" "wrap_error g (Inr x) = Inr x"
  by (simp_all add: wrap_error_def)

lemma wrap_error_Inr [simp]: "wrap_error g r = Inr x \<longleftrightarrow> r = Inr x"
  by (cases r) auto

fun attempt_all :: "('a \<Rightarrow> ('e + 'b) option) \<Rightarrow> 'a list \<Rightarrow> ('e + 'b list) option" where
  "attempt_all f [] = Some (Inr [])"
| "attempt_all f (x # xs) = attempt (f x) (\<lambda>y. attempt (attempt_all f xs) (\<lambda>ys. Some (Inr (y # ys))))"

section \<open>Protobuf forms\<close>

text \<open>A message is the same pair of byte slices in both forms.\<close>

record pb_data =
  pbd_Txs :: "bytes list"
  pbd_IntermediateStateRoots :: "bytes list"
  pbd_Evidence :: "pb_evidence list"
  pbd_Messages :: "message list"

record pb_block =
  pbb_Header :: pb_header
  pbb_Data :: pb_data
  pbb_LastCommit :: "pb_commit option"

definition pbm_Marshal :: "message \<Rightarrow> bytes" where
  "pbm_Marshal m = bytes_field 0x0a (msg_NamespaceID m) @ bytes_field 0x12 (msg_Data m)"

definition pbd_Marshal :: "(int \<Rightarrow> bytes) \<Rightarrow> pb_data \<Rightarrow> bytes" where
  "pbd_Marshal stdTime m =
     rep_message_field 0x0a (pbd_Txs m)
     @ message_field 0x12 (rep_message_field 0x0a (pbd_IntermediateStateRoots m))
     @ message_field 0x1a (rep_message_field 0x0a (map (pbev_Marshal stdTime) (pbd_Evidence m)))
     @ message_field 0x22 (rep_message_field 0x0a (map pbm_Marshal (pbd_Messages m)))"

definition pbb_Marshal :: "(int \<Rightarrow> bytes) \<Rightarrow> pb_block \<Rightarrow> bytes" where
  "pbb_Marshal stdTime m =
     message_field 0x0a (pbh_Marshal stdTime (pbb_Header m))
     @ message_field 0x12 (pbd_Marshal stdTime (pbb_Data m))
     @ opt_message_field 0x22 (map_option (pbc_Marshal stdTime) (pbb_LastCommit m))"

definition block_times :: "pb_block \<Rightarrow> int list" where
  "block_times m =
     pbh_Time (pbb_Header m) # concat (map evidence_times (pbd_Evidence (pbb_Data m)))
     @ (case pbb_LastCommit m of None \<Rightarrow> [] | Some c \<Rightarrow> map pbcs_Timestamp (pbc_Signatures c))"

record libs =
  lib_env :: env
  lib_wrappers :: wrappers
  lib_keys :: batch_env
  lib_sortMsgs :: "message list \<Rightarrow> message list"
  lib_eds :: "nat \<Rightarrow> bytes list \<Rightarrow> da_header option"
  lib_UnmarshalEvidence :: "bytes \<Rightarrow> pb_evidence option"
  lib_UnmarshalBlock :: "bytes \<Rightarrow> pb_block option"

section \<open>Data\<close>

record data =
  dt_Txs :: "bytes list"
  dt_IntermediateStateRoots :: "bytes list"
  dt_Evidence :: "evidence list"
  dt_Messages :: "message list"

definition ev_MarshalDelimited :: "libs \<Rightarrow> evidence \<Rightarrow> bytes option" where
  "ev_MarshalDelimited L ev =
     (case EvidenceToProto (lib_keys L) ev of
        Inl _ \<Rightarrow> None
      | Inr pev \<Rightarrow>
          (if list_all time_in_range (evidence_times pev)
           then Some (tx_MarshalDelimited (pbev_Marshal (env_StdTime (lib_env L)) pev)) else None))"

definition Evidence_SplitIntoShares :: "libs \<Rightarrow> evidence list \<Rightarrow> namespaced_share list option" where
  "Evidence_SplitIntoShares L evs =
     do { rawDatas \<leftarrow> map_all (ev_MarshalDelimited L) evs; splitContiguous EvidenceNamespaceID rawDatas }"

definition ComputeShares :: "libs \<Rightarrow> data \<Rightarrow> (namespaced_share list \<times> nat) option" where
  "ComputeShares L d =
     do {
       txShares \<leftarrow> Txs_SplitIntoShares (dt_Txs d);
       intermRootsShares \<leftarrow> Roots_SplitIntoShares (dt_IntermediateStateRoots d);
       evidenceShares \<leftarrow> Evidence_SplitIntoShares L (dt_Evidence d);
       msgShares \<leftarrow> Msgs_SplitIntoShares (lib_sortMsgs L) (dt_Messages d);
       pad_square (txShares @ intermRootsShares @ evidenceShares @ msgShares)
     }"

definition Data_Hash :: "libs \<Rightarrow> data \<Rightarrow> bytes option" where
  "Data_Hash L d =
     do {
       (shares, _) \<leftarrow> ComputeShares L d;
       dah \<leftarrow> ExtendShares (lib_eds L) (floor_sqrt (length shares)) (RawShares shares);
       dah_Hash (env_Sum (lib_env L)) dah
     }"

definition EvidenceData_ToProto :: "batch_env \<Rightarrow> evidence list \<Rightarrow> valproto_error + pb_evidence list" where
  "EvidenceData_ToProto B evs = convert_all (EvidenceToProto B) evs"

definition EvidenceData_FromProto :: "libs \<Rightarrow> pb_evidence list \<Rightarrow> (evidence_error + evidence list) option" where
  "EvidenceData_FromProto L pbs = attempt_all (EvidenceFromProto (lib_env L) (lib_wrappers L) (lib_keys L)) pbs"

text \<open>The size of the encoded evidence list; a list that cannot be converted panics.\<close>

definition EvidenceData_ByteSize :: "libs \<Rightarrow> evidence list \<Rightarrow> int option" where
  "EvidenceData_ByteSize L evs =
     (case EvidenceData_ToProto (lib_keys L) evs of
        Inl _ \<Rightarrow> None
      | Inr pbs \<Rightarrow> Some (int (length (rep_message_field 0x0a (map (pbev_Marshal (env_StdTime (lib_env L))) pbs)))))"

text \<open>The messages are not copied.\<close>

definition Data_ToProto :: "batch_env \<Rightarrow> data \<Rightarrow> pb_data option" where
  "Data_ToProto B d =
     (case EvidenceData_ToProto B (dt_Evidence d) of
        Inl _ \<Rightarrow> None
      | Inr pevd \<Rightarrow>
          Some \<lparr>pbd_Txs = dt_Txs d, pbd_IntermediateStateRoots = dt_IntermediateStateRoots d,
                pbd_Evidence = pevd, pbd_Messages = []\<rparr>)"

definition DataFromProto :: "libs \<Rightarrow> pb_data \<Rightarrow> (evidence_error + data) option" where
  "DataFromProto L dp =
     attempt (EvidenceData_FromProto L (pbd_Evidence dp)) (\<lambda>evs.
       Some (Inr \<lparr>dt_Txs = pbd_Txs dp, dt_IntermediateStateRoots = pbd_IntermediateStateRoots dp,
                  dt_Evidence = evs, dt_Messages = pbd_Messages dp\<rparr>))"

text \<open>The size of the transactions as the only content of a data message.\<close>

definition ComputeProtoSizeForTxs :: "bytes list \<Rightarrow> int" where
  "ComputeProtoSizeForTxs txs =
     int (length (pbd_Marshal (\<lambda>_. [])
       \<lparr>pbd_Txs = txs, pbd_IntermediateStateRoots = [], pbd_Evidence = [], pbd_Messages = []\<rparr>))"

section \<open>Data from a square\<close>

datatype square_error = ErrSquareShares share_error | ErrSquareUnmarshal | ErrSquareEvidence evidence_error

definition decode_evidence :: "libs \<Rightarrow> bytes \<Rightarrow> (square_error + evidence) option" where
  "decode_evidence L raw =
     (case lib_UnmarshalEvidence L raw of
        None \<Rightarrow> Some (Inl ErrSquareUnmarshal)
      | Some protoEvd \<Rightarrow>
          map_option (wrap_error ErrSquareEvidence)
            (EvidenceFromProto (lib_env L) (lib_wrappers L) (lib_keys L) protoEvd))"

definition parseEvd :: "libs \<Rightarrow> bytes list \<Rightarrow> (square_error + evidence list) option" where
  "parseEvd L shares =
     attempt (map_option (wrap_error ErrSquareShares) (processContiguousShares shares))
       (attempt_all (decode_evidence L))"

text \<open>The shares of the original square, row by row; a row that is too short panics.\<close>

definition original_shares :: "bytes list list \<Rightarrow> bytes list option" where
  "original_shares rows =
     (let originalWidth = length rows div 2; rs = take originalWidth rows in
      if list_all (\<lambda>row. originalWidth \<le> length row) rs then Some (concat (map (take originalWidth) rs)) else None)"

definition is_message_share :: "bytes \<Rightarrow> bool" where
  "is_message_share share =
     (let nid = take NamespaceSize share in
      nid \<noteq> TxNamespaceID \<and> nid \<noteq> IntermediateStateRootsNamespaceID \<and> nid \<noteq> EvidenceNamespaceID
      \<and> nid \<noteq> TailPaddingNamespaceID \<and> \<not> bytes_compare nid MaxReservedNamespace < 1)"

definition shares_of :: "bytes \<Rightarrow> bytes list \<Rightarrow> bytes list" where
  "shares_of nid shares = filter (\<lambda>share. take NamespaceSize share = nid) shares"

definition DataFromSquare :: "libs \<Rightarrow> bytes list list \<Rightarrow> (square_error + data) option" where
  "DataFromSquare L rows =
     do {
       shares \<leftarrow> original_shares rows;
       if \<not> list_all (\<lambda>share. NamespaceSize \<le> length share) shares then None
       else
         attempt (map_option (wrap_error ErrSquareShares) (parseTxs (shares_of TxNamespaceID shares))) (\<lambda>txs.
         attempt (map_option (wrap_error ErrSquareShares)
                    (parseISRs (shares_of IntermediateStateRootsNamespaceID shares))) (\<lambda>isrs.
         attempt (parseEvd L (shares_of EvidenceNamespaceID shares)) (\<lambda>evd.
         attempt (map_option (wrap_error ErrSquareShares) (parseMsgShares (filter is_message_share shares))) (\<lambda>msgs.
           Some (Inr \<lparr>dt_Txs = txs, dt_IntermediateStateRoots = isrs, dt_Evidence = evd, dt_Messages = msgs\<rparr>)))))
     }"

section \<open>Blocks\<close>

record block =
  blk_Header :: header
  blk_Data :: data
  blk_LastCommit :: "commit option"

datatype block_error = ErrBlockHeader header_error | ErrNilLastCommit | ErrWrongLastCommit basic_error
  | ErrWrongLastCommitHash | ErrWrongDataHash | ErrInvalidEvidence evidence_error | ErrWrongEvidenceHash

text \<open>The loop over the evidence stops at the first piece that is not valid.\<close>

fun first_bad :: "('a \<Rightarrow> 'e option option) \<Rightarrow> 'a list \<Rightarrow> 'e option option" where
  "first_bad f [] = Some None"
| "first_bad f (x # xs) =
     (case f x of None \<Rightarrow> None | Some (Some e) \<Rightarrow> Some (Some e) | Some None \<Rightarrow> first_bad f xs)"

definition blk_ValidateBasic :: "libs \<Rightarrow> block \<Rightarrow> block_error option option" where
  "blk_ValidateBasic L b =
     (let h = blk_Header b; E = lib_env L; W = lib_wrappers L; B = lib_keys L in
      case hd_ValidateBasic h of
        Some e \<Rightarrow> Some (Some (ErrBlockHeader e))
      | None \<Rightarrow>
          (case blk_LastCommit b of
             None \<Rightarrow> Some (Some ErrNilLastCommit)
           | Some c \<Rightarrow>
               (case c_ValidateBasic c of
                  Some e \<Rightarrow> Some (Some (ErrWrongLastCommit e))
                | None \<Rightarrow>
                    do {
                      lastCommitHash \<leftarrow> c_Hash E (Some c);
                      if lastCommitHash \<noteq> hd_LastCommitHash h then Some (Some ErrWrongLastCommitHash)
                      else do {
                        dataHash \<leftarrow> Data_Hash L (blk_Data b);
                        if dataHash \<noteq> hd_DataHash h then Some (Some ErrWrongDataHash)
                        else do {
                          err \<leftarrow> first_bad (ev_ValidateBasic E W B) (dt_Evidence (blk_Data b));
                          (case err of
                             Some e \<Rightarrow> Some (Some (ErrInvalidEvidence e))
                           | None \<Rightarrow>
                               do {
                                 evidenceHash \<leftarrow> EvidenceList_Hash E B (dt_Evidence (blk_Data b));
                                 Some (if evidenceHash \<noteq> hd_EvidenceHash h then Some ErrWrongEvidenceHash else None)
                               })
                        }
                      }
                    })))"

text \<open>A field that is nil is filled in.\<close>

definition fill_in :: "bytes \<Rightarrow> bytes option \<Rightarrow> bytes option" where
  "fill_in old new = (if old = [] then new else Some old)"

definition fillHeader :: "libs \<Rightarrow> block \<Rightarrow> block option" where
  "fillHeader L b =
     do {
       lastCommitHash \<leftarrow> fill_in (hd_LastCommitHash (blk_Header b)) (c_Hash (lib_env L) (blk_LastCommit b));
       dataHash \<leftarrow> fill_in (hd_DataHash (blk_Header b)) (Data_Hash L (blk_Data b));
       evidenceHash \<leftarrow> fill_in (hd_EvidenceHash (blk_Header b))
         (EvidenceList_Hash (lib_env L) (lib_keys L) (dt_Evidence (blk_Data b)));
       Some (b\<lparr>blk_Header := (blk_Header b)\<lparr>hd_LastCommitHash := lastCommitHash, hd_DataHash := dataHash,
                                             hd_EvidenceHash := evidenceHash\<rparr>\<rparr>)
     }"

text \<open>\<open>Hash\<close> fills in the header of the block it is called on.\<close>

definition blk_Hash :: "libs \<Rightarrow> block \<Rightarrow> (bytes \<times> block) option" where
  "blk_Hash L b =
     (case blk_LastCommit b of
        None \<Rightarrow> Some ([], b)
      | Some _ \<Rightarrow> do { b' \<leftarrow> fillHeader L b; Some (hd_Hash (lib_env L) (lib_wrappers L) (blk_Header b'), b') })"

definition blk_HashesTo :: "libs \<Rightarrow> block option \<Rightarrow> bytes \<Rightarrow> bool option" where
  "blk_HashesTo L b hash =
     (if length hash = 0 then Some False
      else case b of
        None \<Rightarrow> Some False
      | Some b \<Rightarrow> map_option (\<lambda>(h, _). h = hash) (blk_Hash L b))"

definition blk_ToProto :: "batch_env \<Rightarrow> block \<Rightarrow> pb_block option" where
  "blk_ToProto B b =
     do {
       pd \<leftarrow> Data_ToProto B (blk_Data b);
       Some \<lparr>pbb_Header = hd_ToProto (blk_Header b), pbb_Data = pd,
             pbb_LastCommit = map_option c_ToProto (blk_LastCommit b)\<rparr>
     }"

definition blk_MakePartSet :: "libs \<Rightarrow> nat \<Rightarrow> block \<Rightarrow> part_set option" where
  "blk_MakePartSet L partSize b =
     do {
       pbb \<leftarrow> blk_ToProto (lib_keys L) b;
       if list_all time_in_range (block_times pbb)
       then NewPartSetFromData (env_Sum (lib_env L)) (pbb_Marshal (env_StdTime (lib_env L)) pbb) partSize
       else None
     }"

definition blk_Size :: "libs \<Rightarrow> block \<Rightarrow> int option" where
  "blk_Size L b =
     map_option (\<lambda>pbb. int (length (pbb_Marshal (env_StdTime (lib_env L)) pbb))) (blk_ToProto (lib_keys L) b)"

datatype block_proto_error = ErrPbHeader header_error | ErrPbData evidence_error | ErrPbLastCommit basic_error
  | ErrPbBlock block_error

definition BlockFromProto :: "libs \<Rightarrow> pb_block \<Rightarrow> (block_proto_error + block) option" where
  "BlockFromProto L bp =
     attempt (Some (wrap_error ErrPbHeader (HeaderFromProto (pbb_Header bp)))) (\<lambda>h.
     attempt (map_option (wrap_error ErrPbData) (DataFromProto L (pbb_Data bp))) (\<lambda>dt.
     attempt (map_option (wrap_error ErrPbData) (EvidenceData_FromProto L (pbd_Evidence (pbb_Data bp)))) (\<lambda>evs.
     attempt (Some (wrap_error ErrPbLastCommit (convert_opt CommitFromProto (pbb_LastCommit bp)))) (\<lambda>lc.
       (let b = \<lparr>blk_Header = h, blk_Data = dt\<lparr>dt_Evidence := evs\<rparr>, blk_LastCommit = lc\<rparr> in
        map_option (\<lambda>err. case err of Some e \<Rightarrow> Inl (ErrPbBlock e) | None \<Rightarrow> Inr b) (blk_ValidateBasic L b))))))"

definition MakeBlock ::
  "libs \<Rightarrow> int \<Rightarrow> bytes list \<Rightarrow> evidence list \<Rightarrow> bytes list \<Rightarrow> message list \<Rightarrow> commit option \<Rightarrow> block option" where
  "MakeBlock L height txs evidence roots messages lastCommit =
     fillHeader L
       \<lparr>blk_Header =
          \<lparr>hd_Version = \<lparr>ver_Block = BlockProtocol, ver_App = 0\<rparr>, hd_ChainID = [], hd_Height = height,
           hd_Time = zero_time, hd_LastBlockID = zero_block_id, hd_LastCommitHash = [], hd_DataHash = [],
           hd_ValidatorsHash = [], hd_NextValidatorsHash = [], hd_ConsensusHash = [], hd_AppHash = [],
           hd_LastResultsHash = [], hd_EvidenceHash = [], hd_ProposerAddress = []\<rparr>,
        blk_Data = \<lparr>dt_Txs = txs, dt_IntermediateStateRoots = roots, dt_Evidence = evidence,
                    dt_Messages = messages\<rparr>,
        blk_LastCommit = lastCommit\<rparr>"

section \<open>Sizes\<close>

abbreviation (input) MaxHeaderBytes :: int where "MaxHeaderBytes \<equiv> 626"
abbreviation (input) MaxOverheadForBlock :: int where "MaxOverheadForBlock \<equiv> 11"
abbreviation (input) MaxCommitOverheadBytes :: int where "MaxCommitOverheadBytes \<equiv> 94"
abbreviation (input) MaxCommitSigBytes :: int where "MaxCommitSigBytes \<equiv> 109"

definition MaxCommitBytes :: "int \<Rightarrow> int" where
  "MaxCommitBytes valCount = i64 (MaxCommitOverheadBytes + (MaxCommitSigBytes + 2) * valCount)"

definition MaxDataBytes :: "int \<Rightarrow> int \<Rightarrow> int \<Rightarrow> int option" where
  "MaxDataBytes maxBytes evidenceBytes valsCount =
     (let maxDataBytes =
        i64 (maxBytes - MaxOverheadForBlock - MaxHeaderBytes - MaxCommitBytes valsCount - evidenceBytes)
      in if maxDataBytes < 0 then None else Some maxDataBytes)"

definition MaxDataBytesNoEvidence :: "int \<Rightarrow> int \<Rightarrow> int option" where
  "MaxDataBytesNoEvidence maxBytes valsCount =
     (let maxDataBytes = i64 (maxBytes - MaxOverheadForBlock - MaxHeaderBytes - MaxCommitBytes valsCount)
      in if maxDataBytes < 0 then None else Some maxDataBytes)"

section \<open>Block metadata\<close>

record block_meta =
  bm_BlockID :: block_id
  bm_BlockSize :: int
  bm_Header :: header
  bm_NumTxs :: int

record pb_block_meta =
  pbbm_BlockID :: pb_block_id
  pbbm_BlockSize :: int
  pbbm_Header :: pb_header
  pbbm_NumTxs :: int

datatype meta_error = ErrMetaBlockID basic_error | ErrMetaHeader header_error | ErrMetaHash

definition NewBlockMeta :: "libs \<Rightarrow> block \<Rightarrow> part_set option \<Rightarrow> block_meta option" where
  "NewBlockMeta L b blockParts =
     do {
       (h, b') \<leftarrow> blk_Hash L b;
       n \<leftarrow> blk_Size L b';
       Some \<lparr>bm_BlockID = \<lparr>bid_Hash = h, bid_PartSetHeader = ps_Header blockParts\<rparr>, bm_BlockSize = n,
             bm_Header = blk_Header b', bm_NumTxs = int (length (dt_Txs (blk_Data b')))\<rparr>
     }"

definition bm_ValidateBasic :: "env \<Rightarrow> wrappers \<Rightarrow> block_meta \<Rightarrow> meta_error option" where
  "bm_ValidateBasic E W bm =
     (case bid_ValidateBasic (bm_BlockID bm) of
        Some e \<Rightarrow> Some (ErrMetaBlockID e)
      | None \<Rightarrow> if bid_Hash (bm_BlockID bm) \<noteq> hd_Hash E W (bm_Header bm) then Some ErrMetaHash else None)"

definition bm_ToProto :: "block_meta \<Rightarrow> pb_block_meta" where
  "bm_ToProto bm =
     \<lparr>pbbm_BlockID = bid_ToProto (bm_BlockID bm), pbbm_BlockSize = bm_BlockSize bm,
      pbbm_Header = hd_ToProto (bm_Header bm), pbbm_NumTxs = bm_NumTxs bm\<rparr>"

definition BlockMetaFromProto :: "env \<Rightarrow> wrappers \<Rightarrow> pb_block_meta \<Rightarrow> meta_error + block_meta" where
  "BlockMetaFromProto E W pb =
     (case BlockIDFromProto (pbbm_BlockID pb) of
        Inl e \<Rightarrow> Inl (ErrMetaBlockID e)
      | Inr bi \<Rightarrow>
          (case HeaderFromProto (pbbm_Header pb) of
             Inl e \<Rightarrow> Inl (ErrMetaHeader e)
           | Inr h \<Rightarrow>
               (let bm = \<lparr>bm_BlockID = bi, bm_BlockSize = pbbm_BlockSize pb, bm_Header = h, bm_NumTxs = pbbm_NumTxs pb\<rparr>
                in case bm_ValidateBasic E W bm of Some e \<Rightarrow> Inl e | None \<Rightarrow> Inr bm)))"

section \<open>Transactions\<close>

definition tx_Hash :: "(bytes \<Rightarrow> bytes) \<Rightarrow> bytes \<Rightarrow> bytes" where
  "tx_Hash H tx = H tx"

definition Txs_Hash :: "(bytes \<Rightarrow> bytes) \<Rightarrow> bytes list \<Rightarrow> bytes" where
  "Txs_Hash H txs = HashFromByteSlices H (map (tx_Hash H) txs)"

fun index_from :: "('a \<Rightarrow> bool) \<Rightarrow> int \<Rightarrow> 'a list \<Rightarrow> int" where
  "index_from P i [] = -1"
| "index_from P i (x # xs) = (if P x then i else index_from P (i + 1) xs)"

definition Txs_Index :: "bytes list \<Rightarrow> bytes \<Rightarrow> int" where
  "Txs_Index txs tx = index_from (\<lambda>t. t = tx) 0 txs"

definition Txs_IndexByHash :: "(bytes \<Rightarrow> bytes) \<Rightarrow> bytes list \<Rightarrow> bytes \<Rightarrow> int" where
  "Txs_IndexByHash H txs hash = index_from (\<lambda>t. tx_Hash H t = hash) 0 txs"

record tx_proof =
  tp_RootHash :: bytes
  tp_Data :: bytes
  tp_Proof :: merkle_proof

record pb_tx_proof =
  pbtp_RootHash :: bytes
  pbtp_Data :: bytes
  pbtp_Proof :: "pb_proof option"

datatype tx_proof_error = ErrProofDataHash | ErrProofIndex | ErrProofTotal | ErrProofInconsistent

definition Txs_Proof :: "(bytes \<Rightarrow> bytes) \<Rightarrow> bytes list \<Rightarrow> int \<Rightarrow> tx_proof option" where
  "Txs_Proof H txs i =
     do {
       (root, proofs) \<leftarrow> ProofsFromByteSlices H (map (tx_Hash H) txs);
       tx \<leftarrow> go_index txs i;
       p \<leftarrow> go_index proofs i;
       Some \<lparr>tp_RootHash = root, tp_Data = tx, tp_Proof = p\<rparr>
     }"

definition tp_Leaf :: "(bytes \<Rightarrow> bytes) \<Rightarrow> tx_proof \<Rightarrow> bytes" where
  "tp_Leaf H tp = tx_Hash H (tp_Data tp)"

definition tp_Validate :: "(bytes \<Rightarrow> bytes) \<Rightarrow> tx_proof \<Rightarrow> bytes \<Rightarrow> tx_proof_error option" where
  "tp_Validate H tp dataHash =
     (if dataHash \<noteq> tp_RootHash tp then Some ErrProofDataHash
      else if mp_Index (tp_Proof tp) < 0 then Some ErrProofIndex
      else if mp_Total (tp_Proof tp) \<le> 0 then Some ErrProofTotal
      else if mp_Verify H (tp_Proof tp) (tp_RootHash tp) (tp_Leaf H tp) \<noteq> None then Some ErrProofInconsistent
      else None)"

definition tp_ToProto :: "tx_proof \<Rightarrow> pb_tx_proof" where
  "tp_ToProto tp =
     \<lparr>pbtp_RootHash = tp_RootHash tp, pbtp_Data = tp_Data tp, pbtp_Proof = mp_ToProto (Some (tp_Proof tp))\<rparr>"

text \<open>\<open>ProofFromProto\<close> returns a proof together with an error when the proof is not valid.\<close>

definition TxProofFromProto :: "pb_tx_proof \<Rightarrow> (proof_error + tx_proof) option" where
  "TxProofFromProto pb =
     (case ProofFromProto (pbtp_Proof pb) of
        (_, Some e) \<Rightarrow> Some (Inl e)
      | (None, None) \<Rightarrow> None
      | (Some p, None) \<Rightarrow>
          Some (Inr \<lparr>tp_RootHash = pbtp_RootHash pb, tp_Data = pbtp_Data pb, tp_Proof = p\<rparr>))"

section \<open>Evidence survives its protobuf form\<close>

lemma attempt_all_Inr: "(\<And>x. x \<in> set xs \<Longrightarrow> f x = Some (Inr (g x))) \<Longrightarrow> attempt_all f xs = Some (Inr (map g xs))"
  by (induction xs) auto

lemma attempt_all_map: "attempt_all f (map g xs) = attempt_all (\<lambda>x. f (g x)) xs"
  by (induction xs) simp_all

text \<open>Evidence that decodes to itself, and whose encoding the generated decoder reads back.\<close>

definition ev_wire_ok :: "libs \<Rightarrow> evidence \<Rightarrow> bool" where
  "ev_wire_ok L ev =
     (case EvidenceToProto (lib_keys L) ev of
        Inl _ \<Rightarrow> False
      | Inr pb \<Rightarrow> EvidenceFromProto (lib_env L) (lib_wrappers L) (lib_keys L) pb = Some (Inr ev))"

definition ev_decodes :: "libs \<Rightarrow> evidence \<Rightarrow> bool" where
  "ev_decodes L ev =
     (case EvidenceToProto (lib_keys L) ev of
        Inl _ \<Rightarrow> False
      | Inr pb \<Rightarrow>
          (let bz = pbev_Marshal (env_StdTime (lib_env L)) pb in
           list_all time_in_range (evidence_times pb) \<and> length bz < 2 ^ 64
           \<and> lib_UnmarshalEvidence L bz = Some pb))"

lemma vote_from_to: "v_ValidateBasic v = None \<Longrightarrow> VoteFromProto (v_ToProto v) = Inr v"
  using bid_from_to_valid [of "v_BlockID v"]
  by (cases v) (auto simp: VoteFromProto_def v_ToProto_def v_ValidateBasic_def Let_def split: option.splits if_splits)

lemma duplicate_vote_wire_ok:
  assumes "dve_ValidateBasic dve = None"
  shows "ev_wire_ok L (DuplicateVoteEvidence dve)"
proof -
  obtain a b where ab: "dve_VoteA dve = Some a" "dve_VoteB dve = Some b" "v_ValidateBasic a = None" "v_ValidateBasic b = None"
    using assms by (auto simp: dve_ValidateBasic_def split: option.splits)
  have eta: "\<lparr>dve_VoteA = Some a, dve_VoteB = Some b, dve_TotalVotingPower = dve_TotalVotingPower dve,
      dve_ValidatorPower = dve_ValidatorPower dve, dve_Timestamp = dve_Timestamp dve\<rparr> = dve"
    using ab by (cases dve) simp
  show ?thesis
    using assms ab(3,4)
    by (simp add: ev_wire_ok_def dve_ToProto_def ab(1,2) DuplicateVoteEvidenceFromProto_def vote_from_to eta)
qed

definition pb_of :: "libs \<Rightarrow> evidence \<Rightarrow> pb_evidence" where
  "pb_of L ev = (case EvidenceToProto (lib_keys L) ev of Inl _ \<Rightarrow> PbNoEvidence | Inr pb \<Rightarrow> pb)"

lemma wire_ok_to_proto: "ev_wire_ok L ev \<Longrightarrow> EvidenceToProto (lib_keys L) ev = Inr (pb_of L ev)"
  by (auto simp: ev_wire_ok_def pb_of_def split: sum.splits)

lemma wire_ok_from_proto:
  "ev_wire_ok L ev \<Longrightarrow> EvidenceFromProto (lib_env L) (lib_wrappers L) (lib_keys L) (pb_of L ev) = Some (Inr ev)"
  by (auto simp: ev_wire_ok_def pb_of_def split: sum.splits)

lemma evidence_data_to_proto:
  "list_all (ev_wire_ok L) evs \<Longrightarrow> EvidenceData_ToProto (lib_keys L) evs = Inr (map (pb_of L) evs)"
  unfolding EvidenceData_ToProto_def by (rule convert_all_Inr) (auto simp: list_all_iff wire_ok_to_proto)

lemma evidence_data_from_proto:
  assumes "list_all (ev_wire_ok L) evs"
  shows "EvidenceData_FromProto L (map (pb_of L) evs) = Some (Inr evs)"
proof -
  have "attempt_all (\<lambda>ev. EvidenceFromProto (lib_env L) (lib_wrappers L) (lib_keys L) (pb_of L ev)) evs
      = Some (Inr (map (\<lambda>ev. ev) evs))"
    by (rule attempt_all_Inr) (use assms in \<open>auto simp: list_all_iff wire_ok_from_proto\<close>)
  then show ?thesis by (simp add: EvidenceData_FromProto_def attempt_all_map)
qed

section \<open>The square gives the data back\<close>

lemma shares_of_append [simp]: "shares_of nid (xs @ ys) = shares_of nid xs @ shares_of nid ys"
  by (simp add: shares_of_def)

definition in_namespace :: "(bytes \<Rightarrow> bool) \<Rightarrow> bytes list \<Rightarrow> bool" where
  "in_namespace P shares \<longleftrightarrow> list_all (\<lambda>s. length s = ShareSize \<and> P (take NamespaceSize s)) shares"

lemma shares_of_group:
  assumes "in_namespace P shares"
  shows "(\<And>nid'. P nid' \<Longrightarrow> nid' = nid) \<Longrightarrow> shares_of nid shares = shares"
    and "\<not> P nid \<Longrightarrow> shares_of nid shares = []"
  using assms by (auto simp: in_namespace_def shares_of_def list_all_iff filter_id_conv filter_empty_conv)

lemma is_message_take: "is_message_share s \<longleftrightarrow> is_message_share (take NamespaceSize s)"
  by (simp add: is_message_share_def)

lemma message_group:
  assumes "in_namespace P shares"
  shows "(\<And>nid'. P nid' \<Longrightarrow> is_message_share nid') \<Longrightarrow> filter is_message_share shares = shares"
    and "(\<And>nid'. P nid' \<Longrightarrow> \<not> is_message_share nid') \<Longrightarrow> filter is_message_share shares = []"
  using assms is_message_take by (auto simp: in_namespace_def list_all_iff filter_id_conv filter_empty_conv)

lemma reserved_not_message [simp]:
  "\<not> is_message_share TxNamespaceID" "\<not> is_message_share IntermediateStateRootsNamespaceID"
  "\<not> is_message_share EvidenceNamespaceID" "\<not> is_message_share TailPaddingNamespaceID"
  by (simp_all add: is_message_share_def TxNamespaceID_def IntermediateStateRootsNamespaceID_def
      EvidenceNamespaceID_def TailPaddingNamespaceID_def)

lemma namespaces_distinct [simp]:
  "TxNamespaceID \<noteq> IntermediateStateRootsNamespaceID" "TxNamespaceID \<noteq> EvidenceNamespaceID"
  "IntermediateStateRootsNamespaceID \<noteq> TxNamespaceID" "IntermediateStateRootsNamespaceID \<noteq> EvidenceNamespaceID"
  "EvidenceNamespaceID \<noteq> TxNamespaceID" "EvidenceNamespaceID \<noteq> IntermediateStateRootsNamespaceID"
  "TailPaddingNamespaceID \<noteq> TxNamespaceID" "TailPaddingNamespaceID \<noteq> IntermediateStateRootsNamespaceID"
  "TailPaddingNamespaceID \<noteq> EvidenceNamespaceID" "TxNamespaceID \<noteq> TailPaddingNamespaceID"
  "IntermediateStateRootsNamespaceID \<noteq> TailPaddingNamespaceID" "EvidenceNamespaceID \<noteq> TailPaddingNamespaceID"
  by (simp_all add: TxNamespaceID_def IntermediateStateRootsNamespaceID_def
      EvidenceNamespaceID_def TailPaddingNamespaceID_def)

lemma namespace_lengths [simp]:
  "length TxNamespaceID = 8" "length IntermediateStateRootsNamespaceID = 8"
  "length EvidenceNamespaceID = 8" "length TailPaddingNamespaceID = 8"
  by (simp_all add: TxNamespaceID_def IntermediateStateRootsNamespaceID_def
      EvidenceNamespaceID_def TailPaddingNamespaceID_def)

lemma share_in_namespace: "list_all (share_in nid) shares \<Longrightarrow> in_namespace (\<lambda>n. n = nid) (RawShares shares)"
  by (auto simp: in_namespace_def share_in_def RawShares_def list_all_iff)

lemma padding_in_namespace: "in_namespace (\<lambda>n. n = TailPaddingNamespaceID) (RawShares (TailPaddingShares n))"
  by (simp add: in_namespace_def RawShares_def TailPaddingShares_def tailPaddingShare_def list_all_iff)

lemma evidence_encodes: "EvidenceToProto B ev = Inr pb \<Longrightarrow> pbev_Marshal st pb \<noteq> []"
  by (cases ev) (auto simp: message_field_def split: sum.splits)

lemma evidence_shares:
  assumes "list_all (ev_wire_ok L) evs" "list_all (ev_decodes L) evs"
  obtains shares where "Evidence_SplitIntoShares L evs = Some shares" "parseEvd L (RawShares shares) = Some (Inr evs)"
    "list_all (share_in EvidenceNamespaceID) shares"
proof -
  define bz where "bz = (\<lambda>ev. pbev_Marshal (env_StdTime (lib_env L)) (pb_of L ev))"
  have ev: "ev_MarshalDelimited L ev = Some (tx_MarshalDelimited (bz ev))" "length (bz ev) < 2 ^ 64"
      "lib_UnmarshalEvidence L (bz ev) = Some (pb_of L ev)" if "ev \<in> set evs" for ev
    using that assms wire_ok_to_proto [of L ev]
    by (auto simp: list_all_iff ev_MarshalDelimited_def ev_decodes_def bz_def Let_def)
  have ne: "bz ev \<noteq> []" if "ev \<in> set evs" for ev
    using that assms(1) evidence_encodes [OF wire_ok_to_proto [of L ev]] by (auto simp: list_all_iff bz_def)
  have m: "map_all (ev_MarshalDelimited L) evs = Some (map tx_MarshalDelimited (map bz evs))"
    using ev(1) by (induction evs) auto
  have "txs_ok (map bz evs)" using ev(2) ne by (auto simp: txs_ok_def list_all_iff)
  from contiguous_round_trip [OF this, of EvidenceNamespaceID] obtain shares where
    sh: "splitContiguous EvidenceNamespaceID (map tx_MarshalDelimited (map bz evs)) = Some shares"
      "processContiguousShares (RawShares shares) = Some (Inr (map bz evs))" "list_all (share_in EvidenceNamespaceID) shares"
    by auto
  have "parseEvd L (RawShares shares) = attempt_all (\<lambda>ev. decode_evidence L (bz ev)) evs"
    by (simp add: parseEvd_def sh(2) attempt_all_map)
  also have "\<dots> = Some (Inr (map (\<lambda>ev. ev) evs))"
    by (rule attempt_all_Inr)
      (use assms(1) ev(3) in \<open>auto simp: decode_evidence_def list_all_iff wire_ok_from_proto\<close>)
  finally have "parseEvd L (RawShares shares) = Some (Inr evs)" by simp
  with sh m show ?thesis by (intro that [of shares]) (simp_all add: Evidence_SplitIntoShares_def)
qed

text \<open>Data whose shares can be told apart and read back.\<close>

definition data_ok :: "libs \<Rightarrow> data \<Rightarrow> bool" where
  "data_ok L d \<longleftrightarrow> txs_ok (dt_Txs d) \<and> txs_ok (dt_IntermediateStateRoots d)
     \<and> list_all (ev_wire_ok L) (dt_Evidence d) \<and> list_all (ev_decodes L) (dt_Evidence d)
     \<and> msgs_ok (dt_Messages d) \<and> list_all (\<lambda>m. is_message_share (msg_NamespaceID m)) (dt_Messages d)"

definition keeps_messages :: "libs \<Rightarrow> bool" where
  "keeps_messages L \<longleftrightarrow> (\<forall>ms. set (lib_sortMsgs L ms) = set ms)"

lemma message_shares:
  assumes "msgs_ok ms" "list_all (\<lambda>m. is_message_share (msg_NamespaceID m)) ms" "set ms' = set ms"
  obtains shares where "append_messages [] ms' = Some shares" "parseMsgShares (RawShares shares) = Some (Inr ms')"
    "in_namespace is_message_share (RawShares shares)"
proof -
  have "msgs_ok ms'" using assms(1,3) by (simp add: msgs_ok_def list_all_iff)
  from messages_round_trip [OF this] obtain shares where
    sh: "append_messages [] ms' = Some shares" "parseMsgShares (RawShares shares) = Some (Inr ms')"
      "list_all (\<lambda>s. \<exists>m\<in>set ms'. length s = ShareSize \<and> take NamespaceSize s = msg_NamespaceID m) (RawShares shares)"
    by blast
  moreover have "in_namespace is_message_share (RawShares shares)"
    using sh(3) assms(2,3) by (fastforce simp: in_namespace_def list_all_iff)
  ultimately show ?thesis using that by blast
qed

lemma RawShares_append [simp]: "RawShares (xs @ ys) = RawShares xs @ RawShares ys"
  by (simp add: RawShares_def)

lemma square_reads_back:
  assumes d: "data_ok L d" and k: "keeps_messages L" and c: "ComputeShares L d = Some (shares, n)"
    and rows: "original_shares rows = Some (RawShares shares)"
  shows "DataFromSquare L rows = Some (Inr (d\<lparr>dt_Messages := lib_sortMsgs L (dt_Messages d)\<rparr>))
    \<and> (\<exists>k \<le> 7. length shares = 2 ^ k * 2 ^ k)"
proof -
  obtain ts where ts: "Txs_SplitIntoShares (dt_Txs d) = Some ts" "processContiguousShares (RawShares ts) = Some (Inr (dt_Txs d))"
      "in_namespace (\<lambda>n. n = TxNamespaceID) (RawShares ts)"
    using contiguous_round_trip [of "dt_Txs d" TxNamespaceID] d share_in_namespace
    unfolding Txs_SplitIntoShares_def data_ok_def by (metis namespace_lengths(1))
  obtain rs where rs: "Roots_SplitIntoShares (dt_IntermediateStateRoots d) = Some rs"
      "processContiguousShares (RawShares rs) = Some (Inr (dt_IntermediateStateRoots d))"
      "in_namespace (\<lambda>n. n = IntermediateStateRootsNamespaceID) (RawShares rs)"
    using contiguous_round_trip [of "dt_IntermediateStateRoots d" IntermediateStateRootsNamespaceID] d share_in_namespace
    unfolding Roots_SplitIntoShares_def data_ok_def by (metis namespace_lengths(2))
  obtain es where es: "Evidence_SplitIntoShares L (dt_Evidence d) = Some es" "parseEvd L (RawShares es) = Some (Inr (dt_Evidence d))"
      "in_namespace (\<lambda>n. n = EvidenceNamespaceID) (RawShares es)"
    using evidence_shares [of L "dt_Evidence d"] d share_in_namespace unfolding data_ok_def by metis
  obtain ms where ms: "append_messages [] (lib_sortMsgs L (dt_Messages d)) = Some ms"
      "parseMsgShares (RawShares ms) = Some (Inr (lib_sortMsgs L (dt_Messages d)))" "in_namespace is_message_share (RawShares ms)"
    using message_shares [of "dt_Messages d" "lib_sortMsgs L (dt_Messages d)"] d k unfolding data_ok_def keeps_messages_def by metis
  let ?all = "ts @ rs @ es @ ms"
  have pad: "pad_square ?all = Some (shares, n)"
    using c by (simp add: ComputeShares_def ts(1) rs(1) es(1) Msgs_SplitIntoShares_def ms(1))
  then have "length ?all \<le> MaxShareCount" by (auto simp: pad_square_def Let_def split: if_splits)
  from pad_square_ok [OF this] obtain j where j: "j \<le> 7" "length ?all \<le> 2 ^ j * 2 ^ j"
      "pad_square ?all = Some (?all @ TailPaddingShares (2 ^ j * 2 ^ j - length ?all), length ?all)"
    by blast
  then obtain p where sh: "shares = ?all @ TailPaddingShares p" "length shares = 2 ^ j * 2 ^ j"
    using pad by (auto simp: TailPaddingShares_def)
  note groups = ts(3) rs(3) es(3) ms(3) padding_in_namespace [of p]
  note pick = shares_of_group [OF groups(1)] shares_of_group [OF groups(2)] shares_of_group [OF groups(3)]
    shares_of_group [OF groups(4)] shares_of_group [OF groups(5)]
    message_group [OF groups(1)] message_group [OF groups(2)] message_group [OF groups(3)]
    message_group [OF groups(4)] message_group [OF groups(5)]
  have len: "list_all (\<lambda>s. NamespaceSize \<le> length s) (RawShares shares)"
    using groups by (auto simp: sh(1) in_namespace_def list_all_iff)
  have "DataFromSquare L rows = Some (Inr (d\<lparr>dt_Messages := lib_sortMsgs L (dt_Messages d)\<rparr>))"
    using len by (cases d) (simp add: DataFromSquare_def rows, simp add: sh(1) pick parseTxs_def parseISRs_def ts(2) rs(2) es(2) ms(2))
  with j(1) sh(2) show ?thesis by blast
qed

section \<open>Blocks survive the wire\<close>

lemma valid_block:
  assumes "blk_ValidateBasic L b = Some None"
  obtains c where "hd_ValidateBasic (blk_Header b) = None" "blk_LastCommit b = Some c" "c_ValidateBasic c = None"
    "c_Hash (lib_env L) (Some c) = Some (hd_LastCommitHash (blk_Header b))"
    "Data_Hash L (blk_Data b) = Some (hd_DataHash (blk_Header b))"
    "first_bad (ev_ValidateBasic (lib_env L) (lib_wrappers L) (lib_keys L)) (dt_Evidence (blk_Data b)) = Some None"
    "EvidenceList_Hash (lib_env L) (lib_keys L) (dt_Evidence (blk_Data b)) = Some (hd_EvidenceHash (blk_Header b))"
  using assms by (auto simp: blk_ValidateBasic_def Let_def split: option.splits if_splits bind_splits)

lemma data_from_to:
  assumes "list_all (ev_wire_ok L) (dt_Evidence d)"
  obtains pd where "Data_ToProto (lib_keys L) d = Some pd" "DataFromProto L pd = Some (Inr (d\<lparr>dt_Messages := []\<rparr>))"
    "EvidenceData_FromProto L (pbd_Evidence pd) = Some (Inr (dt_Evidence d))"
  using evidence_data_to_proto [OF assms] evidence_data_from_proto [OF assms] that
  by (cases d) (simp add: Data_ToProto_def DataFromProto_def)

text \<open>Commits that pass through their protobuf form.\<close>

definition commit_wire_ok :: "commit \<Rightarrow> bool" where
  "commit_wire_ok c \<longleftrightarrow> bid_ValidateBasic (c_BlockID c) = None
     \<and> list_all (\<lambda>cs. cs_ValidateBasic cs = None) (c_Signatures c)"

lemma block_from_to:
  assumes "blk_ValidateBasic L b = Some None" "dt_Messages (blk_Data b) = []"
    "list_all (ev_wire_ok L) (dt_Evidence (blk_Data b))" "pred_option commit_wire_ok (blk_LastCommit b)"
  obtains pb where "blk_ToProto (lib_keys L) b = Some pb" "BlockFromProto L pb = Some (Inr b)"
proof -
  from valid_block [OF assms(1)] obtain c where c: "hd_ValidateBasic (blk_Header b) = None"
      "blk_LastCommit b = Some c" "c_ValidateBasic c = None" by metis
  from data_from_to [OF assms(3)] obtain pd where pd: "Data_ToProto (lib_keys L) (blk_Data b) = Some pd"
      "DataFromProto L pd = Some (Inr ((blk_Data b)\<lparr>dt_Messages := []\<rparr>))"
      "EvidenceData_FromProto L (pbd_Evidence pd) = Some (Inr (dt_Evidence (blk_Data b)))" by metis
  have eta: "\<lparr>blk_Header = blk_Header b, blk_Data = (blk_Data b)\<lparr>dt_Messages := [], dt_Evidence := dt_Evidence (blk_Data b)\<rparr>,
      blk_LastCommit = Some c\<rparr> = b"
    using c(2) assms(2) by (cases b, cases "blk_Data b") simp
  have "CommitFromProto (c_ToProto c) = Inr c"
    using commit_from_to [OF c(3)] assms(4) c(2) by (simp add: commit_wire_ok_def)
  then show ?thesis
    using pd header_from_to [OF c(1)] assms(1) eta
    by (intro that [of "\<lparr>pbb_Header = hd_ToProto (blk_Header b), pbb_Data = pd, pbb_LastCommit = Some (c_ToProto c)\<rparr>"])
      (simp_all add: blk_ToProto_def BlockFromProto_def c(2) convert_opt_def Let_def)
qed

text \<open>A decoded block has no messages, and its data hash is that of the data without them.\<close>

lemma decoded_without_messages:
  assumes "blk_ToProto (lib_keys L) b = Some pb" "BlockFromProto L pb = Some (Inr b')"
    "list_all (ev_wire_ok L) (dt_Evidence (blk_Data b))"
  shows "dt_Messages (blk_Data b') = [] \<and> Data_Hash L ((blk_Data b)\<lparr>dt_Messages := []\<rparr>) = Some (hd_DataHash (blk_Header b))"
proof -
  from data_from_to [OF assms(3)] obtain pd where pd: "Data_ToProto (lib_keys L) (blk_Data b) = Some pd"
      "DataFromProto L pd = Some (Inr ((blk_Data b)\<lparr>dt_Messages := []\<rparr>))"
      "EvidenceData_FromProto L (pbd_Evidence pd) = Some (Inr (dt_Evidence (blk_Data b)))" by metis
  have pb: "pbb_Data pb = pd" "pbb_Header pb = hd_ToProto (blk_Header b)"
    using assms(1) pd(1) by (auto simp: blk_ToProto_def)
  from assms(2) have h: "HeaderFromProto (hd_ToProto (blk_Header b)) = Inr (blk_Header b')"
      "blk_Data b' = (blk_Data b)\<lparr>dt_Messages := []\<rparr>" "blk_ValidateBasic L b' = Some None"
    unfolding BlockFromProto_def Let_def pb pd(2,3)
    by (auto elim!: attempt_InrE split: option.splits)
  have "hd_DataHash (blk_Header b') = hd_DataHash (blk_Header b)"
    using h(1) by (cases "blk_Header b'") (auto simp: HeaderFromProto_def hd_ToProto_def Let_def split: sum.splits option.splits)
  moreover have "Data_Hash L (blk_Data b') = Some (hd_DataHash (blk_Header b'))"
    using valid_block [OF h(3)] by blast
  ultimately show ?thesis using h(2) by simp
qed

section \<open>A sample\<close>

definition toy_double :: "byte \<Rightarrow> vote" where
  "toy_double h = \<lparr>v_Type = PrecommitType, v_Height = 2, v_Round = 0, v_BlockID = toy_block h, v_Timestamp = 7,
     v_ValidatorAddress = replicate 20 1, v_ValidatorIndex = 0, v_Signature = [1]\<rparr>"

definition toy_duplicate :: duplicate_vote where
  "toy_duplicate = \<lparr>dve_VoteA = Some (toy_double 1), dve_VoteB = Some (toy_double 2), dve_TotalVotingPower = 10,
     dve_ValidatorPower = 5, dve_Timestamp = 7\<rparr>"

definition toy_pb_evidence :: pb_evidence where
  "toy_pb_evidence = PbDuplicateVote (dve_ToProto toy_duplicate)"

definition sample_libs :: "(bytes \<Rightarrow> pb_block option) \<Rightarrow> libs" where
  "sample_libs dec = \<lparr>lib_env = toy_env, lib_wrappers = sample_wrappers, lib_keys = toy_batch secp,
     lib_sortMsgs = sort_key msg_NamespaceID,
     lib_eds = (\<lambda>w shares. Some \<lparr>dah_RowsRoots = replicate (2 * w) (take 8 (last shares) @ replicate 24 1),
                                  dah_ColumnRoots = replicate (2 * w) (replicate 32 2)\<rparr>),
     lib_UnmarshalEvidence = (\<lambda>bz. if bz = pbev_Marshal (env_StdTime toy_env) toy_pb_evidence then Some toy_pb_evidence else None),
     lib_UnmarshalBlock = dec\<rparr>"

definition toy_message :: message where
  "toy_message = \<lparr>msg_NamespaceID = [1, 1, 1, 1, 1, 1, 1, 1], msg_Data = [8, 9]\<rparr>"

definition toy_data :: "message list \<Rightarrow> data" where
  "toy_data ms = \<lparr>dt_Txs = [[1, 2, 3], [4]], dt_IntermediateStateRoots = [[5, 6]],
     dt_Evidence = [DuplicateVoteEvidence toy_duplicate], dt_Messages = ms\<rparr>"

text \<open>A first block: its last commit is the empty one of height 0.\<close>

definition empty_commit :: commit where
  "empty_commit = \<lparr>c_Height = 0, c_Round = 0, c_BlockID = zero_block_id, c_Signatures = []\<rparr>"

definition toy_blk :: "message list \<Rightarrow> block option" where
  "toy_blk ms =
     map_option (\<lambda>b. b\<lparr>blk_Header := (blk_Header b)\<lparr>hd_ChainID := [97], hd_Time := 7, hd_ProposerAddress := replicate 20 1,
         hd_ValidatorsHash := replicate 32 3\<rparr>\<rparr>)
       (MakeBlock (sample_libs (\<lambda>_. None)) 1 [[1, 2, 3], [4]] [DuplicateVoteEvidence toy_duplicate] [[5, 6]] ms (Some empty_commit))"

definition toy_block_wire :: "message list \<Rightarrow> pb_block" where
  "toy_block_wire ms = the (blk_ToProto (toy_batch secp) (the (toy_blk ms)))"

definition toy_libs :: "message list \<Rightarrow> libs" where
  "toy_libs ms = sample_libs (\<lambda>bz. if bz = pbb_Marshal (env_StdTime toy_env) (toy_block_wire ms) then Some (toy_block_wire ms) else None)"

lemma toy_duplicate_ok: "dve_ValidateBasic toy_duplicate = None"
  by code_simp

lemma toy_evidence_ok:
  "list_all (ev_wire_ok L) (dt_Evidence (toy_data ms))" "list_all (ev_decodes (sample_libs dec)) (dt_Evidence (toy_data ms))"
proof -
  show "list_all (ev_wire_ok L) (dt_Evidence (toy_data ms))"
    by (simp add: toy_data_def duplicate_vote_wire_ok [OF toy_duplicate_ok])
  have "list_all time_in_range (evidence_times toy_pb_evidence) \<and> length (pbev_Marshal (env_StdTime toy_env) toy_pb_evidence) < 1000"
    by code_simp
  then show "list_all (ev_decodes (sample_libs dec)) (dt_Evidence (toy_data ms))"
    by (simp add: toy_data_def ev_decodes_def sample_libs_def Let_def toy_pb_evidence_def)
qed

lemma toy_data_ok: "data_ok (sample_libs dec) (toy_data [toy_message])"
proof -
  have "txs_ok (dt_Txs (toy_data ms)) \<and> txs_ok (dt_IntermediateStateRoots (toy_data ms))" for ms
    by (simp add: txs_ok_def toy_data_def)
  moreover have "is_message_share (msg_NamespaceID toy_message)" by code_simp
  ultimately show ?thesis
    using toy_evidence_ok by (simp add: data_ok_def) (simp add: toy_data_def msgs_ok_def toy_message_def)
qed

lemma toy_shares:
  "map_option (\<lambda>(s, n). (length s, n)) (ComputeShares (sample_libs (\<lambda>_. None)) (toy_data [toy_message])) = Some (4, 4)"
  by code_simp

lemma toy_block_ok: "map_option (blk_ValidateBasic (sample_libs dec)) (toy_blk []) = Some (Some None)"
  by code_simp

lemma toy_wire:
  "map_option (\<lambda>b. (blk_ToProto (toy_batch secp) b \<noteq> None, dt_Messages (blk_Data b), blk_LastCommit b,
      list_all time_in_range (block_times (toy_block_wire [])), length (pbb_Marshal (env_StdTime toy_env) (toy_block_wire [])) < 1000,
      dt_Evidence (blk_Data b) = [DuplicateVoteEvidence toy_duplicate])) (toy_blk [])
    = Some (True, [], Some empty_commit, True, True, True)"
  by code_simp

lemma toy_message_block:
  "map_option (\<lambda>b. (blk_ToProto (toy_batch secp) b \<noteq> None, dt_Evidence (blk_Data b) = [DuplicateVoteEvidence toy_duplicate],
      blk_ValidateBasic (sample_libs dec) b = Some None,
      Data_Hash (sample_libs dec) ((blk_Data b)\<lparr>dt_Messages := []\<rparr>) = Some (hd_DataHash (blk_Header b)))) (toy_blk [toy_message])
    = Some (True, True, True, False)"
  by code_simp

section \<open>Properties\<close>





text \<open>
  C40: the messages of a block do not reach its peers. The protobuf form leaves them out, so
  a block whose data hash covers messages (the hash of its data without them is another one) is
  rejected by every node that decodes it.
\<close>

theorem messages_lost_on_the_wire:
  assumes "blk_ToProto (lib_keys L) b = Some pb" "list_all (ev_wire_ok L) (dt_Evidence (blk_Data b))"
    and "Data_Hash L ((blk_Data b)\<lparr>dt_Messages := []\<rparr>) \<noteq> Some (hd_DataHash (blk_Header b))"
  shows "BlockFromProto L pb \<noteq> Some (Inr b')"
  using decoded_without_messages [OF assms(1) _ assms(2)] assms(3) by blast

theorem messages_lost_on_the_wire_witness:
  "\<exists>b. toy_blk [toy_message] = Some b \<and> blk_ValidateBasic (toy_libs [toy_message]) b = Some None
    \<and> BlockFromProto (toy_libs [toy_message]) (toy_block_wire [toy_message]) \<noteq> Some (Inr b)"
proof -
  obtain b where b: "toy_blk [toy_message] = Some b" "blk_ToProto (toy_batch secp) b = Some (toy_block_wire [toy_message])"
      "dt_Evidence (blk_Data b) = [DuplicateVoteEvidence toy_duplicate]" "blk_ValidateBasic (toy_libs [toy_message]) b = Some None"
      "Data_Hash (toy_libs [toy_message]) ((blk_Data b)\<lparr>dt_Messages := []\<rparr>) \<noteq> Some (hd_DataHash (blk_Header b))"
    using toy_message_block [where dec = "lib_UnmarshalBlock (toy_libs [toy_message])"]
    by (auto simp: toy_block_wire_def toy_libs_def sample_libs_def)
  have "BlockFromProto (toy_libs [toy_message]) (toy_block_wire [toy_message]) \<noteq> Some (Inr b)"
    by (rule messages_lost_on_the_wire [OF _ _ b(5)])
      (use b(2,3) duplicate_vote_wire_ok [OF toy_duplicate_ok] in \<open>simp_all add: toy_libs_def sample_libs_def\<close>)
  with b show ?thesis by blast
qed

end
