(* ===== verification/ChainState.thy ===== *)
theory ChainState
  imports Block ValidatorUpdates
begin

text \<open>
  The state between two blocks and its rules: the consensus parameters (\<open>types/params.go\<close>), the
  genesis document (\<open>types/genesis.go\<close>), the results of transactions (\<open>types/results.go\<close>), the
  conversions of the application's answers (\<open>types/protobuf.go\<close>), and \<open>internal/state\<close>: \<open>state.go\<close>,
  \<open>time.go\<close>, \<open>validation.go\<close>, \<open>tx_filter.go\<close> and the state update and block creation of \<open>execution.go\<close>.

  A transaction result keeps the fields that are hashed. The clock that fills in a missing genesis time
  is an argument. Times are nanoseconds; \<open>UnixNano\<close> wraps around at 64 bits, and entries of the median
  with the same value may come in any order, which matters only when their times differ.
\<close>

section \<open>Consensus parameters\<close>

abbreviation (input) MaxBlockSizeBytes :: int where "MaxBlockSizeBytes \<equiv> 104857600"
abbreviation (input) BlockPartSizeBytes :: nat where "BlockPartSizeBytes \<equiv> 65536"

record block_params =
  bp_MaxBytes :: int
  bp_MaxGas :: int

record evidence_params =
  ep_MaxAgeNumBlocks :: int
  ep_MaxAgeDuration :: int
  ep_MaxBytes :: int

record consensus_params =
  cp_Block :: block_params
  cp_Evidence :: evidence_params
  cp_PubKeyTypes :: "string list"
  cp_AppVersion :: nat

text \<open>The update that the application returns; each part may be missing.\<close>

record params_update =
  pu_Block :: "block_params option"
  pu_Evidence :: "evidence_params option"
  pu_PubKeyTypes :: "string list option"
  pu_AppVersion :: "nat option"

definition DefaultConsensusParams :: consensus_params where
  "DefaultConsensusParams =
     \<lparr>cp_Block = \<lparr>bp_MaxBytes = 22020096, bp_MaxGas = -1\<rparr>,
      cp_Evidence = \<lparr>ep_MaxAgeNumBlocks = 100000, ep_MaxAgeDuration = 48 * 3600 * 10 ^ 9, ep_MaxBytes = 1048576\<rparr>,
      cp_PubKeyTypes = [ed25519_KeyType], cp_AppVersion = 0\<rparr>"

definition IsValidPubkeyType :: "string list \<Rightarrow> string \<Rightarrow> bool" where
  "IsValidPubkeyType pubKeyTypes pubkeyType = list_ex (\<lambda>t. t = pubkeyType) pubKeyTypes"

definition known_key_types :: "string list" where
  "known_key_types = [ed25519_KeyType, secp256k1_KeyType, sr25519_KeyType]"

datatype params_error = ErrBlockMaxBytes | ErrBlockMaxBytesTooBig | ErrBlockMaxGas | ErrMaxAgeNumBlocks
  | ErrMaxAgeDuration | ErrEvidenceMaxBytesTooBig | ErrEvidenceMaxBytes | ErrNoPubKeyTypes | ErrUnknownPubKeyType

definition ValidateConsensusParams :: "consensus_params \<Rightarrow> params_error option" where
  "ValidateConsensusParams params =
     (if bp_MaxBytes (cp_Block params) \<le> 0 then Some ErrBlockMaxBytes
      else if bp_MaxBytes (cp_Block params) > MaxBlockSizeBytes then Some ErrBlockMaxBytesTooBig
      else if bp_MaxGas (cp_Block params) < -1 then Some ErrBlockMaxGas
      else if ep_MaxAgeNumBlocks (cp_Evidence params) \<le> 0 then Some ErrMaxAgeNumBlocks
      else if ep_MaxAgeDuration (cp_Evidence params) \<le> 0 then Some ErrMaxAgeDuration
      else if ep_MaxBytes (cp_Evidence params) > bp_MaxBytes (cp_Block params) then Some ErrEvidenceMaxBytesTooBig
      else if ep_MaxBytes (cp_Evidence params) < 0 then Some ErrEvidenceMaxBytes
      else if length (cp_PubKeyTypes params) = 0 then Some ErrNoPubKeyTypes
      else if \<not> list_all (\<lambda>t. t \<in> set known_key_types) (cp_PubKeyTypes params) then Some ErrUnknownPubKeyType
      else None)"

definition HashConsensusParams :: "env \<Rightarrow> consensus_params \<Rightarrow> bytes" where
  "HashConsensusParams E params =
     env_Sum E (varint_field 0x08 (u64 (bp_MaxBytes (cp_Block params))) @ varint_field 0x10 (u64 (bp_MaxGas (cp_Block params))))"

definition params_Equals :: "consensus_params \<Rightarrow> consensus_params \<Rightarrow> bool" where
  "params_Equals params params2 \<longleftrightarrow> cp_Block params = cp_Block params2 \<and> cp_Evidence params = cp_Evidence params2
     \<and> cp_PubKeyTypes params = cp_PubKeyTypes params2"

definition UpdateConsensusParams :: "consensus_params \<Rightarrow> params_update option \<Rightarrow> consensus_params" where
  "UpdateConsensusParams params params2 =
     (case params2 of
        None \<Rightarrow> params
      | Some u \<Rightarrow>
          (let res = params;
               res = (case pu_Block u of None \<Rightarrow> res | Some b \<Rightarrow> res\<lparr>cp_Block := b\<rparr>);
               res = (case pu_Evidence u of None \<Rightarrow> res | Some e \<Rightarrow> res\<lparr>cp_Evidence := e\<rparr>);
               res = (case pu_PubKeyTypes u of None \<Rightarrow> res | Some ts \<Rightarrow> res\<lparr>cp_PubKeyTypes := ts\<rparr>)
           in case pu_AppVersion u of None \<Rightarrow> res | Some v \<Rightarrow> res\<lparr>cp_AppVersion := v\<rparr>))"

definition params_ToProto :: "consensus_params \<Rightarrow> params_update" where
  "params_ToProto params =
     \<lparr>pu_Block = Some (cp_Block params), pu_Evidence = Some (cp_Evidence params),
      pu_PubKeyTypes = Some (cp_PubKeyTypes params), pu_AppVersion = Some (cp_AppVersion params)\<rparr>"

text \<open>A missing part is a nil pointer.\<close>

definition ConsensusParamsFromProto :: "params_update \<Rightarrow> consensus_params option" where
  "ConsensusParamsFromProto u =
     do {
       b \<leftarrow> pu_Block u;
       e \<leftarrow> pu_Evidence u;
       ts \<leftarrow> pu_PubKeyTypes u;
       v \<leftarrow> pu_AppVersion u;
       Some \<lparr>cp_Block = b, cp_Evidence = e, cp_PubKeyTypes = ts, cp_AppVersion = v\<rparr>
     }"

section \<open>The answers of the application\<close>

record deliver_tx =
  dtx_Code :: nat
  dtx_Data :: bytes
  dtx_GasWanted :: int
  dtx_GasUsed :: int

record validator_update =
  vu_PubKey :: pb_public_key
  vu_Power :: int

record abci_responses =
  ar_DeliverTxs :: "deliver_tx list"
  ar_ValidatorUpdates :: "validator_update list"
  ar_ConsensusParamUpdates :: "params_update option"

definition dtx_Marshal :: "deliver_tx \<Rightarrow> bytes" where
  "dtx_Marshal r = varint_field 0x08 (dtx_Code r) @ bytes_field 0x12 (dtx_Data r)
     @ varint_field 0x28 (u64 (dtx_GasWanted r)) @ varint_field 0x30 (u64 (dtx_GasUsed r))"

definition Results_Hash :: "(bytes \<Rightarrow> bytes) \<Rightarrow> deliver_tx list \<Rightarrow> bytes" where
  "Results_Hash H rs = HashFromByteSlices H (map dtx_Marshal rs)"

definition ProveResult :: "(bytes \<Rightarrow> bytes) \<Rightarrow> deliver_tx list \<Rightarrow> int \<Rightarrow> merkle_proof option" where
  "ProveResult H rs i = do { (_, proofs) \<leftarrow> ProofsFromByteSlices H (map dtx_Marshal rs); go_index proofs i }"

definition ABCIResponsesResultsHash :: "(bytes \<Rightarrow> bytes) \<Rightarrow> abci_responses \<Rightarrow> bytes" where
  "ABCIResponsesResultsHash H ar = Results_Hash H (ar_DeliverTxs ar)"

datatype update_error = ErrUpdateNegative | ErrUpdateKey key_error | ErrUpdateKeyType

fun validateValidatorUpdates :: "batch_env \<Rightarrow> string list \<Rightarrow> validator_update list \<Rightarrow> update_error option" where
  "validateValidatorUpdates B types [] = None"
| "validateValidatorUpdates B types (u # us) =
     (if vu_Power u < 0 then Some ErrUpdateNegative
      else if vu_Power u = 0 then validateValidatorUpdates B types us
      else case PubKeyFromProto (vu_PubKey u) of
        Inl e \<Rightarrow> Some (ErrUpdateKey e)
      | Inr pk \<Rightarrow>
          (if \<not> IsValidPubkeyType types (be_KeyType B pk) then Some ErrUpdateKeyType
           else validateValidatorUpdates B types us))"

definition PB2TM_ValidatorUpdates :: "env \<Rightarrow> validator_update list \<Rightarrow> key_error + validator list" where
  "PB2TM_ValidatorUpdates E vals =
     convert_all (\<lambda>v. case PubKeyFromProto (vu_PubKey v) of
         Inl e \<Rightarrow> Inl e | Inr pub \<Rightarrow> Inr (NewValidator E pub (vu_Power v))) vals"

section \<open>The state\<close>

record state_version =
  sv_Consensus :: consensus_version
  sv_Software :: bytes

record chain_state =
  sm_Version :: state_version
  sm_ChainID :: bytes
  sm_InitialHeight :: int
  sm_LastBlockHeight :: int
  sm_LastBlockID :: block_id
  sm_LastBlockTime :: int
  sm_NextValidators :: validator_set
  sm_Validators :: validator_set
  sm_LastValidators :: validator_set
  sm_LastHeightValidatorsChanged :: int
  sm_ConsensusParams :: consensus_params
  sm_LastHeightConsensusParamsChanged :: int
  sm_LastResultsHash :: bytes
  sm_AppHash :: bytes

section \<open>The time of a block\<close>

record weighted_time =
  wt_Time :: int
  wt_Weight :: int

text \<open>\<open>UnixNano\<close>, and the order of the sort: nil entries come last.\<close>

definition UnixNano :: "int \<Rightarrow> int" where
  "UnixNano t = i64 t"

definition time_key :: "weighted_time option \<Rightarrow> bool \<times> int" where
  "time_key w = (case w of None \<Rightarrow> (True, 0) | Some wt \<Rightarrow> (False, UnixNano (wt_Time wt)))"

fun median_loop :: "int \<Rightarrow> weighted_time option list \<Rightarrow> int" where
  "median_loop median [] = zero_time"
| "median_loop median (None # ws) = median_loop median ws"
| "median_loop median (Some wt # ws) =
     (if median \<le> wt_Weight wt then wt_Time wt else median_loop (i64 (median - wt_Weight wt)) ws)"

definition weightedMedian :: "weighted_time option list \<Rightarrow> int \<Rightarrow> int" where
  "weightedMedian weightedTimes totalVotingPower = median_loop (totalVotingPower sdiv 2) (sort_key time_key weightedTimes)"

definition commit_time :: "validator_set \<Rightarrow> commit_sig \<Rightarrow> weighted_time option" where
  "commit_time vals cs =
     (if cs_Absent cs then None
      else case snd (GetByAddress vals (cs_ValidatorAddress cs)) of
        None \<Rightarrow> None
      | Some val \<Rightarrow> Some \<lparr>wt_Time = cs_Timestamp cs, wt_Weight = val_VotingPower val\<rparr>)"

fun add_weights :: "int \<Rightarrow> weighted_time option list \<Rightarrow> int" where
  "add_weights acc [] = acc"
| "add_weights acc (None # ws) = add_weights acc ws"
| "add_weights acc (Some wt # ws) = add_weights (i64 (acc + wt_Weight wt)) ws"

definition MedianTime :: "commit \<Rightarrow> validator_set \<Rightarrow> int" where
  "MedianTime c vals =
     (let ws = map (commit_time vals) (c_Signatures c) in weightedMedian ws (add_weights 0 ws))"

section \<open>Genesis\<close>

record genesis_validator =
  gv_Address :: bytes
  gv_PubKey :: bytes
  gv_Power :: int

record genesis_doc =
  gd_GenesisTime :: int
  gd_ChainID :: bytes
  gd_InitialHeight :: int
  gd_ConsensusParams :: "consensus_params option"
  gd_Validators :: "genesis_validator list"
  gd_AppHash :: bytes

datatype genesis_error = ErrGenesisNoChainID | ErrGenesisChainIDTooLong | ErrGenesisHeight | ErrGenesisParams params_error
  | ErrGenesisPower | ErrGenesisAddress

fun complete_validators :: "env \<Rightarrow> genesis_validator list \<Rightarrow> genesis_error + genesis_validator list" where
  "complete_validators E [] = Inr []"
| "complete_validators E (v # vs) =
     (if gv_Power v = 0 then Inl ErrGenesisPower
      else if length (gv_Address v) > 0 \<and> env_Address E (gv_PubKey v) \<noteq> gv_Address v then Inl ErrGenesisAddress
      else case complete_validators E vs of
        Inl e \<Rightarrow> Inl e
      | Inr vs' \<Rightarrow>
          Inr ((if length (gv_Address v) = 0 then v\<lparr>gv_Address := env_Address E (gv_PubKey v)\<rparr> else v) # vs'))"

text \<open>The current time replaces a genesis time that is zero.\<close>

definition ValidateAndComplete :: "env \<Rightarrow> int \<Rightarrow> genesis_doc \<Rightarrow> genesis_error + genesis_doc" where
  "ValidateAndComplete E now g =
     (if gd_ChainID g = [] then Inl ErrGenesisNoChainID
      else if length (gd_ChainID g) > MaxChainIDLen then Inl ErrGenesisChainIDTooLong
      else if gd_InitialHeight g < 0 then Inl ErrGenesisHeight
      else
        (let height = (if gd_InitialHeight g = 0 then 1 else gd_InitialHeight g) in
         case (case gd_ConsensusParams g of
                 None \<Rightarrow> Inr DefaultConsensusParams
               | Some p \<Rightarrow> (case ValidateConsensusParams p of Some e \<Rightarrow> Inl e | None \<Rightarrow> Inr p)) of
           Inl e \<Rightarrow> Inl (ErrGenesisParams e)
         | Inr params \<Rightarrow>
             (case complete_validators E (gd_Validators g) of
                Inl e \<Rightarrow> Inl e
              | Inr vs \<Rightarrow>
                  Inr (g\<lparr>gd_InitialHeight := height, gd_ConsensusParams := Some params, gd_Validators := vs,
                         gd_GenesisTime := (if gd_GenesisTime g = zero_time then now else gd_GenesisTime g)\<rparr>))))"

definition TMVersion :: bytes where
  "TMVersion = [48, 46, 51, 52, 46, 49, 49]"

definition InitStateVersion :: state_version where
  "InitStateVersion = \<lparr>sv_Consensus = \<lparr>ver_Block = BlockProtocol, ver_App = 0\<rparr>, sv_Software = TMVersion\<rparr>"

definition MakeGenesisState :: "env \<Rightarrow> int \<Rightarrow> genesis_doc \<Rightarrow> (genesis_error + chain_state) option" where
  "MakeGenesisState E now genDoc =
     (case ValidateAndComplete E now genDoc of
        Inl e \<Rightarrow> Some (Inl e)
      | Inr g \<Rightarrow>
          do {
            let validators = map (\<lambda>v. NewValidator E (gv_PubKey v) (gv_Power v)) (gd_Validators g);
            nobody \<leftarrow> NewValidatorSet [];
            vals \<leftarrow> (if validators = [] then Some nobody else NewValidatorSet validators);
            nextVals \<leftarrow> (if validators = [] then Some nobody else CopyIncrementProposerPriority 1 vals);
            params \<leftarrow> gd_ConsensusParams g;
            Some (Inr
              \<lparr>sm_Version = InitStateVersion, sm_ChainID = gd_ChainID g, sm_InitialHeight = gd_InitialHeight g,
               sm_LastBlockHeight = 0, sm_LastBlockID = zero_block_id, sm_LastBlockTime = gd_GenesisTime g,
               sm_NextValidators = nextVals, sm_Validators = vals, sm_LastValidators = nobody,
               sm_LastHeightValidatorsChanged = gd_InitialHeight g, sm_ConsensusParams = params,
               sm_LastHeightConsensusParamsChanged = gd_InitialHeight g, sm_LastResultsHash = [],
               sm_AppHash = gd_AppHash g\<rparr>)
          })"

section \<open>Making a block\<close>

definition populated_block ::
  "libs \<Rightarrow> chain_state \<Rightarrow> int \<Rightarrow> bytes list \<Rightarrow> evidence list \<Rightarrow> bytes list \<Rightarrow> message list \<Rightarrow> commit option \<Rightarrow> bytes
     \<Rightarrow> block option" where
  "populated_block L st height txs evidence roots messages c proposerAddress =
     do {
       b \<leftarrow> MakeBlock L height txs evidence roots messages c;
       timestamp \<leftarrow> (if height = sm_InitialHeight st then Some (sm_LastBlockTime st)
                     else map_option (\<lambda>c. MedianTime c (sm_LastValidators st)) c);
       valHash \<leftarrow> vals_Hash (lib_env L) (lib_keys L) (sm_Validators st);
       nextValHash \<leftarrow> vals_Hash (lib_env L) (lib_keys L) (sm_NextValidators st);
       Some (b\<lparr>blk_Header := Populate (sv_Consensus (sm_Version st)) (sm_ChainID st) timestamp (sm_LastBlockID st)
                 valHash nextValHash (HashConsensusParams (lib_env L) (sm_ConsensusParams st)) (sm_AppHash st)
                 (sm_LastResultsHash st) proposerAddress (blk_Header b)\<rparr>)
     }"

definition sm_MakeBlock ::
  "libs \<Rightarrow> chain_state \<Rightarrow> int \<Rightarrow> bytes list \<Rightarrow> evidence list \<Rightarrow> bytes list \<Rightarrow> message list \<Rightarrow> commit option \<Rightarrow> bytes
     \<Rightarrow> (block \<times> part_set) option" where
  "sm_MakeBlock L st height txs evidence roots messages c proposerAddress =
     do {
       b \<leftarrow> populated_block L st height txs evidence roots messages c proposerAddress;
       parts \<leftarrow> blk_MakePartSet L BlockPartSizeBytes b;
       Some (b, parts)
     }"

text \<open>
  The block a proposer creates: the evidence comes from the pool with its size, the transactions from
  the mempool with the limit, and \<open>preprocess\<close> is what the application makes of them. The copy of the
  processed transactions runs up to the number of the transactions that were sent, and panics when the
  application returns fewer; what it returns beyond them is empty.
\<close>

definition processed_txs :: "nat \<Rightarrow> bytes list \<Rightarrow> bytes list option" where
  "processed_txs l ppt =
     (if length ppt = 0 then Some []
      else if length ppt < l then None
      else Some (take l ppt @ replicate (length ppt - l) []))"

definition CreateProposalBlock ::
  "libs \<Rightarrow> chain_state \<Rightarrow> int \<Rightarrow> commit option \<Rightarrow> bytes \<Rightarrow> evidence list \<times> int \<Rightarrow> (int \<Rightarrow> int \<Rightarrow> bytes list)
     \<Rightarrow> (bytes list \<Rightarrow> (bytes list \<times> message list) option) \<Rightarrow> (block \<times> part_set) option" where
  "CreateProposalBlock L st height c proposerAddr pending reap preprocess =
     do {
       let (evidence, evSize) = pending;
       maxDataBytes \<leftarrow> MaxDataBytes (bp_MaxBytes (cp_Block (sm_ConsensusParams st))) evSize (vals_Size (sm_Validators st));
       let txs = reap maxDataBytes (bp_MaxGas (cp_Block (sm_ConsensusParams st)));
       (ppt, messages) \<leftarrow> preprocess txs;
       processedTxs \<leftarrow> processed_txs (length txs) ppt;
       sm_MakeBlock L st height processedTxs evidence [] messages c proposerAddr
     }"

section \<open>Validating a block\<close>

datatype validation_error = ErrBlockInvalid block_error | ErrWrongVersion | ErrWrongChainID | ErrWrongInitialHeight
  | ErrWrongHeight | ErrWrongLastBlockID | ErrWrongAppHash | ErrWrongConsensusHash | ErrWrongLastResultsHash
  | ErrWrongValidatorsHash | ErrWrongNextValidatorsHash | ErrInitialSignatures | ErrLastCommit commit_error
  | ErrNotAValidator | ErrTimeNotAfter | ErrTimeNotMedian | ErrTimeNotGenesis | ErrBelowInitialHeight
  | ErrEvidenceOverflow

definition validate_time :: "chain_state \<Rightarrow> header \<Rightarrow> commit \<Rightarrow> validation_error option" where
  "validate_time st h c =
     (if hd_Height h > sm_InitialHeight st then
        (if \<not> hd_Time h > sm_LastBlockTime st then Some ErrTimeNotAfter
         else if hd_Time h \<noteq> MedianTime c (sm_LastValidators st) then Some ErrTimeNotMedian
         else None)
      else if hd_Height h = sm_InitialHeight st then
        (if hd_Time h \<noteq> sm_LastBlockTime st then Some ErrTimeNotGenesis else None)
      else Some ErrBelowInitialHeight)"

definition validate_commit :: "libs \<Rightarrow> chain_state \<Rightarrow> header \<Rightarrow> commit \<Rightarrow> validation_error option option" where
  "validate_commit L st h c =
     (if hd_Height h = sm_InitialHeight st
      then Some (if length (c_Signatures c) \<noteq> 0 then Some ErrInitialSignatures else None)
      else map_option (\<lambda>(err, _). map_option ErrLastCommit err)
        (VerifyCommit (lib_env L) (lib_keys L) (sm_ChainID st) (Some (sm_LastValidators st)) (sm_LastBlockID st)
           (i64 (hd_Height h - 1)) (Some c)))"

definition validate_hashes :: "libs \<Rightarrow> chain_state \<Rightarrow> header \<Rightarrow> validation_error option option" where
  "validate_hashes L st h =
     (if hd_AppHash h \<noteq> sm_AppHash st then Some (Some ErrWrongAppHash)
      else if hd_ConsensusHash h \<noteq> HashConsensusParams (lib_env L) (sm_ConsensusParams st)
      then Some (Some ErrWrongConsensusHash)
      else if hd_LastResultsHash h \<noteq> sm_LastResultsHash st then Some (Some ErrWrongLastResultsHash)
      else do {
        valHash \<leftarrow> vals_Hash (lib_env L) (lib_keys L) (sm_Validators st);
        if hd_ValidatorsHash h \<noteq> valHash then Some (Some ErrWrongValidatorsHash)
        else do {
          nextValHash \<leftarrow> vals_Hash (lib_env L) (lib_keys L) (sm_NextValidators st);
          Some (if hd_NextValidatorsHash h \<noteq> nextValHash then Some ErrWrongNextValidatorsHash else None)
        }
      })"

text \<open>The next check runs when the one before it found nothing wrong.\<close>

definition and_then :: "'e option option \<Rightarrow> 'e option option \<Rightarrow> 'e option option" where
  "and_then r s = (case r of None \<Rightarrow> None | Some (Some e) \<Rightarrow> Some (Some e) | Some None \<Rightarrow> s)"

definition validateBlock :: "libs \<Rightarrow> chain_state \<Rightarrow> block \<Rightarrow> validation_error option option" where
  "validateBlock L st b =
     (let h = blk_Header b in
      and_then (map_option (map_option ErrBlockInvalid) (blk_ValidateBasic L b))
     (and_then (Some
        (if ver_App (hd_Version h) \<noteq> ver_App (sv_Consensus (sm_Version st))
            \<or> ver_Block (hd_Version h) \<noteq> ver_Block (sv_Consensus (sm_Version st)) then Some ErrWrongVersion
         else if hd_ChainID h \<noteq> sm_ChainID st then Some ErrWrongChainID
         else if sm_LastBlockHeight st = 0 \<and> hd_Height h \<noteq> sm_InitialHeight st then Some ErrWrongInitialHeight
         else if sm_LastBlockHeight st > 0 \<and> hd_Height h \<noteq> i64 (sm_LastBlockHeight st + 1) then Some ErrWrongHeight
         else if \<not> bid_Equals (hd_LastBlockID h) (sm_LastBlockID st) then Some ErrWrongLastBlockID
         else None))
     (and_then (validate_hashes L st h)
     (case blk_LastCommit b of
        None \<Rightarrow> None
      | Some c \<Rightarrow>
          and_then (validate_commit L st h c)
         (and_then (Some (if \<not> HasAddress (sm_Validators st) (hd_ProposerAddress h) then Some ErrNotAValidator else None))
         (and_then (Some (validate_time st h c))
            (do {
               got \<leftarrow> EvidenceData_ByteSize L (dt_Evidence (blk_Data b));
               Some (if got > ep_MaxBytes (cp_Evidence (sm_ConsensusParams st)) then Some ErrEvidenceOverflow else None)
             })))))))"

section \<open>Updating the state\<close>

datatype state_error = ErrChangingValidators val_error | ErrUpdatingParams params_error

text \<open>The change of the validators and the height from which it counts.\<close>

definition update_validators ::
  "chain_state \<Rightarrow> header \<Rightarrow> validator list \<Rightarrow> (state_error + validator_set \<times> int) option" where
  "update_validators st h validatorUpdates =
     (if length validatorUpdates > 0 then
        do {
          (err, vs) \<leftarrow> UpdateWithChangeSet validatorUpdates (sm_NextValidators st);
          Some (case err of Some e \<Rightarrow> Inl (ErrChangingValidators e) | None \<Rightarrow> Inr (vs, i64 (hd_Height h + 1 + 1)))
        }
      else Some (Inr (sm_NextValidators st, sm_LastHeightValidatorsChanged st)))"

definition next_state ::
  "(bytes \<Rightarrow> bytes) \<Rightarrow> chain_state \<Rightarrow> block_id \<Rightarrow> header \<Rightarrow> abci_responses \<Rightarrow> validator_set \<Rightarrow> int \<Rightarrow> consensus_params \<Rightarrow> chain_state" where
  "next_state H st blockID h ar nValSet lastHeightValsChanged nextParams =
     \<lparr>sm_Version =
        (if ar_ConsensusParamUpdates ar = None then sm_Version st
         else (sm_Version st)\<lparr>sv_Consensus := (sv_Consensus (sm_Version st))\<lparr>ver_App := cp_AppVersion nextParams\<rparr>\<rparr>),
      sm_ChainID = sm_ChainID st, sm_InitialHeight = sm_InitialHeight st,
      sm_LastBlockHeight = hd_Height h, sm_LastBlockID = blockID, sm_LastBlockTime = hd_Time h,
      sm_NextValidators = nValSet, sm_Validators = sm_NextValidators st,
      sm_LastValidators = sm_Validators st, sm_LastHeightValidatorsChanged = lastHeightValsChanged,
      sm_ConsensusParams = nextParams,
      sm_LastHeightConsensusParamsChanged =
        (if ar_ConsensusParamUpdates ar = None then sm_LastHeightConsensusParamsChanged st else i64 (hd_Height h + 1)),
      sm_LastResultsHash = ABCIResponsesResultsHash H ar, sm_AppHash = []\<rparr>"

definition updateState ::
  "(bytes \<Rightarrow> bytes) \<Rightarrow> chain_state \<Rightarrow> block_id \<Rightarrow> header \<Rightarrow> abci_responses \<Rightarrow> validator list \<Rightarrow> (state_error + chain_state) option" where
  "updateState H st blockID h ar validatorUpdates =
     attempt (update_validators st h validatorUpdates) (\<lambda>(nValSet, lastHeightValsChanged).
       do {
         nValSet \<leftarrow> IncrementProposerPriority 1 nValSet;
         let nextParams = UpdateConsensusParams (sm_ConsensusParams st) (ar_ConsensusParamUpdates ar);
         Some (case (if ar_ConsensusParamUpdates ar = None then None else ValidateConsensusParams nextParams) of
                 Some e \<Rightarrow> Inl (ErrUpdatingParams e)
               | None \<Rightarrow> Inr (next_state H st blockID h ar nValSet lastHeightValsChanged nextParams))
       })"

section \<open>Filters for the mempool\<close>

definition TxPreCheck :: "chain_state \<Rightarrow> (bytes \<Rightarrow> bool) option" where
  "TxPreCheck st =
     map_option (\<lambda>maxBytes tx. \<not> ComputeProtoSizeForTxs [tx] > maxBytes)
       (MaxDataBytesNoEvidence (bp_MaxBytes (cp_Block (sm_ConsensusParams st))) (vals_Size (sm_Validators st)))"

definition TxPostCheck :: "chain_state \<Rightarrow> int \<Rightarrow> bool" where
  "TxPostCheck st gasWanted =
     (let maxGas = bp_MaxGas (cp_Block (sm_ConsensusParams st)) in
      if maxGas = -1 then True else \<not> gasWanted < 0 \<and> \<not> gasWanted > maxGas)"

section \<open>The median and the honest votes\<close>

definition weight_of :: "weighted_time option \<Rightarrow> int" where
  "weight_of w = (case w of None \<Rightarrow> 0 | Some wt \<Rightarrow> wt_Weight wt)"

abbreviation weight_sum :: "weighted_time option list \<Rightarrow> int" where
  "weight_sum ws \<equiv> sum_list (map weight_of ws)"

lemma weight_of_simps [simp]: "weight_of None = 0" "weight_of (Some wt) = wt_Weight wt"
  by (simp_all add: weight_of_def)

definition weights_ok :: "weighted_time option list \<Rightarrow> bool" where
  "weights_ok ws \<longleftrightarrow> (\<forall>wt. Some wt \<in> set ws \<longrightarrow> 0 \<le> wt_Weight wt \<and> in_i64 (wt_Time wt))"

lemma weight_nonneg: "weights_ok ws \<Longrightarrow> w \<in> set ws \<Longrightarrow> 0 \<le> weight_of w"
  by (cases w) (auto simp: weights_ok_def)

lemma weight_sum_nonneg: "weights_ok ws \<Longrightarrow> 0 \<le> weight_sum ws"
  by (intro sum_list_nonneg) (auto simp: weight_nonneg)

lemma add_weights_eq:
  "weights_ok ws \<Longrightarrow> 0 \<le> acc \<Longrightarrow> acc + weight_sum ws \<le> MaxInt64 \<Longrightarrow> add_weights acc ws = acc + weight_sum ws"
proof (induction acc ws rule: add_weights.induct)
  case (3 acc wt ws)
  then have ok: "weights_ok ws" and w: "0 \<le> wt_Weight wt" by (auto simp: weights_ok_def)
  have "0 \<le> weight_sum ws" using weight_sum_nonneg [OF ok] .
  with 3 w have "i64 (acc + wt_Weight wt) = acc + wt_Weight wt"
    by (intro i64_id) (auto simp: in_i64_def)
  with 3 ok w show ?case by simp
qed (auto simp: weights_ok_def)

text \<open>
  The loop stops at an entry whose predecessors weigh less than the median and which reaches it.
\<close>

lemma median_loop_stops:
  assumes "weights_ok ws" "0 < m" "m \<le> weight_sum ws" "m \<le> MaxInt64"
  obtains us wt vs where "ws = us @ Some wt # vs" "median_loop m ws = wt_Time wt"
    "weight_sum us < m" "m \<le> weight_sum us + wt_Weight wt"
  using assms
proof (induction m ws arbitrary: thesis rule: median_loop.induct)
  case (2 m ws)
  from "2.prems"(2-) have "weights_ok ws" "m \<le> weight_sum ws" by (auto simp: weights_ok_def)
  with "2.IH" "2.prems"(3,5) obtain us wt vs where "ws = us @ Some wt # vs" "median_loop m ws = wt_Time wt"
    "weight_sum us < m" "m \<le> weight_sum us + wt_Weight wt" by blast
  then show ?case by (intro "2.prems"(1) [of "None # us" wt vs]) auto
next
  case (3 m wt ws)
  have w: "0 \<le> wt_Weight wt" "weights_ok ws" using "3.prems"(2) by (auto simp: weights_ok_def)
  show ?case
  proof (cases "m \<le> wt_Weight wt")
    case True
    then show ?thesis using "3.prems"(1) [of "[]" wt ws] "3.prems"(3) by simp
  next
    case False
    have i: "i64 (m - wt_Weight wt) = m - wt_Weight wt"
      using False w "3.prems"(3,5) by (intro i64_id) (auto simp: in_i64_def)
    with "3.IH" [OF False _ w(2)] False "3.prems"(4,5) w obtain us u vs where
      "ws = us @ Some u # vs" "median_loop (m - wt_Weight wt) ws = wt_Time u"
      "weight_sum us < m - wt_Weight wt" "m - wt_Weight wt \<le> weight_sum us + wt_Weight u"
      by auto
    then show ?thesis using False i by (intro "3.prems"(1) [of "Some wt # us" u vs]) auto
  qed
qed auto

lemma all_bad_weight:
  assumes "\<forall>u. Some u \<in> set xs \<longrightarrow> \<not> ok u"
  shows "weight_sum (filter (\<lambda>w. \<exists>wt. w = Some wt \<and> \<not> ok wt) xs) = weight_sum xs"
proof -
  have "weight_of w = 0" if "w \<in> set xs" "\<not> (\<exists>wt. w = Some wt \<and> \<not> ok wt)" for w
    by (cases w) (use that assms in auto)
  then show ?thesis by (intro sum_list_map_filter) auto
qed

lemma sorted_around:
  assumes "sorted (map time_key (us @ Some wt # vs))" "weights_ok (us @ Some wt # vs)"
  shows "Some u \<in> set us \<Longrightarrow> wt_Time u \<le> wt_Time wt" "Some u \<in> set vs \<Longrightarrow> wt_Time wt \<le> wt_Time u"
proof -
  have i: "in_i64 (wt_Time wt)" "Some u \<in> set us \<union> set vs \<Longrightarrow> in_i64 (wt_Time u)" for u
    using assms(2) by (auto simp: weights_ok_def)
  show "Some u \<in> set us \<Longrightarrow> wt_Time u \<le> wt_Time wt" "Some u \<in> set vs \<Longrightarrow> wt_Time wt \<le> wt_Time u"
    using assms(1) i i64_id by (fastforce simp: sorted_append time_key_def UnixNano_def)+
qed

text \<open>
  When the faulty votes weigh less than the median, the result lies between honest times: the weight
  up to the result is not all faulty, and neither is the weight from it on.
\<close>

lemma median_between:
  fixes ok :: "weighted_time \<Rightarrow> bool"
  assumes w: "weights_ok ws" and T: "weight_sum ws \<le> MaxInt64"
    and F: "weight_sum (filter (\<lambda>w. \<exists>wt. w = Some wt \<and> \<not> ok wt) ws) < weight_sum ws div 2"
  obtains a b where "Some a \<in> set ws" "ok a" "Some b \<in> set ws" "ok b"
    "wt_Time a \<le> weightedMedian ws (add_weights 0 ws)" "weightedMedian ws (add_weights 0 ws) \<le> wt_Time b"
proof -
  let ?T = "weight_sum ws" and ?bad = "\<lambda>w. \<exists>wt. w = Some wt \<and> \<not> ok wt" and ?ss = "sort_key time_key ws"
  have T0: "0 \<le> ?T" using weight_sum_nonneg [OF w] .
  have add: "add_weights 0 ws = ?T" using add_weights_eq [OF w, of 0] T by simp
  have F0: "0 \<le> weight_sum (filter ?bad ws)" using w by (intro weight_sum_nonneg) (auto simp: weights_ok_def)
  have ms: "mset ?ss = mset ws" by simp
  have sums: "weight_sum ?ss = ?T" "weight_sum (filter ?bad ?ss) = weight_sum (filter ?bad ws)"
    by (simp_all add: sum_mset_sum_list [symmetric])
  have wss: "weights_ok ?ss" using w by (simp add: weights_ok_def)
  have m: "0 < ?T div 2" "?T div 2 \<le> weight_sum ?ss" "?T div 2 \<le> MaxInt64"
    unfolding sums(1) using F F0 T T0 by linarith+
  obtain us wt vs where s: "?ss = us @ Some wt # vs" "median_loop (?T div 2) ?ss = wt_Time wt"
      "weight_sum us < ?T div 2" "?T div 2 \<le> weight_sum us + wt_Weight wt"
    using median_loop_stops [OF wss m] by blast
  have res: "weightedMedian ws (add_weights 0 ws) = wt_Time wt"
    using s(2) T0 unfolding weightedMedian_def add by simp
  have ord: "Some u \<in> set us \<Longrightarrow> wt_Time u \<le> wt_Time wt" "Some u \<in> set vs \<Longrightarrow> wt_Time wt \<le> wt_Time u" for u
    using sorted_around [of us wt vs] wss s(1) by (metis sorted_sort_key)+
  have bad: "weight_sum (filter ?bad us) + weight_sum (filter ?bad [Some wt]) + weight_sum (filter ?bad vs) < ?T div 2"
    using F unfolding sums(2) [symmetric] s(1) by (cases "ok wt") simp_all
  have T_split: "weight_sum us + wt_Weight wt + weight_sum vs = ?T" using sums(1) unfolding s(1) by simp
  have nn: "0 \<le> weight_sum (filter ?bad us)" "0 \<le> weight_sum (filter ?bad vs)"
    using wss unfolding s(1) by (auto intro!: weight_sum_nonneg simp: weights_ok_def)
  show ?thesis
  proof (cases "ok wt")
    case True
    then show ?thesis using that [of wt wt] s(1) res by (metis in_set_conv_decomp order_refl set_sort)
  next
    case False
    have "\<exists>a. Some a \<in> set us \<and> ok a"
      using all_bad_weight [of us ok] bad nn(2) s(4) False by auto
    moreover have "\<exists>b. Some b \<in> set vs \<and> ok b"
    proof (rule ccontr)
      assume "\<nexists>b. Some b \<in> set vs \<and> ok b"
      then have "weight_sum (filter ?bad vs) = weight_sum vs" by (intro all_bad_weight) blast
      moreover have "weight_sum (filter ?bad [Some wt]) = wt_Weight wt" using False by simp
      ultimately show False using bad nn(1) s(3) T_split by linarith
    qed
    ultimately obtain a b where "Some a \<in> set us" "ok a" "Some b \<in> set vs" "ok b" by blast
    moreover from this have "Some a \<in> set ws" "Some b \<in> set ws" using s(1) by (metis Un_iff list.set_intros(2) set_append set_sort)+
    ultimately show ?thesis using that ord res by metis
  qed
qed

section \<open>Proposals are valid\<close>

lemma hash_length:
  assumes "\<forall>x. length (H x) = 32"
  shows "length (HashFromByteSlices H xs) = 32"
  using assms hashFromByteSlices_length [of H xs] by (simp add: HashFromByteSlices_def)

lemma Data_Hash_length:
  assumes "\<forall>x. length (env_Sum (lib_env L) x) = 32" "Data_Hash L d = Some h"
  shows "length h = 32"
  using assms hash_length [OF assms(1)]
  by (auto simp: Data_Hash_def dah_Hash_def Let_def split: bind_splits if_splits)

lemma vals_Hash_length:
  assumes "\<forall>x. length (env_Sum E x) = 32" "vals_Hash E B vals = Some h"
  shows "length h = 32"
  using assms hash_length [OF assms(1)] by (auto simp: vals_Hash_def split: bind_splits)

lemma validate_hash_32: "length h = 32 \<Longrightarrow> ValidateHash h = None"
  by (simp add: ValidateHash_def)

text \<open>What the state must satisfy for the blocks made from it, and what the proposer must hold.\<close>

definition state_proposes :: "chain_state \<Rightarrow> bool" where
  "state_proposes st \<longleftrightarrow> ver_Block (sv_Consensus (sm_Version st)) = BlockProtocol \<and> length (sm_ChainID st) \<le> MaxChainIDLen
     \<and> bid_ValidateBasic (sm_LastBlockID st) = None \<and> ValidateHash (sm_LastResultsHash st) = None
     \<and> 0 < sm_InitialHeight st \<and> 0 \<le> sm_LastBlockHeight st \<and> sm_LastBlockHeight st < MaxInt64
     \<and> (sm_LastBlockHeight st = 0 \<or> sm_InitialHeight st \<le> sm_LastBlockHeight st)"

definition next_height :: "chain_state \<Rightarrow> int" where
  "next_height st = (if sm_LastBlockHeight st = 0 then sm_InitialHeight st else sm_LastBlockHeight st + 1)"

definition commit_for :: "libs \<Rightarrow> chain_state \<Rightarrow> commit \<Rightarrow> bool" where
  "commit_for L st c \<longleftrightarrow> c_ValidateBasic c = None
     \<and> (if sm_LastBlockHeight st = 0 then c_Signatures c = []
        else (\<exists>vs. VerifyCommit (lib_env L) (lib_keys L) (sm_ChainID st) (Some (sm_LastValidators st)) (sm_LastBlockID st)
                (sm_LastBlockHeight st) (Some c) = Some (None, vs))
             \<and> sm_LastBlockTime st < MedianTime c (sm_LastValidators st))"

definition evidence_for :: "libs \<Rightarrow> chain_state \<Rightarrow> evidence list \<Rightarrow> bool" where
  "evidence_for L st evs \<longleftrightarrow> first_bad (ev_ValidateBasic (lib_env L) (lib_wrappers L) (lib_keys L)) evs = Some None
     \<and> (\<exists>n. EvidenceData_ByteSize L evs = Some n \<and> n \<le> ep_MaxBytes (cp_Evidence (sm_ConsensusParams st)))"

lemma made_block:
  assumes "sm_MakeBlock L st height txs evs roots ms (Some c) addr = Some (b, parts)"
  obtains lch dh eh vh nvh where
    "blk_Header b = \<lparr>hd_Version = sv_Consensus (sm_Version st), hd_ChainID = sm_ChainID st, hd_Height = height,
       hd_Time = (if height = sm_InitialHeight st then sm_LastBlockTime st else MedianTime c (sm_LastValidators st)),
       hd_LastBlockID = sm_LastBlockID st, hd_LastCommitHash = lch, hd_DataHash = dh, hd_ValidatorsHash = vh,
       hd_NextValidatorsHash = nvh, hd_ConsensusHash = HashConsensusParams (lib_env L) (sm_ConsensusParams st),
       hd_AppHash = sm_AppHash st, hd_LastResultsHash = sm_LastResultsHash st, hd_EvidenceHash = eh,
       hd_ProposerAddress = addr\<rparr>"
    "blk_LastCommit b = Some c" "dt_Evidence (blk_Data b) = evs"
    "c_Hash (lib_env L) (Some c) = Some lch" "Data_Hash L (blk_Data b) = Some dh"
    "EvidenceList_Hash (lib_env L) (lib_keys L) evs = Some eh"
    "vals_Hash (lib_env L) (lib_keys L) (sm_Validators st) = Some vh"
    "vals_Hash (lib_env L) (lib_keys L) (sm_NextValidators st) = Some nvh"
  using assms
  by (auto simp: sm_MakeBlock_def populated_block_def MakeBlock_def fillHeader_def fill_in_def Populate_def Let_def split: bind_splits if_splits)

lemma and_then_simps [simp]: "and_then (Some None) s = s"
  by (simp add: and_then_def)

lemma made_block_valid:
  assumes mk: "sm_MakeBlock L st (next_height st) txs evs roots ms (Some c) addr = Some (b, parts)"
    and H: "\<forall>x. length (env_Sum (lib_env L) x) = 32" and st: "state_proposes st"
    and c: "commit_for L st c" and e: "evidence_for L st evs"
    and addr: "HasAddress (sm_Validators st) addr" "length addr = AddressSize"
  shows "validateBlock L st b = Some None"
proof -
  from made_block [OF mk] obtain lch dh eh vh nvh where
    h: "blk_Header b = \<lparr>hd_Version = sv_Consensus (sm_Version st), hd_ChainID = sm_ChainID st, hd_Height = next_height st,
       hd_Time = (if next_height st = sm_InitialHeight st then sm_LastBlockTime st else MedianTime c (sm_LastValidators st)),
       hd_LastBlockID = sm_LastBlockID st, hd_LastCommitHash = lch, hd_DataHash = dh, hd_ValidatorsHash = vh,
       hd_NextValidatorsHash = nvh, hd_ConsensusHash = HashConsensusParams (lib_env L) (sm_ConsensusParams st),
       hd_AppHash = sm_AppHash st, hd_LastResultsHash = sm_LastResultsHash st, hd_EvidenceHash = eh,
       hd_ProposerAddress = addr\<rparr>"
    and b: "blk_LastCommit b = Some c" "dt_Evidence (blk_Data b) = evs" "c_Hash (lib_env L) (Some c) = Some lch"
      "Data_Hash L (blk_Data b) = Some dh" "EvidenceList_Hash (lib_env L) (lib_keys L) evs = Some eh"
    and vals: "vals_Hash (lib_env L) (lib_keys L) (sm_Validators st) = Some vh"
      "vals_Hash (lib_env L) (lib_keys L) (sm_NextValidators st) = Some nvh" .
  have len: "length lch = 32" "length dh = 32" "length eh = 32" "length vh = 32" "length nvh = 32"
    using b(3-5) vals hash_length [OF H] Data_Hash_length [OF H] vals_Hash_length [OF H]
    by (auto simp: c_Hash_def EvidenceList_Hash_def split: if_splits bind_splits)
  have height: "0 < next_height st" using st by (auto simp: state_proposes_def next_height_def)
  have hd: "hd_ValidateBasic (blk_Header b) = None"
    using st len height addr(2) H
    by (simp add: h hd_ValidateBasic_def state_proposes_def validate_hash_32 HashConsensusParams_def)
  have basic: "blk_ValidateBasic L b = Some None"
    using hd b c e by (simp add: blk_ValidateBasic_def Let_def h commit_for_def evidence_for_def)
  have i: "i64 (sm_LastBlockHeight st + 1) = sm_LastBlockHeight st + 1" "i64 (sm_LastBlockHeight st) = sm_LastBlockHeight st"
    using st by (auto simp: state_proposes_def in_i64_def intro!: i64_id)
  have chain: "validate_hashes L st (blk_Header b) = Some None"
    using vals by (simp add: validate_hashes_def h)
  have commit: "validate_commit L st (blk_Header b) c = Some None"
    using c i(2) st by (auto simp: validate_commit_def h commit_for_def next_height_def state_proposes_def)
  have tm: "validate_time st (blk_Header b) c = None"
    using c st by (auto simp: validate_time_def h commit_for_def next_height_def state_proposes_def)
  show ?thesis
    unfolding validateBlock_def Let_def basic chain b(1) b(2)
    using i(1) st e addr(1) commit tm
    by (auto simp: h next_height_def state_proposes_def evidence_for_def)
qed

section \<open>Validator sets stay well formed\<close>

text \<open>The bound leaves room for one round on top of priorities within twice the largest total power.\<close>

definition vals_good :: "validator_set \<Rightarrow> bool" where
  "vals_good vals \<longleftrightarrow> vals_ok vals \<and> (\<forall>v \<in> set (vs_Validators vals). \<bar>val_ProposerPriority v\<bar> \<le> 3 * 2 ^ 60)"

definition same_powers :: "validator_set \<Rightarrow> validator_set \<Rightarrow> bool" where
  "same_powers vals vals' \<longleftrightarrow> addrs (vs_Validators vals') = addrs (vs_Validators vals)
     \<and> map vpower (vs_Validators vals') = map vpower (vs_Validators vals)"

lemma round_priorities:
  assumes ok: "vs_ok vs" and B: "\<forall>v \<in> set vs. \<bar>prio v\<bar> \<le> B"
  shows "\<forall>v \<in> set (snd (ideal_round vs)). \<bar>prio v\<bar> \<le> B + total_power vs"
proof
  fix v assume "v \<in> set (snd (ideal_round vs))"
  moreover have len: "length (snd (ideal_round vs)) = length vs" using ideal_round_simps(4) ok by (simp add: vs_ok_def)
  ultimately obtain i where i: "i < length vs" "v = snd (ideal_round vs) ! i" by (auto simp: in_set_conv_nth)
  have m: "vs ! i \<in> set vs" using i by simp
  have p: "0 < vpower (vs ! i)" "vpower (vs ! i) \<le> total_power vs"
    using ok m member_le_sum_list_int [of "vs ! i" vs val_VotingPower] by (auto simp: vs_ok_def less_imp_le)
  have "\<bar>prio (vs ! i)\<bar> \<le> B" using B m by blast
  then show "\<bar>prio v\<bar> \<le> B + total_power vs"
    using p round_nth [OF ok i(1)] unfolding i(2) by auto
qed

lemma increment_good:
  assumes "vals_good vals"
  obtains vals' where "IncrementProposerPriority 1 vals = Some vals'" "vals_good vals'" "same_powers vals vals'"
proof -
  let ?vs = "vs_Validators vals" and ?P = "total_power (vs_Validators vals)"
  have ok: "vals_ok vals" and pr: "\<forall>v \<in> set ?vs. \<bar>prio v\<bar> \<le> 3 * 2 ^ 60" using assms by (auto simp: vals_good_def)
  have P: "?P \<le> 2 ^ 60 - 1" using ok by (simp add: vals_ok_def)
  have r: "\<forall>v \<in> set ?vs. in_i64 (prio v)" using pr by (fastforce simp: in_i64_def abs_le_iff)
  have sp: "spread_le (6 * 2 ^ 60) ?vs"
    unfolding spread_le_def
  proof (intro ballI)
    fix v w assume "v \<in> set ?vs" "w \<in> set ?vs"
    then have "\<bar>prio v\<bar> \<le> 3 * 2 ^ 60" "\<bar>prio w\<bar> \<le> 3 * 2 ^ 60" using pr by auto
    then show "prio v - prio w \<le> 6 * 2 ^ 60" by simp
  qed
  obtain vs0 vals' where i: "IncrementProposerPriority 1 vals = Some vals'" "addrs vs0 = addrs ?vs"
      "map vpower vs0 = map vpower ?vs" "\<forall>v \<in> set vs0. \<bar>prio v\<bar> \<le> 2 * ?P"
      "vs_Validators vals' = ideal_rounds (nat 1) vs0" "vs_totalVotingPower vals' = ?P"
    using increment_ideal [OF ok r sp, of 1] P by auto
  have v: "vs_Validators vals' = snd (ideal_round vs0)" using i(5) by simp
  have "set (map vpower vs0) = set (map vpower ?vs)" by (simp only: i(3))
  then have ok0: "vs_ok vs0"
    using ok i(2) unfolding vs_ok_def vals_ok_def by (auto simp: image_iff set_eq_iff) (metis map_is_Nil_conv, metis)
  have tot: "total_power vs0 = ?P" using i(3) by simp
  note same = ideal_round_simps [of vs0]
  have d: "vs0 \<noteq> []" "distinct (addrs vs0)" using ok0 by (auto simp: vs_ok_def)
  have "vs_ok (snd (ideal_round vs0))" using vs_ok_round [OF ok0] .
  then have "vals_ok vals'"
    using same(2) [OF d] i(3,6) P unfolding vals_ok_def vs_ok_def v by simp
  moreover have "\<forall>v \<in> set (vs_Validators vals'). \<bar>prio v\<bar> \<le> 3 * 2 ^ 60"
    using round_priorities [OF ok0 i(4)] P unfolding v tot by fastforce
  moreover have "same_powers vals vals'"
    using same(1,2) [OF d] i(2,3) by (simp add: same_powers_def v)
  ultimately show ?thesis using that i(1) by (simp add: vals_good_def)
qed

lemma change_good:
  assumes "vals_good vals" "cs \<noteq> []"
  obtains err vals' where "UpdateWithChangeSet cs vals = Some (err, vals')" "err = None \<Longrightarrow> vals_good vals'"
proof -
  have wf: "vals_wf vals" and pr: "\<forall>v \<in> set (vs_Validators vals). \<bar>prio v\<bar> \<le> 3 * 2 ^ 60"
    using assms(1) by (auto simp: vals_good_def vals_wf_ok)
  show ?thesis
  proof (cases "change_valid True (vs_Validators vals) cs")
    case True
    from change_accepted [OF wf pr assms(2) True] obtain vals' where
      "updateWithChangeSet cs True vals = Some (None, vals')" "set_ok vals'" by blast
    moreover from this(2) have "vals_good vals'"
      by (fastforce simp: set_ok_def vals_good_def vals_ok_def)
    ultimately show ?thesis using that by (simp add: UpdateWithChangeSet_def)
  next
    case False
    from change_rejected [OF wf assms(2) False] show ?thesis
      using that by (auto simp: UpdateWithChangeSet_def)
  qed
qed

text \<open>A well-formed state: its three validator sets, its heights and its parameters.\<close>

definition chain_wf :: "chain_state \<Rightarrow> bool" where
  "chain_wf st \<longleftrightarrow> vals_good (sm_NextValidators st) \<and> vals_good (sm_Validators st)
     \<and> (0 < sm_LastBlockHeight st \<longrightarrow> vals_good (sm_LastValidators st))
     \<and> 0 < sm_InitialHeight st \<and> (sm_LastBlockHeight st = 0 \<or> sm_InitialHeight st \<le> sm_LastBlockHeight st)
     \<and> ValidateConsensusParams (sm_ConsensusParams st) = None"

lemma update_validators_good:
  assumes "vals_good (sm_NextValidators st)"
  obtains e where "update_validators st h vus = Some (Inl e)"
  | vs lh where "update_validators st h vus = Some (Inr (vs, lh))" "vals_good vs"
      "vus = [] \<and> vs = sm_NextValidators st \<or> vus \<noteq> [] \<and> UpdateWithChangeSet vus (sm_NextValidators st) = Some (None, vs)"
proof (cases "vus = []")
  case True
  then show ?thesis using that(2) assms by (simp add: update_validators_def)
next
  case False
  from change_good [OF assms this] obtain err vs where
    u: "UpdateWithChangeSet vus (sm_NextValidators st) = Some (err, vs)" "err = None \<Longrightarrow> vals_good vs" by metis
  then show ?thesis using that False by (cases err) (simp_all add: update_validators_def)
qed

text \<open>On a well-formed state the update returns, and the state it returns is well formed.\<close>

lemma updateState_good:
  assumes wf: "chain_wf st" and h: "sm_InitialHeight st \<le> hd_Height h"
  obtains e where "updateState H st blockID h ar vus = Some (Inl e)"
  | st' n lh nVals where "updateState H st blockID h ar vus = Some (Inr st')" "chain_wf st'"
      "st' = next_state H st blockID h ar n lh (UpdateConsensusParams (sm_ConsensusParams st) (ar_ConsensusParamUpdates ar))"
      "vus = [] \<and> nVals = sm_NextValidators st \<or> vus \<noteq> [] \<and> UpdateWithChangeSet vus (sm_NextValidators st) = Some (None, nVals)"
      "IncrementProposerPriority 1 nVals = Some n" "same_powers nVals n"
proof -
  let ?params = "UpdateConsensusParams (sm_ConsensusParams st) (ar_ConsensusParamUpdates ar)"
  have good: "vals_good (sm_NextValidators st)" "vals_good (sm_Validators st)" using wf by (simp_all add: chain_wf_def)
  from good(1) show ?thesis
  proof (cases rule: update_validators_good [where h = h and vus = vus])
    case (1 e)
    then show ?thesis using that(1) by (simp add: updateState_def)
  next
    case (2 vs lh)
    obtain n where n: "IncrementProposerPriority 1 vs = Some n" "vals_good n" "same_powers vs n" using increment_good [OF 2(2)] .
    let ?st' = "next_state H st blockID h ar n lh ?params"
    let ?bad = "if ar_ConsensusParamUpdates ar = None then None else ValidateConsensusParams ?params"
    have u: "updateState H st blockID h ar vus = Some (case ?bad of Some e \<Rightarrow> Inl (ErrUpdatingParams e) | None \<Rightarrow> Inr ?st')"
      using 2(1) n(1) by (simp add: updateState_def Let_def)
    show ?thesis
    proof (cases ?bad)
      case None
      then have "ValidateConsensusParams ?params = None"
        using wf by (auto simp: chain_wf_def UpdateConsensusParams_def split: if_splits)
      then have "chain_wf ?st'" using wf good n(2) h by (simp add: chain_wf_def next_state_def)
      then show ?thesis using that(2) [of ?st'] u None 2(3) n by simp
    next
      case (Some e)
      then show ?thesis using that(1) u by simp
    qed
  qed
qed

text \<open>The state a genesis document gives is well formed, when it lists validators.\<close>

lemma new_set_good:
  assumes "NewValidatorSet valz = Some vals" "valz \<noteq> []"
  shows "vals_good vals"
proof -
  have wf: "vals_wf empty_set" by (simp add: vals_wf_def empty_set_def)
  obtain vals0 where u: "updateWithChangeSet valz False empty_set = Some (None, vals0)"
      "IncrementProposerPriority 1 vals0 = Some vals"
    using assms by (auto simp: NewValidatorSet_def split: bind_splits if_splits)
  have "change_valid False (vs_Validators empty_set) valz"
    using change_rejected [OF wf assms(2)] u(1) by fastforce
  moreover have "\<forall>v \<in> set (vs_Validators empty_set). \<bar>prio v\<bar> \<le> 3 * 2 ^ 60" by (simp add: empty_set_def)
  ultimately have "set_ok vals0" using change_accepted [OF wf _ assms(2)] u(1) by fastforce
  then have "vals_good vals0" by (fastforce simp: set_ok_def vals_good_def vals_ok_def)
  then show ?thesis using increment_good u(2) by (metis option.inject)
qed

lemma completed_length: "complete_validators E vs = Inr vs' \<Longrightarrow> length vs' = length vs"
  by (induction vs arbitrary: vs') (auto split: if_splits sum.splits)

lemma default_params_valid: "ValidateConsensusParams DefaultConsensusParams = None"
  by code_simp

lemma completed_doc:
  assumes "ValidateAndComplete E now g = Inr g'"
  obtains params where "0 < gd_InitialHeight g'" "gd_ConsensusParams g' = Some params" "ValidateConsensusParams params = None"
    "length (gd_Validators g') = length (gd_Validators g)"
  using assms that default_params_valid completed_length [of E "gd_Validators g"]
  by (auto simp: ValidateAndComplete_def Let_def split: if_splits option.splits sum.splits)

lemma genesis_good:
  assumes "MakeGenesisState E now g = Some (Inr st)" "gd_Validators g \<noteq> []"
  shows "chain_wf st" "sm_LastBlockHeight st = 0"
proof -
  obtain g' where g': "ValidateAndComplete E now g = Inr g'"
    using assms(1) by (auto simp: MakeGenesisState_def split: sum.splits)
  from completed_doc [OF g'] obtain params where
    p: "0 < gd_InitialHeight g'" "gd_ConsensusParams g' = Some params" "ValidateConsensusParams params = None"
      "length (gd_Validators g') = length (gd_Validators g)" .
  let ?valz = "map (\<lambda>v. NewValidator E (gv_PubKey v) (gv_Power v)) (gd_Validators g')"
  have ne: "?valz \<noteq> []" using p(4) assms(2) by auto
  obtain nobody vals nextVals where v: "NewValidatorSet ?valz = Some vals" "CopyIncrementProposerPriority 1 vals = Some nextVals"
      "st = \<lparr>sm_Version = InitStateVersion, sm_ChainID = gd_ChainID g', sm_InitialHeight = gd_InitialHeight g',
               sm_LastBlockHeight = 0, sm_LastBlockID = zero_block_id, sm_LastBlockTime = gd_GenesisTime g',
               sm_NextValidators = nextVals, sm_Validators = vals, sm_LastValidators = nobody,
               sm_LastHeightValidatorsChanged = gd_InitialHeight g', sm_ConsensusParams = params,
               sm_LastHeightConsensusParamsChanged = gd_InitialHeight g', sm_LastResultsHash = [],
               sm_AppHash = gd_AppHash g'\<rparr>"
    using assms(1) g' p(2) ne by (auto simp: MakeGenesisState_def Let_def split: bind_splits)
  have "vals_good vals" using new_set_good [OF v(1) ne] .
  moreover from increment_good [OF this] have "vals_good nextVals"
    using v(2) by (metis CopyIncrementProposerPriority_def option.inject)
  ultimately show "chain_wf st" "sm_LastBlockHeight st = 0" using p by (simp_all add: chain_wf_def v(3))
qed

section \<open>The weights of a commit\<close>

lemma weight_commit_time:
  "weight_of (commit_time vals cs) = (if cs_Absent cs then 0 else pw (vs_Validators vals) (cs_ValidatorAddress cs))"
  by (auto simp: commit_time_def pw_def pmap_def snd_GetByAddress split: option.splits)

lemma commit_weight:
  assumes ok: "vals_ok vals" and d: "distinct (map cs_ValidatorAddress (filter (\<lambda>cs. \<not> cs_Absent cs) sigs))"
  shows "weight_sum (map (commit_time vals) sigs) \<le> total_power (vs_Validators vals)"
proof -
  let ?vs = "vs_Validators vals" and ?as = "map cs_ValidatorAddress (filter (\<lambda>cs. \<not> cs_Absent cs) sigs)"
  have wf: "vals_wf vals" using ok by (simp add: vals_wf_ok)
  have "weight_sum (map (commit_time vals) sigs) = sum_list (map (pw ?vs) ?as)"
    by (induction sigs) (auto simp: weight_commit_time)
  also have "\<dots> = (\<Sum>a\<in>set ?as. pw ?vs a)" using sum_list_distinct_conv_sum_set [OF d] .
  also have "\<dots> \<le> (\<Sum>a\<in>set ?as \<union> set (addrs ?vs). pw ?vs a)"
    using pw_nonneg [OF wf] by (intro sum_mono2) auto
  also have "\<dots> = total_power ?vs"
    using wf by (subst total_power_pw [of ?vs "set ?as \<union> set (addrs ?vs)"]) (auto simp: vals_wf_def)
  finally show ?thesis .
qed

lemma commit_weights_ok:
  assumes "vals_ok vals" "\<forall>cs \<in> set sigs. cs_Absent cs \<or> in_i64 (cs_Timestamp cs)"
  shows "weights_ok (map (commit_time vals) sigs)"
  unfolding weights_ok_def
proof (intro allI impI)
  fix wt assume "Some wt \<in> set (map (commit_time vals) sigs)"
  then obtain cs where cs: "cs \<in> set sigs" "commit_time vals cs = Some wt" by auto
  have "0 \<le> weight_of (commit_time vals cs)"
    using pw_nonneg [of vals] assms(1) unfolding weight_commit_time by (simp add: vals_wf_ok)
  then have "0 \<le> wt_Weight wt" using cs by simp
  then show "0 \<le> wt_Weight wt \<and> in_i64 (wt_Time wt)"
    using cs assms(2) by (auto simp: commit_time_def split: if_splits option.splits)
qed

lemma weight_filter_le:
  assumes "weights_ok (map f xs)" "\<And>x. x \<in> set xs \<Longrightarrow> P (f x) \<Longrightarrow> Q x"
  shows "weight_sum (filter P (map f xs)) \<le> weight_sum (map f (filter Q xs))"
  using assms
proof (induction xs)
  case (Cons x xs)
  then have "weights_ok (map f xs)" by (auto simp: weights_ok_def)
  then have "weight_sum (filter P (map f xs)) \<le> weight_sum (map f (filter Q xs))" using Cons by auto
  moreover have "0 \<le> weight_of (f x)" using weight_nonneg Cons.prems(1) by fastforce
  moreover have "P (f x) \<longrightarrow> Q x" using Cons.prems(2) by simp
  ultimately show ?case by auto
qed simp

lemma i64_next: "in_i64 t \<Longrightarrow> i64 (t + 2 ^ 64) = t"
  using i64_mod [of "t + 2 ^ 64"] i64_mod [of t] by (simp del: power_numeral)

section \<open>Samples\<close>

definition quad_vals :: "int \<Rightarrow> validator_set" where
  "quad_vals p = \<lparr>vs_Validators = map (\<lambda>b. \<lparr>val_Address = replicate 20 b, val_PubKey = Some [b], val_VotingPower = p, val_ProposerPriority = 0\<rparr>) [1, 2, 3, 4],
     vs_Proposer = None, vs_totalVotingPower = 0\<rparr>"

definition timed_commit :: "int list \<Rightarrow> commit" where
  "timed_commit ts = \<lparr>c_Height = 3, c_Round = 0, c_BlockID = toy_block 9,
     c_Signatures = map (\<lambda>(b, t). \<lparr>cs_BlockIDFlag = BlockIDFlagCommit, cs_ValidatorAddress = replicate 20 b, cs_Timestamp = t, cs_Signature = [b]\<rparr>)
       (zip [1, 2, 3, 4] ts)\<rparr>"

definition init_chain :: chain_state where
  "init_chain = \<lparr>sm_Version = InitStateVersion, sm_ChainID = [97], sm_InitialHeight = 1, sm_LastBlockHeight = 0,
     sm_LastBlockID = zero_block_id, sm_LastBlockTime = 9, sm_NextValidators = toy_vals, sm_Validators = toy_vals,
     sm_LastValidators = empty_set, sm_LastHeightValidatorsChanged = 1,
     sm_ConsensusParams = DefaultConsensusParams\<lparr>cp_Block := \<lparr>bp_MaxBytes = 2000, bp_MaxGas = 7\<rparr>\<rparr>,
     sm_LastHeightConsensusParamsChanged = 1, sm_LastResultsHash = [], sm_AppHash = []\<rparr>"

definition toy_genesis :: genesis_doc where
  "toy_genesis = \<lparr>gd_GenesisTime = 5, gd_ChainID = [97], gd_InitialHeight = 0, gd_ConsensusParams = None,
     gd_Validators = [\<lparr>gv_Address = [], gv_PubKey = [1], gv_Power = 5\<rparr>, \<lparr>gv_Address = replicate 20 2, gv_PubKey = [2], gv_Power = 7\<rparr>],
     gd_AppHash = [1]\<rparr>"

definition no_answers :: abci_responses where
  "no_answers = \<lparr>ar_DeliverTxs = [], ar_ValidatorUpdates = [], ar_ConsensusParamUpdates = None\<rparr>"

section \<open>The states of a chain\<close>

text \<open>A chain grows from its genesis document, one block at a time, with whatever the application answers.\<close>

inductive chain_reach :: "env \<Rightarrow> int \<Rightarrow> genesis_doc \<Rightarrow> chain_state \<Rightarrow> bool" for E now g where
  genesis: "MakeGenesisState E now g = Some (Inr st) \<Longrightarrow> chain_reach E now g st"
| block: "chain_reach E now g st \<Longrightarrow> hd_Height h = next_height st
    \<Longrightarrow> updateState (env_Sum E) st blockID h ar vus = Some (Inr st') \<Longrightarrow> chain_reach E now g st'"

lemma next_height_initial: "chain_wf st \<Longrightarrow> sm_InitialHeight st \<le> next_height st"
  by (auto simp: chain_wf_def next_height_def)

lemma reach_wf:
  assumes "chain_reach E now g st" "gd_Validators g \<noteq> []"
  shows "chain_wf st"
  using assms(1)
proof (induction rule: chain_reach.induct)
  case (genesis st)
  then show ?case using genesis_good(1) assms(2) by blast
next
  case (block st h blockID ar vus st')
  have "sm_InitialHeight st \<le> hd_Height h" using next_height_initial block by simp
  from updateState_good [OF block.IH this, of "env_Sum E" blockID ar vus] show ?case using block(3) by auto
qed

lemma update_keeps_chain:
  assumes wf: "chain_wf st" and h: "hd_Height h = next_height st"
  shows "\<exists>r. updateState H st blockID h ar vus = Some r
      \<and> (\<forall>st'. r = Inr st' \<longrightarrow> chain_wf st' \<and> sm_LastBlockHeight st' = next_height st
          \<and> sm_Validators st' = sm_NextValidators st \<and> sm_LastValidators st' = sm_Validators st
          \<and> (\<exists>nVals. same_powers nVals (sm_NextValidators st')
               \<and> (vus = [] \<and> nVals = sm_NextValidators st \<or> UpdateWithChangeSet vus (sm_NextValidators st) = Some (None, nVals))))"
proof -
  have "sm_InitialHeight st \<le> hd_Height h" using next_height_initial [OF wf] h by simp
  from updateState_good [OF wf this, of H blockID ar vus] show ?thesis
  proof cases
    case 1
    then show ?thesis by simp
  next
    case (2 st' n lh nVals)
    then show ?thesis using h by (intro exI [of _ "Inr st'"]) (auto simp: next_state_def)
  qed
qed

section \<open>Properties\<close>







text \<open>
  C20: the median time can be one that a single faulty validator chose, although more than two thirds signed.
  Of four validators with the least power, three sign, and a time before the two honest ones is the time
  of the block. With any power, a time whose 64-bit nanoseconds fall between the honest ones is the time
  of the block, even when it is 2^64 nanoseconds (584 years) after them.
\<close>

theorem median_time_escapes:
  assumes "in_i64 t" "in_i64 a" "in_i64 b" "0 < p" "p \<le> 2 ^ 58"
  shows "(t < a \<and> a < b \<longrightarrow> MedianTime (timed_commit [t, a, b]) (quad_vals 1) = t)
    \<and> (a < t \<and> t < b \<and> 2 \<le> p \<longrightarrow> MedianTime (timed_commit [t + 2 ^ 64, a, b]) (quad_vals p) = t + 2 ^ 64)"
proof (intro conjI impI; elim conjE)
  have i: "i64 t = t" "i64 a = a" "i64 b = b" "i64 (t + 18446744073709551616) = t"
    using assms(1-3) i64_next [OF assms(1)] by simp_all
  note defs = MedianTime_def timed_commit_def quad_vals_def commit_time_def cs_Absent_def snd_GetByAddress weightedMedian_def
    time_key_def UnixNano_def i
  have one: "i64 1 = 1" "i64 2 = 2" "i64 3 = 3" "(3 :: int) sdiv 2 = 1" by (simp_all add: in_i64_def)
  show "t < a \<Longrightarrow> a < b \<Longrightarrow> MedianTime (timed_commit [t, a, b]) (quad_vals 1) = t"
    by (simp add: defs one)
  have many: "i64 p = p" "i64 (2 * p) = 2 * p" "i64 (3 * p) = 3 * p"
      "i64 (3 * p div 2 - p) = 3 * p div 2 - p" "3 * p sdiv 2 = 3 * p div 2"
    using assms(4,5) by (auto simp: in_i64_def intro!: i64_id)
  show "a < t \<Longrightarrow> t < b \<Longrightarrow> 2 \<le> p \<Longrightarrow> MedianTime (timed_commit [t + 2 ^ 64, a, b]) (quad_vals p) = t + 2 ^ 64"
    by (auto simp: defs many)
qed

theorem median_time_escapes_witness:
  "MedianTime (timed_commit [5, 100, 101]) (quad_vals 1) = 5
    \<and> MedianTime (timed_commit [15 + 2 ^ 64, 10, 20]) (quad_vals 10) = 15 + 2 ^ 64"
  using median_time_escapes [of 5 100 101 1] median_time_escapes [of 15 10 20 10] by (simp add: in_i64_def)

end
