(* ===== verification/EvidencePool.thy ===== *)
theory EvidencePool
  imports ChainState VoteSetCommit
begin

text \<open>
  The evidence pool: \<open>internal/evidence/verify.go\<close> and \<open>internal/evidence/pool.go\<close>.

  The databases are outside the repository. The pool's own store is modelled by its contents: the pending
  evidence by key in the order of the keys (the height, then the hash: \<open>orderedcode\<close> keeps the order), with
  the message that is stored for each, and the committed keys. Operations of the store do not fail. The
  state store and the block store are the parameter \<open>stores\<close>. The mutexes and the waiting
  of the list readers are left out: the operations run one after the other.

  \<open>verify\<close> rewrites the evidence it is given when only the information for the application is
  wrong, so the evidence is returned too.
\<close>

section \<open>Verification\<close>

record stores =
  sto_LoadValidators :: "int \<Rightarrow> validator_set option"
  sto_LoadBlockMeta :: "int \<Rightarrow> block_meta option"
  sto_LoadBlockCommit :: "int \<Rightarrow> commit option"
  sto_Height :: int

datatype verify_error = ErrEvNotValidator | ErrEvHRS | ErrEvAddress | ErrEvSameBlock | ErrEvPubKey | ErrEvSignature
  | ErrEvTrusting commit_error | ErrEvDerived | ErrEvCommit commit_error | ErrEvMonotoneTime | ErrEvSameHash
  | ErrEvMissingBlock | ErrEvTooOld | ErrEvValidators | ErrEvABCI evidence_error | ErrEvNoHeader | ErrEvNoCommit
  | ErrEvLatestTime | ErrEvCommitted | ErrEvDuplicate | ErrEvPersist

definition VerifyDuplicateVote ::
  "env \<Rightarrow> duplicate_vote \<Rightarrow> bytes \<Rightarrow> validator_set \<Rightarrow> verify_error option option" where
  "VerifyDuplicateVote E e chainID valSet =
     do {
       a \<leftarrow> dve_VoteA e;
       (case snd (GetByAddress valSet (v_ValidatorAddress a)) of
          None \<Rightarrow> Some (Some ErrEvNotValidator)
        | Some val \<Rightarrow>
            do {
              b \<leftarrow> dve_VoteB e;
              if v_Height a \<noteq> v_Height b \<or> v_Round a \<noteq> v_Round b \<or> v_Type a \<noteq> v_Type b then Some (Some ErrEvHRS)
              else if v_ValidatorAddress a \<noteq> v_ValidatorAddress b then Some (Some ErrEvAddress)
              else if bid_Equals (v_BlockID a) (v_BlockID b) then Some (Some ErrEvSameBlock)
              else do {
                pubKey \<leftarrow> val_PubKey val;
                if env_Address E pubKey \<noteq> v_ValidatorAddress a then Some (Some ErrEvPubKey)
                else do {
                  bzA \<leftarrow> VoteSignBytes E chainID (v_ToProto a);
                  if \<not> env_VerifySignature E pubKey bzA (v_Signature a) then Some (Some ErrEvSignature)
                  else do {
                    bzB \<leftarrow> VoteSignBytes E chainID (v_ToProto b);
                    Some (if \<not> env_VerifySignature E pubKey bzB (v_Signature b) then Some ErrEvSignature else None)
                  }
                }
              }
            })
     }"

definition DefaultTrustLevel :: fraction where
  "DefaultTrustLevel = \<lparr>Numerator = 1, Denominator = 3\<rparr>"

text \<open>The first check depends on whether the conflicting block has the height of the common header.\<close>

definition attack_link ::
  "libs \<Rightarrow> light_attack \<Rightarrow> header \<Rightarrow> header \<Rightarrow> validator_set \<Rightarrow> verify_error option option" where
  "attack_link L e common trusted commonVals =
     do {
       h \<leftarrow> lca_Header e;
       if hd_Height common \<noteq> hd_Height h then
         do {
           b \<leftarrow> lca_ConflictingBlock e;
           sh \<leftarrow> lb_SignedHeader b;
           (err, _) \<leftarrow> VerifyCommitLightTrusting (lib_env L) (lib_keys L) (hd_ChainID trusted) (Some commonVals)
             (sh_Commit sh) DefaultTrustLevel;
           Some (map_option ErrEvTrusting err)
         }
       else do {
         invalid \<leftarrow> ConflictingHeaderIsInvalid e trusted;
         Some (if invalid then Some ErrEvDerived else None)
       }
     }"

definition VerifyLightClientAttack ::
  "libs \<Rightarrow> light_attack \<Rightarrow> signed_header \<Rightarrow> signed_header \<Rightarrow> validator_set \<Rightarrow> verify_error option option" where
  "VerifyLightClientAttack L e commonHeader trustedHeader commonVals =
     do {
       common \<leftarrow> sh_Header commonHeader;
       trusted \<leftarrow> sh_Header trustedHeader;
       h \<leftarrow> lca_Header e;
       b \<leftarrow> lca_ConflictingBlock e;
       and_then (attack_link L e common trusted commonVals)
         (do {
            c \<leftarrow> lca_Commit e;
            (err, _) \<leftarrow> VerifyCommitLight (lib_env L) (lib_keys L) (hd_ChainID trusted) (lb_ValidatorSet b) (c_BlockID c)
              (hd_Height h) (Some c);
            Some (case err of
                Some ce \<Rightarrow> Some (ErrEvCommit ce)
              | None \<Rightarrow>
                  (if hd_Height h > hd_Height trusted \<and> hd_Time h > hd_Time trusted then Some ErrEvMonotoneTime
                   else if hd_Hash (lib_env L) (lib_wrappers L) trusted = hd_Hash (lib_env L) (lib_wrappers L) h
                   then Some ErrEvSameHash
                   else None))
          })
     }"

definition getSignedHeader :: "stores \<Rightarrow> int \<Rightarrow> verify_error + signed_header" where
  "getSignedHeader S height =
     (case sto_LoadBlockMeta S height of
        None \<Rightarrow> Inl ErrEvNoHeader
      | Some bm \<Rightarrow>
          (case sto_LoadBlockCommit S height of
             None \<Rightarrow> Inl ErrEvNoCommit
           | Some c \<Rightarrow> Inr \<lparr>sh_Header = Some (bm_Header bm), sh_Commit = Some c\<rparr>))"

text \<open>
  The trusted header of a light client attack: the common one, the one at the height of the
  conflicting block, or the latest when there is none, which must not be older than the conflicting block.
\<close>

definition trusted_header :: "stores \<Rightarrow> light_attack \<Rightarrow> signed_header \<Rightarrow> (verify_error + signed_header) option" where
  "trusted_header S e commonHeader =
     do {
       h \<leftarrow> lca_Header e;
       if lca_CommonHeight e = hd_Height h then Some (Inr commonHeader)
       else case getSignedHeader S (hd_Height h) of
         Inr sh \<Rightarrow> Some (Inr sh)
       | Inl _ \<Rightarrow>
           (case getSignedHeader S (sto_Height S) of
              Inl err \<Rightarrow> Some (Inl err)
            | Inr sh \<Rightarrow>
                do {
                  latest \<leftarrow> sh_Header sh;
                  Some (if hd_Time latest < hd_Time h then Inl ErrEvLatestTime else Inr sh)
                })
     }"

section \<open>The pool\<close>

record ev_pool =
  evp_pending :: "((int \<times> bytes) \<times> pb_evidence) list"
  evp_committed :: "(int \<times> bytes) \<rightharpoonup> int"
  evp_evidenceList :: "evidence list"
  evp_evidenceSize :: "32 word"
  evp_state :: chain_state
  evp_consensusBuffer :: "(vote \<times> vote) list"
  evp_pruningHeight :: int
  evp_pruningTime :: int

text \<open>The key of a piece of evidence in both buckets; computing the hash may panic.\<close>

definition ev_key :: "libs \<Rightarrow> evidence \<Rightarrow> (int \<times> bytes) option" where
  "ev_key L ev =
     do { height \<leftarrow> ev_Height ev; hash \<leftarrow> ev_Hash (lib_env L) (lib_wrappers L) (lib_keys L) ev; Some (height, hash) }"

definition isPending :: "libs \<Rightarrow> ev_pool \<Rightarrow> evidence \<Rightarrow> bool option" where
  "isPending L p ev = map_option (\<lambda>key. map_of (evp_pending p) key \<noteq> None) (ev_key L ev)"

definition isCommitted :: "libs \<Rightarrow> ev_pool \<Rightarrow> evidence \<Rightarrow> bool option" where
  "isCommitted L p ev = map_option (\<lambda>key. evp_committed p key \<noteq> None) (ev_key L ev)"

text \<open>A write into the ordered store.\<close>

fun store_set :: "'k :: linorder \<Rightarrow> 'v \<Rightarrow> ('k \<times> 'v) list \<Rightarrow> ('k \<times> 'v) list" where
  "store_set k v [] = [(k, v)]"
| "store_set k v ((k', v') # kvs) =
     (if k < k' then (k, v) # (k', v') # kvs else if k = k' then (k, v) # kvs else (k', v') # store_set k v kvs)"

text \<open>Adding pending evidence counts it, whether its key was there before or not.\<close>

definition addPendingEvidence :: "libs \<Rightarrow> ev_pool \<Rightarrow> evidence \<Rightarrow> (verify_error option \<times> ev_pool) option" where
  "addPendingEvidence L p ev =
     (case EvidenceToProto (lib_keys L) ev of
        Inl _ \<Rightarrow> Some (Some ErrEvPersist, p)
      | Inr evpb \<Rightarrow>
          (if \<not> list_all time_in_range (evidence_times evpb) then Some (Some ErrEvPersist, p)
           else do {
             key \<leftarrow> ev_key L ev;
             Some (None, p\<lparr>evp_pending := store_set key evpb (evp_pending p),
                           evp_evidenceSize := evp_evidenceSize p + 1\<rparr>)
           }))"

definition time_Sub :: "int \<Rightarrow> int \<Rightarrow> int" where
  "time_Sub t u = clip64 (t - u)"

definition isExpired :: "ev_pool \<Rightarrow> int \<Rightarrow> int \<Rightarrow> bool" where
  "isExpired p height time =
     (let params = cp_Evidence (sm_ConsensusParams (evp_state p)) in
      i64 (sm_LastBlockHeight (evp_state p) - height) > ep_MaxAgeNumBlocks params
      \<and> time_Sub (sm_LastBlockTime (evp_state p)) time > ep_MaxAgeDuration params)"

text \<open>The outcome of \<open>verify\<close>: an error, the pool and the evidence as it is afterwards.\<close>

type_synonym verify_outcome = "(verify_error option \<times> ev_pool \<times> evidence) option"

definition verify_duplicate :: "libs \<Rightarrow> stores \<Rightarrow> ev_pool \<Rightarrow> int \<Rightarrow> duplicate_vote \<Rightarrow> verify_outcome" where
  "verify_duplicate L S p evTime dve =
     do {
       a \<leftarrow> dve_VoteA dve;
       (case sto_LoadValidators S (v_Height a) of
          None \<Rightarrow> Some (Some ErrEvValidators, p, DuplicateVoteEvidence dve)
        | Some valSet \<Rightarrow>
            do {
              err \<leftarrow> VerifyDuplicateVote (lib_env L) dve (sm_ChainID (evp_state p)) valSet;
              (case err of
                 Some e \<Rightarrow> Some (Some e, p, DuplicateVoteEvidence dve)
               | None \<Rightarrow>
                   do {
                     val \<leftarrow> snd (GetByAddress valSet (v_ValidatorAddress a));
                     abci \<leftarrow> dve_ValidateABCI dve val valSet evTime;
                     (case abci of
                        None \<Rightarrow> Some (None, p, DuplicateVoteEvidence dve)
                      | Some e \<Rightarrow>
                          do {
                            dve' \<leftarrow> dve_GenerateABCI dve val valSet evTime;
                            (_, p') \<leftarrow> addPendingEvidence L p (DuplicateVoteEvidence dve');
                            Some (Some (ErrEvABCI e), p', DuplicateVoteEvidence dve')
                          })
                   })
            })
     }"

definition verify_attack :: "libs \<Rightarrow> stores \<Rightarrow> ev_pool \<Rightarrow> int \<Rightarrow> light_attack \<Rightarrow> verify_outcome" where
  "verify_attack L S p evTime l =
     (let ev = LightClientAttackEvidence l in
      case getSignedHeader S (lca_CommonHeight l) of
        Inl e \<Rightarrow> Some (Some e, p, ev)
      | Inr commonHeader \<Rightarrow>
          (case sto_LoadValidators S (lca_CommonHeight l) of
             None \<Rightarrow> Some (Some ErrEvValidators, p, ev)
           | Some commonVals \<Rightarrow>
               do {
                 trusted \<leftarrow> trusted_header S l commonHeader;
                 (case trusted of
                    Inl e \<Rightarrow> Some (Some e, p, ev)
                  | Inr trustedHeader \<Rightarrow>
                      do {
                        err \<leftarrow> VerifyLightClientAttack L l commonHeader trustedHeader commonVals;
                        (case err of
                           Some e \<Rightarrow> Some (Some e, p, ev)
                         | None \<Rightarrow>
                             do {
                               abci \<leftarrow> lca_ValidateABCI l commonVals trustedHeader evTime;
                               (case abci of
                                  None \<Rightarrow> Some (None, p, ev)
                                | Some e \<Rightarrow>
                                    do {
                                      l' \<leftarrow> lca_GenerateABCI l commonVals trustedHeader evTime;
                                      (_, p') \<leftarrow> addPendingEvidence L p (LightClientAttackEvidence l');
                                      Some (Some (ErrEvABCI e), p', LightClientAttackEvidence l')
                                    })
                             })
                      })
               }))"

definition evp_verify :: "libs \<Rightarrow> stores \<Rightarrow> ev_pool \<Rightarrow> evidence \<Rightarrow> verify_outcome" where
  "evp_verify L S p ev =
     do {
       evHeight \<leftarrow> ev_Height ev;
       let st = evp_state p;
       let params = cp_Evidence (sm_ConsensusParams st);
       let ageNumBlocks = i64 (sm_LastBlockHeight st - evHeight);
       (case sto_LoadBlockMeta S evHeight of
          None \<Rightarrow> Some (Some ErrEvMissingBlock, p, ev)
        | Some blockMeta \<Rightarrow>
            (let evTime = hd_Time (bm_Header blockMeta);
                 ageDuration = time_Sub (sm_LastBlockTime st) evTime
             in if ageDuration > ep_MaxAgeDuration params \<and> ageNumBlocks > ep_MaxAgeNumBlocks params
                then Some (Some ErrEvTooOld, p, ev)
                else case ev of
                  DuplicateVoteEvidence dve \<Rightarrow> verify_duplicate L S p evTime dve
                | LightClientAttackEvidence l \<Rightarrow> verify_attack L S p evTime l))
     }"

section \<open>Operations of the pool\<close>

definition evp_AddEvidence :: "libs \<Rightarrow> stores \<Rightarrow> ev_pool \<Rightarrow> evidence \<Rightarrow> (verify_error option \<times> ev_pool) option" where
  "evp_AddEvidence L S p ev =
     do {
       pending \<leftarrow> isPending L p ev;
       committed \<leftarrow> isCommitted L p ev;
       if pending \<or> committed then Some (None, p)
       else do {
         (err, p1, ev1) \<leftarrow> evp_verify L S p ev;
         if err \<noteq> None then Some (err, p1)
         else do {
           (err, p2) \<leftarrow> addPendingEvidence L p1 ev1;
           if err \<noteq> None then Some (err, p2)
           else Some (None, p2\<lparr>evp_evidenceList := evp_evidenceList p2 @ [ev1]\<rparr>)
         }
       }
     }"

definition ReportConflictingVotes :: "vote \<Rightarrow> vote \<Rightarrow> ev_pool \<Rightarrow> ev_pool" where
  "ReportConflictingVotes voteA voteB p = p\<lparr>evp_consensusBuffer := evp_consensusBuffer p @ [(voteA, voteB)]\<rparr>"

text \<open>
  One piece of evidence of a block: light client attacks are verified even when they are pending. A
  failure to store evidence that was verified is only logged.
\<close>

definition check_one :: "libs \<Rightarrow> stores \<Rightarrow> ev_pool \<Rightarrow> evidence \<Rightarrow> verify_outcome" where
  "check_one L S p ev =
     do {
       pending \<leftarrow> (if (case ev of LightClientAttackEvidence _ \<Rightarrow> True | _ \<Rightarrow> False) then Some False else isPending L p ev);
       if pending then Some (None, p, ev)
       else do {
         committed \<leftarrow> isCommitted L p ev;
         if committed then Some (Some ErrEvCommitted, p, ev)
         else do {
           (err, p1, ev1) \<leftarrow> evp_verify L S p ev;
           if err \<noteq> None then Some (err, p1, ev1)
           else do { (_, p2) \<leftarrow> addPendingEvidence L p1 ev1; Some (None, p2, ev1) }
         }
       }
     }"

text \<open>The loop of \<open>CheckEvidence\<close>, with the hashes so far; the list is the block's evidence afterwards.\<close>

fun check_list ::
  "libs \<Rightarrow> stores \<Rightarrow> bytes list \<Rightarrow> ev_pool \<Rightarrow> evidence list \<Rightarrow> (verify_error option \<times> ev_pool \<times> evidence list) option" where
  "check_list L S hashes p [] = Some (None, p, [])"
| "check_list L S hashes p (ev # evs) =
     do {
       (err, p1, ev1) \<leftarrow> check_one L S p ev;
       if err \<noteq> None then Some (err, p1, ev1 # evs)
       else do {
         hash \<leftarrow> ev_Hash (lib_env L) (lib_wrappers L) (lib_keys L) ev1;
         if hash \<in> set hashes then Some (Some ErrEvDuplicate, p1, ev1 # evs)
         else do {
           (err, p2, evs2) \<leftarrow> check_list L S (hash # hashes) p1 evs;
           Some (err, p2, ev1 # evs2)
         }
       }
     }"

definition evp_CheckEvidence ::
  "libs \<Rightarrow> stores \<Rightarrow> ev_pool \<Rightarrow> evidence list \<Rightarrow> (verify_error option \<times> ev_pool \<times> evidence list) option" where
  "evp_CheckEvidence L S p evList = check_list L S [] p evList"

text \<open>Removal of the evidence with the given hashes from the list.\<close>

definition removeEvidenceFromList :: "libs \<Rightarrow> bytes set \<Rightarrow> evidence list \<Rightarrow> evidence list option" where
  "removeEvidenceFromList L hashes evs =
     do {
       hs \<leftarrow> map_all (ev_Hash (lib_env L) (lib_wrappers L) (lib_keys L)) evs;
       Some (map snd (filter (\<lambda>(h, _). h \<notin> hashes) (zip hs evs)))
     }"

text \<open>
  The loop of \<open>markEvidenceAsCommitted\<close>: the keys to delete are collected in a batch that
  is written after the loop, the committed keys are written at once.
\<close>

fun mark_loop ::
  "libs \<Rightarrow> int \<Rightarrow> ev_pool \<Rightarrow> (int \<times> bytes) list \<Rightarrow> bytes set \<Rightarrow> evidence list
     \<Rightarrow> (ev_pool \<times> (int \<times> bytes) list \<times> bytes set) option" where
  "mark_loop L height p batch hashes [] = Some (p, batch, hashes)"
| "mark_loop L height p batch hashes (ev # evs) =
     do {
       key \<leftarrow> ev_key L ev;
       let pending = (map_of (evp_pending p) key \<noteq> None);
       mark_loop L height (p\<lparr>evp_committed := (evp_committed p)(key \<mapsto> height)\<rparr>)
         (if pending then key # batch else batch) (if pending then insert (snd key) hashes else hashes) evs
     }"

definition delete_keys :: "'k list \<Rightarrow> ('k \<times> 'v) list \<Rightarrow> ('k \<times> 'v) list" where
  "delete_keys ks kvs = filter (\<lambda>(k, _). k \<notin> set ks) kvs"

definition drop_batch :: "libs \<Rightarrow> (int \<times> bytes) list \<Rightarrow> bytes set \<Rightarrow> ev_pool \<Rightarrow> ev_pool option" where
  "drop_batch L batch hashes p =
     do {
       evs \<leftarrow> removeEvidenceFromList L hashes (evp_evidenceList p);
       Some (p\<lparr>evp_pending := delete_keys batch (evp_pending p), evp_evidenceList := evs,
               evp_evidenceSize := evp_evidenceSize p - of_nat (card hashes)\<rparr>)
     }"

definition markEvidenceAsCommitted :: "libs \<Rightarrow> ev_pool \<Rightarrow> evidence list \<Rightarrow> int \<Rightarrow> ev_pool option" where
  "markEvidenceAsCommitted L p evidence height =
     do {
       (p1, batch, hashes) \<leftarrow> mark_loop L height p [] {} evidence;
       if hashes = {} then Some p1 else drop_batch L batch hashes p1
     }"

text \<open>
  The evidence in the order of the keys that fits into \<open>maxBytes\<close> (-1 is no limit), its size, and
  whether a stored message could not be converted.
\<close>

fun list_loop ::
  "libs \<Rightarrow> int \<Rightarrow> pb_evidence list \<Rightarrow> int \<Rightarrow> evidence list \<Rightarrow> pb_evidence list \<Rightarrow> (evidence list \<times> int \<times> bool) option" where
  "list_loop L maxBytes pbs totalSize evidence [] = Some (evidence, totalSize, True)"
| "list_loop L maxBytes pbs totalSize evidence (evpb # rest) =
     (let pbs' = pbs @ [evpb];
          evSize = int (length (rep_message_field 0x0a (map (pbev_Marshal (env_StdTime (lib_env L))) pbs')))
      in if maxBytes \<noteq> -1 \<and> evSize > maxBytes then Some (evidence, totalSize, True)
         else case EvidenceFromProto (lib_env L) (lib_wrappers L) (lib_keys L) evpb of
           None \<Rightarrow> None
         | Some (Inl _) \<Rightarrow> Some ([], totalSize, False)
         | Some (Inr ev) \<Rightarrow> list_loop L maxBytes pbs' evSize (evidence @ [ev]) rest)"

definition listEvidence :: "libs \<Rightarrow> ev_pool \<Rightarrow> int \<Rightarrow> (evidence list \<times> int \<times> bool) option" where
  "listEvidence L p maxBytes = list_loop L maxBytes [] 0 [] (map snd (evp_pending p))"

definition evp_PendingEvidence :: "libs \<Rightarrow> ev_pool \<Rightarrow> int \<Rightarrow> (evidence list \<times> int) option" where
  "evp_PendingEvidence L p maxBytes =
     (if evp_evidenceSize p = 0 then Some ([], 0)
      else map_option (\<lambda>(evs, n, _). (evs, n)) (listEvidence L p maxBytes))"

text \<open>
  The loop of \<open>batchExpiredPendingEvidence\<close> stops at the first piece that has not expired and returns when
  that one will; a stored message that cannot be converted is skipped.
\<close>

fun expired_loop ::
  "libs \<Rightarrow> ev_pool \<Rightarrow> (int \<times> bytes) list \<Rightarrow> bytes set \<Rightarrow> ((int \<times> bytes) \<times> pb_evidence) list
     \<Rightarrow> (int \<times> int \<times> (int \<times> bytes) list \<times> bytes set) option" where
  "expired_loop L p batch hashes [] =
     Some (sm_LastBlockHeight (evp_state p), sm_LastBlockTime (evp_state p), batch, hashes)"
| "expired_loop L p batch hashes ((key, evpb) # rest) =
     (case EvidenceFromProto (lib_env L) (lib_wrappers L) (lib_keys L) evpb of
        None \<Rightarrow> None
      | Some (Inl _) \<Rightarrow> expired_loop L p batch hashes rest
      | Some (Inr ev) \<Rightarrow>
          do {
            height \<leftarrow> ev_Height ev;
            let params = cp_Evidence (sm_ConsensusParams (evp_state p));
            if \<not> isExpired p height (ev_Time ev)
            then Some (i64 (height + ep_MaxAgeNumBlocks params + 1),
                       ev_Time ev + ep_MaxAgeDuration params + 10 ^ 9, batch, hashes)
            else do {
              hash \<leftarrow> ev_Hash (lib_env L) (lib_wrappers L) (lib_keys L) ev;
              expired_loop L p (key # batch) (insert hash hashes) rest
            }
          })"

definition removeExpiredPendingEvidence :: "libs \<Rightarrow> ev_pool \<Rightarrow> ev_pool option" where
  "removeExpiredPendingEvidence L p =
     do {
       (height, time, batch, hashes) \<leftarrow> expired_loop L p [] {} (evp_pending p);
       p1 \<leftarrow> (if hashes = {} then Some p else drop_batch L batch hashes p);
       Some (p1\<lparr>evp_pruningHeight := height, evp_pruningTime := time\<rparr>)
     }"

text \<open>The evidence of two conflicting votes of the buffer; None when there is none to form.\<close>

definition buffered_evidence :: "stores \<Rightarrow> chain_state \<Rightarrow> vote \<times> vote \<Rightarrow> duplicate_vote option option" where
  "buffered_evidence S st votes =
     (let (voteA, voteB) = votes;
          made = (\<lambda>t vals. map_option (\<lambda>r. case r of Inl _ \<Rightarrow> None | Inr dve \<Rightarrow> Some dve)
                    (NewDuplicateVoteEvidence (Some voteA) (Some voteB) t (Some vals)))
      in if v_Height voteA = sm_LastBlockHeight st then made (sm_LastBlockTime st) (sm_LastValidators st)
         else if v_Height voteA < sm_LastBlockHeight st then
           (case sto_LoadValidators S (v_Height voteA) of
              None \<Rightarrow> Some None
            | Some vals \<Rightarrow>
                (case sto_LoadBlockMeta S (v_Height voteA) of
                   None \<Rightarrow> Some None
                 | Some bm \<Rightarrow> made (hd_Time (bm_Header bm)) vals))
         else Some None)"

fun buffer_loop :: "libs \<Rightarrow> stores \<Rightarrow> chain_state \<Rightarrow> ev_pool \<Rightarrow> (vote \<times> vote) list \<Rightarrow> ev_pool option" where
  "buffer_loop L S st p [] = Some p"
| "buffer_loop L S st p (votes # rest) =
     do {
       made \<leftarrow> buffered_evidence S st votes;
       (case made of
          None \<Rightarrow> buffer_loop L S st p rest
        | Some dve \<Rightarrow>
            do {
              pending \<leftarrow> isPending L p (DuplicateVoteEvidence dve);
              committed \<leftarrow> isCommitted L p (DuplicateVoteEvidence dve);
              if pending \<or> committed then buffer_loop L S st p rest
              else do {
                (err, p1) \<leftarrow> addPendingEvidence L p (DuplicateVoteEvidence dve);
                if err \<noteq> None then buffer_loop L S st p1 rest
                else buffer_loop L S st (p1\<lparr>evp_evidenceList := evp_evidenceList p1 @ [DuplicateVoteEvidence dve]\<rparr>) rest
              }
            })
     }"

definition processConsensusBuffer :: "libs \<Rightarrow> stores \<Rightarrow> chain_state \<Rightarrow> ev_pool \<Rightarrow> ev_pool option" where
  "processConsensusBuffer L S st p =
     map_option (\<lambda>p. p\<lparr>evp_consensusBuffer := []\<rparr>) (buffer_loop L S st p (evp_consensusBuffer p))"

definition evp_Update :: "libs \<Rightarrow> stores \<Rightarrow> ev_pool \<Rightarrow> chain_state \<Rightarrow> evidence list \<Rightarrow> ev_pool option" where
  "evp_Update L S p st ev =
     (if sm_LastBlockHeight st \<le> sm_LastBlockHeight (evp_state p) then None
      else do {
        p1 \<leftarrow> processConsensusBuffer L S st p;
        p2 \<leftarrow> markEvidenceAsCommitted L (p1\<lparr>evp_state := st\<rparr>) ev (sm_LastBlockHeight st);
        if evp_evidenceSize p2 > 0 \<and> sm_LastBlockHeight st > evp_pruningHeight p2
           \<and> sm_LastBlockTime st > evp_pruningTime p2
        then removeExpiredPendingEvidence L p2 else Some p2
      })"

text \<open>A pool over the contents of an existing store: the size is that of the list that is loaded.\<close>

definition NewPool ::
  "libs \<Rightarrow> chain_state \<Rightarrow> ((int \<times> bytes) \<times> pb_evidence) list \<Rightarrow> ((int \<times> bytes) \<rightharpoonup> int) \<Rightarrow> ev_pool option option" where
  "NewPool L st pending committed =
     do {
       p \<leftarrow> removeExpiredPendingEvidence L
         \<lparr>evp_pending = pending, evp_committed = committed, evp_evidenceList = [], evp_evidenceSize = 0,
          evp_state = st, evp_consensusBuffer = [], evp_pruningHeight = 0, evp_pruningTime = zero_time\<rparr>;
       (evList, _, ok) \<leftarrow> listEvidence L p (-1);
       Some (if ok then Some (p\<lparr>evp_evidenceSize := of_nat (length evList), evp_evidenceList := evList\<rparr>) else None)
     }"

section \<open>Conflicting votes give valid evidence\<close>

lemma v_Verify_ok:
  assumes "v_Verify E chainID pk v = Some None"
  obtains bz where "env_Address E pk = v_ValidatorAddress v" "VoteSignBytes E chainID (v_ToProto v) = Some bz"
    "env_VerifySignature E pk bz (v_Signature v)"
  using assms by (auto simp: v_Verify_def split: if_splits bind_splits)

text \<open>The two votes of a conflict: both verified at the same position, for different blocks.\<close>

lemma conflict_votes:
  assumes inv: "vst_inv E s" and vb: "v_ValidateBasic v = None"
    and add: "addVote E (Some v) s = Some ((added, Some (ErrVoteConflictingVotes c v')), s')"
  obtains i where "good_vote E s i c" "good_vote E s i v" "v' = v" "v_BlockID c \<noteq> v_BlockID v"
proof -
  have "\<exists>i. addressed s i v"
  proof (rule ccontr)
    assume no: "\<nexists>i. addressed s i v"
    then have "\<not> addressed s (nat (v_ValidatorIndex v)) v" by blast
    with add show False
      by (auto simp: addVote_def addressed_def Let_def GetByIndex_def go_index_def split: if_splits option.splits prod.splits bind_splits)
  qed
  then obtain i where a: "addressed s i v" by blast
  let ?k = "bid_Key (v_BlockID v)"
  from add obtain pk where kn: "vst_getVote (int i) ?k s = Some None"
    and pk: "val_PubKey (vs_Validators (vst_valSet s) ! i) = Some pk" "v_Verify E (vst_chainID s) pk v = Some None"
    unfolding addVote_placed [OF a]
    by (auto simp: v_Verify_def split: bind_splits option.splits if_splits)
  have good: "good_vote E s i v" using a vb pk by (simp add: good_vote_def addressed_def Let_def)
  have i: "i < length (vst_votes s)" using good_vote_index [OF inv good] by auto
  obtain s1 where "vst_addVerifiedVote v ?k (vpower (vs_Validators (vst_valSet s) ! i)) s
      = Some ((takes s i ?k, vst_votes s ! i), s1)"
    using addVerifiedVote_ok [OF inv good refl kn] by blast
  with add kn pk have ex: "vst_votes s ! i = Some c" "v' = v"
    unfolding addVote_placed [OF a] by (auto split: option.splits if_splits)
  have "good_vote E s i c" using inv i ex(1) by (simp add: vst_inv_def)
  moreover have "v_BlockID c \<noteq> v_BlockID v"
    using kn i ex(1) by (auto simp: vst_getVote_def)
  ultimately show ?thesis using that good ex(2) by blast
qed

lemma find_address_index:
  "find_address vs a k = (x, Some v) \<Longrightarrow> \<exists>j < length vs. x = i32 (k + int j)"
proof (induction vs a k rule: find_address.induct)
  case (2 val vs a k)
  show ?case
  proof (cases "val_Address val = a")
    case True
    then show ?thesis using "2.prems" by (intro exI [of _ 0]) simp
  next
    case False
    with 2 obtain j where "j < length vs" "x = i32 (k + 1 + int j)" by auto
    then show ?thesis by (intro exI [of _ "Suc j"]) (simp add: algebra_simps)
  qed
qed simp

lemma GetByAddress_nth:
  assumes "distinct (addrs (vs_Validators vals))" "length (vs_Validators vals) < 2 ^ 31" "i < length (vs_Validators vals)"
  obtains k where "GetByAddress vals (val_Address (vs_Validators vals ! i)) = (k, Some (vs_Validators vals ! i))" "k \<noteq> -1"
proof -
  let ?a = "val_Address (vs_Validators vals ! i)"
  have "snd (GetByAddress vals ?a) = Some (vs_Validators vals ! i)"
    using find_distinct [OF assms(1)] assms(3) by (simp add: snd_GetByAddress)
  then obtain k where k: "GetByAddress vals ?a = (k, Some (vs_Validators vals ! i))" by (cases "GetByAddress vals ?a") simp
  then obtain j where "j < length (vs_Validators vals)" "k = i32 (int j)"
    using find_address_index [of "vs_Validators vals" ?a 0] by (auto simp: GetByAddress_def)
  moreover from this have "i32 (int j) = int j" using assms(2) by (intro i32_id) (auto simp: in_i32_def)
  ultimately show ?thesis using that k by simp
qed

lemma conflict_evidence:
  assumes a: "good_vote E s i a" and b: "good_vote E s i b" and d: "v_BlockID a \<noteq> v_BlockID b"
    and ok: "vals_ok (vst_valSet s)" and len: "length (vs_Validators (vst_valSet s)) < 2 ^ 31"
  obtains dve val where "NewDuplicateVoteEvidence (Some a) (Some b) t (Some (vst_valSet s)) = Some (Inr dve)"
    "dve_ValidateBasic dve = None" "VerifyDuplicateVote E dve (vst_chainID s) (vst_valSet s) = Some None"
    "snd (GetByAddress (vst_valSet s) (v_ValidatorAddress a)) = Some val" "dve_ValidateABCI dve val (vst_valSet s) t = Some None"
proof -
  let ?vals = "vst_valSet s" and ?val = "vs_Validators (vst_valSet s) ! i"
  obtain pk where g: "i < length (vs_Validators ?vals)" "v_ValidatorAddress a = val_Address ?val" "v_ValidatorAddress b = val_Address ?val"
      "v_ValidateBasic a = None" "v_ValidateBasic b = None" "val_PubKey ?val = Some pk"
      "v_Verify E (vst_chainID s) pk a = Some None" "v_Verify E (vst_chainID s) pk b = Some None"
      "v_Height a = v_Height b" "v_Round a = v_Round b" "v_Type a = v_Type b"
    using a b by (auto simp: good_vote_def Let_def)
  obtain bza bzb where sig: "env_Address E pk = val_Address ?val" "VoteSignBytes E (vst_chainID s) (v_ToProto a) = Some bza"
      "env_VerifySignature E pk bza (v_Signature a)" "VoteSignBytes E (vst_chainID s) (v_ToProto b) = Some bzb"
      "env_VerifySignature E pk bzb (v_Signature b)"
    using v_Verify_ok [OF g(7)] v_Verify_ok [OF g(8)] g(2) by metis
  have dist: "distinct (addrs (vs_Validators ?vals))" using ok by (simp add: vals_ok_def)
  from GetByAddress_nth [OF dist len g(1)] obtain k where
    k: "GetByAddress ?vals (val_Address ?val) = (k, Some ?val)" "k \<noteq> -1" by metis
  have keys: "bid_Key (v_BlockID a) \<noteq> bid_Key (v_BlockID b)"
    using bid_Key_inj [OF _ good_bid_ok [OF a] good_bid_ok [OF b]] d by blast
  define swap where "swap = (\<not> bytes_compare (bid_Key (v_BlockID a)) (bid_Key (v_BlockID b)) = -1)"
  define x where "x = (if swap then b else a)"
  define y where "y = (if swap then a else b)"
  let ?dve = "\<lparr>dve_VoteA = Some x, dve_VoteB = Some y, dve_TotalVotingPower = total_power (vs_Validators ?vals),
      dve_ValidatorPower = val_VotingPower ?val, dve_Timestamp = t\<rparr>"
  have new: "NewDuplicateVoteEvidence (Some a) (Some b) t (Some ?vals) = Some (Inr ?dve)"
    using k TotalVotingPower_ok [OF ok] g(2) by (simp add: NewDuplicateVoteEvidence_def x_def y_def swap_def)
  have "bid_Key (v_BlockID x) < bid_Key (v_BlockID y)"
    using keys unfolding x_def y_def swap_def bytes_compare_eq_less by auto
  then have "\<not> bytes_compare (bid_Key (v_BlockID x)) (bid_Key (v_BlockID y)) \<ge> 0"
    by (simp add: not_le bytes_compare_less)
  moreover have "v_ValidateBasic x = None" "v_ValidateBasic y = None" using g(4,5) by (simp_all add: x_def y_def)
  ultimately have basic: "dve_ValidateBasic ?dve = None" by (simp add: dve_ValidateBasic_def)
  have "VerifyDuplicateVote E ?dve (vst_chainID s) ?vals = Some None"
    using g k d sig by (cases swap) (auto simp: VerifyDuplicateVote_def x_def y_def)
  moreover have "dve_ValidateABCI ?dve ?val ?vals t = Some None"
    using TotalVotingPower_ok [OF ok] by (simp add: dve_ValidateABCI_def)
  ultimately show ?thesis using that new basic k g(2) by simp
qed

section \<open>What a block's evidence check accepts\<close>

lemma map_of_store_set [simp]: "map_of (store_set k v kvs) k' = (if k' = k then Some v else map_of kvs k')"
  by (induction k v kvs rule: store_set.induct) auto

definition pool_disjoint :: "ev_pool \<Rightarrow> bool" where
  "pool_disjoint p \<longleftrightarrow> (\<forall>k. map_of (evp_pending p) k \<noteq> None \<longrightarrow> evp_committed p k = None)"

lemma add_pending_disjoint:
  assumes "addPendingEvidence L p ev = Some (err, p')" "pool_disjoint p" "isCommitted L p ev = Some False"
  shows "pool_disjoint p'" "evp_committed p' = evp_committed p"
  using assms by (auto simp: addPendingEvidence_def isCommitted_def pool_disjoint_def split: sum.splits if_splits bind_splits)

text \<open>A successful verification changes neither the pool nor the evidence.\<close>

lemma verify_accepts:
  assumes "evp_verify L S p ev = Some (None, p', ev')"
  shows "p' = p" "ev' = ev"
  using assms
  by (auto simp: evp_verify_def verify_duplicate_def verify_attack_def Let_def
      split: bind_splits option.splits if_splits evidence.splits sum.splits)

lemma check_one_accepts:
  assumes "check_one L S p ev = Some (None, p', ev')" "pool_disjoint p"
  shows "ev' = ev" "pool_disjoint p'" "evp_committed p' = evp_committed p" "isCommitted L p ev = Some False"
proof -
  have "ev' = ev \<and> pool_disjoint p' \<and> evp_committed p' = evp_committed p \<and> isCommitted L p ev = Some False"
  proof (cases "isCommitted L p ev = Some False \<and> evp_verify L S p ev = Some (None, p, ev)")
    case True
    then show ?thesis
      using assms add_pending_disjoint [of L p ev]
      by (auto simp: check_one_def split: bind_splits if_splits)
  next
    case False
    with assms have "isPending L p ev = Some True" "p' = p" "ev' = ev"
      using verify_accepts [of L S p ev] by (auto simp: check_one_def split: bind_splits if_splits)
    with assms(2) show ?thesis by (auto simp: isPending_def isCommitted_def pool_disjoint_def)
  qed
  then show "ev' = ev" "pool_disjoint p'" "evp_committed p' = evp_committed p" "isCommitted L p ev = Some False" by blast+
qed

lemma check_list_accepts:
  assumes "check_list L S hashes p evs = Some (None, p', evs')" "pool_disjoint p"
  shows "evs' = evs \<and> pool_disjoint p' \<and> evp_committed p' = evp_committed p
    \<and> (\<forall>ev \<in> set evs. isCommitted L p ev = Some False)
    \<and> (\<exists>hs. map_all (ev_Hash (lib_env L) (lib_wrappers L) (lib_keys L)) evs = Some hs \<and> distinct hs \<and> set hs \<inter> set hashes = {})"
  using assms
proof (induction L S hashes p evs arbitrary: p' evs' rule: check_list.induct)
  case (2 L S hashes p ev evs)
  from "2.prems"(1) obtain p1 ev1 hash p2 evs2 where
    c: "check_one L S p ev = Some (None, p1, ev1)" "ev_Hash (lib_env L) (lib_wrappers L) (lib_keys L) ev1 = Some hash"
      "hash \<notin> set hashes" "check_list L S (hash # hashes) p1 evs = Some (None, p2, evs2)" "p' = p2" "evs' = ev1 # evs2"
    by (auto split: bind_splits if_splits)
  note one = check_one_accepts [OF c(1) "2.prems"(2)]
  have "evs2 = evs \<and> pool_disjoint p2 \<and> evp_committed p2 = evp_committed p1
    \<and> (\<forall>ev \<in> set evs. isCommitted L p1 ev = Some False)
    \<and> (\<exists>hs. map_all (ev_Hash (lib_env L) (lib_wrappers L) (lib_keys L)) evs = Some hs \<and> distinct hs \<and> set hs \<inter> set (hash # hashes) = {})"
    using "2.IH" [OF c(1) refl refl] c(2,3,4) one(2) by auto
  moreover have "isCommitted L p1 e = isCommitted L p e" for e using one(3) by (simp add: isCommitted_def)
  ultimately show ?case using c one by auto
qed auto

lemma verify_duplicate_time: "VerifyDuplicateVote E (dve\<lparr>dve_Timestamp := t\<rparr>) chain vals = VerifyDuplicateVote E dve chain vals"
  by (simp add: VerifyDuplicateVote_def cong del: option.case_cong_weak)

section \<open>A sample\<close>

text \<open>A hash that keeps the end of its input, where the time of the evidence is.\<close>

definition rev_libs :: libs where
  "rev_libs = (sample_libs (\<lambda>_. None))\<lparr>lib_env := toy_env\<lparr>env_Sum := (\<lambda>x. pad_hash (rev x))\<rparr>\<rparr>"

definition toy_chain :: chain_state where
  "toy_chain = \<lparr>sm_Version = InitStateVersion, sm_ChainID = [97], sm_InitialHeight = 1, sm_LastBlockHeight = 3,
     sm_LastBlockID = toy_block 4, sm_LastBlockTime = 9, sm_NextValidators = toy_vals, sm_Validators = toy_vals,
     sm_LastValidators = toy_vals, sm_LastHeightValidatorsChanged = 1, sm_ConsensusParams = DefaultConsensusParams,
     sm_LastHeightConsensusParamsChanged = 1, sm_LastResultsHash = [], sm_AppHash = []\<rparr>"

definition toy_meta :: block_meta where
  "toy_meta = \<lparr>bm_BlockID = toy_block 2, bm_BlockSize = 1, bm_Header = toy_header\<lparr>hd_Height := 2\<rparr>, bm_NumTxs = 0\<rparr>"

definition toy_stores :: stores where
  "toy_stores = \<lparr>sto_LoadValidators = (\<lambda>_. Some toy_vals), sto_LoadBlockMeta = (\<lambda>h. if h = 2 then Some toy_meta else None),
     sto_LoadBlockCommit = (\<lambda>_. None), sto_Height = 3\<rparr>"

definition toy_pool :: ev_pool where
  "toy_pool = \<lparr>evp_pending = [], evp_committed = (\<lambda>k. if Some k = ev_key rev_libs (DuplicateVoteEvidence toy_duplicate) then Some 3 else None),
     evp_evidenceList = [], evp_evidenceSize = 0, evp_state = toy_chain, evp_consensusBuffer = [],
     evp_pruningHeight = 0, evp_pruningTime = zero_time\<rparr>"

definition toy_forged :: duplicate_vote where
  "toy_forged = toy_duplicate\<lparr>dve_Timestamp := 8\<rparr>"

lemma toy_evidence_verifies: "VerifyDuplicateVote (lib_env rev_libs) toy_duplicate [97] toy_vals = Some None"
  by code_simp

lemma toy_forged_unknown:
  "ev_key rev_libs (DuplicateVoteEvidence toy_duplicate) \<noteq> None"
  "isPending rev_libs toy_pool (DuplicateVoteEvidence toy_forged) = Some False"
  "isCommitted rev_libs toy_pool (DuplicateVoteEvidence toy_forged) = Some False"
  "list_all time_in_range (evidence_times (PbDuplicateVote (dve_ToProto toy_duplicate)))"
  by code_simp+

section \<open>Properties\<close>

text \<open>
  C16: two votes that a vote set reports as conflicting are evidence that every node accepts. The evidence
  formed from them passes its basic checks, the verification of the votes against the validators and
  the check of the information for the application, whatever time the block had. The vote set is any that
  votes and claims of peers can lead to, and it has fewer than 2^31 validators.
\<close>

theorem conflict_becomes_evidence:
  assumes "vals_ok vals" "\<forall>v \<in> set (vs_Validators vals). val_PubKey v \<noteq> None" "length (vs_Validators vals) < 2 ^ 31"
    and "NewVoteSet chainID height rnd ty vals = Some s0" "vst_steps E s0 s" "v_ValidateBasic v = None"
    and "AddVote E (Some v) (Some s) = Some ((added, Some (ErrVoteConflictingVotes c v')), s')"
  shows "\<exists>dve val. NewDuplicateVoteEvidence (Some c) (Some v') t (Some (vst_valSet s)) = Some (Inr dve)
    \<and> dve_ValidateBasic dve = None \<and> VerifyDuplicateVote E dve chainID (vst_valSet s) = Some None
    \<and> snd (GetByAddress (vst_valSet s) (v_ValidatorAddress v')) = Some val
    \<and> dve_ValidateABCI dve val (vst_valSet s) t = Some None"
proof -
  note inv = reach_inv [OF assms(1,2,4,5)]
  have "addVote E (Some v) s = Some ((added, Some (ErrVoteConflictingVotes c v')), s')"
    using assms(7) by (simp add: AddVote_def)
  from conflict_votes [OF inv(1) assms(6) this] obtain i where
    i: "good_vote E s i c" "good_vote E s i v" "v' = v" "v_BlockID c \<noteq> v_BlockID v" .
  have "vals_ok (vst_valSet s)" using inv(1) by (simp add: vst_inv_def)
  moreover have "length (vs_Validators (vst_valSet s)) < 2 ^ 31" using assms(3) inv(6) by simp
  ultimately obtain dve val where
    "NewDuplicateVoteEvidence (Some c) (Some v) t (Some (vst_valSet s)) = Some (Inr dve)"
    "dve_ValidateBasic dve = None" "VerifyDuplicateVote E dve (vst_chainID s) (vst_valSet s) = Some None"
    "snd (GetByAddress (vst_valSet s) (v_ValidatorAddress c)) = Some val" "dve_ValidateABCI dve val (vst_valSet s) t = Some None"
    using conflict_evidence [OF i(1,2,4)] by metis
  moreover have "v_ValidatorAddress c = v_ValidatorAddress v" using i(1,2) by (simp add: good_vote_def Let_def)
  ultimately show ?thesis using i(3) inv(2) by auto
qed

theorem conflict_becomes_evidence_witness:
  "\<exists>s s' dve. AddVote toy_env (Some (toy_double 2)) (Some s) = Some ((False, Some (ErrVoteConflictingVotes (toy_double 1) (toy_double 2))), s')
    \<and> NewDuplicateVoteEvidence (Some (toy_double 1)) (Some (toy_double 2)) 7 (Some (vst_valSet s)) = Some (Inr dve)
    \<and> VerifyDuplicateVote toy_env dve [97] (vst_valSet s) = Some None"
proof -
  have r: "(case NewVoteSet [97] 2 0 PrecommitType toy_vals of None \<Rightarrow> False | Some s0 \<Rightarrow>
     (case AddVote toy_env (Some (toy_double 1)) (Some s0) of None \<Rightarrow> False | Some (r, s) \<Rightarrow>
       (case AddVote toy_env (Some (toy_double 2)) (Some s) of None \<Rightarrow> False | Some (r', s') \<Rightarrow>
          r' = (False, Some (ErrVoteConflictingVotes (toy_double 1) (toy_double 2))))))" by code_simp
  then obtain s0 where s0: "NewVoteSet [97] 2 0 PrecommitType toy_vals = Some s0" by (auto split: option.splits)
  with r obtain x s where s: "AddVote toy_env (Some (toy_double 1)) (Some s0) = Some (x, s)" by (auto split: option.splits)
  with r s0 obtain s' where s': "AddVote toy_env (Some (toy_double 2)) (Some s)
      = Some ((False, Some (ErrVoteConflictingVotes (toy_double 1) (toy_double 2))), s')" by (auto split: option.splits)
  have ok: "v_ValidateBasic (toy_double 1) = None" "v_ValidateBasic (toy_double 2) = None"
    "length (vs_Validators toy_vals) < 2 ^ 31" by (code_simp, code_simp, simp add: toy_vals_def)
  show ?thesis
    using conflict_becomes_evidence [OF toy_vals_ok toy_keyed ok(3) s0 vst_steps.add [OF vst_steps.start ok(1) s] ok(2) s', of 7] s'
    by blast
qed

text \<open>
  C17: the evidence of a block that the pool accepts is new. When no committed evidence is pending, \<open>CheckEvidence\<close>
  accepts a list only if no piece of it was committed before and no two have the same hash; it then leaves
  the evidence as it was, and still no committed evidence is pending.
\<close>

theorem accepted_evidence_is_fresh:
  assumes "pool_disjoint p" "evp_CheckEvidence L S p evs = Some (None, p', evs')"
  shows "evs' = evs \<and> pool_disjoint p' \<and> (\<forall>ev \<in> set evs. isCommitted L p ev = Some False)
    \<and> (\<exists>hs. map_all (ev_Hash (lib_env L) (lib_wrappers L) (lib_keys L)) evs = Some hs \<and> distinct hs)"
  using check_list_accepts [of L S "[]" p evs p' evs'] assms by (auto simp: evp_CheckEvidence_def)

theorem accepted_evidence_is_fresh_witness:
  "\<exists>p'. evp_CheckEvidence rev_libs toy_stores (toy_pool\<lparr>evp_committed := (\<lambda>_. None)\<rparr>) [DuplicateVoteEvidence toy_duplicate]
      = Some (None, p', [DuplicateVoteEvidence toy_duplicate]) \<and> pool_disjoint p'"
proof -
  let ?p = "toy_pool\<lparr>evp_committed := (\<lambda>_. None)\<rparr>" and ?evs = "[DuplicateVoteEvidence toy_duplicate]"
  have "(case evp_CheckEvidence rev_libs toy_stores ?p ?evs of Some (None, _, _) \<Rightarrow> True | _ \<Rightarrow> False)" by code_simp
  then obtain p' evs' where "evp_CheckEvidence rev_libs toy_stores ?p ?evs = Some (None, p', evs')"
    by (auto split: option.splits)
  moreover have "pool_disjoint ?p" by (simp add: pool_disjoint_def toy_pool_def)
  ultimately show ?thesis using accepted_evidence_is_fresh [of ?p rev_libs toy_stores ?evs p' evs'] by simp
qed

text \<open>
  C18: committed evidence can come back. A peer that sends committed evidence with another time (the time is
  not signed, and the hash covers it) makes the node rebuild the committed evidence and store it as pending,
  although it is committed; from then on \<open>CheckEvidence\<close> accepts a block that commits it again.
\<close>

theorem committed_evidence_returns:
  assumes "dve_VoteA dve = Some a" "ev_key L (DuplicateVoteEvidence dve) = Some k" "evp_committed p k \<noteq> None"
    and "sto_LoadBlockMeta S (v_Height a) = Some bm" "sto_LoadValidators S (v_Height a) = Some vals"
    and "\<not> isExpired p (v_Height a) (hd_Time (bm_Header bm))"
    and "VerifyDuplicateVote (lib_env L) dve (sm_ChainID (evp_state p)) vals = Some None"
    and "snd (GetByAddress vals (v_ValidatorAddress a)) = Some val" "dve_ValidateABCI dve val vals (hd_Time (bm_Header bm)) = Some None"
    and "t \<noteq> hd_Time (bm_Header bm)" "list_all time_in_range (evidence_times (PbDuplicateVote (dve_ToProto dve)))"
    and "isPending L p (DuplicateVoteEvidence (dve\<lparr>dve_Timestamp := t\<rparr>)) = Some False"
    and "isCommitted L p (DuplicateVoteEvidence (dve\<lparr>dve_Timestamp := t\<rparr>)) = Some False"
  shows "\<exists>p'. evp_AddEvidence L S p (DuplicateVoteEvidence (dve\<lparr>dve_Timestamp := t\<rparr>)) = Some (Some (ErrEvABCI ErrEvidenceTime), p')
    \<and> isCommitted L p' (DuplicateVoteEvidence dve) = Some True
    \<and> evp_CheckEvidence L S p' [DuplicateVoteEvidence dve] = Some (None, p', [DuplicateVoteEvidence dve])"
proof -
  let ?bad = "dve\<lparr>dve_Timestamp := t\<rparr>" and ?time = "hd_Time (bm_Header bm)"
  have verify: "VerifyDuplicateVote (lib_env L) ?bad (sm_ChainID (evp_state p)) vals = Some None"
    using assms(7) by (simp add: verify_duplicate_time)
  have abci: "dve_ValidateABCI ?bad val vals ?time = Some (Some ErrEvidenceTime)" using assms(10) by (simp add: dve_ValidateABCI_def)
  have gen: "dve_GenerateABCI ?bad val vals ?time = Some dve"
    using assms(9) by (cases dve) (auto simp: dve_ValidateABCI_def dve_GenerateABCI_def split: bind_splits if_splits)
  define p' where "p' = p\<lparr>evp_pending := store_set k (PbDuplicateVote (dve_ToProto dve)) (evp_pending p),
      evp_evidenceSize := evp_evidenceSize p + 1\<rparr>"
  have add: "addPendingEvidence L p (DuplicateVoteEvidence dve) = Some (None, p')"
    using assms(2,11) by (simp add: addPendingEvidence_def p'_def)
  have "evp_verify L S p (DuplicateVoteEvidence ?bad) = Some (Some (ErrEvABCI ErrEvidenceTime), p', DuplicateVoteEvidence dve)"
    using assms(1,4,5,6,8) verify abci gen add
    by (auto simp: evp_verify_def verify_duplicate_def isExpired_def Let_def)
  then have "evp_AddEvidence L S p (DuplicateVoteEvidence ?bad) = Some (Some (ErrEvABCI ErrEvidenceTime), p')"
    using assms(12,13) by (simp add: evp_AddEvidence_def)
  moreover have "isCommitted L p' (DuplicateVoteEvidence dve) = Some True" "isPending L p' (DuplicateVoteEvidence dve) = Some True"
    using assms(2,3) by (simp_all add: isCommitted_def isPending_def p'_def)
  moreover have "ev_Hash (lib_env L) (lib_wrappers L) (lib_keys L) (DuplicateVoteEvidence dve) \<noteq> None"
    using assms(2) by (auto simp: ev_key_def simp del: ev_Hash.simps split: bind_splits)
  ultimately have "evp_CheckEvidence L S p' [DuplicateVoteEvidence dve] = Some (None, p', [DuplicateVoteEvidence dve])"
    by (auto simp: evp_CheckEvidence_def check_one_def simp del: ev_Hash.simps)
  with \<open>evp_AddEvidence L S p _ = _\<close> \<open>isCommitted L p' _ = _\<close> show ?thesis by blast
qed

theorem committed_evidence_returns_witness:
  "\<exists>p'. evp_AddEvidence rev_libs toy_stores toy_pool (DuplicateVoteEvidence (toy_duplicate\<lparr>dve_Timestamp := 8\<rparr>))
      = Some (Some (ErrEvABCI ErrEvidenceTime), p')
    \<and> isCommitted rev_libs p' (DuplicateVoteEvidence toy_duplicate) = Some True
    \<and> evp_CheckEvidence rev_libs toy_stores p' [DuplicateVoteEvidence toy_duplicate] = Some (None, p', [DuplicateVoteEvidence toy_duplicate])"
proof -
  obtain k where k: "ev_key rev_libs (DuplicateVoteEvidence toy_duplicate) = Some k" using toy_forged_unknown(1) by blast
  have "dve_ValidateABCI toy_duplicate (toy_val 1) toy_vals 7 = Some None" by code_simp
  moreover have "snd (GetByAddress toy_vals (replicate 20 1)) = Some (toy_val 1)" by code_simp
  moreover have "\<not> isExpired toy_pool 2 7" by code_simp
  ultimately show ?thesis
    using committed_evidence_returns [of toy_duplicate "toy_double 1" rev_libs k toy_pool toy_stores toy_meta toy_vals "toy_val 1" 8]
      k toy_evidence_verifies toy_forged_unknown(2-4)
    by (simp add: toy_pool_def toy_forged_def toy_stores_def toy_meta_def toy_chain_def toy_header_def toy_double_def
        toy_duplicate_def)
qed

end
