(* ===== verification/LightVerifier.thy ===== *)
theory LightVerifier
  imports EvidencePool
begin

text \<open>
  \<open>light/verifier.go\<close> and \<open>light/trust_options.go\<close>: the verification of a header against a trusted one.
  Headers are nil-able pointers as in the code; reading a field of a nil header panics. What the commit checks
  remember of the validator sets (the cached total power) does not outlive a call here.
\<close>

section \<open>Errors\<close>

datatype header_reason = ErrUntrustedBasic light_error | ErrHeightNotGreater | ErrTimeNotGreater | ErrTimeFromFuture
  | ErrValidatorsDiffer | ErrNextValidatorsDiffer | ErrCommitRejected commit_error | ErrOlderBasic header_error
  | ErrOlderChain | ErrOlderTime | ErrOlderHash

datatype light_verify_error = ErrHeadersAdjacent | ErrHeadersNotAdjacent | ErrTrustLevelRange
  | ErrOldHeaderExpired int int | ErrInvalidNewHeader header_reason | ErrNewValSetCantBeTrusted commit_error

section \<open>Checks on one header\<close>

definition checkRequiredHeaderFields :: "header \<Rightarrow> unit option" where
  "checkRequiredHeaderFields h =
     (if hd_Height h = 0 \<or> hd_Time h = zero_time \<or> hd_ChainID h = [] then None else Some ())"

definition ValidateTrustLevel :: "fraction \<Rightarrow> light_verify_error option" where
  "ValidateTrustLevel lvl =
     (if Numerator lvl * 3 < Denominator lvl \<or> Numerator lvl \<ge> Denominator lvl \<or> Denominator lvl = 0
      then Some ErrTrustLevelRange else None)"

definition HeaderExpired :: "header \<Rightarrow> int \<Rightarrow> int \<Rightarrow> bool" where
  "HeaderExpired h trustingPeriod now \<longleftrightarrow> \<not> hd_Time h + trustingPeriod > now"

datatype trust_options_error = ErrTrustPeriod | ErrTrustHeight | ErrTrustHash

record trust_options =
  to_Period :: int
  to_Height :: int
  to_Hash :: bytes

definition to_ValidateBasic :: "trust_options \<Rightarrow> trust_options_error option" where
  "to_ValidateBasic opts =
     (if to_Period opts \<le> 0 then Some ErrTrustPeriod
      else if to_Height opts \<le> 0 then Some ErrTrustHeight
      else if length (to_Hash opts) \<noteq> 32 then Some ErrTrustHash
      else None)"

section \<open>A new header against a trusted one\<close>

definition verifyNewHeaderAndVals ::
  "libs \<Rightarrow> signed_header \<Rightarrow> validator_set option \<Rightarrow> header \<Rightarrow> int \<Rightarrow> int \<Rightarrow> header_reason option option" where
  "verifyNewHeaderAndVals L untrusted untrustedVals trusted now maxClockDrift =
     (case sh_ValidateBasic (lib_env L) (lib_wrappers L) (hd_ChainID trusted) untrusted of
        Some e \<Rightarrow> Some (Some (ErrUntrustedBasic e))
      | None \<Rightarrow>
          do {
            h \<leftarrow> sh_Header untrusted;
            if hd_Height h \<le> hd_Height trusted then Some (Some ErrHeightNotGreater)
            else if \<not> hd_Time h > hd_Time trusted then Some (Some ErrTimeNotGreater)
            else if \<not> hd_Time h < now + maxClockDrift then Some (Some ErrTimeFromFuture)
            else do {
              vals \<leftarrow> untrustedVals;
              hash \<leftarrow> vals_Hash (lib_env L) (lib_keys L) vals;
              Some (if hd_ValidatorsHash h \<noteq> hash then Some ErrValidatorsDiffer else None)
            }
          })"

text \<open>The last check of both functions: more than two thirds of the new validators signed.\<close>

definition new_commit_check ::
  "libs \<Rightarrow> bytes \<Rightarrow> signed_header \<Rightarrow> header \<Rightarrow> validator_set option \<Rightarrow> light_verify_error option option" where
  "new_commit_check L chainID untrusted h untrustedVals =
     do {
       c \<leftarrow> sh_Commit untrusted;
       (err, _) \<leftarrow> VerifyCommitLight (lib_env L) (lib_keys L) chainID untrustedVals (c_BlockID c) (hd_Height h) (Some c);
       Some (map_option (\<lambda>e. ErrInvalidNewHeader (ErrCommitRejected e)) err)
     }"

definition trusting_check ::
  "libs \<Rightarrow> bytes \<Rightarrow> signed_header \<Rightarrow> validator_set option \<Rightarrow> fraction \<Rightarrow> light_verify_error option option" where
  "trusting_check L chainID untrusted trustedVals trustLevel =
     do {
       (err, _) \<leftarrow> VerifyCommitLightTrusting (lib_env L) (lib_keys L) chainID trustedVals (sh_Commit untrusted) trustLevel;
       Some (case err of
           None \<Rightarrow> None
         | Some (ErrNotEnoughVotingPowerSigned got needed) \<Rightarrow> Some (ErrNewValSetCantBeTrusted (ErrNotEnoughVotingPowerSigned got needed))
         | Some e \<Rightarrow> Some (ErrInvalidNewHeader (ErrCommitRejected e)))
     }"

definition VerifyNonAdjacent ::
  "libs \<Rightarrow> signed_header \<Rightarrow> validator_set option \<Rightarrow> signed_header \<Rightarrow> validator_set option \<Rightarrow> int \<Rightarrow> int \<Rightarrow> int \<Rightarrow> fraction
     \<Rightarrow> light_verify_error option option" where
  "VerifyNonAdjacent L trustedHeader trustedVals untrustedHeader untrustedVals trustingPeriod now maxClockDrift trustLevel =
     do {
       th \<leftarrow> sh_Header trustedHeader;
       _ \<leftarrow> checkRequiredHeaderFields th;
       uh \<leftarrow> sh_Header untrustedHeader;
       if hd_Height uh = i64 (hd_Height th + 1) then Some (Some ErrHeadersAdjacent)
       else if ValidateTrustLevel trustLevel \<noteq> None then Some (ValidateTrustLevel trustLevel)
       else if HeaderExpired uh trustingPeriod now
       then Some (Some (ErrOldHeaderExpired (hd_Time uh + trustingPeriod) now))
       else
         and_then (map_option (map_option ErrInvalidNewHeader)
             (verifyNewHeaderAndVals L untrustedHeader untrustedVals th now maxClockDrift))
           (and_then (trusting_check L (hd_ChainID th) untrustedHeader trustedVals trustLevel)
             (new_commit_check L (hd_ChainID th) untrustedHeader uh untrustedVals))
     }"

definition VerifyAdjacent ::
  "libs \<Rightarrow> signed_header \<Rightarrow> signed_header \<Rightarrow> validator_set option \<Rightarrow> int \<Rightarrow> int \<Rightarrow> int \<Rightarrow> light_verify_error option option" where
  "VerifyAdjacent L trustedHeader untrustedHeader untrustedVals trustingPeriod now maxClockDrift =
     do {
       th \<leftarrow> sh_Header trustedHeader;
       _ \<leftarrow> checkRequiredHeaderFields th;
       if hd_NextValidatorsHash th = [] then None
       else do {
         uh \<leftarrow> sh_Header untrustedHeader;
         if hd_Height uh \<noteq> i64 (hd_Height th + 1) then Some (Some ErrHeadersNotAdjacent)
         else if HeaderExpired uh trustingPeriod now
         then Some (Some (ErrOldHeaderExpired (hd_Time uh + trustingPeriod) now))
         else
           and_then (map_option (map_option ErrInvalidNewHeader)
               (verifyNewHeaderAndVals L untrustedHeader untrustedVals th now maxClockDrift))
             (if hd_ValidatorsHash uh \<noteq> hd_NextValidatorsHash th then Some (Some (ErrInvalidNewHeader ErrNextValidatorsDiffer))
              else new_commit_check L (hd_ChainID th) untrustedHeader uh untrustedVals)
       }
     }"

definition light_Verify ::
  "libs \<Rightarrow> signed_header \<Rightarrow> validator_set option \<Rightarrow> signed_header \<Rightarrow> validator_set option \<Rightarrow> int \<Rightarrow> int \<Rightarrow> int \<Rightarrow> fraction
     \<Rightarrow> light_verify_error option option" where
  "light_Verify L trustedHeader trustedVals untrustedHeader untrustedVals trustingPeriod now maxClockDrift trustLevel =
     do {
       uh \<leftarrow> sh_Header untrustedHeader;
       th \<leftarrow> sh_Header trustedHeader;
       if hd_Height uh \<noteq> i64 (hd_Height th + 1)
       then VerifyNonAdjacent L trustedHeader trustedVals untrustedHeader untrustedVals trustingPeriod now maxClockDrift trustLevel
       else VerifyAdjacent L trustedHeader untrustedHeader untrustedVals trustingPeriod now maxClockDrift
     }"

definition VerifyBackwards :: "libs \<Rightarrow> header \<Rightarrow> header \<Rightarrow> header_reason option" where
  "VerifyBackwards L untrustedHeader trustedHeader =
     (case hd_ValidateBasic untrustedHeader of
        Some e \<Rightarrow> Some (ErrOlderBasic e)
      | None \<Rightarrow>
          (if hd_ChainID untrustedHeader \<noteq> hd_ChainID trustedHeader then Some ErrOlderChain
           else if \<not> hd_Time untrustedHeader < hd_Time trustedHeader then Some ErrOlderTime
           else if hd_Hash (lib_env L) (lib_wrappers L) untrustedHeader \<noteq> bid_Hash (hd_LastBlockID trustedHeader)
           then Some ErrOlderHash
           else None))"

section \<open>What an accepted header gives\<close>

lemma and_then_accepts: "and_then s t = Some None \<longleftrightarrow> s = Some None \<and> t = Some None"
  by (auto simp: and_then_def split: option.splits)

lemma trust_level_accepts:
  assumes "ValidateTrustLevel lvl = None"
  shows "uint (Denominator lvl) \<le> 3 * uint (Numerator lvl)" "uint (Numerator lvl) < uint (Denominator lvl)"
proof -
  have "Denominator lvl \<le> Numerator lvl * 3" "Numerator lvl < Denominator lvl"
    using assms by (auto simp: ValidateTrustLevel_def split: if_splits)
  then have "uint (Denominator lvl) \<le> uint (Numerator lvl * 3)" and n: "uint (Numerator lvl) < uint (Denominator lvl)"
    by (auto simp: word_le_def word_less_def)
  moreover have "uint (Numerator lvl * 3) \<le> uint (Numerator lvl) * 3"
    by (simp add: uint_word_ariths zmod_le_nonneg_dividend)
  ultimately show "uint (Denominator lvl) \<le> 3 * uint (Numerator lvl)" by linarith
  show "uint (Numerator lvl) < uint (Denominator lvl)" by (rule n)
qed

lemma new_header_accepted:
  assumes "verifyNewHeaderAndVals L untrusted untrustedVals th now drift = Some None"
  obtains uh c vals where "sh_Header untrusted = Some uh" "sh_Commit untrusted = Some c" "untrustedVals = Some vals"
    "hd_ChainID uh = hd_ChainID th" "hd_Height th < hd_Height uh" "hd_Time th < hd_Time uh" "hd_Time uh < now + drift"
    "vals_Hash (lib_env L) (lib_keys L) vals = Some (hd_ValidatorsHash uh)" "c_ValidateBasic c = None"
    "c_Height c = hd_Height uh" "hd_Hash (lib_env L) (lib_wrappers L) uh = bid_Hash (c_BlockID c)"
  using assms
  by (auto simp: verifyNewHeaderAndVals_def sh_ValidateBasic_def split: option.splits if_splits bind_splits)

lemma Verify_accepted:
  assumes "light_Verify L tsh tvals ush uvals period now drift lvl = Some None"
  obtains th uh where "sh_Header tsh = Some th" "sh_Header ush = Some uh"
    "verifyNewHeaderAndVals L ush uvals th now drift = Some None" "now < hd_Time uh + period"
    "new_commit_check L (hd_ChainID th) ush uh uvals = Some None"
    "hd_Height uh = i64 (hd_Height th + 1) \<and> hd_ValidatorsHash uh = hd_NextValidatorsHash th
      \<or> hd_Height uh \<noteq> i64 (hd_Height th + 1) \<and> ValidateTrustLevel lvl = None
        \<and> trusting_check L (hd_ChainID th) ush tvals lvl = Some None"
  using assms
  by (auto simp: light_Verify_def VerifyNonAdjacent_def VerifyAdjacent_def and_then_accepts HeaderExpired_def
      split: bind_splits if_splits)

lemma trusting_check_accepted:
  "trusting_check L chainID ush tvals lvl = Some None \<longleftrightarrow>
    (\<exists>vals'. VerifyCommitLightTrusting (lib_env L) (lib_keys L) chainID tvals (sh_Commit ush) lvl = Some (None, vals'))"
  by (auto simp: trusting_check_def split: bind_splits option.splits commit_error.splits)

lemma new_commit_accepted:
  "new_commit_check L chainID ush uh uvals = Some None \<longleftrightarrow>
    (\<exists>c vals'. sh_Commit ush = Some c
      \<and> VerifyCommitLight (lib_env L) (lib_keys L) chainID uvals (c_BlockID c) (hd_Height uh) (Some c) = Some (None, vals'))"
  by (auto simp: new_commit_check_def split: bind_splits)

text \<open>Only a header that is more than one height away can fail for lack of trust in its validators.\<close>

lemma cant_be_trusted_gap:
  assumes "light_Verify L tsh tvals ush uvals period now drift lvl = Some (Some (ErrNewValSetCantBeTrusted e))"
  obtains th uh where "sh_Header tsh = Some th" "sh_Header ush = Some uh" "hd_Height th < hd_Height uh"
    "hd_Height uh \<noteq> i64 (hd_Height th + 1)"
proof -
  have na: "VerifyAdjacent L tsh ush uvals period now drift \<noteq> Some (Some (ErrNewValSetCantBeTrusted e))"
    by (auto simp: VerifyAdjacent_def and_then_def new_commit_check_def split: bind_splits if_splits option.splits)
  obtain th uh where h: "sh_Header tsh = Some th" "sh_Header ush = Some uh" "hd_Height uh \<noteq> i64 (hd_Height th + 1)"
      "VerifyNonAdjacent L tsh tvals ush uvals period now drift lvl = Some (Some (ErrNewValSetCantBeTrusted e))"
    using assms na by (auto simp: light_Verify_def split: bind_splits if_splits)
  have "verifyNewHeaderAndVals L ush uvals th now drift = Some None"
    using h by (auto simp: VerifyNonAdjacent_def and_then_def ValidateTrustLevel_def split: bind_splits if_splits option.splits)
  from new_header_accepted [OF this] have "hd_Height th < hd_Height uh" using h(2) by auto
  then show ?thesis using that h by blast
qed

text \<open>Signers with more than a third of the power include one outside any set with at most a third.\<close>

lemma signer_outside:
  assumes ws: "distinct (map val_Address ws)" "set ws \<subseteq> set vs" "total_power vs < 3 * total_power ws"
    and pos: "\<forall>v \<in> set vs. 0 < vpower v" and d: "distinct (map val_Address vs)"
    and F: "3 * total_power (filter faulty vs) \<le> total_power vs"
  obtains v where "v \<in> set ws" "\<not> faulty v"
proof (rule ccontr)
  assume "\<not> thesis"
  then have all: "set ws \<subseteq> set (filter faulty vs)" using that ws(2) by auto
  have "total_power ws = sum vpower (set ws)" using sum_list_distinct_conv_sum_set [of ws vpower] ws(1) by (simp add: distinct_map)
  also have "\<dots> \<le> sum vpower (set (filter faulty vs))" using pos all by (intro sum_mono2) auto
  also have "\<dots> = total_power (filter faulty vs)"
    using sum_list_distinct_conv_sum_set [of "filter faulty vs" vpower] d by (simp add: distinct_map)
  finally show False using ws(3) F by linarith
qed

lemma trusted_signers:
  assumes "ValidateTrustLevel lvl = None" "uint (Numerator lvl) \<le> MaxInt64" "uint (Denominator lvl) \<le> MaxInt64"
    and "vals_ok vals" "keys_uniform E B vals" "commit_ok c" "batch_lib_ok E B"
    and "VerifyCommitLightTrusting E B chainID (Some vals) (Some c) lvl = Some (None, vals')"
    and F: "3 * total_power (filter faulty (vs_Validators vals)) \<le> total_power (vs_Validators vals)"
  obtains v i where "v \<in> set (vs_Validators vals)" "\<not> faulty v" "i < length (c_Signatures c)" "cs_ForBlock (c_Signatures c ! i)"
    "cs_ValidatorAddress (c_Signatures c ! i) = val_Address v" "sig_ok E chainID c i v"
proof -
  let ?n = "uint (Numerator lvl)" and ?d = "uint (Denominator lvl)" and ?P = "total_power (vs_Validators vals)"
  obtain ws where ws: "distinct (map val_Address ws)" "set ws \<subseteq> set (vs_Validators vals)"
      "\<forall>v \<in> set ws. \<exists>i < length (c_Signatures c). cs_ForBlock (c_Signatures c ! i)
         \<and> cs_ValidatorAddress (c_Signatures c ! i) = val_Address v \<and> sig_ok E chainID c i v"
      "?P * ?n < ?d * total_power ws"
    using trusting_accepted [OF assms(4-7,2,3,8)] by blast
  have l: "?d \<le> 3 * ?n" "?n < ?d" using trust_level_accepts [OF assms(1)] .
  have n: "0 < ?n" using l by linarith
  have pos: "\<forall>v \<in> set (vs_Validators vals). 0 < vpower v" and d: "distinct (map val_Address (vs_Validators vals))"
    using assms(4) by (simp_all add: vals_ok_def)
  have "0 \<le> total_power ws" using pos ws(2) by (intro sum_list_nonneg) (auto intro: less_imp_le)
  then have "?d * total_power ws \<le> 3 * ?n * total_power ws" using l(1) by (intro mult_right_mono)
  then have "?P * ?n < (3 * total_power ws) * ?n" using ws(4) by (simp add: mult_ac)
  then have "?P < 3 * total_power ws" using n by simp
  from signer_outside [OF ws(1,2) this pos d F] obtain v where "v \<in> set ws" "\<not> faulty v" .
  then show ?thesis using ws(2,3) that by blast
qed

section \<open>Samples\<close>

definition trusted_toy :: "int \<Rightarrow> signed_header" where
  "trusted_toy height = \<lparr>sh_Header = Some (toy_header\<lparr>hd_Height := height, hd_Time := 5,
     hd_NextValidatorsHash := hd_ValidatorsHash toy_header\<rparr>), sh_Commit = None\<rparr>"

definition toy_signed :: signed_header where
  "toy_signed = the (lb_SignedHeader (toy_light toy_vals))"

section \<open>Properties\<close>

text \<open>
  C21: a header that the light client accepts is later than the trusted one, in height and in time, and not expired;
  it is the header whose hash the commit carries, its validators are those of the header, and
  validators with more than two thirds of their power signed. Either the header directly follows the trusted one
  and has the validators that the trusted header names for it, or, for any faulty validators with at most a
  third of the power of the trusted set, a validator of the trusted set that is not faulty signed.
\<close>

theorem accepted_header_is_vouched_for:
  assumes "light_Verify L tsh (Some tvals) ush (Some uvals) period now drift lvl = Some None"
    and "sh_Header tsh = Some th" "in_i64 (hd_Height th)" "sh_Commit ush = Some c" "commit_ok c"
    and "vals_ok tvals" "keys_uniform (lib_env L) (lib_keys L) tvals" "vals_ok uvals" "keys_uniform (lib_env L) (lib_keys L) uvals"
    and "batch_lib_ok (lib_env L) (lib_keys L)" "uint (Numerator lvl) \<le> MaxInt64" "uint (Denominator lvl) \<le> MaxInt64"
  shows "\<exists>uh. sh_Header ush = Some uh \<and> hd_ChainID uh = hd_ChainID th \<and> hd_Height th < hd_Height uh \<and> hd_Time th < hd_Time uh
    \<and> now < hd_Time uh + period \<and> hd_Time uh < now + drift
    \<and> hd_Hash (lib_env L) (lib_wrappers L) uh = bid_Hash (c_BlockID c) \<and> c_Height c = hd_Height uh
    \<and> vals_Hash (lib_env L) (lib_keys L) uvals = Some (hd_ValidatorsHash uh)
    \<and> 2 * total_power (vs_Validators uvals) < 3 * valid_power (lib_env L) (hd_ChainID th) c (vs_Validators uvals)
    \<and> (hd_Height uh = hd_Height th + 1 \<and> hd_ValidatorsHash uh = hd_NextValidatorsHash th
       \<or> (\<forall>faulty. 3 * total_power (filter faulty (vs_Validators tvals)) \<le> total_power (vs_Validators tvals) \<longrightarrow>
            (\<exists>v \<in> set (vs_Validators tvals). \<not> faulty v \<and> (\<exists>i < length (c_Signatures c). cs_ForBlock (c_Signatures c ! i)
               \<and> cs_ValidatorAddress (c_Signatures c ! i) = val_Address v \<and> sig_ok (lib_env L) (hd_ChainID th) c i v))))"
proof -
  from Verify_accepted [OF assms(1)] obtain uh where uh: "sh_Header ush = Some uh"
      "verifyNewHeaderAndVals L ush (Some uvals) th now drift = Some None" "now < hd_Time uh + period"
      "new_commit_check L (hd_ChainID th) ush uh (Some uvals) = Some None"
    and link: "hd_Height uh = i64 (hd_Height th + 1) \<and> hd_ValidatorsHash uh = hd_NextValidatorsHash th
      \<or> hd_Height uh \<noteq> i64 (hd_Height th + 1) \<and> ValidateTrustLevel lvl = None
        \<and> trusting_check L (hd_ChainID th) ush (Some tvals) lvl = Some None"
    using assms(2) by (metis option.inject)
  from new_header_accepted [OF uh(2)] have h: "hd_ChainID uh = hd_ChainID th" "hd_Height th < hd_Height uh" "hd_Time th < hd_Time uh"
      "hd_Time uh < now + drift" "vals_Hash (lib_env L) (lib_keys L) uvals = Some (hd_ValidatorsHash uh)"
      "c_Height c = hd_Height uh" "hd_Hash (lib_env L) (lib_wrappers L) uh = bid_Hash (c_BlockID c)"
    using uh(1) assms(4) by (metis option.inject)+
  have q: "2 * total_power (vs_Validators uvals) < 3 * valid_power (lib_env L) (hd_ChainID th) c (vs_Validators uvals)"
    using uh(4) assms(4) light_accepted(2) [OF assms(8,9,5,10)] by (auto simp: new_commit_accepted)
  have adj: "hd_Height uh = i64 (hd_Height th + 1) \<Longrightarrow> hd_Height uh = hd_Height th + 1"
    using assms(3) h(2) by (cases "hd_Height th = MaxInt64") (auto simp: in_i64_def wrap_def intro!: i64_id)
  have far: "\<exists>v \<in> set (vs_Validators tvals). \<not> faulty v \<and> (\<exists>i < length (c_Signatures c). cs_ForBlock (c_Signatures c ! i)
      \<and> cs_ValidatorAddress (c_Signatures c ! i) = val_Address v \<and> sig_ok (lib_env L) (hd_ChainID th) c i v)"
    if gap: "hd_Height uh \<noteq> i64 (hd_Height th + 1)" and F: "3 * total_power (filter faulty (vs_Validators tvals)) \<le> total_power (vs_Validators tvals)"
    for faulty
  proof -
    have lvl: "ValidateTrustLevel lvl = None" using link gap by blast
    obtain vals' where "VerifyCommitLightTrusting (lib_env L) (lib_keys L) (hd_ChainID th) (Some tvals) (Some c) lvl = Some (None, vals')"
      using link gap assms(4) by (auto simp: trusting_check_accepted)
    from trusted_signers [OF lvl assms(11,12,6,7,5,10) this F] show ?thesis by metis
  qed
  show ?thesis
    using uh(1,3) h q adj far link by (intro exI [of _ uh]) blast
qed

theorem accepted_header_is_vouched_for_witness:
  "\<exists>uh. sh_Header toy_signed = Some uh \<and> hd_Height uh = 3
    \<and> (\<forall>faulty. 3 * total_power (filter faulty (vs_Validators toy_vals)) \<le> total_power (vs_Validators toy_vals) \<longrightarrow>
         (\<exists>v \<in> set (vs_Validators toy_vals). \<not> faulty v))"
proof -
  let ?L = "sample_libs (\<lambda>_. None)"
  have v: "light_Verify ?L (trusted_toy 1) (Some toy_vals) toy_signed (Some toy_vals) 100 8 10 DefaultTrustLevel = Some None"
    by code_simp
  have c: "sh_Commit toy_signed = Some ((toy_commit 4)\<lparr>c_BlockID := (toy_block 4)\<lparr>bid_Hash := hd_Hash toy_env sample_wrappers toy_header\<rparr>\<rparr>)"
    by (simp add: toy_signed_def toy_light_def)
  have ok: "commit_ok ((toy_commit 4)\<lparr>c_BlockID := (toy_block 4)\<lparr>bid_Hash := hd_Hash toy_env sample_wrappers toy_header\<rparr>\<rparr>)" by code_simp
  show ?thesis
    using accepted_header_is_vouched_for [OF v _ _ c ok] toy_vals_ok toy_keys toy_lib
    by (fastforce simp: trusted_toy_def toy_signed_def toy_light_def toy_header_def DefaultTrustLevel_def sample_libs_def in_i64_def)
qed

end
