(* ===== verification/Iterate.thy ===== *)
theory Iterate
  imports GoPrelude
begin

text \<open>
  Loops that need not end. A run is \<open>None\<close> when it does not return, \<open>Some Panics\<close> when it panics, and otherwise it returns
  a value. \<open>loop_while\<close> repeats a step until the step gives a result; the rules below prove that a loop keeps
  an invariant, that it returns, and that it never does.
\<close>

datatype 'a outcome = Panics | Returns 'a

definition run_then :: "'a outcome option \<Rightarrow> ('a \<Rightarrow> 'b outcome option) \<Rightarrow> 'b outcome option" where
  "run_then m k = Option.bind m (\<lambda>r. case r of Panics \<Rightarrow> Some Panics | Returns x \<Rightarrow> k x)"

definition or_panic :: "'a option \<Rightarrow> 'a outcome option" where
  "or_panic x = Some (case x of None \<Rightarrow> Panics | Some x \<Rightarrow> Returns x)"

lemma run_then_mono [partial_function_mono]:
  assumes "mono_option B" "\<And>y. mono_option (\<lambda>f. C y f)"
  shows "mono_option (\<lambda>f. run_then (B f) (\<lambda>y. C y f))"
proof -
  have "mono_option (\<lambda>f. case y of Panics \<Rightarrow> Some Panics | Returns x \<Rightarrow> C x f)" for y
    using assms(2) by (cases y) (auto intro!: option.const_mono)
  then show ?thesis unfolding run_then_def by (intro bind_mono assms(1))
qed

lemma run_then_simps [simp]:
  "run_then None k = None" "run_then (Some Panics) k = Some Panics" "run_then (Some (Returns x)) k = k x"
  by (simp_all add: run_then_def)

lemma or_panic_simps [simp]: "or_panic None = Some Panics" "or_panic (Some x) = Some (Returns x)"
  by (simp_all add: or_panic_def)

lemma run_then_Returns:
  "run_then m k = Some (Returns y) \<longleftrightarrow> (\<exists>x. m = Some (Returns x) \<and> k x = Some (Returns y))"
  by (auto simp: run_then_def split: bind_splits outcome.splits)

lemma or_panic_Returns [simp]: "or_panic x = Some (Returns y) \<longleftrightarrow> x = Some y"
  by (auto simp: or_panic_def split: option.splits)

lemma run_then_None: "run_then m k = None \<longleftrightarrow> m = None \<or> (\<exists>x. m = Some (Returns x) \<and> k x = None)"
  by (auto simp: run_then_def Option.bind_eq_None_conv split: outcome.splits bind_splits)

lemma or_panic_not_None [simp]: "or_panic x \<noteq> None"
  by (simp add: or_panic_def)

partial_function (option) loop_while :: "('s \<Rightarrow> ('r + 's) outcome option) \<Rightarrow> 's \<Rightarrow> 'r outcome option" where
  "loop_while f s = run_then (f s) (\<lambda>r. case r of Inl x \<Rightarrow> Some (Returns x) | Inr s \<Rightarrow> loop_while f s)"

lemma loop_while_induct:
  assumes "loop_while f s = Some out" "P s"
    and step: "\<And>s s'. P s \<Longrightarrow> f s = Some (Returns (Inr s')) \<Longrightarrow> P s'"
    and stop: "\<And>s x. P s \<Longrightarrow> f s = Some (Returns (Inl x)) \<Longrightarrow> Q (Returns x)"
    and panic: "\<And>s. P s \<Longrightarrow> f s = Some Panics \<Longrightarrow> Q Panics"
  shows "Q out"
proof -
  have "g = f \<longrightarrow> P s \<longrightarrow> Q out" if "loop_while g s = Some out" for g s out
  proof (rule loop_while.raw_induct [OF _ that, where P = "\<lambda>g s out. g = f \<longrightarrow> P s \<longrightarrow> Q out"])
    fix rec and g :: "'b \<Rightarrow> ('a + 'b) outcome option" and s out
    assume IH: "\<And>g s out. rec g s = Some out \<Longrightarrow> g = f \<longrightarrow> P s \<longrightarrow> Q out"
      and body: "run_then (g s) (\<lambda>r. case r of Inl x \<Rightarrow> Some (Returns x) | Inr s \<Rightarrow> rec g s) = Some out"
    show "g = f \<longrightarrow> P s \<longrightarrow> Q out"
    proof (intro impI)
      assume g: "g = f" and P: "P s"
      consider "f s = Some Panics" "out = Panics" | x where "f s = Some (Returns (Inl x))" "out = Returns x"
        | s' where "f s = Some (Returns (Inr s'))" "rec f s' = Some out"
        using body g by (cases "f s") (auto simp: run_then_def split: outcome.splits sum.splits)
      then show "Q out" using P IH [of f] step stop panic by cases blast+
    qed
  qed
  then show ?thesis using assms(1,2) by blast
qed

lemma loop_while_returns:
  assumes "wf r" "P s"
    and step: "\<And>s. P s \<Longrightarrow> f s \<noteq> None \<and> (\<forall>s'. f s = Some (Returns (Inr s')) \<longrightarrow> P s' \<and> (s', s) \<in> r)"
  shows "\<exists>out. loop_while f s = Some out"
  using assms(1,2)
proof (induction s rule: wf_induct_rule)
  case (less s)
  show ?case
  proof (cases "\<exists>s'. f s = Some (Returns (Inr s'))")
    case True
    then obtain s' where s': "f s = Some (Returns (Inr s'))" ..
    moreover from this obtain out where "loop_while f s' = Some out" using less step by blast
    ultimately show ?thesis by (subst loop_while.simps) simp
  next
    case False
    moreover obtain y where "f s = Some y" using step [OF less.prems] by blast
    ultimately show ?thesis by (subst loop_while.simps) (cases y; auto split: sum.splits)
  qed
qed

lemma loop_while_never:
  assumes "P s" and step: "\<And>s. P s \<Longrightarrow> \<exists>s'. f s = Some (Returns (Inr s')) \<and> P s'"
  shows "loop_while f s = None"
proof (cases "loop_while f s")
  case (Some out)
  have False by (rule loop_while_induct [where P = P and Q = "\<lambda>_. False", OF Some assms(1)]) (use step in fastforce)+
  then show ?thesis ..
qed simp

end
