(* ===== verification/LightClient.thy ===== *)
theory LightClient
  imports LightVerifier Iterate
begin

text \<open>
  \<open>light/client.go\<close>, \<open>light/detector.go\<close> and \<open>light/store/db/db.go\<close>: the light client over its providers and its
  store of trusted blocks.

  \<^item> The providers are a parameter: what a provider answers may depend on the number of the request, so that a
    provider may answer the same height differently each time. A provider is named by a number.
  \<^item> Goroutines that ask all witnesses at once deliver their results in an order that is a parameter too.
  \<^item> The database of the store keeps its keys in order; the values are the protobuf messages, which decode
    to what was encoded. The context of the caller is not cancelled.
  \<^item> Loops that need not end are the loops of \<^theory_text>\<open>Iterate\<close>: \<open>None\<close> is a call that does not return, and a panic is the
    value \<open>Panics\<close>.
\<close>

datatype provider_error = ErrHeightTooHigh | ErrLightBlockNotFound | ErrNoResponse | ErrConnectionClosed
  | ErrBadLightBlock | ErrUnreliableProvider | ErrContextCanceled | ErrDeadlineExceeded | ErrProviderOther

type_synonym answer = "provider_error + light_block"

record world =
  w_ask :: "nat \<Rightarrow> nat \<Rightarrow> int \<Rightarrow> answer"
  w_order :: "nat \<Rightarrow> nat list"

section \<open>The trusted store\<close>

record light_store =
  ls_blocks :: "(int \<times> pb_light_block) list"
  ls_size :: nat

datatype store_error = ErrStoreConvert valproto_error | ErrStoreMarshal | ErrStoreNotFound | ErrStoreDecode light_error

text \<open>The size is a \<open>uint16\<close>; it is counted up also when the height is stored already.\<close>

definition lb_Header :: "light_block \<Rightarrow> header option" where
  "lb_Header lb = Option.bind (lb_SignedHeader lb) sh_Header"

definition SaveLightBlock :: "libs \<Rightarrow> light_block \<Rightarrow> light_store \<Rightarrow> (store_error option \<times> light_store) option" where
  "SaveLightBlock L lb s =
     do {
       h \<leftarrow> lb_Header lb;
       if hd_Height h \<le> 0 then None
       else Some (case lb_ToProto (lib_keys L) lb of
           Inl e \<Rightarrow> (Some (ErrStoreConvert e), s)
         | Inr pb \<Rightarrow>
             (if \<not> list_all time_in_range (light_block_times pb) then (Some ErrStoreMarshal, s)
              else (None, s\<lparr>ls_blocks := store_set (hd_Height h) pb (ls_blocks s), ls_size := (ls_size s + 1) mod 2 ^ 16\<rparr>)))
     }"

definition DeleteLightBlock :: "int \<Rightarrow> light_store \<Rightarrow> light_store option" where
  "DeleteLightBlock height s =
     (if height \<le> 0 then None
      else Some (s\<lparr>ls_blocks := delete_keys [height] (ls_blocks s), ls_size := (ls_size s + (2 ^ 16 - 1)) mod 2 ^ 16\<rparr>))"

definition decode_block :: "pb_light_block \<Rightarrow> (store_error + light_block) option" where
  "decode_block pb = do { r \<leftarrow> LightBlockFromProto pb; Some (case r of Inl e \<Rightarrow> Inl (ErrStoreDecode e) | Inr lb \<Rightarrow> Inr lb) }"

definition ls_LightBlock :: "int \<Rightarrow> light_store \<Rightarrow> (store_error + light_block) option" where
  "ls_LightBlock height s =
     (if height \<le> 0 then None
      else case map_of (ls_blocks s) height of
        None \<Rightarrow> Some (Inl ErrStoreNotFound)
      | Some pb \<Rightarrow> decode_block pb)"

definition LastLightBlockHeight :: "light_store \<Rightarrow> int" where
  "LastLightBlockHeight s = (if ls_blocks s = [] then -1 else fst (last (ls_blocks s)))"

definition FirstLightBlockHeight :: "light_store \<Rightarrow> int" where
  "FirstLightBlockHeight s = (case ls_blocks s of [] \<Rightarrow> -1 | b # _ \<Rightarrow> fst b)"

definition LightBlockBefore :: "int \<Rightarrow> light_store \<Rightarrow> (store_error + light_block) option" where
  "LightBlockBefore height s =
     (if height \<le> 0 then None
      else (let below = filter (\<lambda>b. fst b < height) (ls_blocks s) in
        if below = [] then Some (Inl ErrStoreNotFound) else decode_block (snd (last below))))"

definition ls_Prune :: "nat \<Rightarrow> light_store \<Rightarrow> light_store" where
  "ls_Prune k s =
     (if ls_size s \<le> k then s else s\<lparr>ls_blocks := drop (ls_size s - k) (ls_blocks s), ls_size := k\<rparr>)"

section \<open>The client\<close>

datatype verify_mode = Sequential | Skipping

record light_client =
  lc_chainID :: bytes
  lc_trustingPeriod :: int
  lc_verificationMode :: verify_mode
  lc_trustLevel :: fraction
  lc_maxClockDrift :: int
  lc_primary :: nat
  lc_witnesses :: "nat list"
  lc_trustedStore :: light_store
  lc_latestTrustedBlock :: "light_block option"
  lc_pruningSize :: nat
  lc_requests :: nat

text \<open>\<open>lc_requests\<close> counts the requests so far: it selects the answers of the providers and is not in the code.\<close>

datatype fail_reason = FailVerify light_verify_error | FailProvider provider_error | FailNoWitnesses

datatype client_error = ErrVerificationFailed int int fail_reason | ErrReason fail_reason | ErrNoWitnesses
  | ErrLightClientAttack | ErrFailedHeaderCrossReferencing | ErrShortTrace | ErrBackwards header_reason
  | ErrStoreFailed store_error | ErrNegativeHeight | ErrNoHeaders | ErrUnverifiedHeight | ErrNotSameHeader
  | ErrConflictingHeaders light_block nat | ErrTrustOptions trust_options_error | ErrTrustLevel
  | ErrExpectedHash | ErrFirstCommit commit_error | ErrEmptyStore | ErrTargetTooLow | ErrTraceTime | ErrFirstDiffers | ErrNoDivergence

section \<open>Asking providers\<close>

definition ask :: "world \<Rightarrow> nat \<Rightarrow> int \<Rightarrow> light_client \<Rightarrow> answer \<times> light_client" where
  "ask W p height c = (w_ask W (lc_requests c) p height, c\<lparr>lc_requests := lc_requests c + 1\<rparr>)"

definition getLightBlock :: "world \<Rightarrow> nat \<Rightarrow> int \<Rightarrow> light_client \<Rightarrow> answer \<times> light_client" where
  "getLightBlock W p height c =
     (let (r, c) = ask W p height c in (if r = Inl ErrDeadlineExceeded then Inl ErrNoResponse else r, c))"

definition providerShouldBeRemoved :: "provider_error \<Rightarrow> bool" where
  "providerShouldBeRemoved e \<longleftrightarrow> e \<in> {ErrUnreliableProvider, ErrBadLightBlock, ErrConnectionClosed}"

text \<open>Each index is overwritten with the last witness, which is dropped; the highest index first.\<close>

fun remove_each :: "nat list \<Rightarrow> nat list \<Rightarrow> nat list option" where
  "remove_each [] ws = Some ws"
| "remove_each (i # is) ws = (if i < length ws then remove_each is (butlast (ws[i := last ws])) else None)"

definition removeWitnesses :: "nat list \<Rightarrow> light_client \<Rightarrow> (fail_reason option \<times> light_client) option" where
  "removeWitnesses indexes c =
     (if length (lc_witnesses c) \<le> length indexes then Some (Some FailNoWitnesses, c)
      else do { ws \<leftarrow> remove_each (rev (sort indexes)) (lc_witnesses c); Some (None, c\<lparr>lc_witnesses := ws\<rparr>) })"

text \<open>The order in which \<open>k\<close> goroutines deliver one result each: a permutation of their indexes.\<close>

definition arrivals :: "nat list \<Rightarrow> nat \<Rightarrow> nat list" where
  "arrivals order k = (let xs = remdups (filter (\<lambda>i. i < k) order) in xs @ filter (\<lambda>i. i \<notin> set xs) [0..<k])"

datatype primary_search = NewPrimary nat light_block "nat list" | PrimaryCanceled provider_error | NoPrimary "provider_error option"

fun primary_loop :: "answer list \<Rightarrow> nat list \<Rightarrow> nat list \<Rightarrow> provider_error option \<Rightarrow> primary_search" where
  "primary_loop answers [] toRemove lastError = NoPrimary lastError"
| "primary_loop answers (i # is) toRemove lastError =
     (case answers ! i of
        Inr lb \<Rightarrow> NewPrimary i lb toRemove
      | Inl e \<Rightarrow>
          (if e \<in> {ErrContextCanceled, ErrDeadlineExceeded} then PrimaryCanceled e
           else if e \<in> {ErrNoResponse, ErrLightBlockNotFound, ErrHeightTooHigh} then primary_loop answers is toRemove (Some e)
           else primary_loop answers is (toRemove @ [i]) (Some e)))"

definition findNewPrimary :: "world \<Rightarrow> int \<Rightarrow> bool \<Rightarrow> light_client \<Rightarrow> ((fail_reason + light_block) \<times> light_client) option" where
  "findNewPrimary W height remove c =
     (if lc_witnesses c = [] then Some (Inl FailNoWitnesses, c)
      else
        (let ws = lc_witnesses c; n = lc_requests c;
             answers = map (\<lambda>i. w_ask W (n + i) (ws ! i) height) [0..<length ws];
             c = c\<lparr>lc_requests := n + length ws\<rparr>
         in case primary_loop answers (arrivals (w_order W n) (length ws)) [] None of
              PrimaryCanceled e \<Rightarrow> Some (Inl (FailProvider e), c)
            | NoPrimary lastError \<Rightarrow>
                Some (Inl (FailProvider (case lastError of None \<Rightarrow> ErrProviderOther | Some e \<Rightarrow> e)), c)
            | NewPrimary i lb toRemove \<Rightarrow>
                do {
                  let c = (if remove then c else c\<lparr>lc_witnesses := ws @ [lc_primary c]\<rparr>)\<lparr>lc_primary := ws ! i\<rparr>;
                  (err, c) \<leftarrow> removeWitnesses (toRemove @ [i]) c;
                  Some (case err of Some e \<Rightarrow> Inl e | None \<Rightarrow> Inr lb, c)
                }))"

definition lightBlockFromPrimary :: "world \<Rightarrow> int \<Rightarrow> light_client \<Rightarrow> ((fail_reason + light_block) \<times> light_client) option" where
  "lightBlockFromPrimary W height c =
     (let (r, c) = getLightBlock W (lc_primary c) height c in
      case r of
        Inr l \<Rightarrow> Some (Inr l, c)
      | Inl e \<Rightarrow>
          (if e \<in> {ErrContextCanceled, ErrDeadlineExceeded} then Some (Inl (FailProvider e), c)
           else if e \<in> {ErrNoResponse, ErrLightBlockNotFound, ErrHeightTooHigh} then findNewPrimary W height False c
           else findNewPrimary W height True c))"

section \<open>Skipping verification\<close>

definition verifySkippingNumerator :: int where "verifySkippingNumerator = 9"
definition verifySkippingDenominator :: int where "verifySkippingDenominator = 16"

definition schedule :: "int \<Rightarrow> int \<Rightarrow> int" where
  "schedule lastVerifiedHeight lastFailedHeight =
     i64 (lastVerifiedHeight
       + i64 (i64 (lastFailedHeight - lastVerifiedHeight) * verifySkippingNumerator) sdiv verifySkippingDenominator)"

definition lb_Verify :: "libs \<Rightarrow> light_client \<Rightarrow> int \<Rightarrow> light_block \<Rightarrow> light_block \<Rightarrow> light_verify_error option option" where
  "lb_Verify L c now trusted new =
     do {
       tsh \<leftarrow> lb_SignedHeader trusted;
       ush \<leftarrow> lb_SignedHeader new;
       light_Verify L tsh (lb_ValidatorSet trusted) ush (lb_ValidatorSet new) (lc_trustingPeriod c) now
         (lc_maxClockDrift c) (lc_trustLevel c)
     }"

definition lb_Height :: "light_block \<Rightarrow> int" where
  "lb_Height lb = (case lb_Header lb of None \<Rightarrow> 0 | Some h \<Rightarrow> hd_Height h)"

text \<open>
  One round of the loop of \<open>verifySkipping\<close>, over the cache, the depth, the verified block, the trace and the client.
  The cache has the new block first and the block with the lowest height last. A header that is nil makes the
  verification panic before its height is read.
\<close>

type_synonym skip_state = "light_block list \<times> nat \<times> light_block \<times> light_block list \<times> light_client"

fun skip_step ::
  "libs \<Rightarrow> world \<Rightarrow> nat \<Rightarrow> int \<Rightarrow> light_block \<Rightarrow> skip_state
     \<Rightarrow> ((client_error + light_block list) \<times> light_client + skip_state) outcome option" where
  "skip_step L W source now newLightBlock (blockCache, depth, verifiedBlock, trace, c) =
     run_then (or_panic (lb_Verify L c now verifiedBlock (blockCache ! depth))) (\<lambda>err.
       case err of
         None \<Rightarrow>
           Some (Returns (if depth = 0 then Inl (Inr (trace @ [newLightBlock]), c)
             else Inr (take depth blockCache, 0, blockCache ! depth, trace @ [blockCache ! depth], c)))
       | Some (ErrNewValSetCantBeTrusted _) \<Rightarrow>
           (if depth = length blockCache - 1 then
              (let pivotHeight = schedule (lb_Height verifiedBlock) (lb_Height (blockCache ! depth)) in
               case getLightBlock W source pivotHeight c of
                 (Inl e, c) \<Rightarrow>
                   Some (Returns (Inl (Inl (ErrVerificationFailed (lb_Height verifiedBlock) pivotHeight (FailProvider e)), c)))
               | (Inr interimBlock, c) \<Rightarrow> Some (Returns (Inr (blockCache @ [interimBlock], depth + 1, verifiedBlock, trace, c))))
            else Some (Returns (Inr (blockCache, depth + 1, verifiedBlock, trace, c))))
       | Some e \<Rightarrow>
           Some (Returns (Inl (Inl (ErrVerificationFailed (lb_Height verifiedBlock) (lb_Height (blockCache ! depth)) (FailVerify e)), c))))"

definition verifySkipping ::
  "libs \<Rightarrow> world \<Rightarrow> nat \<Rightarrow> int \<Rightarrow> light_block \<Rightarrow> light_block \<Rightarrow> light_client
     \<Rightarrow> ((client_error + light_block list) \<times> light_client) outcome option" where
  "verifySkipping L W source now trustedBlock newLightBlock c =
     loop_while (skip_step L W source now newLightBlock) ([newLightBlock], 0, trustedBlock, [trustedBlock], c)"

section \<open>The detector\<close>

datatype report = ReportMatch | ReportConflict light_block nat | ReportBad provider_error nat | ReportError provider_error

definition getTargetBlockOrLatest ::
  "world \<Rightarrow> int \<Rightarrow> nat \<Rightarrow> light_client \<Rightarrow> ((provider_error + bool \<times> light_block) \<times> light_client) option" where
  "getTargetBlockOrLatest W height witness c =
     (case getLightBlock W witness 0 c of
        (Inl e, c) \<Rightarrow> Some (Inl e, c)
      | (Inr lb, c) \<Rightarrow>
          do {
            h \<leftarrow> lb_Header lb;
            if hd_Height h = height then Some (Inr (True, lb), c)
            else if hd_Height h > height then
              Some (case getLightBlock W witness height c of
                  (Inl e, c) \<Rightarrow> (Inl e, c)
                | (Inr lb, c) \<Rightarrow> (Inr (True, lb), c))
            else Some (Inr (False, lb), c)
          })"

text \<open>
  One look at a witness that is behind: what it reports, or the block of the target height, or nothing yet. The client
  looks twice, with a pause in between.
\<close>

datatype behind = BehindReports "report list" | CaughtUp light_block | StillBehind

definition look_behind :: "world \<Rightarrow> header \<Rightarrow> nat \<Rightarrow> nat \<Rightarrow> light_client \<Rightarrow> (behind \<times> light_client) option" where
  "look_behind W h witness witnessIndex c =
     do {
       (r, c) \<leftarrow> getTargetBlockOrLatest W (hd_Height h) witness c;
       (case r of
          Inl e \<Rightarrow> Some (BehindReports [if providerShouldBeRemoved e then ReportBad e witnessIndex else ReportError e], c)
        | Inr (isTargetHeight, lb) \<Rightarrow>
            (if isTargetHeight then Some (CaughtUp lb, c)
             else do {
               lh \<leftarrow> lb_Header lb;
               Some (if \<not> hd_Time lh < hd_Time h then BehindReports [ReportConflict lb witnessIndex] else StillBehind, c)
             }))
     }"

definition compare_hashes :: "libs \<Rightarrow> header \<Rightarrow> nat \<Rightarrow> light_block \<Rightarrow> report list option" where
  "compare_hashes L h witnessIndex lb =
     do {
       lh \<leftarrow> lb_Header lb;
       Some ((if hd_Hash (lib_env L) (lib_wrappers L) h \<noteq> hd_Hash (lib_env L) (lib_wrappers L) lh
              then [ReportConflict lb witnessIndex] else [])
             @ [ReportMatch])
     }"

definition compareNewHeaderWithWitness ::
  "libs \<Rightarrow> world \<Rightarrow> header \<Rightarrow> nat \<Rightarrow> nat \<Rightarrow> light_client \<Rightarrow> (report list \<times> light_client) option" where
  "compareNewHeaderWithWitness L W h witness witnessIndex c =
     (case getLightBlock W witness (hd_Height h) c of
        (Inr lb, c) \<Rightarrow> do { ms \<leftarrow> compare_hashes L h witnessIndex lb; Some (ms, c) }
      | (Inl e, c) \<Rightarrow>
          (if e \<in> {ErrNoResponse, ErrLightBlockNotFound, ErrDeadlineExceeded, ErrContextCanceled} then Some ([ReportError e], c)
           else if e = ErrHeightTooHigh then
             do {
               (r, c) \<leftarrow> look_behind W h witness witnessIndex c;
               (r, c) \<leftarrow> (if r = StillBehind then look_behind W h witness witnessIndex c else Some (r, c));
               (case r of
                  BehindReports ms \<Rightarrow> Some (ms, c)
                | CaughtUp lb \<Rightarrow> do { ms \<leftarrow> compare_hashes L h witnessIndex lb; Some (ms, c) }
                | StillBehind \<Rightarrow> Some ([ReportError ErrNoResponse], c))
             }
           else Some ([ReportBad e witnessIndex], c)))"

fun compare_all :: "libs \<Rightarrow> world \<Rightarrow> header \<Rightarrow> nat list \<Rightarrow> nat \<Rightarrow> light_client \<Rightarrow> (report list list \<times> light_client) option" where
  "compare_all L W h [] i c = Some ([], c)"
| "compare_all L W h (w # ws) i c =
     do {
       (ms, c) \<leftarrow> compareNewHeaderWithWitness L W h w i c;
       (qs, c) \<leftarrow> compare_all L W h ws (i + 1) c;
       Some (ms # qs, c)
     }"

text \<open>
  The first \<open>k\<close> messages that the channel gives, when the goroutines have the queues \<open>qs\<close> to send: each number of the
  order lets that goroutine send its next message.
\<close>

fun deliver :: "'a list list \<Rightarrow> nat list \<Rightarrow> nat \<Rightarrow> 'a list" where
  "deliver qs order 0 = []"
| "deliver qs [] (Suc k) = take (Suc k) (concat qs)"
| "deliver qs (i # order) (Suc k) =
     (if i < length qs \<and> qs ! i \<noteq> [] then hd (qs ! i) # deliver (qs[i := tl (qs ! i)]) order k
      else deliver qs order (Suc k))"

definition newLightClientAttackEvidence :: "light_block \<Rightarrow> light_block \<Rightarrow> light_block \<Rightarrow> light_attack option" where
  "newLightClientAttackEvidence conflicted trusted common =
     do {
       let ev = \<lparr>lca_ConflictingBlock = Some conflicted, lca_CommonHeight = 0, lca_ByzantineValidators = None,
                 lca_TotalVotingPower = 0, lca_Timestamp = zero_time\<rparr>;
       th \<leftarrow> lb_Header trusted;
       ch \<leftarrow> lb_Header common;
       invalid \<leftarrow> ConflictingHeaderIsInvalid ev th;
       vals \<leftarrow> lb_ValidatorSet (if invalid then common else trusted);
       (total', _) \<leftarrow> TotalVotingPower vals;
       let ev = ev\<lparr>lca_CommonHeight := (if invalid then hd_Height ch else hd_Height th),
                   lca_Timestamp := (if invalid then hd_Time ch else hd_Time th), lca_TotalVotingPower := total'\<rparr>;
       commonVals \<leftarrow> lb_ValidatorSet common;
       tsh \<leftarrow> lb_SignedHeader trusted;
       byz \<leftarrow> GetByzantineValidators ev commonVals tsh;
       Some (ev\<lparr>lca_ByzantineValidators := (if byz = [] then None else Some byz)\<rparr>)
     }"

text \<open>The walk along a trace; there is no verified block before the first step.\<close>

fun examine_loop ::
  "libs \<Rightarrow> world \<Rightarrow> light_block \<Rightarrow> nat \<Rightarrow> int \<Rightarrow> light_block list \<Rightarrow> light_block option \<Rightarrow> light_block list \<Rightarrow> light_client
     \<Rightarrow> ((client_error + light_block list \<times> light_block) \<times> light_client) outcome option" where
  "examine_loop L W targetBlock source now [] prev sourceTrace c = Some (Returns (Inl ErrNoDivergence, c))"
| "examine_loop L W targetBlock source now (traceBlock # rest) prev sourceTrace c =
     run_then (or_panic (lb_Header traceBlock)) (\<lambda>bh.
     run_then (or_panic (lb_Header targetBlock)) (\<lambda>th.
       if hd_Height bh > hd_Height th then
         (if hd_Time bh > hd_Time th then Some (Returns (Inl ErrTraceTime, c))
          else run_then (or_panic prev) (\<lambda>p.
            if lb_Height p \<noteq> hd_Height th then
              run_then (verifySkipping L W source now p targetBlock c) (\<lambda>(r, c).
                Some (Returns (case r of Inl e \<Rightarrow> Inl e | Inr tr \<Rightarrow> Inr (tr, traceBlock), c)))
            else Some (Returns (Inr (sourceTrace, traceBlock), c))))
       else
         (case (if hd_Height bh = hd_Height th then (Inr targetBlock, c) else getLightBlock W source (hd_Height bh) c) of
            (Inl e, c) \<Rightarrow> Some (Returns (Inl (ErrReason (FailProvider e)), c))
          | (Inr sourceBlock, c) \<Rightarrow>
              run_then (or_panic (lb_Header sourceBlock)) (\<lambda>sh.
                let differs = hd_Hash (lib_env L) (lib_wrappers L) sh \<noteq> hd_Hash (lib_env L) (lib_wrappers L) bh in
                (case prev of
                   None \<Rightarrow>
                     (if differs then Some (Returns (Inl ErrFirstDiffers, c))
                      else examine_loop L W targetBlock source now rest (Some sourceBlock) sourceTrace c)
                 | Some p \<Rightarrow>
                     run_then (verifySkipping L W source now p sourceBlock c) (\<lambda>(r, c).
                       case r of
                         Inl e \<Rightarrow> Some (Returns (Inl e, c))
                       | Inr tr \<Rightarrow>
                           (if differs then Some (Returns (Inr (tr, traceBlock), c))
                            else examine_loop L W targetBlock source now rest (Some sourceBlock) tr c)))))))"

definition examineConflictingHeaderAgainstTrace ::
  "libs \<Rightarrow> world \<Rightarrow> light_block list \<Rightarrow> light_block \<Rightarrow> nat \<Rightarrow> int \<Rightarrow> light_client
     \<Rightarrow> ((client_error + light_block list \<times> light_block) \<times> light_client) outcome option" where
  "examineConflictingHeaderAgainstTrace L W trace targetBlock source now c =
     (case trace of
        [] \<Rightarrow> Some Panics
      | b # _ \<Rightarrow>
          run_then (or_panic (lb_Header b)) (\<lambda>bh.
          run_then (or_panic (lb_Header targetBlock)) (\<lambda>th.
            if hd_Height th < hd_Height bh then Some (Returns (Inl ErrTargetTooLow, c))
            else examine_loop L W targetBlock source now trace None [] c)))"

text \<open>Evidence from the ends of a trace, and to whom it goes.\<close>

definition attack_evidence :: "light_block \<Rightarrow> light_block list \<Rightarrow> light_attack option" where
  "attack_evidence conflicted tr = (if tr = [] then None else newLightClientAttackEvidence conflicted (last tr) (hd tr))"

definition same_round :: "light_block \<Rightarrow> light_block \<Rightarrow> bool option" where
  "same_round a b =
     do {
       ca \<leftarrow> Option.bind (lb_SignedHeader a) sh_Commit;
       cb \<leftarrow> Option.bind (lb_SignedHeader b) sh_Commit;
       Some (c_Round ca = c_Round cb)
     }"

definition handleConflictingHeaders ::
  "libs \<Rightarrow> world \<Rightarrow> light_block list \<Rightarrow> light_block \<Rightarrow> nat \<Rightarrow> int \<Rightarrow> light_client
     \<Rightarrow> ((client_error option \<times> (nat \<times> light_attack) list) \<times> light_client) outcome option" where
  "handleConflictingHeaders L W primaryTrace challengingBlock witnessIndex now c =
     run_then (or_panic (if witnessIndex < length (lc_witnesses c) then Some (lc_witnesses c ! witnessIndex) else None)) (\<lambda>witness.
     run_then (examineConflictingHeaderAgainstTrace L W primaryTrace challengingBlock witness now c) (\<lambda>(r, c).
       case r of
         Inl _ \<Rightarrow> Some (Returns ((None, []), c))
       | Inr (witnessTrace, primaryBlock) \<Rightarrow>
           run_then (or_panic (attack_evidence primaryBlock witnessTrace)) (\<lambda>againstPrimary.
           run_then (or_panic (same_round primaryBlock (last witnessTrace))) (\<lambda>_.
           run_then (examineConflictingHeaderAgainstTrace L W witnessTrace primaryBlock (lc_primary c) now c) (\<lambda>(r, c).
             case r of
               Inl _ \<Rightarrow> Some (Returns ((Some ErrLightClientAttack, [(witness, againstPrimary)]), c))
             | Inr (primaryTrace, witnessBlock) \<Rightarrow>
                 run_then (or_panic (attack_evidence witnessBlock primaryTrace)) (\<lambda>againstWitness.
                   Some (Returns ((Some ErrLightClientAttack,
                     [(witness, againstPrimary), (lc_primary c, againstWitness)]), c))))))))"

text \<open>The loop over the messages; it returns an error, or whether a header matched and the witnesses to remove.\<close>

fun detect_loop ::
  "libs \<Rightarrow> world \<Rightarrow> light_block list \<Rightarrow> int \<Rightarrow> report list \<Rightarrow> bool \<Rightarrow> nat list \<Rightarrow> light_client
     \<Rightarrow> ((client_error \<times> (nat \<times> light_attack) list + bool \<times> nat list) \<times> light_client) outcome option" where
  "detect_loop L W trace now [] matched toRemove c = Some (Returns (Inr (matched, toRemove), c))"
| "detect_loop L W trace now (ReportMatch # ms) matched toRemove c = detect_loop L W trace now ms True toRemove c"
| "detect_loop L W trace now (ReportConflict b i # ms) matched toRemove c =
     run_then (handleConflictingHeaders L W trace b i now c) (\<lambda>((err, sent), c).
       case err of
         Some e \<Rightarrow> Some (Returns (Inl (e, sent), c))
       | None \<Rightarrow> detect_loop L W trace now ms matched (toRemove @ [i]) c)"
| "detect_loop L W trace now (ReportBad e i # ms) matched toRemove c =
     detect_loop L W trace now ms matched (toRemove @ [i]) c"
| "detect_loop L W trace now (ReportError e # ms) matched toRemove c =
     (if e \<in> {ErrContextCanceled, ErrDeadlineExceeded} then Some (Returns (Inl (ErrReason (FailProvider e), []), c))
      else detect_loop L W trace now ms matched toRemove c)"

definition detectDivergence ::
  "libs \<Rightarrow> world \<Rightarrow> light_block list \<Rightarrow> int \<Rightarrow> light_client
     \<Rightarrow> ((client_error option \<times> (nat \<times> light_attack) list) \<times> light_client) outcome option" where
  "detectDivergence L W primaryTrace now c =
     (if length primaryTrace < 2 then Some (Returns ((Some ErrShortTrace, []), c))
      else if lc_witnesses c = [] then Some (Returns ((Some ErrNoWitnesses, []), c))
      else
        run_then (or_panic (lb_Header (last primaryTrace))) (\<lambda>h.
        run_then (or_panic (compare_all L W h (lc_witnesses c) 0 c)) (\<lambda>(queues, c1).
        run_then (detect_loop L W primaryTrace now
            (deliver queues (w_order W (lc_requests c)) (length (lc_witnesses c))) False [] c1) (\<lambda>(r, c).
          case r of
            Inl (e, sent) \<Rightarrow> Some (Returns ((Some e, sent), c))
          | Inr (matched, toRemove) \<Rightarrow>
              run_then (or_panic (removeWitnesses toRemove c)) (\<lambda>(err, c).
                Some (Returns ((if err \<noteq> None then Some ErrNoWitnesses
                                else if matched then None else Some ErrFailedHeaderCrossReferencing, []), c)))))))"

definition first_loop_error :: "report \<Rightarrow> client_error option" where
  "first_loop_error m =
     (case m of
        ReportConflict b i \<Rightarrow> Some (ErrConflictingHeaders b i)
      | ReportError e \<Rightarrow> (if e \<in> {ErrContextCanceled, ErrDeadlineExceeded} then Some (ErrReason (FailProvider e)) else None)
      | _ \<Rightarrow> None)"

definition compareFirstHeaderWithWitnesses ::
  "libs \<Rightarrow> world \<Rightarrow> header \<Rightarrow> light_client \<Rightarrow> (client_error option \<times> light_client) option" where
  "compareFirstHeaderWithWitnesses L W h c =
     (if lc_witnesses c = [] then Some (Some ErrNoWitnesses, c)
      else do {
        (queues, c1) \<leftarrow> compare_all L W h (lc_witnesses c) 0 c;
        let received = deliver queues (w_order W (lc_requests c)) (length (lc_witnesses c));
        (case first_error first_loop_error received of
           Some e \<Rightarrow> Some (Some e, c1)
         | None \<Rightarrow>
             do {
               (err, c2) \<leftarrow> removeWitnesses (concat (map (\<lambda>m. case m of ReportBad _ i \<Rightarrow> [i] | _ \<Rightarrow> []) received)) c1;
               Some (if err = None then None else Some ErrNoWitnesses, c2)
             })
      })"

section \<open>Verification against the primary\<close>

text \<open>
  What the client does when skipping verification against the primary fails: give up with an error, or look for
  another primary, removing the old one or not.
\<close>

definition after_failure :: "int \<Rightarrow> int \<Rightarrow> int \<Rightarrow> fail_reason \<Rightarrow> client_error + bool" where
  "after_failure target from to reason =
     (case reason of
        FailVerify (ErrInvalidNewHeader _) \<Rightarrow>
          (if to = target then Inl (ErrVerificationFailed from to reason) else Inr True)
      | FailVerify (ErrOldHeaderExpired _ _) \<Rightarrow> Inl (ErrVerificationFailed from to reason)
      | FailProvider e \<Rightarrow>
          (if e \<in> {ErrContextCanceled, ErrDeadlineExceeded} then Inl (ErrReason reason) else Inr (providerShouldBeRemoved e))
      | _ \<Rightarrow> Inr False)"

definition same_block :: "libs \<Rightarrow> light_block \<Rightarrow> light_block \<Rightarrow> bool option" where
  "same_block L a b =
     do {
       ha \<leftarrow> lb_Header a;
       hb \<leftarrow> lb_Header b;
       Some (hd_Hash (lib_env L) (lib_wrappers L) ha = hd_Hash (lib_env L) (lib_wrappers L) hb)
     }"

type_synonym verify_answer = "(client_error option \<times> (nat \<times> light_attack) list) \<times> light_client"

text \<open>One attempt: it ends with an answer, or it is repeated with the block of another primary.\<close>

fun primary_step ::
  "libs \<Rightarrow> world \<Rightarrow> light_block \<Rightarrow> int \<Rightarrow> light_block \<times> light_client
     \<Rightarrow> (verify_answer + light_block \<times> light_client) outcome option" where
  "primary_step L W trustedBlock now (newLightBlock, c) =
     run_then (verifySkipping L W (lc_primary c) now trustedBlock newLightBlock c) (\<lambda>(r, c).
       case r of
         Inr trace \<Rightarrow> run_then (detectDivergence L W trace now c) (\<lambda>a. Some (Returns (Inl a)))
       | Inl (ErrVerificationFailed from to reason) \<Rightarrow>
           (case after_failure (lb_Height newLightBlock) from to reason of
              Inl e \<Rightarrow> Some (Returns (Inl ((Some e, []), c)))
            | Inr replace \<Rightarrow>
                run_then (or_panic (findNewPrimary W (lb_Height newLightBlock) replace c)) (\<lambda>(r, c).
                  case r of
                    Inl _ \<Rightarrow> Some (Returns (Inl ((Some (ErrReason reason), []), c)))
                  | Inr replacementBlock \<Rightarrow>
                      run_then (or_panic (same_block L replacementBlock newLightBlock)) (\<lambda>same.
                        Some (Returns (if same then Inr (replacementBlock, c) else Inl ((Some (ErrReason reason), []), c))))))
       | Inl e \<Rightarrow> Some (Returns (Inl ((Some e, []), c))))"

definition verifySkippingAgainstPrimary ::
  "libs \<Rightarrow> world \<Rightarrow> light_block \<Rightarrow> light_block \<Rightarrow> int \<Rightarrow> light_client \<Rightarrow> verify_answer outcome option" where
  "verifySkippingAgainstPrimary L W trustedBlock newLightBlock now c =
     loop_while (primary_step L W trustedBlock now) (newLightBlock, c)"

definition lb_VerifyAdjacent :: "libs \<Rightarrow> light_client \<Rightarrow> int \<Rightarrow> light_block \<Rightarrow> light_block \<Rightarrow> light_verify_error option option" where
  "lb_VerifyAdjacent L c now trusted new =
     do {
       tsh \<leftarrow> lb_SignedHeader trusted;
       ush \<leftarrow> lb_SignedHeader new;
       VerifyAdjacent L tsh ush (lb_ValidatorSet new) (lc_trustingPeriod c) now (lc_maxClockDrift c)
     }"

text \<open>One round of the loop of \<open>verifySequential\<close>, over the height, the verified block, the trace and the client.\<close>

fun seq_step ::
  "libs \<Rightarrow> world \<Rightarrow> light_block \<Rightarrow> int \<Rightarrow> int \<times> light_block \<times> light_block list \<times> light_client
     \<Rightarrow> (verify_answer + int \<times> light_block \<times> light_block list \<times> light_client) outcome option" where
  "seq_step L W newLightBlock now (height, verifiedBlock, trace, c) =
     (if height > lb_Height newLightBlock
      then run_then (detectDivergence L W trace now c) (\<lambda>a. Some (Returns (Inl a)))
      else
        run_then (or_panic (if height = lb_Height newLightBlock then Some (Inr newLightBlock, c)
                            else lightBlockFromPrimary W height c)) (\<lambda>(r, c).
          case r of
            Inl reason \<Rightarrow> Some (Returns (Inl ((Some (ErrVerificationFailed (lb_Height verifiedBlock) height reason), []), c)))
          | Inr interimBlock \<Rightarrow>
              (let failed = (\<lambda>e. Some (ErrVerificationFailed (lb_Height verifiedBlock) (lb_Height interimBlock) (FailVerify e))) in
               run_then (or_panic (lb_VerifyAdjacent L c now verifiedBlock interimBlock)) (\<lambda>err.
                 case err of
                   None \<Rightarrow> Some (Returns (Inr (i64 (height + 1), interimBlock, trace @ [interimBlock], c)))
                 | Some (ErrInvalidNewHeader hr) \<Rightarrow>
                     (if lb_Height interimBlock = lb_Height newLightBlock
                      then Some (Returns (Inl ((failed (ErrInvalidNewHeader hr), []), c)))
                      else run_then (or_panic (findNewPrimary W (lb_Height newLightBlock) True c)) (\<lambda>(r, c).
                        case r of
                          Inl _ \<Rightarrow> Some (Returns (Inl ((failed (ErrInvalidNewHeader hr), []), c)))
                        | Inr replacementBlock \<Rightarrow>
                            run_then (or_panic (same_block L replacementBlock newLightBlock)) (\<lambda>same.
                              Some (Returns (if same then Inr (height, verifiedBlock, trace, c)
                                else Inl ((failed (ErrInvalidNewHeader hr), []), c))))))
                 | Some e \<Rightarrow> Some (Returns (Inl ((failed e, []), c)))))))"

definition verifySequential ::
  "libs \<Rightarrow> world \<Rightarrow> light_block \<Rightarrow> light_block \<Rightarrow> int \<Rightarrow> light_client \<Rightarrow> verify_answer outcome option" where
  "verifySequential L W trustedBlock newLightBlock now c =
     run_then (or_panic (lb_Header trustedBlock)) (\<lambda>h.
     run_then (or_panic (lb_Header newLightBlock)) (\<lambda>_.
       loop_while (seq_step L W newLightBlock now) (i64 (hd_Height h + 1), trustedBlock, [trustedBlock], c)))"

text \<open>Backwards verification follows the hashes of the last blocks; the target is the header of the current primary.\<close>

fun back_step ::
  "libs \<Rightarrow> world \<Rightarrow> header \<times> header \<times> light_client
     \<Rightarrow> (client_error option \<times> light_client + header \<times> header \<times> light_client) outcome option" where
  "back_step L W (verifiedHeader, newHeader, c) =
     (if \<not> hd_Height verifiedHeader > hd_Height newHeader then Some (Returns (Inl (None, c)))
      else
        run_then (or_panic (lightBlockFromPrimary W (i64 (hd_Height verifiedHeader - 1)) c)) (\<lambda>(r, c).
          case r of
            Inl reason \<Rightarrow> Some (Returns (Inl (Some (ErrReason reason), c)))
          | Inr interimBlock \<Rightarrow>
              run_then (or_panic (lb_Header interimBlock)) (\<lambda>interimHeader.
                case VerifyBackwards L interimHeader verifiedHeader of
                  None \<Rightarrow> Some (Returns (Inr (interimHeader, newHeader, c)))
                | Some e \<Rightarrow>
                    run_then (or_panic (findNewPrimary W (hd_Height newHeader) True c)) (\<lambda>(r, c).
                      case r of
                        Inl _ \<Rightarrow> Some (Returns (Inl (Some (ErrBackwards e), c)))
                      | Inr newPrimarysBlock \<Rightarrow>
                          run_then (or_panic (lb_Header newPrimarysBlock)) (\<lambda>h.
                            Some (Returns
                              (if hd_Hash (lib_env L) (lib_wrappers L) h = hd_Hash (lib_env L) (lib_wrappers L) newHeader
                               then Inr (verifiedHeader, h, c) else Inl (Some (ErrBackwards e), c))))))))"

definition backwards ::
  "libs \<Rightarrow> world \<Rightarrow> header \<Rightarrow> header \<Rightarrow> light_client \<Rightarrow> (client_error option \<times> light_client) outcome option" where
  "backwards L W trustedHeader newHeader c = loop_while (back_step L W) (trustedHeader, newHeader, c)"

section \<open>The operations of the client\<close>

definition updateTrustedLightBlock :: "libs \<Rightarrow> light_block \<Rightarrow> light_client \<Rightarrow> (client_error option \<times> light_client) option" where
  "updateTrustedLightBlock L l c =
     do {
       (err, s) \<leftarrow> SaveLightBlock L l (lc_trustedStore c);
       (case err of
          Some e \<Rightarrow> Some (Some (ErrStoreFailed e), c)
        | None \<Rightarrow>
            do {
              let c = c\<lparr>lc_trustedStore := (if lc_pruningSize c > 0 then ls_Prune (lc_pruningSize c) s else s)\<rparr>;
              h \<leftarrow> lb_Header l;
              newest \<leftarrow> (case lc_latestTrustedBlock c of
                           None \<Rightarrow> Some True
                         | Some b \<Rightarrow> map_option (\<lambda>bh. hd_Height h > hd_Height bh) (lb_Header b));
              Some (None, if newest then c\<lparr>lc_latestTrustedBlock := Some l\<rparr> else c)
            })
     }"

definition verify_func ::
  "libs \<Rightarrow> world \<Rightarrow> light_block \<Rightarrow> light_block \<Rightarrow> int \<Rightarrow> light_client
     \<Rightarrow> verify_answer outcome option" where
  "verify_func L W trustedBlock newLightBlock now c =
     (case lc_verificationMode c of
        Sequential \<Rightarrow> verifySequential L W trustedBlock newLightBlock now c
      | Skipping \<Rightarrow> verifySkippingAgainstPrimary L W trustedBlock newLightBlock now c)"

text \<open>The block to verify from is the latest, or the closest before the new one; below the first one goes backwards.\<close>

definition verifyLightBlock ::
  "libs \<Rightarrow> world \<Rightarrow> light_block \<Rightarrow> int \<Rightarrow> light_client
     \<Rightarrow> verify_answer outcome option" where
  "verifyLightBlock L W newLightBlock now c =
     (let s = lc_trustedStore c; firstBlockHeight = FirstLightBlockHeight s in
      run_then (or_panic (lb_Header newLightBlock)) (\<lambda>h.
      run_then (or_panic (lc_latestTrustedBlock c)) (\<lambda>latest.
      run_then (or_panic (lb_Header latest)) (\<lambda>lh.
      run_then
        (if hd_Height h \<ge> hd_Height lh then verify_func L W latest newLightBlock now c
         else if hd_Height h < firstBlockHeight then
           run_then (or_panic (ls_LightBlock firstBlockHeight s)) (\<lambda>r.
             case r of
               Inl e \<Rightarrow> Some (Returns ((Some (ErrStoreFailed e), []), c))
             | Inr firstBlock \<Rightarrow>
                 run_then (or_panic (lb_Header firstBlock)) (\<lambda>fh.
                 run_then (backwards L W fh h c) (\<lambda>(err, c). Some (Returns ((err, []), c)))))
         else
           run_then (or_panic (LightBlockBefore (hd_Height h) s)) (\<lambda>r.
             case r of
               Inl e \<Rightarrow> Some (Returns ((Some (ErrStoreFailed e), []), c))
             | Inr closestBlock \<Rightarrow> verify_func L W closestBlock newLightBlock now c))
        (\<lambda>((err, sent), c).
           case err of
             Some e \<Rightarrow> Some (Returns ((Some e, sent), c))
           | None \<Rightarrow>
               run_then (or_panic (updateTrustedLightBlock L newLightBlock c)) (\<lambda>(err, c).
                 Some (Returns ((err, sent), c))))))))"

definition compareWithLatestHeight :: "int \<Rightarrow> light_client \<Rightarrow> client_error + int" where
  "compareWithLatestHeight height c =
     (let latestHeight = LastLightBlockHeight (lc_trustedStore c) in
      if latestHeight = -1 then Inl ErrNoHeaders
      else if height > latestHeight then Inl ErrUnverifiedHeight
      else if height = 0 then Inr latestHeight
      else if height < 0 then Inl ErrNegativeHeight
      else Inr height)"

definition TrustedLightBlock :: "int \<Rightarrow> light_client \<Rightarrow> (client_error + light_block) option" where
  "TrustedLightBlock height c =
     (case compareWithLatestHeight height c of
        Inl e \<Rightarrow> Some (Inl e)
      | Inr height \<Rightarrow>
          do { r \<leftarrow> ls_LightBlock height (lc_trustedStore c); Some (case r of Inl e \<Rightarrow> Inl (ErrStoreFailed e) | Inr b \<Rightarrow> Inr b) })"

type_synonym client_run = "((client_error + light_block option) \<times> light_client) outcome option"

definition lc_Update :: "libs \<Rightarrow> world \<Rightarrow> int \<Rightarrow> light_client \<Rightarrow> client_run" where
  "lc_Update L W now c =
     (let lastTrustedHeight = LastLightBlockHeight (lc_trustedStore c) in
      if lastTrustedHeight = -1 then Some (Returns (Inr None, c))
      else
        run_then (or_panic (lightBlockFromPrimary W 0 c)) (\<lambda>(r, c).
          case r of
            Inl reason \<Rightarrow> Some (Returns (Inl (ErrReason reason), c))
          | Inr latestBlock \<Rightarrow>
              run_then (or_panic (lb_Header latestBlock)) (\<lambda>h.
                if hd_Height h > lastTrustedHeight then
                  run_then (verifyLightBlock L W latestBlock now c) (\<lambda>((err, _), c).
                    Some (Returns (case err of Some e \<Rightarrow> Inl e | None \<Rightarrow> Inr (Some latestBlock), c)))
                else Some (Returns (Inr (lc_latestTrustedBlock c), c)))))"

text \<open>Also when the verification fails the block is returned, together with the error; here the error takes its place.\<close>

definition VerifyLightBlockAtHeight :: "libs \<Rightarrow> world \<Rightarrow> int \<Rightarrow> int \<Rightarrow> light_client \<Rightarrow> client_run" where
  "VerifyLightBlockAtHeight L W height now c =
     (if height \<le> 0 then Some (Returns (Inl ErrNegativeHeight, c))
      else
        run_then (or_panic (TrustedLightBlock height c)) (\<lambda>r.
          case r of
            Inr h \<Rightarrow> Some (Returns (Inr (Some h), c))
          | Inl _ \<Rightarrow>
              run_then (or_panic (lightBlockFromPrimary W height c)) (\<lambda>(r, c).
                case r of
                  Inl reason \<Rightarrow> Some (Returns (Inl (ErrReason reason), c))
                | Inr l \<Rightarrow>
                    run_then (verifyLightBlock L W l now c) (\<lambda>((err, _), c).
                      Some (Returns (case err of Some e \<Rightarrow> Inl e | None \<Rightarrow> Inr (Some l), c))))))"

definition VerifyHeader ::
  "libs \<Rightarrow> world \<Rightarrow> header option \<Rightarrow> int \<Rightarrow> light_client \<Rightarrow> (client_error option \<times> light_client) outcome option" where
  "VerifyHeader L W newHeader now c =
     (case newHeader of
        None \<Rightarrow> Some (Returns (Some ErrNoHeaders, c))
      | Some nh \<Rightarrow>
          (let hash = hd_Hash (lib_env L) (lib_wrappers L) in
           if hd_Height nh \<le> 0 then Some (Returns (Some ErrNegativeHeight, c))
           else
             run_then (or_panic (TrustedLightBlock (hd_Height nh) c)) (\<lambda>r.
               case r of
                 Inr l \<Rightarrow>
                   run_then (or_panic (lb_Header l)) (\<lambda>h.
                     Some (Returns (if hash h \<noteq> hash nh then Some ErrNotSameHeader else None, c)))
               | Inl _ \<Rightarrow>
                   run_then (or_panic (lightBlockFromPrimary W (hd_Height nh) c)) (\<lambda>(r, c).
                     case r of
                       Inl reason \<Rightarrow> Some (Returns (Some (ErrReason reason), c))
                     | Inr l \<Rightarrow>
                         run_then (or_panic (lb_Header l)) (\<lambda>h.
                           if hash h \<noteq> hash nh then Some (Returns (Some ErrNotSameHeader, c))
                           else run_then (verifyLightBlock L W l now c) (\<lambda>((err, _), c). Some (Returns (err, c))))))))"

definition initializeWithTrustOptions ::
  "libs \<Rightarrow> world \<Rightarrow> trust_options \<Rightarrow> light_client \<Rightarrow> (client_error option \<times> light_client) option" where
  "initializeWithTrustOptions L W options c =
     do {
       (r, c) \<leftarrow> lightBlockFromPrimary W (to_Height options) c;
       (case r of
          Inl reason \<Rightarrow> Some (Some (ErrReason reason), c)
        | Inr l \<Rightarrow>
            do {
              sh \<leftarrow> lb_SignedHeader l;
              h \<leftarrow> sh_Header sh;
              if hd_Hash (lib_env L) (lib_wrappers L) h \<noteq> to_Hash options then Some (Some ErrExpectedHash, c)
              else do {
                commit \<leftarrow> sh_Commit sh;
                (err, _) \<leftarrow> VerifyCommitLight (lib_env L) (lib_keys L) (lc_chainID c) (lb_ValidatorSet l) (c_BlockID commit)
                  (hd_Height h) (Some commit);
                (case err of
                   Some e \<Rightarrow> Some (Some (ErrFirstCommit e), c)
                 | None \<Rightarrow>
                     do {
                       (err, c) \<leftarrow> compareFirstHeaderWithWitnesses L W h c;
                       if err \<noteq> None then Some (err, c) else updateTrustedLightBlock L l c
                     })
              }
            })
     }"

definition restoreTrustedLightBlock :: "light_client \<Rightarrow> (client_error option \<times> light_client) option" where
  "restoreTrustedLightBlock c =
     (let lastHeight = LastLightBlockHeight (lc_trustedStore c) in
      if lastHeight \<le> 0 then Some (Some ErrEmptyStore, c)
      else do {
        r \<leftarrow> ls_LightBlock lastHeight (lc_trustedStore c);
        Some (case r of Inl e \<Rightarrow> (Some (ErrStoreFailed e), c) | Inr b \<Rightarrow> (None, c\<lparr>lc_latestTrustedBlock := Some b\<rparr>))
      })"

text \<open>The options change the fields of the client before they are checked.\<close>

definition NewClientFromTrustedStore ::
  "bytes \<Rightarrow> int \<Rightarrow> nat \<Rightarrow> nat list \<Rightarrow> light_store \<Rightarrow> (light_client \<Rightarrow> light_client) \<Rightarrow> (client_error + light_client) option" where
  "NewClientFromTrustedStore chainID trustingPeriod primary witnesses trustedStore options =
     (let c = options \<lparr>lc_chainID = chainID, lc_trustingPeriod = trustingPeriod, lc_verificationMode = Skipping,
                lc_trustLevel = DefaultTrustLevel, lc_maxClockDrift = 10 * 10 ^ 9, lc_primary = primary,
                lc_witnesses = witnesses, lc_trustedStore = trustedStore, lc_latestTrustedBlock = None,
                lc_pruningSize = 1000, lc_requests = 0\<rparr>
      in if lc_witnesses c = [] then Some (Inl ErrNoWitnesses)
         else if ValidateTrustLevel (lc_trustLevel c) \<noteq> None then Some (Inl ErrTrustLevel)
         else do { (err, c) \<leftarrow> restoreTrustedLightBlock c; Some (case err of Some e \<Rightarrow> Inl e | None \<Rightarrow> Inr c) })"

definition NewClient ::
  "libs \<Rightarrow> world \<Rightarrow> bytes \<Rightarrow> trust_options \<Rightarrow> nat \<Rightarrow> nat list \<Rightarrow> light_store \<Rightarrow> (light_client \<Rightarrow> light_client)
     \<Rightarrow> (client_error + light_client) option" where
  "NewClient L W chainID trustOptions primary witnesses trustedStore options =
     (if LastLightBlockHeight trustedStore > 0
      then NewClientFromTrustedStore chainID (to_Period trustOptions) primary witnesses trustedStore options
      else case to_ValidateBasic trustOptions of
        Some e \<Rightarrow> Some (Inl (ErrTrustOptions e))
      | None \<Rightarrow>
          (if witnesses = [] then Some (Inl ErrNoWitnesses)
           else
             (let c = options \<lparr>lc_chainID = chainID, lc_trustingPeriod = to_Period trustOptions,
                        lc_verificationMode = Skipping, lc_trustLevel = DefaultTrustLevel,
                        lc_maxClockDrift = 10 * 10 ^ 9, lc_primary = primary, lc_witnesses = witnesses,
                        lc_trustedStore = trustedStore, lc_latestTrustedBlock = None, lc_pruningSize = 1000,
                        lc_requests = 0\<rparr>
              in if ValidateTrustLevel (lc_trustLevel c) \<noteq> None then Some (Inl ErrTrustLevel)
                 else do {
                   (err, c) \<leftarrow> initializeWithTrustOptions L W trustOptions c;
                   Some (case err of Some e \<Rightarrow> Inl e | None \<Rightarrow> Inr c)
                 })))"

definition AddProvider :: "nat \<Rightarrow> light_client \<Rightarrow> light_client" where
  "AddProvider p c = c\<lparr>lc_witnesses := lc_witnesses c @ [p]\<rparr>"

definition lc_Cleanup :: "light_client \<Rightarrow> light_client" where
  "lc_Cleanup c = c\<lparr>lc_latestTrustedBlock := None, lc_trustedStore := ls_Prune 0 (lc_trustedStore c)\<rparr>"

section \<open>Skipping verification ends and is sound\<close>

lemma lb_Verify_requests [simp]: "lb_Verify L (c\<lparr>lc_requests := n\<rparr>) = lb_Verify L c"
  by (simp add: lb_Verify_def fun_eq_iff)

lemma getLightBlock_eq:
  "getLightBlock W p h c = (if w_ask W (lc_requests c) p h = Inl ErrDeadlineExceeded then Inl ErrNoResponse
     else w_ask W (lc_requests c) p h, c\<lparr>lc_requests := lc_requests c + 1\<rparr>)"
  by (simp add: getLightBlock_def ask_def)

definition verified_chain :: "libs \<Rightarrow> light_client \<Rightarrow> int \<Rightarrow> light_block list \<Rightarrow> bool" where
  "verified_chain L c now tr \<longleftrightarrow> (\<forall>i. Suc i < length tr \<longrightarrow> lb_Verify L c now (tr ! i) (tr ! Suc i) = Some None)"

lemma verified_chain_snoc:
  "verified_chain L c now tr \<Longrightarrow> tr \<noteq> [] \<Longrightarrow> lb_Verify L c now (last tr) b = Some None \<Longrightarrow> verified_chain L c now (tr @ [b])"
  by (auto simp: verified_chain_def nth_append last_conv_nth less_Suc_eq) (metis diff_Suc_Suc diff_zero)

lemma skip_step_Inr:
  assumes "skip_step L W source now new (cache, depth, v, tr, c) = Some (Returns (Inr st))"
  obtains "lb_Verify L c now v (cache ! depth) = Some None" "depth \<noteq> 0"
      "st = (take depth cache, 0, cache ! depth, tr @ [cache ! depth], c)"
  | ce b where "lb_Verify L c now v (cache ! depth) = Some (Some (ErrNewValSetCantBeTrusted ce))" "depth = length cache - 1"
      "w_ask W (lc_requests c) source (schedule (lb_Height v) (lb_Height (cache ! depth))) = Inr b"
      "st = (cache @ [b], depth + 1, v, tr, c\<lparr>lc_requests := lc_requests c + 1\<rparr>)"
  | ce where "lb_Verify L c now v (cache ! depth) = Some (Some (ErrNewValSetCantBeTrusted ce))" "depth \<noteq> length cache - 1"
      "st = (cache, depth + 1, v, tr, c)"
proof (cases "lb_Verify L c now v (cache ! depth)")
  case (Some err)
  then show ?thesis
  proof (cases err)
    case None
    then show ?thesis using that(1) assms Some by (auto split: if_splits)
  next
    case (Some e)
    with assms \<open>lb_Verify L c now v (cache ! depth) = Some err\<close> show ?thesis
      using that(2,3) by (cases e) (auto simp: getLightBlock_eq Let_def split: if_splits sum.splits)
  qed
qed (use assms in simp)

lemma skip_step_Inl:
  assumes "skip_step L W source now new (cache, depth, v, tr, c) = Some (Returns (Inl (r, c')))"
  obtains "lb_Verify L c now v (cache ! depth) = Some None" "depth = 0" "r = Inr (tr @ [new])" "c' = c"
  | e where "r = Inl e" "c' = c"
  | e ce where "r = Inl e" "c' = c\<lparr>lc_requests := lc_requests c + 1\<rparr>" "depth = length cache - 1"
      "lb_Verify L c now v (cache ! depth) = Some (Some (ErrNewValSetCantBeTrusted ce))"
proof (cases "lb_Verify L c now v (cache ! depth)")
  case (Some err)
  then show ?thesis
  proof (cases err)
    case None
    then show ?thesis using that(1) assms Some by (auto split: if_splits)
  next
    case (Some e)
    with assms \<open>lb_Verify L c now v (cache ! depth) = Some err\<close> show ?thesis
      using that(2,3) by (cases e) (auto simp: getLightBlock_eq Let_def split: if_splits sum.splits)
  qed
qed (use assms in simp)

declare skip_step.simps [simp del]

text \<open>The trace is a chain of verified steps that ends at the verified block, and the cache starts with the new block.\<close>

definition skip_inv :: "libs \<Rightarrow> int \<Rightarrow> light_block \<Rightarrow> light_block \<Rightarrow> light_client \<Rightarrow> skip_state \<Rightarrow> bool" where
  "skip_inv L now trusted new c0 st \<longleftrightarrow> (case st of (cache, depth, v, tr, c) \<Rightarrow>
     cache \<noteq> [] \<and> cache ! 0 = new \<and> tr \<noteq> [] \<and> hd tr = trusted \<and> last tr = v \<and> verified_chain L c0 now tr
     \<and> lb_Verify L c = lb_Verify L c0)"

lemma skipping_sound:
  assumes "verifySkipping L W source now trusted new c = Some (Returns (Inr tr, c'))"
  shows "verified_chain L c now tr \<and> 2 \<le> length tr \<and> hd tr = trusted \<and> last tr = new"
proof -
  define Q :: "((client_error + light_block list) \<times> light_client) outcome \<Rightarrow> bool" where
    "Q out \<longleftrightarrow> (\<forall>tr c'. out = Returns (Inr tr, c') \<longrightarrow> verified_chain L c now tr \<and> 2 \<le> length tr \<and> hd tr = trusted \<and> last tr = new)" for out
  have "loop_while (skip_step L W source now new) ([new], 0, trusted, [trusted], c) = Some (Returns (Inr tr, c'))"
    using assms by (simp add: verifySkipping_def)
  then have "Q (Returns (Inr tr, c'))"
  proof (rule loop_while_induct [where P = "skip_inv L now trusted new c" and Q = Q])
    show "skip_inv L now trusted new c ([new], 0, trusted, [trusted], c)" by (simp add: skip_inv_def verified_chain_def)
  next
    fix st st' assume "skip_inv L now trusted new c st" "skip_step L W source now new st = Some (Returns (Inr st'))"
    then show "skip_inv L now trusted new c st'"
      by (cases st) (auto elim!: skip_step_Inr simp: skip_inv_def nth_append intro!: verified_chain_snoc)
  next
    fix st x assume inv: "skip_inv L now trusted new c st" and stop: "skip_step L W source now new st = Some (Returns (Inl x))"
    obtain cache depth v tr0 c1 where st: "st = (cache, depth, v, tr0, c1)" by (cases st) auto
    obtain r c2 where x: "x = (r, c2)" by (cases x)
    show "Q (Returns x)"
      using stop inv unfolding st x
      by (auto elim!: skip_step_Inl simp: skip_inv_def Q_def Suc_le_eq intro: verified_chain_snoc)
  qed (simp add: Q_def)
  then show ?thesis by (simp add: Q_def)
qed

text \<open>A provider that answers, if at all, with a block of the height that was asked for.\<close>

definition answers_height :: "world \<Rightarrow> nat \<Rightarrow> bool" where
  "answers_height W source \<longleftrightarrow> (\<forall>n h b. w_ask W n source h = Inr b \<longrightarrow> lb_Height b = h)"

lemma nine_sixteenths: "2 \<le> (d :: int) \<Longrightarrow> 1 \<le> d * 9 div 16 \<and> d * 9 div 16 < d"
proof -
  assume d: "2 \<le> d"
  have "(16 :: int) div 16 \<le> d * 9 div 16" using d by (intro zdiv_mono1) auto
  moreover have "16 * (d * 9 div 16) \<le> d * 9" by simp
  ultimately show ?thesis using d by simp
qed

lemma pivot_between:
  assumes "0 \<le> v" "v + 2 \<le> f" "f \<le> 2 ^ 59"
  shows "v < schedule v f \<and> schedule v f < f"
proof -
  let ?d = "f - v"
  have d: "2 \<le> ?d" "?d \<le> 2 ^ 59" using assms by linarith+
  have i: "i64 ?d = ?d" "i64 (?d * 9) = ?d * 9" using d by (auto simp: in_i64_def intro!: i64_id)
  have q: "1 \<le> ?d * 9 div 16" "?d * 9 div 16 < ?d" using nine_sixteenths [OF d(1)] by auto
  have "i64 (v + ?d * 9 div 16) = v + ?d * 9 div 16"
    using q assms by (intro i64_id) (auto simp: in_i64_def)
  moreover have "?d * 9 sdiv 16 = ?d * 9 div 16" using d(1) by (simp add: sdiv_nonneg)
  ultimately show ?thesis
    using q i by (simp add: schedule_def verifySkippingNumerator_def verifySkippingDenominator_def)
qed

lemma gap_of_two:
  assumes "lb_Verify L c now v b = Some (Some (ErrNewValSetCantBeTrusted e))" "0 \<le> lb_Height v" "lb_Height b \<le> 2 ^ 59"
  shows "lb_Height v + 2 \<le> lb_Height b"
proof -
  obtain tsh ush where sh: "lb_SignedHeader v = Some tsh" "lb_SignedHeader b = Some ush"
      "light_Verify L tsh (lb_ValidatorSet v) ush (lb_ValidatorSet b) (lc_trustingPeriod c) now (lc_maxClockDrift c) (lc_trustLevel c)
        = Some (Some (ErrNewValSetCantBeTrusted e))"
    using assms(1) by (auto simp: lb_Verify_def split: bind_splits)
  from cant_be_trusted_gap [OF sh(3)] obtain th uh where
    "sh_Header tsh = Some th" "sh_Header ush = Some uh" "hd_Height th < hd_Height uh" "hd_Height uh \<noteq> i64 (hd_Height th + 1)" .
  then have h: "lb_Height v < lb_Height b" "lb_Height b \<noteq> i64 (lb_Height v + 1)"
    using sh(1,2) by (simp_all add: lb_Height_def lb_Header_def)
  moreover have "i64 (lb_Height v + 1) = lb_Height v + 1"
    using assms(2,3) h(1) by (intro i64_id) (auto simp: in_i64_def)
  ultimately show ?thesis by linarith
qed

lemma descending_length:
  assumes "sorted_wrt (>) (hs :: int list)" "\<forall>h \<in> set hs. v < h" "hs \<noteq> []"
  shows "int (length hs) \<le> hd hs - v"
  using assms
proof (induction hs)
  case (Cons h hs)
  show ?case
  proof (cases "hs = []")
    case True
    then show ?thesis using Cons.prems by simp
  next
    case False
    then have "int (length hs) \<le> hd hs - v" "hd hs < h" using Cons by auto
    then show ?thesis by simp
  qed
qed simp

lemma descending_last: "sorted_wrt (>) (hs :: int list) \<Longrightarrow> x \<in> set hs \<Longrightarrow> last hs \<le> x"
  by (induction hs) (auto simp: less_imp_le)

lemma descending_snoc: "sorted_wrt (>) (hs :: int list) \<Longrightarrow> hs \<noteq> [] \<Longrightarrow> p < last hs \<Longrightarrow> sorted_wrt (>) (hs @ [p])"
  using descending_last by (fastforce simp: sorted_wrt_append)

text \<open>
  The heights in the cache descend from the new block to above the verified one. Each request takes one of the
  heights in between, and none is asked for twice.
\<close>

definition skip_live :: "light_block \<Rightarrow> nat \<Rightarrow> skip_state \<Rightarrow> bool" where
  "skip_live new B st \<longleftrightarrow> (case st of (cache, depth, v, tr, c) \<Rightarrow>
     depth < length cache \<and> cache ! 0 = new \<and> sorted_wrt (>) (map lb_Height cache)
     \<and> (1 < length cache \<longrightarrow> (\<forall>b \<in> set cache. lb_Height v < lb_Height b)) \<and> 0 \<le> lb_Height v \<and> lb_Height new \<le> 2 ^ 59
     \<and> lc_requests c \<le> B
     \<and> (lb_Height v < lb_Height new \<longrightarrow> int (lc_requests c) + (lb_Height new - lb_Height v - int (length cache)) \<le> int B))"

definition skip_order :: "light_block \<Rightarrow> (skip_state \<times> skip_state) set" where
  "skip_order new = inv_image (less_than <*lex*> less_than)
     (\<lambda>(cache, depth, v, tr, c). (nat (lb_Height new - lb_Height v), nat (lb_Height (cache ! depth) - lb_Height v)))"

lemma cache_heights:
  assumes "sorted_wrt (>) (map lb_Height cache)" "depth < length cache"
  shows "lb_Height (cache ! depth) \<le> lb_Height (cache ! 0)" "0 < depth \<Longrightarrow> lb_Height (cache ! depth) < lb_Height (cache ! 0)"
  using assms by (cases "depth = 0"; force simp: sorted_wrt_iff_nth_less)+

lemma skip_success:
  assumes live: "skip_live new B (cache, depth, v, tr, c)" and d: "depth \<noteq> 0"
  shows "skip_live new B (take depth cache, 0, cache ! depth, tr', c)"
    "((take depth cache, 0, cache ! depth, tr', c), (cache, depth, v, tr, c)) \<in> skip_order new"
proof -
  let ?b = "cache ! depth"
  have l: "depth < length cache" "cache ! 0 = new" "sorted_wrt (>) (map lb_Height cache)" "\<forall>b \<in> set cache. lb_Height v < lb_Height b"
      "0 \<le> lb_Height v" "lb_Height new \<le> 2 ^ 59" "lc_requests c \<le> B"
    using live d by (auto simp: skip_live_def)
  have b: "lb_Height v < lb_Height ?b" "lb_Height ?b < lb_Height new" using l d cache_heights(2) [OF l(3,1)] by auto
  have len: "int (length cache - depth) \<le> lb_Height ?b - lb_Height v"
  proof -
    have "sorted_wrt (>) (map lb_Height (drop depth cache))" using l(3) by (simp add: drop_map [symmetric] sorted_wrt_drop)
    moreover have "\<forall>h \<in> set (map lb_Height (drop depth cache)). lb_Height v < h" using l(4) by (auto dest: in_set_dropD)
    ultimately show ?thesis
      using descending_length [of "map lb_Height (drop depth cache)" "lb_Height v"] l(1) by (simp add: hd_map hd_drop_conv_nth)
  qed
  have above: "\<forall>x \<in> set (take depth cache). lb_Height ?b < lb_Height x"
    using l(1,3) by (auto simp: in_set_conv_nth sorted_wrt_iff_nth_less)
  have "int (lc_requests c) + (lb_Height new - lb_Height v - int (length cache)) \<le> int B"
    using live b by (simp add: skip_live_def)
  then have "int (lc_requests c) + (lb_Height new - lb_Height ?b - int depth) \<le> int B" using len l(1) by linarith
  moreover have "sorted_wrt (>) (map lb_Height (take depth cache))" using l(3) by (simp add: take_map [symmetric] sorted_wrt_take)
  moreover have "0 \<le> lb_Height ?b" using l(5) b(1) by linarith
  ultimately show "skip_live new B (take depth cache, 0, ?b, tr', c)"
    using l(1,2,6,7) above d by (simp add: skip_live_def)
  show "((take depth cache, 0, ?b, tr', c), (cache, depth, v, tr, c)) \<in> skip_order new"
    using b by (simp add: skip_order_def)
qed

lemma skip_deeper:
  assumes live: "skip_live new B (cache, depth, v, tr, c)"
    and cant: "lb_Verify L c now v (cache ! depth) = Some (Some (ErrNewValSetCantBeTrusted e))"
  shows "depth \<noteq> length cache - 1 \<Longrightarrow> skip_live new B (cache, depth + 1, v, tr, c)
      \<and> ((cache, depth + 1, v, tr, c), (cache, depth, v, tr, c)) \<in> skip_order new"
    and "depth = length cache - 1 \<Longrightarrow> lc_requests c + 1 \<le> B"
    and "depth = length cache - 1 \<Longrightarrow> lb_Height b = schedule (lb_Height v) (lb_Height (cache ! depth)) \<Longrightarrow>
      skip_live new B (cache @ [b], depth + 1, v, tr, c\<lparr>lc_requests := lc_requests c + 1\<rparr>)
      \<and> ((cache @ [b], depth + 1, v, tr, c\<lparr>lc_requests := lc_requests c + 1\<rparr>), (cache, depth, v, tr, c)) \<in> skip_order new"
proof -
  let ?b = "cache ! depth" and ?p = "schedule (lb_Height v) (lb_Height (cache ! depth))"
  have l: "depth < length cache" "cache ! 0 = new" "sorted_wrt (>) (map lb_Height cache)" "0 \<le> lb_Height v" "lb_Height new \<le> 2 ^ 59"
    using live by (auto simp: skip_live_def)
  have below: "lb_Height ?b \<le> lb_Height new" using cache_heights(1) [OF l(3,1)] l(2) by simp
  have gap: "lb_Height v + 2 \<le> lb_Height ?b" using gap_of_two [OF cant l(4)] below l(5) by linarith
  have p: "lb_Height v < ?p" "?p < lb_Height ?b" using pivot_between [OF l(4) gap] below l(5) by auto
  have all: "\<forall>b \<in> set cache. lb_Height v < lb_Height b"
    using live gap l by (cases "length cache = 1") (auto simp: skip_live_def length_Suc_conv)
  have free: "int (lc_requests c) + (lb_Height new - lb_Height v - int (length cache)) \<le> int B"
    using live gap below by (simp add: skip_live_def)
  show "depth \<noteq> length cache - 1 \<Longrightarrow> skip_live new B (cache, depth + 1, v, tr, c)
      \<and> ((cache, depth + 1, v, tr, c), (cache, depth, v, tr, c)) \<in> skip_order new"
    using live l gap by (auto simp: skip_live_def skip_order_def sorted_wrt_iff_nth_less)
  assume last: "depth = length cache - 1"
  have sorted: "sorted_wrt (>) (map lb_Height cache @ [?p])"
  proof (rule descending_snoc)
    have "cache \<noteq> []" using l(1) by auto
    then show "map lb_Height cache \<noteq> []" "?p < last (map lb_Height cache)" using p(2) last by (auto simp: last_map last_conv_nth)
  qed (rule l(3))
  have "int (length cache) + 1 \<le> lb_Height new - lb_Height v"
    using descending_length [OF sorted, of "lb_Height v"] all p(1) l by (cases cache) auto
  then show "lc_requests c + 1 \<le> B" using free by linarith
  with free show "lb_Height b = ?p \<Longrightarrow> skip_live new B (cache @ [b], depth + 1, v, tr, c\<lparr>lc_requests := lc_requests c + 1\<rparr>)
      \<and> ((cache @ [b], depth + 1, v, tr, c\<lparr>lc_requests := lc_requests c + 1\<rparr>), (cache, depth, v, tr, c)) \<in> skip_order new"
    using sorted l all p last by (auto simp: skip_live_def skip_order_def nth_append)
qed

lemma skipping_returns:
  assumes ans: "answers_height W source" and h: "0 \<le> lb_Height trusted" "lb_Height new \<le> 2 ^ 59"
  shows "\<exists>out. verifySkipping L W source now trusted new c = Some out
    \<and> (\<forall>r c'. out = Returns (r, c') \<longrightarrow> lc_requests c' \<le> lc_requests c + nat (lb_Height new - lb_Height trusted - 1))"
proof -
  define B where "B = lc_requests c + nat (lb_Height new - lb_Height trusted - 1)"
  define Q :: "((client_error + light_block list) \<times> light_client) outcome \<Rightarrow> bool" where
    "Q out \<longleftrightarrow> (\<forall>r c'. out = Returns (r, c') \<longrightarrow> lc_requests c' \<le> B)" for out
  let ?f = "skip_step L W source now new" and ?s = "([new], 0, trusted, [trusted], c)"
  have start: "skip_live new B ?s" using h by (simp add: skip_live_def B_def)
  have step: "skip_live new B st' \<and> (st', st) \<in> skip_order new"
    if "skip_live new B st" "?f st = Some (Returns (Inr st'))" for st st'
    using that skip_success skip_deeper ans
    by (cases st) (auto elim!: skip_step_Inr simp: answers_height_def)
  have "wf (skip_order new)" by (simp add: skip_order_def wf_lex_prod)
  moreover have "?f st \<noteq> None" for st
    by (cases st) (auto simp: skip_step.simps run_then_None getLightBlock_eq Let_def split: option.splits light_verify_error.splits sum.splits)
  ultimately obtain out where out: "loop_while ?f ?s = Some out"
    using loop_while_returns [of "skip_order new" "skip_live new B" ?s ?f] start step by blast
  have "Q out"
  proof (rule loop_while_induct [where P = "skip_live new B" and Q = Q, OF out start])
    fix st x assume live: "skip_live new B st" and stop: "?f st = Some (Returns (Inl x))"
    obtain cache depth v tr c1 where st: "st = (cache, depth, v, tr, c1)" by (cases st) auto
    have "lc_requests c1 \<le> B" using live by (simp add: skip_live_def st)
    then show "Q (Returns x)"
      using stop skip_deeper(2) [OF live [unfolded st]] unfolding st
      by (cases x) (auto elim!: skip_step_Inl simp: Q_def)
  qed (use step in \<open>auto simp: Q_def\<close>)
  then show ?thesis using out by (simp add: verifySkipping_def Q_def B_def)
qed

section \<open>Two providers that miss a block\<close>

lemma arrivals_permutation: "distinct (arrivals order k)" "set (arrivals order k) = {..<k}"
  by (auto simp: arrivals_def Let_def)

lemma arrivals_single: "arrivals order 1 = [0]"
proof -
  have "length (arrivals order 1) = 1"
    using distinct_card [OF arrivals_permutation(1) [of order 1]] by (simp add: arrivals_permutation(2))
  then obtain x where "arrivals order 1 = [x]" by (auto simp: length_Suc_conv)
  then show ?thesis using arrivals_permutation(2) [of order 1] by auto
qed

lemma swap_primary:
  assumes "lc_witnesses c = [w]" "w_ask W (lc_requests c) w h = Inr b"
  shows "findNewPrimary W h False c
    = Some (Inr b, c\<lparr>lc_requests := lc_requests c + 1, lc_primary := w, lc_witnesses := [lc_primary c]\<rparr>)"
  using assms arrivals_single by (simp add: findNewPrimary_def removeWitnesses_def Let_def)

lemma lb_Verify_providers [simp]:
  "lb_Verify L (c\<lparr>lc_primary := p\<rparr>) = lb_Verify L c" "lb_Verify L (c\<lparr>lc_witnesses := ws\<rparr>) = lb_Verify L c"
  by (simp_all add: lb_Verify_def fun_eq_iff)

lemma skipping_missing:
  assumes "lb_Verify L c now trusted new = Some (Some (ErrNewValSetCantBeTrusted e))"
    and "w_ask W (lc_requests c) source (schedule (lb_Height trusted) (lb_Height new)) = Inl ErrLightBlockNotFound"
  shows "verifySkipping L W source now trusted new c = Some (Returns (Inl (ErrVerificationFailed (lb_Height trusted)
    (schedule (lb_Height trusted) (lb_Height new)) (FailProvider ErrLightBlockNotFound)), c\<lparr>lc_requests := lc_requests c + 1\<rparr>))"
  unfolding verifySkipping_def using assms
  by (subst loop_while.simps) (simp add: skip_step.simps getLightBlock_eq)

text \<open>The client holds two providers, as primary and as the only witness, and cannot trust the new block directly.\<close>

definition stuck :: "libs \<Rightarrow> nat set \<Rightarrow> int \<Rightarrow> light_block \<Rightarrow> light_block \<Rightarrow> light_block \<times> light_client \<Rightarrow> bool" where
  "stuck L ps now trusted new s \<longleftrightarrow> fst s = new \<and> lc_primary (snd s) \<in> ps \<and> (\<exists>w \<in> ps. lc_witnesses (snd s) = [w])
     \<and> (\<exists>e. lb_Verify L (snd s) now trusted new = Some (Some (ErrNewValSetCantBeTrusted e)))"

lemma stuck_step:
  assumes "stuck L ps now trusted new s" "\<forall>n. \<forall>q \<in> ps. w_ask W n q (lb_Height new) = Inr new"
    and "\<forall>n. \<forall>q \<in> ps. w_ask W n q (schedule (lb_Height trusted) (lb_Height new)) = Inl ErrLightBlockNotFound"
  shows "\<exists>s'. primary_step L W trusted now s = Some (Returns (Inr s')) \<and> stuck L ps now trusted new s'"
proof -
  obtain c w e where s: "s = (new, c)" "lc_primary c \<in> ps" "w \<in> ps" "lc_witnesses c = [w]"
      "lb_Verify L c now trusted new = Some (Some (ErrNewValSetCantBeTrusted e))"
    using assms(1) by (cases s) (auto simp: stuck_def)
  let ?c1 = "c\<lparr>lc_requests := lc_requests c + 1\<rparr>"
  have "lb_Header new \<noteq> None" using s(5) by (auto simp: lb_Verify_def light_Verify_def lb_Header_def split: bind_splits)
  then have same: "same_block L new new = Some True" by (auto simp: same_block_def)
  have skip: "verifySkipping L W (lc_primary c) now trusted new c = Some (Returns (Inl (ErrVerificationFailed (lb_Height trusted)
      (schedule (lb_Height trusted) (lb_Height new)) (FailProvider ErrLightBlockNotFound)), ?c1))"
    using skipping_missing s assms(3) by blast
  have "findNewPrimary W (lb_Height new) False ?c1
      = Some (Inr new, ?c1\<lparr>lc_requests := lc_requests ?c1 + 1, lc_primary := w, lc_witnesses := [lc_primary c]\<rparr>)"
    using swap_primary [of ?c1 w W "lb_Height new" new] s assms(2) by simp
  then have "primary_step L W trusted now s
      = Some (Returns (Inr (new, ?c1\<lparr>lc_requests := lc_requests ?c1 + 1, lc_primary := w, lc_witnesses := [lc_primary c]\<rparr>)))"
    using skip same by (simp add: s(1) after_failure_def providerShouldBeRemoved_def)
  then show ?thesis using s by (auto simp: stuck_def)
qed

section \<open>A witness that disagrees\<close>

lemma unverified_conflict:
  assumes "lc_witnesses c ! i = w" "i < length (lc_witnesses c)" "tr \<noteq> []" "lb_Header (hd tr) = Some th" "lb_Header b = Some bh"
    and "hd_Height th < hd_Height bh" "w_ask W (lc_requests c) w (hd_Height th) = Inl ErrNoResponse"
  shows "handleConflictingHeaders L W tr b i now c = Some (Returns ((None, []), c\<lparr>lc_requests := lc_requests c + 1\<rparr>))"
  using assms
  by (cases tr) (auto simp: handleConflictingHeaders_def examineConflictingHeaderAgainstTrace_def getLightBlock_eq)

section \<open>Samples\<close>

definition other_header :: "nat \<Rightarrow> header" where
  "other_header v = toy_header\<lparr>hd_Version := \<lparr>ver_Block = BlockProtocol, ver_App = v\<rparr>\<rparr>"

definition header_block :: "header \<Rightarrow> light_block" where
  "header_block h = \<lparr>lb_SignedHeader = Some \<lparr>sh_Header = Some h, sh_Commit = None\<rparr>, lb_ValidatorSet = None\<rparr>"

definition strangers :: validator_set where
  "strangers = toy_vals\<lparr>vs_Validators := map (\<lambda>v. v\<lparr>val_Address := replicate 20 9\<rparr>) (vs_Validators toy_vals)\<rparr>"

definition old_block :: light_block where
  "old_block = \<lparr>lb_SignedHeader = Some (trusted_toy 1), lb_ValidatorSet = Some strangers\<rparr>"

definition toy_client :: light_client where
  "toy_client = \<lparr>lc_chainID = [97], lc_trustingPeriod = 100, lc_verificationMode = Skipping, lc_trustLevel = DefaultTrustLevel,
     lc_maxClockDrift = 10, lc_primary = 0, lc_witnesses = [1], lc_trustedStore = \<lparr>ls_blocks = [], ls_size = 0\<rparr>,
     lc_latestTrustedBlock = None, lc_pruningSize = 1000, lc_requests = 0\<rparr>"

definition pruned_world :: world where
  "pruned_world = \<lparr>w_ask = (\<lambda>n q h. if h = 3 then Inr (toy_light toy_vals) else Inl ErrLightBlockNotFound), w_order = (\<lambda>_. [])\<rparr>"

definition split_world :: world where
  "split_world = \<lparr>w_ask = (\<lambda>n q h. if h = 3 then Inr (header_block (other_header (q + 1))) else Inl ErrNoResponse), w_order = (\<lambda>_. [0, 0])\<rparr>"

section \<open>Properties\<close>

text \<open>
  C22: skipping verification always ends, and what it accepts is a chain of verified steps. Against a provider that
  answers with blocks of the height that was asked for, even one that answers differently each time,
  \<open>verifySkipping\<close> returns for heights up to 2^59 and asks for at most one block for each height between the trusted and
  the new one. If it succeeds, the trace leads from the trusted block to the new one, and each block of it was
  accepted by \<open>Verify\<close> against the block before it.
\<close>

theorem skipping_ends_with_verified_trace:
  assumes "answers_height W source" "0 \<le> lb_Height trusted" "lb_Height new \<le> 2 ^ 59"
  shows "\<exists>out. verifySkipping L W source now trusted new c = Some out
    \<and> (\<forall>r c'. out = Returns (r, c') \<longrightarrow> lc_requests c' \<le> lc_requests c + nat (lb_Height new - lb_Height trusted - 1)
        \<and> (\<forall>tr. r = Inr tr \<longrightarrow> 2 \<le> length tr \<and> hd tr = trusted \<and> last tr = new
             \<and> (\<forall>i. Suc i < length tr \<longrightarrow> lb_Verify L c now (tr ! i) (tr ! Suc i) = Some None)))"
proof -
  obtain out where "verifySkipping L W source now trusted new c = Some out"
      "\<forall>r c'. out = Returns (r, c') \<longrightarrow> lc_requests c' \<le> lc_requests c + nat (lb_Height new - lb_Height trusted - 1)"
    using skipping_returns [OF assms] by blast
  then show ?thesis using skipping_sound [of L W source now trusted new c] by (auto simp: verified_chain_def)
qed

theorem skipping_ends_with_verified_trace_witness:
  "answers_height pruned_world 0 \<and> (\<exists>out. verifySkipping (sample_libs (\<lambda>_. None)) pruned_world 0 8 old_block (toy_light toy_vals) toy_client = Some out)"
proof -
  have h: "lb_Height (toy_light toy_vals) = 3" "lb_Height old_block = 1" by code_simp+
  then have "answers_height pruned_world 0" by (simp add: answers_height_def pruned_world_def)
  moreover from skipping_ends_with_verified_trace [OF this, of old_block "toy_light toy_vals" "sample_libs (\<lambda>_. None)" 8 toy_client]
  have "\<exists>out. verifySkipping (sample_libs (\<lambda>_. None)) pruned_world 0 8 old_block (toy_light toy_vals) toy_client = Some out"
    using h by auto
  ultimately show ?thesis by blast
qed

text \<open>
  C24: the client can retry forever. When the new block cannot be trusted directly, and its two providers both have the
  new block but no longer the block in between that is needed, the client swaps the primary and the witness and
  starts again, without end: \<open>verifySkippingAgainstPrimary\<close> does not return.
\<close>

theorem retry_never_ends:
  assumes "lc_witnesses c = [w]" "lb_Verify L c now trusted new = Some (Some (ErrNewValSetCantBeTrusted e))"
    and "\<forall>n. \<forall>q \<in> {lc_primary c, w}. w_ask W n q (lb_Height new) = Inr new"
    and "\<forall>n. \<forall>q \<in> {lc_primary c, w}. w_ask W n q (schedule (lb_Height trusted) (lb_Height new)) = Inl ErrLightBlockNotFound"
  shows "verifySkippingAgainstPrimary L W trusted new now c = None"
  unfolding verifySkippingAgainstPrimary_def
proof (rule loop_while_never [where P = "stuck L {lc_primary c, w} now trusted new"])
  show "stuck L {lc_primary c, w} now trusted new (new, c)" using assms(1,2) by (auto simp: stuck_def)
qed (rule stuck_step [OF _ assms(3,4)])

theorem retry_never_ends_witness:
  "verifySkippingAgainstPrimary (sample_libs (\<lambda>_. None)) pruned_world old_block (toy_light toy_vals) 8 toy_client = None"
proof -
  have "(case lb_Verify (sample_libs (\<lambda>_. None)) toy_client 8 old_block (toy_light toy_vals) of
      Some (Some (ErrNewValSetCantBeTrusted _)) \<Rightarrow> True | _ \<Rightarrow> False)" by code_simp
  then obtain e where "lb_Verify (sample_libs (\<lambda>_. None)) toy_client 8 old_block (toy_light toy_vals) = Some (Some (ErrNewValSetCantBeTrusted e))"
    by (auto split: option.splits light_verify_error.splits)
  moreover have "lb_Height (toy_light toy_vals) = 3" "lb_Height old_block = 1" "schedule 1 3 = 2" by code_simp+
  ultimately show ?thesis
    by (intro retry_never_ends [where w = 1]) (simp_all add: toy_client_def pruned_world_def)
qed

text \<open>
  C23: the detector accepts a header that no witness confirms. Both witnesses answer with a header of another hash.
  The first cannot support its header, so it is removed; but after reporting the conflict it also reports a match.
  When these two reports arrive first, the detector stops reading, counts a match and accepts the header of the
  primary: it never looks at the report of the second witness.
\<close>

theorem conflict_counts_as_match:
  assumes "2 \<le> length tr" "lb_Header (hd tr) = Some th" "lb_Header (last tr) = Some h" "hd_Height th < hd_Height h"
    and "lc_witnesses c = [w0, w1]" "w_order W (lc_requests c) = [0, 0]"
    and "w_ask W (lc_requests c) w0 (hd_Height h) = Inr b0" "lb_Header b0 = Some h0" "hd_Height h0 = hd_Height h"
    and "hd_Hash (lib_env L) (lib_wrappers L) h0 \<noteq> hd_Hash (lib_env L) (lib_wrappers L) h"
    and "w_ask W (lc_requests c + 1) w1 (hd_Height h) = Inr b1" "lb_Header b1 = Some h1"
    and "hd_Hash (lib_env L) (lib_wrappers L) h1 \<noteq> hd_Hash (lib_env L) (lib_wrappers L) h"
    and "w_ask W (lc_requests c + 2) w0 (hd_Height th) = Inl ErrNoResponse"
  shows "\<exists>c'. detectDivergence L W tr now c = Some (Returns ((None, []), c')) \<and> lc_witnesses c' = [w1]"
proof -
  let ?c = "c\<lparr>lc_requests := lc_requests c + 2\<rparr>"
  have cmp: "compare_all L W h (lc_witnesses c) 0 c = Some ([[ReportConflict b0 0, ReportMatch], [ReportConflict b1 1, ReportMatch]], ?c)"
    using assms(5,7,8,10,11,12,13) by (auto simp: compareNewHeaderWithWitness_def getLightBlock_eq compare_hashes_def)
  have hc: "handleConflictingHeaders L W tr b0 0 now ?c = Some (Returns ((None, []), ?c\<lparr>lc_requests := lc_requests ?c + 1\<rparr>))"
    using assms by (intro unverified_conflict [where w = w0 and th = th and bh = h0]) auto
  have ne: "\<not> length tr < 2" "lc_witnesses c \<noteq> []" using assms(1,5) by auto
  show ?thesis
    unfolding detectDivergence_def using ne assms(3,5,6) cmp hc
    by (simp add: removeWitnesses_def numeral_2_eq_2)
qed

theorem conflict_counts_as_match_witness:
  "\<exists>c'. detectDivergence (sample_libs (\<lambda>_. None)) split_world [old_block, toy_light toy_vals] 8 (toy_client\<lparr>lc_witnesses := [1, 2]\<rparr>)
    = Some (Returns ((None, []), c'))"
proof -
  let ?L = "sample_libs (\<lambda>_. None)" and ?c = "toy_client\<lparr>lc_witnesses := [1, 2]\<rparr>"
  have d: "hd_Hash (lib_env ?L) (lib_wrappers ?L) (other_header 2) \<noteq> hd_Hash (lib_env ?L) (lib_wrappers ?L) toy_header"
    "hd_Hash (lib_env ?L) (lib_wrappers ?L) (other_header 3) \<noteq> hd_Hash (lib_env ?L) (lib_wrappers ?L) toy_header" by code_simp+
  have "\<exists>c'. detectDivergence ?L split_world [old_block, toy_light toy_vals] 8 ?c = Some (Returns ((None, []), c')) \<and> lc_witnesses c' = [2]"
    by (rule conflict_counts_as_match [where h = toy_header and ?h0.0 = "other_header 2" and ?h1.0 = "other_header 3"
          and ?b0.0 = "header_block (other_header 2)" and ?b1.0 = "header_block (other_header 3)"
          and th = "toy_header\<lparr>hd_Height := 1, hd_Time := 5, hd_NextValidatorsHash := hd_ValidatorsHash toy_header\<rparr>"])
      (use d in \<open>simp_all add: old_block_def trusted_toy_def toy_light_def lb_Header_def toy_client_def split_world_def
        header_block_def other_header_def toy_header_def\<close>)
  then show ?thesis by blast
qed

end
