(* ===== verification/Spec2Isabelle.thy ===== *)
theory Spec2Isabelle
  imports BitArray HeightVoteSetInv PrivValSafety LightClient
begin

text \<open>
  This library verifies the deterministic core of a Tendermint node (the fork whose blocks are
  laid out in shares for data availability): the data that validators sign and exchange, the rules
  that decide when a block is committed, the state that follows from it, the signer that must not sign
  twice, and the light client that follows the chain from outside.

  \<^bold>\<open>The program and its model.\<close> A block is proposed by the validator that the election names,
  serialised, and sent in parts with Merkle proofs. Validators sign prevotes and precommits, which
  every node collects by round. A majority of precommits is a commit; the next block carries it, and it is
  what light clients and the verification of the chain check. Two conflicting votes of a validator become
  evidence, which a later block commits. The application may change the validators for the block
  after the next one. The theories follow this order. All files named below are under \<open>src/\<close>.

  \<^item> \<open>GoPrelude\<close>, \<open>TmMath\<close>: Go's integers, slices and panics, generic lemmas, and \<open>libs/math\<close>.
  \<^item> \<open>BitArray\<close>: \<open>libs/bits/bit_array.go\<close>. The record of the length and the words; the abstraction is the
    predicate on bit positions. The locale \<open>bit_set\<close> states what the clients (vote sets, part sets) use.
  \<^item> \<open>Merkle\<close>: \<open>crypto/merkle\<close> (\<open>hash.go\<close>, \<open>tree.go\<close>, \<open>proof.go\<close>). The proof nodes that the code links by
    pointers are a store of nodes.
  \<^item> \<open>Proto\<close>, \<open>ProtoDecode\<close>: the generated code for canonical messages,
    \<open>proto/tendermint/types/canonical.pb.go\<close>, both directions, and the framing of
    \<open>internal/libs/protoio\<close>.
  \<^item> \<open>BlockTypes\<close>, \<open>Proposal\<close>: block identifiers, votes, commits and proposals with their basic
    checks, sign bytes and protobuf forms (\<open>types/block.go\<close>, \<open>vote.go\<close>, \<open>canonical.go\<close>, \<open>proposal.go\<close>).
  \<^item> \<open>PartSet\<close>: \<open>types/part_set.go\<close>.
  \<^item> \<open>ValidatorSet\<close>, \<open>ProposerElection\<close>, \<open>ValidatorUpdates\<close>: \<open>types/validator.go\<close> and
    \<open>types/validator_set.go\<close>. The first has the definitions with all the 64-bit arithmetic; the second the
    election over unbounded integers that they implement; the third the update of a map from addresses to
    powers that \<open>updateWithChangeSet\<close> implements.
  \<^item> \<open>Quorum\<close>, \<open>CommitVerify\<close>, \<open>CommitSafety\<close>: \<open>types/validation.go\<close> with the batch verifiers. The locale
    \<open>weighted_quorum\<close> holds the counting arguments; it is interpreted on the powers of a validator list.
  \<^item> \<open>VoteSet\<close>, \<open>VoteSetInv\<close>, \<open>VoteSetRuns\<close>, \<open>VoteSetCommit\<close>: \<open>types/vote_set.go\<close>, its invariant, its
    histories as a step relation, and the conversion to commits and back.
  \<^item> \<open>HeightVoteSet\<close>, \<open>HeightVoteSetInv\<close>: \<open>internal/consensus/types/height_vote_set.go\<close>, likewise.
  \<^item> \<open>PrivVal\<close>, \<open>PrivValSafety\<close>: \<open>privval/file.go\<close>. The locale \<open>signer\<close> is the contract that \<open>SignVote\<close> and
    \<open>SignProposal\<close> share; it is interpreted on both. The step relation has crashes and restarts.
  \<^item> \<open>Header\<close>, \<open>Evidence\<close>, \<open>Shares\<close>, \<open>Block\<close>: headers, hashes, light blocks, evidence, the layout of the
    data in shares and whole blocks (\<open>types/block.go\<close>, \<open>light.go\<close>, \<open>evidence.go\<close>, \<open>shares.go\<close>,
    \<open>share_splitting.go\<close>, \<open>share_merging.go\<close>, \<open>tx.go\<close>, \<open>pkg/da\<close>).
  \<^item> \<open>ChainState\<close>: \<open>internal/state\<close> (\<open>state.go\<close>, \<open>validation.go\<close>, \<open>time.go\<close>, \<open>tx_filter.go\<close>, part of
    \<open>execution.go\<close>) with \<open>types/params.go\<close> and \<open>types/genesis.go\<close>.
  \<^item> \<open>EvidencePool\<close>: \<open>internal/evidence/pool.go\<close> and \<open>verify.go\<close>.
  \<^item> \<open>LightVerifier\<close>, \<open>Iterate\<close>, \<open>LightClient\<close>: \<open>light/verifier.go\<close>, loops that may run forever, and
    \<open>light/client.go\<close>, \<open>detector.go\<close> and \<open>store/db/db.go\<close>.

  \<^bold>\<open>How the code is rendered.\<close> A struct is a record, an error a value of a datatype, a panic \<open>None\<close>
  (in \<open>LightClient\<close>, where a loop may also not return, \<open>Panics\<close>; there \<open>None\<close> is a loop that does not end). A method
  that changes its receiver returns it. Signed integers are \<open>int\<close> with the wrap-around written at each
  operation that can leave the range, words are \<open>Word\<close> values. Times are nanoseconds. Mutexes are left out:
  the methods they protect are atomic, so a history is a sequence of calls.

  \<^bold>\<open>What is outside.\<close> Hashes, signatures and keys, the protobuf library's own types, the erasure code, the
  databases and the other ends of connections are parameters, grouped in the records \<open>env\<close>, \<open>batch_env\<close>,
  \<open>pv_env\<close>, \<open>wrappers\<close>, \<open>libs\<close>, \<open>stores\<close> and \<open>world\<close>. The laws used of them are premises of the
  theorems that need them: digests have 32 bytes, a signature that was made verifies, an encoded time is
  decoded again. Nothing is assumed of the hash function beyond its length: the theorems about Merkle
  roots, part sets and light blocks conclude that either the data agree or an explicit pair of inputs that were
  hashed collides.

  \<^bold>\<open>What is shown.\<close>
  \<^item> Agreement. \<open>VerifyCommit\<close> accepts exactly the commits with valid signatures of more than two thirds of
    the power, the light and trusting checks are sound, and two accepted commits
    for different blocks convict more than a third of the power. A vote set finds a majority exactly when there
    is one and never changes it; its commit verifies. The proof-of-lock round of a height never goes back.
  \<^item> Signing. The private validator releases one message for a height, round and step across crashes.
    Sign bytes determine the vote, and the readers decode what the writers wrote.
  \<^item> Validators. A change is accepted exactly when it is valid and gives exactly the new powers; the
    clipped arithmetic is the unbounded election within the stated bounds, and the election is proportional.
  \<^item> Data. Merkle proofs are complete and sound, the iterative tree is the recursive one, a
    complete part set is the block that was split, the square of shares reads back as the data.
  \<^item> Chain. States reached from genesis are well formed whatever the application answers, a proposal
    passes validation, the median time lies between honest times when fewer than half of the signed power is
    faulty.
  \<^item> Evidence and light client. Conflicting votes become evidence that verifies; accepted evidence is
    fresh; a header the light client accepts is vouched for by validators it already trusts; skipping
    verification ends and its trace consists of verified steps.

  \<^bold>\<open>Where the code falls short.\<close> Some theorems show behaviour that its comments do not promise:
  commits mixing key types are refused; the addresses in a commit are not
  checked and can make \<open>CommitToVoteSet\<close> panic; the messages of a block are lost
  on the wire; the median time can be chosen by one faulty validator of four; committed evidence can be committed again with another time; a witness that conflicts counts as one that agrees; the client swaps two lagging providers forever.

  \<^bold>\<open>Bounds and fuel.\<close> No definition takes fuel: the loops are structural, have a termination measure, or
  are partial functions in the option type (the proof nodes of \<open>Merkle\<close>, \<open>SetRound\<close> in \<open>HeightVoteSet\<close>,
  the loops of \<open>LightClient\<close>), and for
  these it is shown that they return, or that they do not. The bounds in premises are those the code keeps: the
  total voting power is at most \<open>MaxTotalVotingPower\<close>, an eighth of the int64 range, which is what makes
  \<open>3 * power\<close> and the scaled priorities fit; heights and rounds are below the greatest value of their
  width where the code adds one to them; a square has at most 16384 shares, on which the floating-point
  square roots of the code are exact.

  \<^bold>\<open>What is not modelled.\<close> The round-step handlers of \<open>internal/consensus/state.go\<close>; reactors, the
  peer-to-peer layer, block and state sync, RPC and indexers, which are goroutines around sockets and
  databases; the mempools; the remote signers; printing, JSON by reflection and configuration. Of
  \<open>internal/state/execution.go\<close> the calls to the application, the events and the pruning are left out.
\<close>

end
